(* ===== verification/Prelude.thy ===== *)
theory Prelude
  imports Main "HOL-Library.Sublist" "HOL-Library.Char_ord" "HOL-Library.List_Lexorder"
    "HOL-Library.Product_Lexorder" "HOL-Library.Multiset" "HOL-Library.AList"
begin

text \<open>
  Shared vocabulary of the development: the collections of simplification rules the component
  theories fill, Rust's fixed-width arithmetic written out on \<open>nat\<close>, and generic lemmas on
  lists, stable sorting and folds that several components use.
\<close>

section \<open>Collections\<close>

named_theorems rust_arith
named_theorems rust_str
named_theorems component_defs

section \<open>Fixed-width unsigned arithmetic\<close>

text \<open>
  Values of \<open>u64\<close>, \<open>usize\<close> (64 bit) and \<open>u32\<close> are natural numbers below the bound of the
  type. Where the source saturates, wraps or truncates, the model says so with these functions;
  Rust's \<open>saturating_sub\<close> is subtraction on \<open>nat\<close>.
\<close>

definition u64_max :: nat where
  "u64_max = 18446744073709551615"

definition u32_max :: nat where
  "u32_max = 4294967295"

definition u64_sat_add :: "nat \<Rightarrow> nat \<Rightarrow> nat" where
  "u64_sat_add a b = min (a + b) u64_max"

definition u64_sat_mul :: "nat \<Rightarrow> nat \<Rightarrow> nat" where
  "u64_sat_mul a b = min (a * b) u64_max"

definition u32_sat_add :: "nat \<Rightarrow> nat \<Rightarrow> nat" where
  "u32_sat_add a b = min (a + b) u32_max"

definition u64_wrap_add :: "nat \<Rightarrow> nat \<Rightarrow> nat" where
  "u64_wrap_add a b = (a + b) mod (u64_max + 1)"

definition u32_wrap_add :: "nat \<Rightarrow> nat \<Rightarrow> nat" where
  "u32_wrap_add a b = (a + b) mod (u32_max + 1)"

text \<open>The cast \<open>as u32\<close> of a wider unsigned value keeps the low 32 bits.\<close>

definition as_u32 :: "nat \<Rightarrow> nat" where
  "as_u32 n = n mod (u32_max + 1)"

definition div_ceil :: "nat \<Rightarrow> nat \<Rightarrow> nat" where
  "div_ceil a b = (if a mod b = 0 then a div b else a div b + 1)"

lemma as_u32_small [rust_arith]: "n \<le> u32_max \<Longrightarrow> as_u32 n = n"
  by (simp add: as_u32_def u32_max_def)

lemma as_u32_bound [rust_arith]: "as_u32 n \<le> u32_max"
  by (simp add: as_u32_def less_Suc_eq_le[symmetric])

lemma u64_sat_add_bounds: "u64_sat_add a b \<le> u64_max" "u64_sat_add a b \<le> a + b"
  by (simp_all add: u64_sat_add_def)

lemma u64_sat_add_mono: "a \<le> u64_max \<Longrightarrow> a \<le> u64_sat_add a b"
  by (simp add: u64_sat_add_def)

lemma u32_sat_add_bound [rust_arith]: "u32_sat_add a b \<le> u32_max"
  by (simp add: u32_sat_add_def)

lemma u64_wrap_add_small [rust_arith]: "a + b \<le> u64_max \<Longrightarrow> u64_wrap_add a b = a + b"
  by (simp add: u64_wrap_add_def)

lemma u32_wrap_add_small [rust_arith]: "a + b \<le> u32_max \<Longrightarrow> u32_wrap_add a b = a + b"
  by (simp add: u32_wrap_add_def)

lemma div_ceil_covers: "0 < b \<Longrightarrow> a \<le> div_ceil a b * b"
proof (cases "a mod b = 0")
  case True
  then show ?thesis by (simp add: div_ceil_def) (metis dvd_div_mult_self mod_0_imp_dvd order_refl)
next
  case False
  assume "0 < b"
  then have "a mod b \<le> b" by (simp add: less_imp_le)
  then have "a \<le> a div b * b + b"
    by (metis add_left_mono div_mult_mod_eq)
  with False show ?thesis by (simp add: div_ceil_def)
qed

lemma div_ceil_least: "0 < b \<Longrightarrow> a \<le> k * b \<Longrightarrow> div_ceil a b \<le> k"
proof -
  assume b: "0 < b" and le: "a \<le> k * b"
  have dk: "a div b \<le> k" using div_le_mono[OF le, of b] b by simp
  show ?thesis
  proof (cases "a mod b = 0")
    case True
    then show ?thesis using dk by (simp add: div_ceil_def)
  next
    case False
    have "a div b \<noteq> k"
    proof
      assume "a div b = k"
      moreover have "a = a div b * b + a mod b" by simp
      ultimately have "a = k * b + a mod b" by simp
      with le False show False by simp
    qed
    with dk False show ?thesis by (simp add: div_ceil_def)
  qed
qed

lemma div_ceil_0 [simp]: "div_ceil 0 b = 0"
  by (simp add: div_ceil_def)

section \<open>Lists\<close>

lemma find_Some_split:
  "find P xs = Some x \<Longrightarrow> \<exists>ys zs. xs = ys @ x # zs \<and> P x \<and> (\<forall>y \<in> set ys. \<not> P y)"
proof (induction xs)
  case Nil
  then show ?case by simp
next
  case (Cons a xs)
  show ?case
  proof (cases "P a")
    case True
    with Cons.prems have "a = x" by simp
    with True show ?thesis by (intro exI[of _ "[]"] exI[of _ xs]) auto
  next
    case False
    with Cons obtain ys zs where "xs = ys @ x # zs" "P x" "\<forall>y \<in> set ys. \<not> P y"
      by auto
    with False show ?thesis by (intro exI[of _ "a # ys"] exI[of _ zs]) auto
  qed
qed

lemma find_set: "find P xs = Some x \<Longrightarrow> x \<in> set xs \<and> P x"
  by (auto simp: find_Some_iff)

lemma find_append: "find P (xs @ ys) = (case find P xs of Some x \<Rightarrow> Some x | None \<Rightarrow> find P ys)"
  by (induction xs) auto

lemma distinct_map_filter: "distinct (map f xs) \<Longrightarrow> distinct (map f (filter P xs))"
  by (induction xs) auto

section \<open>Stable sorting\<close>

text \<open>
  \<open>sort_key\<close> is stable, as Rust's \<open>sort_by\<close> is. Two lists that agree on each key's sublist
  sort to the same list; this is what makes an incrementally kept sorted list equal to one
  rebuilt from scratch.
\<close>

lemma sort_key_canonical:
  assumes m: "mset xs = mset ys"
    and k: "\<And>k. filter (\<lambda>x. f x = k) xs = filter (\<lambda>x. f x = k) ys"
  shows "sort_key f xs = sort_key f ys"
proof (rule properties_for_sort_key)
  show "mset (sort_key f ys) = mset xs" using m by simp
  show "\<And>k. k \<in> set (sort_key f ys) \<Longrightarrow>
      filter (\<lambda>x. f k = f x) (sort_key f ys) = filter (\<lambda>x. f k = f x) xs"
  proof -
    fix k
    have sym: "(\<lambda>x. f k = f x) = (\<lambda>x. f x = f k)" by auto
    show "filter (\<lambda>x. f k = f x) (sort_key f ys) = filter (\<lambda>x. f k = f x) xs"
      unfolding sym using k[of "f k"] by (simp add: sort_key_stable)
  qed
  show "sorted (map f (sort_key f ys))" by simp
qed

lemma mset_filter_parts:
  assumes "\<And>k. filter (\<lambda>x. f x = k) xs = filter (\<lambda>x. f x = k) ys"
  shows "mset xs = mset ys"
proof (rule multiset_eqI)
  fix a
  have "count (mset xs) a = count (mset (filter (\<lambda>x. f x = f a) xs)) a" by simp
  also have "\<dots> = count (mset (filter (\<lambda>x. f x = f a) ys)) a" by (simp only: assms)
  also have "\<dots> = count (mset ys) a" by simp
  finally show "count (mset xs) a = count (mset ys) a" .
qed

lemma sort_key_by_parts:
  assumes "\<And>k. filter (\<lambda>x. f x = k) xs = filter (\<lambda>x. f x = k) ys"
  shows "sort_key f xs = sort_key f ys"
  by (rule sort_key_canonical[OF mset_filter_parts[OF assms] assms])

lemma filter_sort_key_sub: "filter P (sort_key f xs) = sort_key f (filter P xs)"
  by (rule filter_sort)

lemma find_sort_key_first:
  assumes "find P (sort_key f xs) = Some x"
  shows "x \<in> set xs \<and> P x \<and> (\<forall>y \<in> set xs. P y \<longrightarrow> f x \<le> f y)"
proof -
  from assms obtain ys zs where split: "sort_key f xs = ys @ x # zs"
    and px: "P x" and pre: "\<forall>y \<in> set ys. \<not> P y"
    using find_Some_split[of P] by blast
  have srt: "sorted (map f (sort_key f xs))" by simp
  have "set (sort_key f xs) = set xs" by simp
  with split have set: "set xs = set ys \<union> insert x (set zs)" by auto
  have "\<forall>z \<in> set zs. f x \<le> f z" using srt split by (simp add: sorted_append)
  with pre px set show ?thesis by auto
qed

lemma find_sort_key_None: "find P (sort_key f xs) = None \<longleftrightarrow> (\<forall>x \<in> set xs. \<not> P x)"
  by (auto simp: find_None_iff)

section \<open>Results\<close>

text \<open>
  \<open>Result<T, E>\<close> is the sum \<open>'e + 'a\<close>, \<open>Inl\<close> the error. \<open>and_then\<close> is the \<open>?\<close> operator on a
  value, \<open>for_each\<close> a loop whose body may return early with an error, \<open>collect\<close> a fallible
  iterator collected into a \<open>Vec\<close>.
\<close>

definition and_then :: "'e + 'a \<Rightarrow> ('a \<Rightarrow> 'e + 'b) \<Rightarrow> 'e + 'b" where
  "and_then r k = (case r of Inl e \<Rightarrow> Inl e | Inr a \<Rightarrow> k a)"

definition map_err :: "('e \<Rightarrow> 'f) \<Rightarrow> 'e + 'a \<Rightarrow> 'f + 'a" where
  "map_err f r = (case r of Inl e \<Rightarrow> Inl (f e) | Inr a \<Rightarrow> Inr a)"

definition ok_or :: "'e \<Rightarrow> 'a option \<Rightarrow> 'e + 'a" where
  "ok_or e x = (case x of None \<Rightarrow> Inl e | Some a \<Rightarrow> Inr a)"

definition fail_if :: "bool \<Rightarrow> 'e \<Rightarrow> 'e + unit" where
  "fail_if c e = (if c then Inl e else Inr ())"

fun for_each :: "('a \<Rightarrow> 'e + unit) \<Rightarrow> 'a list \<Rightarrow> 'e + unit" where
  "for_each f [] = Inr ()"
| "for_each f (x # xs) = and_then (f x) (\<lambda>_. for_each f xs)"

fun collect :: "('a \<Rightarrow> 'e + 'b) \<Rightarrow> 'a list \<Rightarrow> 'e + 'b list" where
  "collect f [] = Inr []"
| "collect f (x # xs) = and_then (f x) (\<lambda>y. and_then (collect f xs) (\<lambda>ys. Inr (y # ys)))"

lemma and_then_simps [simp]: "and_then (Inl e) k = Inl e" "and_then (Inr a) k = k a"
  by (simp_all add: and_then_def)

lemma map_err_simps [simp]: "map_err f (Inl e) = Inl (f e)" "map_err f (Inr a) = Inr a"
  by (simp_all add: map_err_def)

lemma and_then_Inr_iff [simp]: "and_then r k = Inr b \<longleftrightarrow> (\<exists>a. r = Inr a \<and> k a = Inr b)"
  by (cases r) auto

lemma map_err_Inr_iff [simp]: "map_err f r = Inr a \<longleftrightarrow> r = Inr a"
  by (cases r) auto

lemma ok_or_Inr_iff [simp]: "ok_or e x = Inr a \<longleftrightarrow> x = Some a"
  by (cases x) (auto simp: ok_or_def)

lemma fail_if_Inr_iff [simp]: "fail_if c e = Inr u \<longleftrightarrow> \<not> c"
  by (simp add: fail_if_def)

lemma for_each_Inr_iff [simp]: "for_each f xs = Inr u \<longleftrightarrow> (\<forall>x \<in> set xs. f x = Inr ())"
  by (induction xs) auto

lemma for_each_Inl:
  "for_each f xs = Inl e \<Longrightarrow>
     \<exists>ys x zs. xs = ys @ x # zs \<and> f x = Inl e \<and> (\<forall>y \<in> set ys. f y = Inr ())"
proof (induction xs)
  case Nil
  then show ?case by simp
next
  case (Cons a xs)
  show ?case
  proof (cases "f a")
    case (Inl e')
    with Cons.prems show ?thesis by (intro exI[of _ "[]"] exI[of _ a] exI[of _ xs]) auto
  next
    case (Inr u)
    with Cons obtain ys x zs where "xs = ys @ x # zs" "f x = Inl e" "\<forall>y \<in> set ys. f y = Inr ()"
      by auto
    with Inr show ?thesis by (intro exI[of _ "a # ys"] exI[of _ x] exI[of _ zs]) auto
  qed
qed

lemma collect_Inr_iff: "collect f xs = Inr ys \<longleftrightarrow> list_all2 (\<lambda>x y. f x = Inr y) xs ys"
  by (induction xs arbitrary: ys) (auto simp: list_all2_Cons1)

section \<open>Positions\<close>

fun position :: "('a \<Rightarrow> bool) \<Rightarrow> 'a list \<Rightarrow> nat option" where
  "position P [] = None"
| "position P (x # xs) = (if P x then Some 0 else map_option Suc (position P xs))"

lemma position_Some:
  "position P xs = Some i \<Longrightarrow> i < length xs \<and> P (xs ! i) \<and> (\<forall>j < i. \<not> P (xs ! j))"
proof (induction xs arbitrary: i)
  case Nil
  then show ?case by simp
next
  case (Cons x xs)
  then show ?case by (auto split: if_splits simp: less_Suc_eq_0_disj)
qed

lemma position_None: "position P xs = None \<longleftrightarrow> (\<forall>x \<in> set xs. \<not> P x)"
  by (induction xs) auto

section \<open>Ordered maps\<close>

text \<open>A \<open>BTreeMap\<close> is the list of its entries, sorted by key, each key once.\<close>

fun btree_insert :: "'k::linorder \<Rightarrow> 'v \<Rightarrow> ('k \<times> 'v) list \<Rightarrow> ('k \<times> 'v) list" where
  "btree_insert k v [] = [(k, v)]"
| "btree_insert k v ((k', v') # m) =
     (if k < k' then (k, v) # (k', v') # m
      else if k = k' then (k, v) # m
      else (k', v') # btree_insert k v m)"

definition btree_extend :: "('k::linorder \<times> 'v) list \<Rightarrow> ('k \<times> 'v) list \<Rightarrow> ('k \<times> 'v) list" where
  "btree_extend m kvs = fold (\<lambda>(k, v). btree_insert k v) kvs m"

definition btree_ok :: "('k::linorder \<times> 'v) list \<Rightarrow> bool" where
  "btree_ok m \<longleftrightarrow> sorted_wrt (<) (map fst m)"

lemma keys_btree_insert [simp]: "fst ` set (btree_insert k v m) = insert k (fst ` set m)"
  by (induction k v m rule: btree_insert.induct) auto

lemma btree_ok_insert [simp]: "btree_ok m \<Longrightarrow> btree_ok (btree_insert k v m)"
proof (induction k v m rule: btree_insert.induct)
  case (2 k v k' v' m)
  then show ?case
    using keys_btree_insert[of k v m] by (fastforce simp: btree_ok_def)
qed (simp add: btree_ok_def)

lemma map_of_btree_insert [simp]: "btree_ok m \<Longrightarrow> map_of (btree_insert k v m) = (map_of m)(k \<mapsto> v)"
proof (induction k v m rule: btree_insert.induct)
  case (2 k v k' v' m)
  then have "btree_ok m" by (simp add: btree_ok_def)
  with 2 show ?case by (auto simp: fun_eq_iff)
qed simp

lemma btree_ok_Nil [simp]: "btree_ok []"
  by (simp add: btree_ok_def)

lemma btree_ok_extend [simp]: "btree_ok m \<Longrightarrow> btree_ok (btree_extend m kvs)"
  unfolding btree_extend_def by (induction kvs arbitrary: m) auto

lemma btree_extend_Nil [simp]: "btree_extend m [] = m"
  by (simp add: btree_extend_def)

lemma btree_extend_Cons [simp]:
  "btree_extend m ((k, v) # kvs) = btree_extend (btree_insert k v m) kvs"
  by (simp add: btree_extend_def)

lemma map_of_btree_extend:
  "btree_ok m \<Longrightarrow> map_of (btree_extend m kvs) = map_of m ++ map_of (rev kvs)"
proof (induction kvs arbitrary: m)
  case (Cons kv kvs)
  obtain k v where kv: "kv = (k, v)" by force
  from Cons have "map_of (btree_extend m (kv # kvs)) = (map_of m)(k \<mapsto> v) ++ map_of (rev kvs)"
    by (simp add: kv fun_upd_def)
  also have "\<dots> = map_of m ++ map_of (rev (kv # kvs))"
    by (auto simp: kv fun_eq_iff map_add_def map_of_append split: option.splits)
  finally show ?case .
qed simp

lemma btree_ok_distinct: "btree_ok m \<Longrightarrow> distinct (map fst m)"
  unfolding btree_ok_def using strict_sorted_iff by blast

lemma btree_filter [simp]: "btree_ok m \<Longrightarrow> btree_ok (filter P m)"
  unfolding btree_ok_def by (metis sorted_wrt_filter sorted_wrt_map)

lemma btree_insert_set: "set (btree_insert k v m) \<subseteq> insert (k, v) (set m)"
  by (induction k v m rule: btree_insert.induct) auto

section \<open>Least elements\<close>

text \<open>\<open>Iterator::min_by_key\<close>: the first of the least elements.\<close>

fun min_by_key :: "('a \<Rightarrow> nat) \<Rightarrow> 'a list \<Rightarrow> 'a option" where
  "min_by_key f [] = None"
| "min_by_key f (x # xs) =
     (case min_by_key f xs of
        None \<Rightarrow> Some x
      | Some y \<Rightarrow> if f y < f x then Some y else Some x)"

text \<open>\<open>Iterator::max_by_key\<close>: the last of the greatest elements.\<close>

fun max_by_key :: "('a \<Rightarrow> nat) \<Rightarrow> 'a list \<Rightarrow> 'a option" where
  "max_by_key f [] = None"
| "max_by_key f (x # xs) =
     (case max_by_key f xs of
        None \<Rightarrow> Some x
      | Some y \<Rightarrow> if f y < f x then Some x else Some y)"

lemma min_by_key_None [simp]: "min_by_key f xs = None \<longleftrightarrow> xs = []"
  by (cases xs) (auto split: option.splits)

lemma min_by_key_Some:
  "min_by_key f xs = Some x \<Longrightarrow> x \<in> set xs \<and> (\<forall>y \<in> set xs. f x \<le> f y)"
proof (induction xs arbitrary: x)
  case (Cons a xs)
  then show ?case
    by (cases "min_by_key f xs") (force split: if_splits)+
qed simp

section \<open>A hash map as an association list\<close>

text \<open>\<open>HashMap::insert\<close> and \<open>HashMap::remove\<close>, chosen by an optional value.\<close>

definition put :: "'k \<Rightarrow> 'v option \<Rightarrow> ('k \<times> 'v) list \<Rightarrow> ('k \<times> 'v) list" where
  "put k v m = (case v of Some x \<Rightarrow> AList.update k x m | None \<Rightarrow> AList.delete k m)"

lemma map_of_put [simp]: "map_of (put k v m) = (map_of m)(k := v)"
  by (cases v) (auto simp: put_def update_conv' delete_conv')

lemma distinct_put [intro, simp]: "distinct (map fst m) \<Longrightarrow> distinct (map fst (put k v m))"
  by (cases v) (auto simp: put_def distinct_update distinct_delete)

lemma set_put:
  "distinct (map fst m) \<Longrightarrow>
     set (put k v m) = {p \<in> set m. fst p \<noteq> k} \<union> (case v of None \<Rightarrow> {} | Some x \<Rightarrow> {(k, x)})"
proof -
  assume d: "distinct (map fst m)"
  have "p \<in> set (put k v m) \<longleftrightarrow> ((map_of m)(k := v)) (fst p) = Some (snd p)" for p
    using map_of_eq_Some_iff[OF distinct_put[OF d], of k v "fst p" "snd p"] by simp
  moreover have "p \<in> set m \<longleftrightarrow> map_of m (fst p) = Some (snd p)" for p
    using map_of_eq_Some_iff[OF d, of "fst p" "snd p"] by simp
  ultimately show ?thesis by (cases v) (auto split: if_splits)
qed

lemma put_fresh: "k \<notin> fst ` set m \<Longrightarrow> put k (Some v) m = m @ [(k, v)]"
  by (induction m) (auto simp: put_def)

lemma map_put: "map (\<lambda>(i, x). (i, f x)) (put k v m) = put k (map_option f v) (map (\<lambda>(i, x). (i, f x)) m)"
proof (cases v)
  case None
  then show ?thesis by (simp add: put_def AList.delete_eq filter_map comp_def case_prod_unfold)
next
  case (Some x)
  have "map (\<lambda>(i, x). (i, f x)) (AList.update k x m) = AList.update k (f x) (map (\<lambda>(i, x). (i, f x)) m)"
    by (induction m) auto
  with Some show ?thesis by (simp add: put_def)
qed

end
