(* ===== verification/Rust_Str.thy ===== *)
theory Rust_Str
  imports Prelude
begin

text \<open>
  The string operations of Rust's standard library that the modelled code calls. A \<open>str\<close> is its
  UTF-8 bytes, so \<open>string\<close> (a list of 8-bit characters) holds it exactly and \<open>length\<close> is
  \<open>str::len\<close>. Operations that work on Unicode scalar values go through \<open>chars\<close>, which
  groups every leading byte with its continuation bytes.
\<close>

section \<open>Bytes\<close>

definition byte :: "char \<Rightarrow> nat" where
  "byte c = of_char c"

definition is_ascii_digit :: "char \<Rightarrow> bool" where
  "is_ascii_digit c \<longleftrightarrow> 48 \<le> byte c \<and> byte c \<le> 57"

definition is_ascii_upper :: "char \<Rightarrow> bool" where
  "is_ascii_upper c \<longleftrightarrow> 65 \<le> byte c \<and> byte c \<le> 90"

definition is_ascii_lower :: "char \<Rightarrow> bool" where
  "is_ascii_lower c \<longleftrightarrow> 97 \<le> byte c \<and> byte c \<le> 122"

definition is_ascii_alphanumeric :: "char \<Rightarrow> bool" where
  "is_ascii_alphanumeric c \<longleftrightarrow> is_ascii_digit c \<or> is_ascii_upper c \<or> is_ascii_lower c"

text \<open>\<open>u8::is_ascii_whitespace\<close>: space, tab, line feed, form feed, carriage return.\<close>

definition is_ascii_whitespace :: "char \<Rightarrow> bool" where
  "is_ascii_whitespace c \<longleftrightarrow> byte c = 32 \<or> byte c = 9 \<or> byte c = 10 \<or> byte c = 12 \<or> byte c = 13"

definition ascii_lower :: "char \<Rightarrow> char" where
  "ascii_lower c = (if is_ascii_upper c then char_of (byte c + 32) else c)"

definition ascii_upper :: "char \<Rightarrow> char" where
  "ascii_upper c = (if is_ascii_lower c then char_of (byte c - 32) else c)"

definition to_ascii_lowercase :: "string \<Rightarrow> string" where
  "to_ascii_lowercase = map ascii_lower"

definition to_ascii_uppercase :: "string \<Rightarrow> string" where
  "to_ascii_uppercase = map ascii_upper"

definition eq_ignore_ascii_case :: "string \<Rightarrow> string \<Rightarrow> bool" where
  "eq_ignore_ascii_case a b \<longleftrightarrow> to_ascii_lowercase a = to_ascii_lowercase b"

lemmas ascii_defs = byte_def is_ascii_digit_def is_ascii_upper_def is_ascii_lower_def
  is_ascii_alphanumeric_def is_ascii_whitespace_def ascii_lower_def ascii_upper_def

lemma byte_less: "byte c < 256"
  by (simp add: byte_def)

lemma byte_eq_iff [simp]: "byte a = byte b \<longleftrightarrow> a = b"
  by (simp add: byte_def)

lemma byte_char_of [simp]: "n < 256 \<Longrightarrow> byte (char_of n) = n"
  by (simp add: byte_def)

lemma byte_ascii_lower: "byte (ascii_lower c) = (if is_ascii_upper c then byte c + 32 else byte c)"
  by (auto simp: ascii_lower_def is_ascii_upper_def)

lemma byte_ascii_upper: "byte (ascii_upper c) = (if is_ascii_lower c then byte c - 32 else byte c)"
  by (auto simp: ascii_upper_def is_ascii_lower_def)

lemma ascii_lower_idem [simp]: "ascii_lower (ascii_lower c) = ascii_lower c"
proof -
  have "\<not> is_ascii_upper (ascii_lower c)"
    by (auto simp: is_ascii_upper_def byte_ascii_lower)
  then show ?thesis by (simp add: ascii_lower_def[of "ascii_lower c"])
qed

lemma ascii_upper_idem [simp]: "ascii_upper (ascii_upper c) = ascii_upper c"
proof -
  have "\<not> is_ascii_lower (ascii_upper c)"
    by (auto simp: is_ascii_lower_def byte_ascii_upper)
  then show ?thesis by (simp add: ascii_upper_def[of "ascii_upper c"])
qed

lemma to_ascii_lowercase_idem [simp]:
  "to_ascii_lowercase (to_ascii_lowercase s) = to_ascii_lowercase s"
  by (simp add: to_ascii_lowercase_def)

lemma to_ascii_uppercase_idem [simp]:
  "to_ascii_uppercase (to_ascii_uppercase s) = to_ascii_uppercase s"
  by (simp add: to_ascii_uppercase_def)

lemma length_to_ascii_lowercase [simp]: "length (to_ascii_lowercase s) = length s"
  by (simp add: to_ascii_lowercase_def)

lemma length_to_ascii_uppercase [simp]: "length (to_ascii_uppercase s) = length s"
  by (simp add: to_ascii_uppercase_def)

lemma to_ascii_lowercase_Nil [simp]: "to_ascii_lowercase s = [] \<longleftrightarrow> s = []"
  by (simp add: to_ascii_lowercase_def)

lemma to_ascii_uppercase_Nil [simp]: "to_ascii_uppercase s = [] \<longleftrightarrow> s = []"
  by (simp add: to_ascii_uppercase_def)

lemma to_ascii_lowercase_append:
  "to_ascii_lowercase (a @ b) = to_ascii_lowercase a @ to_ascii_lowercase b"
  by (simp add: to_ascii_lowercase_def)

lemma eq_ignore_ascii_case_refl [simp]: "eq_ignore_ascii_case s s"
  by (simp add: eq_ignore_ascii_case_def)

lemma eq_ignore_ascii_case_lower_left [simp]:
  "eq_ignore_ascii_case (to_ascii_lowercase a) b = eq_ignore_ascii_case a b"
  by (simp add: eq_ignore_ascii_case_def)

section \<open>Scalar values and whitespace\<close>

definition is_continuation :: "char \<Rightarrow> bool" where
  "is_continuation c \<longleftrightarrow> 128 \<le> byte c \<and> byte c < 192"

function chars :: "string \<Rightarrow> string list" where
  "chars [] = []"
| "chars (c # cs) = (c # takeWhile is_continuation cs) # chars (dropWhile is_continuation cs)"
  by pat_completeness auto
termination
  by (relation "measure length") (auto simp: length_dropWhile_le less_Suc_eq_le)

lemma concat_chars [simp]: "concat (chars s) = s"
  by (induction s rule: chars.induct) auto

text \<open>
  \<open>char::is_whitespace\<close> is the Unicode property White\_Space, here by the UTF-8 encodings of
  its 25 members.
\<close>

definition unicode_whitespace :: "nat list list" where
  "unicode_whitespace =
     [[9], [10], [11], [12], [13], [32], [194, 133], [194, 160], [225, 154, 128],
      [226, 128, 128], [226, 128, 129], [226, 128, 130], [226, 128, 131], [226, 128, 132],
      [226, 128, 133], [226, 128, 134], [226, 128, 135], [226, 128, 136], [226, 128, 137],
      [226, 128, 138], [226, 128, 168], [226, 128, 169], [226, 128, 175], [226, 129, 159],
      [227, 128, 128]]"

definition is_whitespace :: "string \<Rightarrow> bool" where
  "is_whitespace g \<longleftrightarrow> map byte g \<in> set unicode_whitespace"

definition trim_start :: "string \<Rightarrow> string" where
  "trim_start s = concat (dropWhile is_whitespace (chars s))"

definition trim :: "string \<Rightarrow> string" where
  "trim s = concat (rev (dropWhile is_whitespace (rev (dropWhile is_whitespace (chars s)))))"

text \<open>
  A run of scalar values as \<open>chars\<close> yields them: every group is one byte and its continuation
  bytes, and no group but the first begins with one. Such a run is what \<open>chars\<close> gives back for
  its concatenation, so trimming is idempotent and composes.
\<close>

definition scalar_group :: "string \<Rightarrow> bool" where
  "scalar_group g \<longleftrightarrow> g \<noteq> [] \<and> list_all is_continuation (tl g)"

definition scalar_run :: "string list \<Rightarrow> bool" where
  "scalar_run gs \<longleftrightarrow> list_all scalar_group gs \<and> list_all (\<lambda>g. \<not> is_continuation (hd g)) (tl gs)"

lemma scalar_run_chars: "scalar_run (chars s)"
proof (induction s rule: chars.induct)
  case 1
  then show ?case by (simp add: scalar_run_def)
next
  case (2 c cs)
  have hd: "list_all (\<lambda>g. \<not> is_continuation (hd g)) (chars (dropWhile is_continuation cs))"
  proof (cases "dropWhile is_continuation cs")
    case Nil
    then show ?thesis unfolding Nil by simp
  next
    case (Cons d ds)
    then have "\<not> is_continuation d" by (metis hd_dropWhile list.distinct(1) list.sel(1))
    with 2 Cons show ?thesis by (simp add: scalar_run_def)
  qed
  have "list_all is_continuation (takeWhile is_continuation cs)"
    unfolding list_all_iff by (rule ballI) (drule set_takeWhileD, simp)
  with 2 hd show ?case by (simp add: scalar_run_def scalar_group_def)
qed

lemma stops: "xs = [] \<or> \<not> P (hd xs) \<Longrightarrow> takeWhile P xs = [] \<and> dropWhile P xs = xs"
  by (cases xs) auto

lemma chars_concat: "scalar_run gs \<Longrightarrow> chars (concat gs) = gs"
proof (induction gs)
  case Nil
  then show ?case by simp
next
  case (Cons g gs)
  obtain c t where g: "g = c # t" "list_all is_continuation t"
    using Cons.prems by (cases g) (auto simp: scalar_run_def scalar_group_def)
  have run: "scalar_run gs"
    using Cons.prems by (cases gs) (auto simp: scalar_run_def)
  have rest: "concat gs = [] \<or> \<not> is_continuation (hd (concat gs))"
    using Cons.prems by (cases gs) (auto simp: scalar_run_def scalar_group_def)
  have stop: "takeWhile is_continuation (concat gs) = []" "dropWhile is_continuation (concat gs) = concat gs"
    using rest stops[of "concat gs"] by blast+
  have "takeWhile is_continuation (t @ concat gs) = t"
    using g(2) stop by (simp add: list_all_iff takeWhile_append)
  moreover have "dropWhile is_continuation (t @ concat gs) = concat gs"
    using g(2) stop by (simp add: list_all_iff dropWhile_append)
  ultimately show ?case using Cons.IH[OF run] g by simp
qed

lemma scalar_run_sublist: "scalar_run (as @ bs @ cs) \<Longrightarrow> scalar_run bs"
  by (cases bs; cases as) (auto simp: scalar_run_def)

definition trim_groups :: "string list \<Rightarrow> string list" where
  "trim_groups gs = rev (dropWhile is_whitespace (rev (dropWhile is_whitespace gs)))"

lemma trim_groups_part: "\<exists>as cs. gs = as @ trim_groups gs @ cs"
proof -
  let ?d = "dropWhile is_whitespace gs"
  have "gs = takeWhile is_whitespace gs @ ?d" by simp
  moreover have "?d = trim_groups gs @ rev (takeWhile is_whitespace (rev ?d))"
    unfolding trim_groups_def
    by (metis rev_append rev_rev_ident takeWhile_dropWhile_id)
  ultimately show ?thesis by metis
qed

lemma trim_alt: "trim s = concat (trim_groups (chars s))"
  by (simp add: trim_def trim_groups_def)

lemma chars_trim: "chars (trim s) = trim_groups (chars s)"
  using trim_groups_part[of "chars s"] scalar_run_chars[of s] scalar_run_sublist chars_concat
  by (metis trim_alt)

definition trimmed :: "string list \<Rightarrow> bool" where
  "trimmed gs \<longleftrightarrow> gs = [] \<or> \<not> is_whitespace (hd gs) \<and> \<not> is_whitespace (last gs)"

lemma trim_groups_trimmed: "trimmed (trim_groups gs)"
proof -
  let ?d = "dropWhile is_whitespace gs"
  let ?e = "dropWhile is_whitespace (rev ?d)"
  have t: "trim_groups gs = rev ?e" by (simp add: trim_groups_def)
  show ?thesis
  proof (cases "?e = []")
    case True
    then show ?thesis by (simp add: t trimmed_def)
  next
    case False
    then have "\<not> is_whitespace (hd ?e)" by (rule hd_dropWhile)
    moreover have "hd (rev ?e) = hd ?d"
      using False by (metis hd_append2 rev_append rev_is_Nil_conv rev_rev_ident takeWhile_dropWhile_id)
    moreover from False have "?d \<noteq> []" by (metis dropWhile.simps(1) rev.simps(1))
    then have "\<not> is_whitespace (hd ?d)" by (rule hd_dropWhile)
    ultimately show ?thesis using False by (simp add: t trimmed_def last_rev)
  qed
qed

lemma trim_groups_id: "trimmed gs \<Longrightarrow> trim_groups gs = gs"
proof -
  assume t: "trimmed gs"
  have d: "gs = [] \<or> \<not> P (hd gs) \<Longrightarrow> dropWhile P gs = gs" for P and gs :: "string list"
    by (cases gs) auto
  from t have "dropWhile is_whitespace gs = gs" "dropWhile is_whitespace (rev gs) = rev gs"
    by (intro d; auto simp: trimmed_def hd_rev)+
  then show ?thesis by (simp add: trim_groups_def)
qed

lemma trim_id: "trimmed (chars s) \<Longrightarrow> trim s = s"
  by (simp add: trim_alt trim_groups_id)

lemma trim_idem [simp]: "trim (trim s) = trim s"
  by (rule trim_id) (simp add: chars_trim trim_groups_trimmed)

lemma trim_Nil [simp]: "trim [] = []"
  by (simp add: trim_def)

lemma set_trim: "set (trim s) \<subseteq> set s"
proof -
  obtain as cs where "chars s = as @ trim_groups (chars s) @ cs" using trim_groups_part by blast
  then have "s = concat as @ concat (trim_groups (chars s)) @ concat cs"
    by (metis concat_append concat_chars)
  then show ?thesis unfolding trim_alt by (metis Un_iff set_append subsetI)
qed

lemma chars_append_ascii: "\<not> is_continuation d \<Longrightarrow> chars (s @ d # t) = chars s @ chars (d # t)"
proof (induction s rule: chars.induct)
  case 1
  then show ?case by simp
next
  case (2 c cs)
  show ?case
  proof (cases "dropWhile is_continuation cs")
    case Nil
    then have "\<forall>x \<in> set cs. is_continuation x" by (simp add: dropWhile_eq_Nil_conv)
    then have tw: "takeWhile is_continuation (cs @ d # t) = cs"
      "dropWhile is_continuation (cs @ d # t) = d # t" "takeWhile is_continuation cs = cs"
      using 2(2) by (auto simp: takeWhile_append dropWhile_append)
    show ?thesis by (simp only: append_Cons chars.simps(2) tw Nil) simp
  next
    case (Cons x xs)
    then have "\<exists>y \<in> set cs. \<not> is_continuation y"
      by (metis dropWhile_eq_Nil_conv list.distinct(1))
    then have "takeWhile is_continuation (cs @ d # t) = takeWhile is_continuation cs"
      "dropWhile is_continuation (cs @ d # t) = dropWhile is_continuation cs @ d # t"
      by (auto simp: takeWhile_append1 dropWhile_append1)
    with 2(1)[OF 2(2)] show ?thesis by simp
  qed
qed

section \<open>Searching, splitting, joining\<close>

fun str_contains :: "string \<Rightarrow> string \<Rightarrow> bool" where
  "str_contains [] n = (n = [])"
| "str_contains (c # cs) n = (prefix n (c # cs) \<or> str_contains cs n)"

lemma str_contains_iff: "str_contains s n \<longleftrightarrow> (\<exists>a b. s = a @ n @ b)"
proof (induction s)
  case Nil
  then show ?case by auto
next
  case (Cons c cs)
  show ?case
  proof
    assume "str_contains (c # cs) n"
    then consider "prefix n (c # cs)" | "str_contains cs n" by auto
    then show "\<exists>a b. c # cs = a @ n @ b"
    proof cases
      case 1
      then show ?thesis by (metis append_Nil prefixE)
    next
      case 2
      with Cons obtain a b where "cs = a @ n @ b" by auto
      then show ?thesis by (intro exI[of _ "c # a"] exI[of _ b]) auto
    qed
  next
    assume "\<exists>a b. c # cs = a @ n @ b"
    then obtain a b where e: "c # cs = a @ n @ b" by blast
    show "str_contains (c # cs) n"
    proof (cases a)
      case Nil
      with e have "prefix n (c # cs)" by (metis append_Nil prefixI)
      then show ?thesis by simp
    next
      case (Cons x xs)
      with e have "cs = xs @ n @ b" by simp
      with Cons.IH show ?thesis by (metis str_contains.simps(2))
    qed
  qed
qed

text \<open>\<open>str::find\<close> of a string pattern: the index of its first occurrence.\<close>

fun str_find :: "string \<Rightarrow> string \<Rightarrow> nat option" where
  "str_find n [] = (if n = [] then Some 0 else None)"
| "str_find n (c # cs) =
     (if prefix n (c # cs) then Some 0 else map_option Suc (str_find n cs))"

lemma str_find_Some:
  "str_find n s = Some i \<Longrightarrow> i + length n \<le> length s \<and> prefix n (drop i s)"
proof (induction s arbitrary: i)
  case Nil
  then show ?case by (auto split: if_splits)
next
  case (Cons c cs)
  then show ?case by (auto split: if_splits dest: prefix_length_le)
qed

lemma str_find_first: "str_find n s = Some i \<Longrightarrow> j < i \<Longrightarrow> \<not> prefix n (drop j s)"
proof (induction s arbitrary: i j)
  case Nil
  then show ?case by (auto split: if_splits)
next
  case (Cons c cs)
  then show ?case by (cases j) (auto split: if_splits)
qed

lemma str_find_None: "str_find n s = None \<longleftrightarrow> \<not> str_contains s n"
  by (induction s) auto

text \<open>\<open>str::split\<close> on an ASCII byte.\<close>

fun split_on :: "char \<Rightarrow> string \<Rightarrow> string list" where
  "split_on d [] = [[]]"
| "split_on d (c # cs) =
     (if c = d then [] # split_on d cs
      else (case split_on d cs of [] \<Rightarrow> [[c]] | w # ws \<Rightarrow> (c # w) # ws))"

lemma split_on_nonempty [simp]: "split_on d s \<noteq> []"
  by (induction s) (auto split: list.splits)

lemma split_on_no_delim: "d \<notin> set s \<Longrightarrow> split_on d s = [s]"
  by (induction s) auto

lemma split_on_append: "d \<notin> set s \<Longrightarrow> split_on d (s @ d # t) = s # split_on d t"
  by (induction s) auto

lemma split_on_parts: "w \<in> set (split_on d s) \<Longrightarrow> d \<notin> set w"
  by (induction s arbitrary: w) (auto split: list.splits if_splits)

text \<open>\<open>str::lines\<close>: split at line feeds, a carriage return before one and a final empty piece dropped.\<close>

definition strip_cr :: "string \<Rightarrow> string" where
  "strip_cr l = (if l \<noteq> [] \<and> byte (last l) = 13 then butlast l else l)"

definition lines :: "string \<Rightarrow> string list" where
  "lines s =
     (let ps = split_on (CHR 0x0A) s
      in map strip_cr (butlast ps) @ (if last ps = [] then [] else [last ps]))"

fun join :: "string \<Rightarrow> string list \<Rightarrow> string" where
  "join sep [] = []"
| "join sep [w] = w"
| "join sep (w # ws) = w @ sep @ join sep ws"

definition strip_prefix :: "string \<Rightarrow> string \<Rightarrow> string option" where
  "strip_prefix p s = (if prefix p s then Some (drop (length p) s) else None)"

definition strip_suffix :: "string \<Rightarrow> string \<Rightarrow> string option" where
  "strip_suffix p s = (if suffix p s then Some (take (length s - length p) s) else None)"

text \<open>\<open>trim_start_matches\<close> of a string and of a single character.\<close>

function trim_start_matches :: "string \<Rightarrow> string \<Rightarrow> string" where
  "trim_start_matches p s =
     (if p \<noteq> [] \<and> prefix p s then trim_start_matches p (drop (length p) s) else s)"
  by pat_completeness auto
termination
  by (relation "measure (\<lambda>(p, s). length s)") (auto simp: prefix_def)

declare trim_start_matches.simps [simp del]

text \<open>
  \<open>str::replace\<close> for a non-empty pattern: left to right, non-overlapping.
\<close>

function str_replace :: "string \<Rightarrow> string \<Rightarrow> string \<Rightarrow> string" where
  "str_replace p r [] = []"
| "str_replace p r (c # cs) =
     (if p \<noteq> [] \<and> prefix p (c # cs) then r @ str_replace p r (drop (length p) (c # cs))
      else c # str_replace p r cs)"
  by pat_completeness auto
termination
  by (relation "measure (\<lambda>(p, r, s). length s)") (auto simp: prefix_def)

section \<open>Numbers as text\<close>

definition digit_char :: "nat \<Rightarrow> char" where
  "digit_char d = char_of (48 + d)"

fun nat_str :: "nat \<Rightarrow> string" where
  "nat_str n = (if n < 10 then [digit_char n] else nat_str (n div 10) @ [digit_char (n mod 10)])"

declare nat_str.simps [simp del]

definition int_str :: "int \<Rightarrow> string" where
  "int_str i = (if i < 0 then ''-'' @ nat_str (nat (- i)) else nat_str (nat i))"

fun digits_val :: "nat \<Rightarrow> string \<Rightarrow> nat" where
  "digits_val acc [] = acc"
| "digits_val acc (c # cs) = digits_val (acc * 10 + (byte c - 48)) cs"

text \<open>\<open>str::parse\<close> for an unsigned type with the given maximum: an optional \<open>+\<close>, then digits.\<close>

definition parse_unsigned :: "nat \<Rightarrow> string \<Rightarrow> nat option" where
  "parse_unsigned mx s =
     (let ds = (case s of [] \<Rightarrow> [] | c # cs \<Rightarrow> if c = CHR ''+'' then cs else s) in
      if ds = [] \<or> \<not> list_all is_ascii_digit ds then None
      else if digits_val 0 ds > mx then None else Some (digits_val 0 ds))"

text \<open>\<open>str::parse::<i64>\<close>: an optional sign, then digits, in range.\<close>

definition parse_i64 :: "string \<Rightarrow> int option" where
  "parse_i64 s =
     (let (neg, ds) = (case s of [] \<Rightarrow> (False, []) | c # cs \<Rightarrow>
            if c = CHR ''-'' then (True, cs) else if c = CHR ''+'' then (False, cs) else (False, s));
          v = int (digits_val 0 ds)
      in if ds = [] \<or> \<not> list_all is_ascii_digit ds then None
         else if neg then (if v \<le> 2 ^ 63 then Some (- v) else None)
         else if v < 2 ^ 63 then Some v else None)"

lemma byte_digit_char [simp]: "d < 10 \<Longrightarrow> byte (digit_char d) = 48 + d"
  by (simp add: digit_char_def)

lemma digit_char_inj: "a < 10 \<Longrightarrow> b < 10 \<Longrightarrow> digit_char a = digit_char b \<longleftrightarrow> a = b"
  by (metis add_left_cancel byte_digit_char)

lemma digits_val_append: "digits_val a (s @ [c]) = digits_val a s * 10 + (byte c - 48)"
  by (induction s arbitrary: a) auto

lemma digits_val_nat_str [simp]: "digits_val 0 (nat_str n) = n"
proof (induction n rule: nat_str.induct)
  case (1 n)
  show ?case
  proof (cases "n < 10")
    case True
    then show ?thesis by (subst nat_str.simps) simp
  next
    case False
    with 1 have "digits_val 0 (nat_str (n div 10)) = n div 10" by simp
    with False show ?thesis by (subst nat_str.simps) (simp add: digits_val_append)
  qed
qed

lemma nat_str_inj [simp]: "nat_str a = nat_str b \<longleftrightarrow> a = b"
  by (metis digits_val_nat_str)

lemma nat_str_digits: "list_all is_ascii_digit (nat_str n)"
proof (induction n rule: nat_str.induct)
  case (1 n)
  show ?case
  proof (cases "n < 10")
    case True
    then show ?thesis by (subst nat_str.simps) (simp add: is_ascii_digit_def)
  next
    case False
    have "is_ascii_digit (digit_char (n mod 10))"
      using mod_less_divisor[of 10 n] by (simp add: is_ascii_digit_def)
    with False 1 show ?thesis by (subst nat_str.simps) simp
  qed
qed

lemma nat_str_nonempty [simp]: "nat_str n \<noteq> []"
  by (subst nat_str.simps) simp

lemma parse_unsigned_nat_str: "n \<le> mx \<Longrightarrow> parse_unsigned mx (nat_str n) = Some n"
proof -
  assume n: "n \<le> mx"
  have d: "list_all is_ascii_digit (nat_str n)" by (rule nat_str_digits)
  obtain c cs where s: "nat_str n = c # cs" using nat_str_nonempty list.exhaust by blast
  have "c \<noteq> CHR ''+''" using d s by (auto simp: is_ascii_digit_def byte_def)
  with s have "(case nat_str n of [] \<Rightarrow> [] | c # cs \<Rightarrow> if c = CHR ''+'' then cs else nat_str n) = nat_str n"
    by simp
  with d n show ?thesis by (simp add: parse_unsigned_def)
qed

lemma parse_i64_int_str:
  assumes "- (2 ^ 63) \<le> i" "i < 2 ^ 63"
  shows "parse_i64 (int_str i) = Some i"
proof (cases "i < 0")
  case True
  then show ?thesis using assms by (simp add: parse_i64_def int_str_def nat_str_digits)
next
  case False
  obtain c cs where c: "nat_str (nat i) = c # cs" using nat_str_nonempty list.exhaust by blast
  have "is_ascii_digit c" using nat_str_digits[of "nat i"] c by simp
  then have "c \<noteq> CHR ''-''" "c \<noteq> CHR ''+''" by (auto simp: is_ascii_digit_def byte_def)
  then show ?thesis
    using assms False nat_str_digits[of "nat i"] digits_val_nat_str[of "nat i"] c by (simp add: parse_i64_def int_str_def)
qed

end
