(* ===== verification/Paths.thy ===== *)
theory Paths
  imports Rust_Str
begin

text \<open>
  The path globs and change sets of the CI orchestrator (\<open>src/ci/src/paths.rs\<close>). The iterative
  matcher of one segment is modelled with the source's indices and its one-deep backtracking
  state; it is proved equal to a recursive reference of the documented dialect, and the whole
  matcher is characterised by an inductive relation between pattern and path segments.
\<close>

section \<open>Change sets\<close>

definition MAX_CHANGED_PATHS :: nat where
  "MAX_CHANGED_PATHS = 5000"

datatype changes = Known "string list" | Unknown string

definition changes_default :: changes where
  "changes_default = Unknown ''this run predates change detection''"

definition changes_known :: "string list \<Rightarrow> changes" where
  "changes_known paths =
     (if length paths > MAX_CHANGED_PATHS then
        Unknown (''the diff touches '' @ nat_str (length paths) @ '' paths, over the '' @
          nat_str MAX_CHANGED_PATHS @
          '' this records; treating every path filter as matched'')
      else Known paths)"

fun changes_paths :: "changes \<Rightarrow> string list" where
  "changes_paths (Known paths) = paths"
| "changes_paths (Unknown _) = []"

fun is_known :: "changes \<Rightarrow> bool" where
  "is_known (Known _) = True"
| "is_known (Unknown _) = False"

fun changes_reason :: "changes \<Rightarrow> string option" where
  "changes_reason (Known _) = None"
| "changes_reason (Unknown r) = Some r"

section \<open>One segment\<close>

text \<open>
  The loop of \<open>match_segment\<close>: \<open>pi\<close> and \<open>ti\<close> index the pattern and the text, \<open>star\<close> is where
  to resume when the current \<open>*\<close> took too little. The result is \<open>pi\<close> when the text is used up
  and \<open>None\<close> where the source returns false.
\<close>

definition stars_from :: "string list \<Rightarrow> nat \<Rightarrow> nat" where
  "stars_from p k = length (filter (\<lambda>c. c = ''*'') (drop k p))"

definition star_low :: "nat \<Rightarrow> (nat \<times> nat) option \<Rightarrow> nat" where
  "star_low pi star = (case star of None \<Rightarrow> pi | Some (sp, _) \<Rightarrow> min pi (sp + 1))"

definition star_room :: "string list \<Rightarrow> (nat \<times> nat) option \<Rightarrow> nat" where
  "star_room t star = (case star of None \<Rightarrow> length t | Some (_, st) \<Rightarrow> length t - st)"

lemma stars_from_mono: "a \<le> b \<Longrightarrow> stars_from p b \<le> stars_from p a"
proof -
  assume "a \<le> b"
  then have "drop b p = drop (b - a) (drop a p)" by simp
  then have "filter (\<lambda>c. c = ''*'') (drop a p) =
      filter (\<lambda>c. c = ''*'') (take (b - a) (drop a p)) @ filter (\<lambda>c. c = ''*'') (drop b p)"
    by (metis append_take_drop_id filter_append)
  then show ?thesis by (simp add: stars_from_def)
qed

lemma stars_from_less:
  "a \<le> b \<Longrightarrow> b < length p \<Longrightarrow> p ! b = ''*'' \<Longrightarrow> stars_from p (b + 1) < stars_from p a"
proof -
  assume a: "a \<le> b" and b: "b < length p" "p ! b = ''*''"
  have "stars_from p b = Suc (stars_from p (b + 1))"
    using b(2) by (simp add: stars_from_def Cons_nth_drop_Suc[OF b(1), symmetric])
  with stars_from_mono[OF a, of p] show ?thesis by simp
qed

function match_segment_loop ::
    "string list \<Rightarrow> string list \<Rightarrow> nat \<Rightarrow> nat \<Rightarrow> (nat \<times> nat) option \<Rightarrow> nat option" where
  "match_segment_loop p t pi ti star =
     (if ti < length t then
        (if pi < length p \<and> p ! pi = ''*'' then
           match_segment_loop p t (pi + 1) ti (Some (pi, ti))
         else if pi < length p \<and> p ! pi = ''?'' then
           match_segment_loop p t (pi + 1) (ti + 1) star
         else if pi < length p \<and> p ! pi = t ! ti then
           match_segment_loop p t (pi + 1) (ti + 1) star
         else (case star of
                 Some (sp, st) \<Rightarrow> match_segment_loop p t (sp + 1) (st + 1) (Some (sp, st + 1))
               | None \<Rightarrow> None))
      else Some pi)"
  by pat_completeness auto
termination
proof (relation "measures [\<lambda>(p, t, pi, ti, star). stars_from p (star_low pi star),
                           \<lambda>(p, t, pi, ti, star). star_room t star,
                           \<lambda>(p, t, pi, ti, star). length t - ti]", goal_cases)
  case 1
  then show ?case by simp
next
  case (2 p t pi ti star)
  have "stars_from p (star_low (pi + 1) (Some (pi, ti))) < stars_from p (star_low pi star)"
    using 2 stars_from_less[of "star_low pi star" pi p]
    by (auto simp: star_low_def split: option.splits)
  then show ?case by simp
next
  case (3 p t pi ti star)
  have "stars_from p (star_low (pi + 1) star) \<le> stars_from p (star_low pi star)"
    by (rule stars_from_mono) (auto simp: star_low_def split: option.splits)
  then show ?case using 3 by auto
next
  case (4 p t pi ti star)
  have "stars_from p (star_low (pi + 1) star) \<le> stars_from p (star_low pi star)"
    by (rule stars_from_mono) (auto simp: star_low_def split: option.splits)
  then show ?case using 4 by auto
next
  case (5 p t pi ti star x sp st)
  have "stars_from p (star_low (sp + 1) (Some (sp, st + 1))) \<le> stars_from p (star_low pi star)"
    by (rule stars_from_mono) (use 5 in \<open>auto simp: star_low_def\<close>)
  then show ?case using 5 by (auto simp: star_room_def)
qed

declare match_segment_loop.simps [simp del]

fun skip_stars :: "string list \<Rightarrow> string list" where
  "skip_stars [] = []"
| "skip_stars (c # cs) = (if c = ''*'' then skip_stars cs else c # cs)"

text \<open>The source's trailing loop advances \<open>pi\<close> over \<open>*\<close>s and then asks whether it is at the end.\<close>

definition match_segment :: "string \<Rightarrow> string \<Rightarrow> bool" where
  "match_segment pat s =
     (let p = chars pat; t = chars s in
      case match_segment_loop p t 0 0 None of
        None \<Rightarrow> False
      | Some pi \<Rightarrow> skip_stars (drop pi p) = [])"

section \<open>Whole paths\<close>

fun match_segments :: "string list \<Rightarrow> string list \<Rightarrow> bool" where
  "match_segments [] path = (path = [])"
| "match_segments (first # rest) path =
     (if first = ''**'' then
        (if rest = [] then True
         else list_ex (\<lambda>i. match_segments rest (drop i path)) [0..<length path + 1])
      else (case path of
              [] \<Rightarrow> False
            | head # tail \<Rightarrow> match_segment first head \<and> match_segments rest tail))"

definition path_matches :: "string \<Rightarrow> string \<Rightarrow> bool" where
  "path_matches pattern path =
     match_segments (split_on CHR ''/'' (trim_start_matches ''./'' (trim pattern)))
       (split_on CHR ''/'' (trim_start_matches ''./'' path))"

fun matches_any :: "changes \<Rightarrow> string list \<Rightarrow> bool" where
  "matches_any (Unknown _) patterns = True"
| "matches_any (Known paths) patterns =
     list_ex (\<lambda>pat. list_ex (\<lambda>p. path_matches pat p) paths) patterns"

fun all_match :: "changes \<Rightarrow> string list \<Rightarrow> bool" where
  "all_match (Unknown _) patterns = False"
| "all_match (Known paths) patterns =
     (if paths = [] \<or> patterns = [] then False
      else list_all (\<lambda>p. list_ex (\<lambda>pat. path_matches pat p) patterns) paths)"

datatype pattern_error = PatternEmpty | PatternNegated string | PatternAbsolute string

definition validate_pattern :: "string \<Rightarrow> pattern_error + unit" where
  "validate_pattern pattern =
     (let p = trim pattern in
      if p = [] then Inl PatternEmpty
      else if prefix ''!'' p then Inl (PatternNegated p)
      else if prefix ''/'' p then Inl (PatternAbsolute p)
      else Inr ())"

section \<open>The reference dialect\<close>

text \<open>
  The documented meaning of one segment: \<open>*\<close> is any run of characters, \<open>?\<close> one character, the
  rest literal. And of whole paths: \<open>**\<close> is any number of segments, including none.
\<close>

fun glob :: "string list \<Rightarrow> string list \<Rightarrow> bool" where
  "glob [] t = (t = [])"
| "glob (c # ps) t =
     (if c = ''*'' then (\<exists>k \<le> length t. glob ps (drop k t))
      else (case t of [] \<Rightarrow> False | x # xs \<Rightarrow> (c = ''?'' \<or> c = x) \<and> glob ps xs))"

inductive covers :: "string list \<Rightarrow> string list \<Rightarrow> bool" where
  covers_end: "covers [] []"
| covers_any: "covers ps path \<Longrightarrow> covers (''**'' # ps) (skipped @ path)"
| covers_seg: "seg \<noteq> ''**'' \<Longrightarrow> glob (chars seg) (chars name) \<Longrightarrow> covers ps path \<Longrightarrow>
    covers (seg # ps) (name # path)"

inductive_simps covers_Nil: "covers [] path"

inductive_cases covers_ConsE: "covers (seg # ps) path"

section \<open>The segment matcher is the reference\<close>

lemma skip_stars_glob: "skip_stars ps = [] \<longleftrightarrow> glob ps []"
  by (induction ps) auto

lemma glob_star_drop: "glob (''*'' # ps) (drop m t) \<Longrightarrow> n \<le> m \<Longrightarrow> m \<le> length t \<Longrightarrow> glob (''*'' # ps) (drop n t)"
proof -
  assume g: "glob (''*'' # ps) (drop m t)" and n: "n \<le> m" "m \<le> length t"
  then obtain k where "k \<le> length t - m" "glob ps (drop (k + m) t)" by auto
  with n have "k + (m - n) \<le> length (drop n t)" "glob ps (drop (k + (m - n)) (drop n t))"
    by auto
  then show ?thesis by auto
qed

lemma glob_literal_prefix:
  "\<forall>c \<in> set ps. c \<noteq> ''*'' \<Longrightarrow> glob (ps @ qs) t \<Longrightarrow>
     length ps \<le> length t \<and> glob qs (drop (length ps) t)"
proof (induction ps arbitrary: t)
  case Nil
  then show ?case by simp
next
  case (Cons c ps)
  then show ?case by (cases t) auto
qed

definition star_alt :: "string list \<Rightarrow> string list \<Rightarrow> (nat \<times> nat) option \<Rightarrow> bool" where
  "star_alt p t star = (case star of None \<Rightarrow> False
     | Some (sp, st) \<Rightarrow> \<exists>k. st < k \<and> k \<le> length t \<and> glob (drop (Suc sp) p) (drop k t))"

definition star_inv :: "string list \<Rightarrow> string list \<Rightarrow> nat \<Rightarrow> nat \<Rightarrow> (nat \<times> nat) option \<Rightarrow> bool" where
  "star_inv p t pi ti star \<longleftrightarrow> pi \<le> length p \<and> ti \<le> length t \<and>
     (case star of None \<Rightarrow> True
      | Some (sp, st) \<Rightarrow> Suc sp \<le> pi \<and> ti = st + (pi - Suc sp) \<and>
          (\<forall>c \<in> set (take (pi - Suc sp) (drop (Suc sp) p)). c \<noteq> ''*''))"

lemma star_alt_at:
  assumes inv: "star_inv p t pi ti star" and alt: "star_alt p t star"
  shows "\<exists>m. ti < m \<and> m \<le> length t \<and> glob (drop pi p) (drop m t)"
proof -
  from alt obtain sp st k where star: "star = Some (sp, st)" and k: "st < k" "k \<le> length t"
    and g: "glob (drop (Suc sp) p) (drop k t)"
    by (auto simp: star_alt_def split: option.splits)
  let ?ps = "take (pi - Suc sp) (drop (Suc sp) p)"
  from inv star have le: "Suc sp \<le> pi" "pi \<le> length p" and ti: "ti = st + (pi - Suc sp)"
    and ns: "\<forall>c \<in> set ?ps. c \<noteq> ''*''"
    by (auto simp: star_inv_def)
  have len: "length ?ps = pi - Suc sp" using le by simp
  have "drop (Suc sp) p = ?ps @ drop pi p"
    using le append_take_drop_id[of "pi - Suc sp" "drop (Suc sp) p"] by simp
  with g have "glob (?ps @ drop pi p) (drop k t)" by simp
  from glob_literal_prefix[OF ns this] len
  have "pi - Suc sp \<le> length t - k" "glob (drop pi p) (drop (pi - Suc sp + k) t)"
    by auto
  with ti k show ?thesis by (intro exI[of _ "pi - Suc sp + k"]) auto
qed

lemma star_inv_step:
  assumes "star_inv p t pi ti star" "pi < length p" "ti < length t" "p ! pi \<noteq> ''*''"
  shows "star_inv p t (pi + 1) (ti + 1) star"
proof (cases star)
  case None
  with assms show ?thesis by (simp add: star_inv_def)
next
  case (Some ss)
  obtain sp st where ss: "ss = (sp, st)" by force
  from assms Some ss have le: "Suc sp \<le> pi" by (simp add: star_inv_def)
  have "take (Suc pi - Suc sp) (drop (Suc sp) p) = take (pi - Suc sp) (drop (Suc sp) p) @ [p ! pi]"
  proof -
    have "Suc pi - Suc sp = Suc (pi - Suc sp)" using le by simp
    moreover have "pi - Suc sp < length (drop (Suc sp) p)" using le assms(2) by simp
    ultimately show ?thesis
      using take_Suc_conv_app_nth[of "pi - Suc sp" "drop (Suc sp) p"] le assms(2) by simp
  qed
  with assms Some ss le show ?thesis by (auto simp: star_inv_def)
qed

lemma star_alt_back:
  "st < length t \<Longrightarrow>
     (glob (drop (sp + 1) p) (drop (st + 1) t) \<or> star_alt p t (Some (sp, st + 1)))
     = star_alt p t (Some (sp, st))"
proof -
  assume st: "st < length t"
  have "st < k \<longleftrightarrow> k = Suc st \<or> Suc st < k" for k by auto
  with Suc_leI[OF st] show ?thesis
    unfolding star_alt_def by (simp add: conj_disj_distribR ex_disj_distrib)
qed

definition loop_accepts :: "string list \<Rightarrow> nat option \<Rightarrow> bool" where
  "loop_accepts p r = (case r of None \<Rightarrow> False | Some k \<Rightarrow> skip_stars (drop k p) = [])"

lemma match_segment_loop_correct:
  "star_inv p t pi ti star \<Longrightarrow>
     loop_accepts p (match_segment_loop p t pi ti star)
     = (glob (drop pi p) (drop ti t) \<or> star_alt p t star)"
proof (induction p t pi ti star rule: match_segment_loop.induct)
  case (1 p t pi ti star)
  note inv = "1.prems"
  note unf = match_segment_loop.simps[of p t pi ti star]
  consider (finished) "\<not> ti < length t"
    | (at_star) "ti < length t" "pi < length p" "p ! pi = ''*''"
    | (one) "ti < length t" "pi < length p" "p ! pi = ''?''"
    | (same) "ti < length t" "pi < length p" "p ! pi \<noteq> ''*''" "p ! pi \<noteq> ''?''" "p ! pi = t ! ti"
    | (retry) "ti < length t" "\<not> (pi < length p \<and> p ! pi = ''*'')"
        "\<not> (pi < length p \<and> p ! pi = ''?'')" "\<not> (pi < length p \<and> p ! pi = t ! ti)"
    by blast
  then show ?case
  proof cases
    case finished
    with inv have "ti = length t" by (simp add: star_inv_def)
    with star_alt_at[OF inv] have "\<not> star_alt p t star" by auto
    with finished show ?thesis by (subst unf) (simp add: loop_accepts_def skip_stars_glob)
  next
    case at_star
    have inv': "star_inv p t (pi + 1) ti (Some (pi, ti))"
      using at_star by (simp add: star_inv_def)
    have dp: "drop pi p = ''*'' # drop (Suc pi) p"
      using at_star by (metis Cons_nth_drop_Suc)
    have "loop_accepts p (match_segment_loop p t pi ti star)
        = (glob (drop (pi + 1) p) (drop ti t) \<or> star_alt p t (Some (pi, ti)))"
      using "1.IH"(1)[OF at_star(1) _ inv'] at_star by (subst unf) simp
    also have "\<dots> = glob (drop pi p) (drop ti t)"
    proof
      assume "glob (drop (pi + 1) p) (drop ti t) \<or> star_alt p t (Some (pi, ti))"
      then obtain m where "ti \<le> m" "m \<le> length t" "glob (drop (Suc pi) p) (drop m t)"
        using at_star(1) by (auto simp: star_alt_def intro: less_imp_le)
      then show "glob (drop pi p) (drop ti t)"
        unfolding dp by (auto intro!: exI[of _ "m - ti"])
    next
      assume "glob (drop pi p) (drop ti t)"
      then obtain k where "k \<le> length t - ti" "glob (drop (Suc pi) p) (drop (k + ti) t)"
        unfolding dp by auto
      then show "glob (drop (pi + 1) p) (drop ti t) \<or> star_alt p t (Some (pi, ti))"
        using at_star(1) by (cases k) (auto simp: star_alt_def intro!: exI[of _ "k + ti"])
    qed
    also have "\<dots> = (glob (drop pi p) (drop ti t) \<or> star_alt p t star)"
      using star_alt_at[OF inv] glob_star_drop[of "drop (Suc pi) p" _ t ti] unfolding dp
      by (metis less_imp_le)
    finally show ?thesis .
  next
    case one
    have inv': "star_inv p t (pi + 1) (ti + 1) star"
      by (rule star_inv_step[OF inv]) (use one in auto)
    have "glob (drop pi p) (drop ti t) = glob (drop (pi + 1) p) (drop (ti + 1) t)"
      using one by (simp add: Cons_nth_drop_Suc[symmetric])
    with "1.IH"(2)[OF one(1) _ _ inv'] one show ?thesis by (subst unf) simp
  next
    case same
    have inv': "star_inv p t (pi + 1) (ti + 1) star"
      by (rule star_inv_step[OF inv]) (use same in auto)
    have "glob (drop pi p) (drop ti t) = glob (drop (pi + 1) p) (drop (ti + 1) t)"
      using same by (simp add: Cons_nth_drop_Suc[symmetric])
    with "1.IH"(3)[OF same(1) _ _ _ inv'] same show ?thesis by (subst unf) simp
  next
    case retry
    have miss: "\<not> glob (drop pi p) (drop ti t)"
      using retry by (cases "pi < length p") (auto simp: Cons_nth_drop_Suc[symmetric])
    show ?thesis
    proof (cases star)
      case None
      then have "match_segment_loop p t pi ti star = None"
        by (subst unf) (use retry in auto)
      with miss None show ?thesis by (simp add: loop_accepts_def star_alt_def)
    next
      case (Some ss)
      obtain sp st where ss: "ss = (sp, st)" by force
      have st: "st < length t" "star_inv p t (sp + 1) (st + 1) (Some (sp, st + 1))"
        using inv Some ss retry(1) by (auto simp: star_inv_def)
      from "1.IH"(4)[OF retry(1-4) Some ss[symmetric] st(2)] star_alt_back[OF st(1), of sp p] miss
      have "loop_accepts p (match_segment_loop p t (sp + 1) (st + 1) (Some (sp, st + 1)))
          = (glob (drop pi p) (drop ti t) \<or> star_alt p t star)"
        using Some ss by simp
      moreover have "match_segment_loop p t pi ti star
          = match_segment_loop p t (sp + 1) (st + 1) (Some (sp, st + 1))"
        by (subst unf) (use retry Some ss in auto)
      ultimately show ?thesis by simp
    qed
  qed
qed

lemma match_segment_glob: "match_segment pat s = glob (chars pat) (chars s)"
proof -
  have "star_inv (chars pat) (chars s) 0 0 None" by (simp add: star_inv_def)
  from match_segment_loop_correct[OF this]
  have "loop_accepts (chars pat) (match_segment_loop (chars pat) (chars s) 0 0 None)
      = glob (chars pat) (chars s)"
    by (simp add: star_alt_def)
  then show ?thesis by (simp add: match_segment_def loop_accepts_def Let_def)
qed

section \<open>The path matcher is the reference\<close>

lemma match_segments_covers: "match_segments ps path = covers ps path"
proof (induction ps arbitrary: path)
  case Nil
  then show ?case by (simp add: covers_Nil)
next
  case (Cons seg ps)
  show ?case
  proof (cases "seg = ''**''")
    case True
    have "covers (seg # ps) path \<longleftrightarrow> (\<exists>i \<le> length path. covers ps (drop i path))"
    proof
      assume "covers (seg # ps) path"
      then obtain skipped rest where "path = skipped @ rest" "covers ps rest"
        using True by (auto elim!: covers_ConsE)
      then show "\<exists>i \<le> length path. covers ps (drop i path)"
        by (intro exI[of _ "length skipped"]) auto
    next
      assume "\<exists>i \<le> length path. covers ps (drop i path)"
      then obtain i where "covers ps (drop i path)" by blast
      from covers_any[OF this, of "take i path"] True show "covers (seg # ps) path" by simp
    qed
    moreover have "match_segments (seg # ps) path \<longleftrightarrow> (\<exists>i \<le> length path. covers ps (drop i path))"
    proof (cases "ps = []")
      case True
      with \<open>seg = ''**''\<close> show ?thesis by (auto simp: covers_Nil)
    next
      case False
      with True have "match_segments (seg # ps) path
          = list_ex (\<lambda>i. match_segments ps (drop i path)) [0..<length path + 1]"
        by (simp only: match_segments.simps(2) if_True if_False refl)
      also have "\<dots> = list_ex (\<lambda>i. covers ps (drop i path)) [0..<length path + 1]"
        by (simp only: Cons.IH)
      also have "\<dots> = (\<exists>i \<le> length path. covers ps (drop i path))"
        by (auto simp: list_ex_iff less_Suc_eq_le simp del: upt_Suc)
      finally show ?thesis .
    qed
    ultimately show ?thesis by simp
  next
    case False
    then show ?thesis
      by (cases path)
         (auto simp: Cons.IH match_segment_glob intro: covers_seg elim: covers_ConsE)
  qed
qed

lemmas path_simps = path_matches_def match_segments_covers

section \<open>Properties\<close>

text \<open>
  C38. The path filter's matcher is the glob language it documents: within a segment a star stands
  for any run of characters, and the backtracking loop over segments decides the inductive relation
  in which a double star covers any number of segments.
\<close>

theorem path_matches_spec:
  "path_matches pattern path \<longleftrightarrow>
     covers (split_on CHR ''/'' (trim_start_matches ''./'' (trim pattern)))
       (split_on CHR ''/'' (trim_start_matches ''./'' path))"
  by (simp add: path_simps)

end
