(* ===== verification/Json_Value.thy ===== *)
theory Json_Value
  imports Rust_Str
begin

text \<open>
  The values the CI orchestrator's expressions and matrices work with: \<open>f64\<close> as Rust's standard
  library parses, compares and truncates it, \<open>serde_json::Value\<close>, and \<open>serde_yaml::Value\<close>. The
  printers and parsers of the two serde crates are not part of this repository; they are the
  fields of \<open>json_ops\<close>, an argument of every definition that calls them.
\<close>

section \<open>Binary64\<close>

text \<open>
  \<open>F64 s m e\<close> is \<open>(-1)\<^sup>s * m * 2\<^sup>e\<close>. Values come from \<open>f64_of_ratio\<close>, which rounds to 53 bits,
  ties to even, with the smallest exponent \<open>-1074\<close>, and overflows to infinity.
\<close>

datatype f64 = F64 bool nat int | F64Inf bool | F64NaN

fun bit_length :: "nat \<Rightarrow> nat" where
  "bit_length n = (if n = 0 then 0 else Suc (bit_length (n div 2)))"

declare bit_length.simps [simp del]

definition scale2 :: "nat \<Rightarrow> nat \<Rightarrow> int \<Rightarrow> nat \<times> nat" where
  "scale2 num den e = (if 0 \<le> e then (num, den * 2 ^ nat e) else (num * 2 ^ nat (- e), den))"

definition round_half_even :: "nat \<Rightarrow> nat \<Rightarrow> nat" where
  "round_half_even n d =
     (let q = n div d; r = n mod d in
      if 2 * r < d then q else if 2 * r > d then q + 1 else if even q then q else q + 1)"

definition f64_of_ratio :: "bool \<Rightarrow> nat \<Rightarrow> nat \<Rightarrow> f64" where
  "f64_of_ratio neg num den =
     (if num = 0 then F64 neg 0 0
      else let e0 = max (int (bit_length num) - int (bit_length den) - 53) (-1074);
               (n0, d0) = scale2 num den e0;
               e = (if n0 div d0 \<ge> 2 ^ 53 then e0 + 1 else e0);
               (n, d) = scale2 num den e;
               m = round_half_even n d
           in if e > 971 \<or> (e = 971 \<and> m \<ge> 2 ^ 53) then F64Inf neg else F64 neg m e)"

definition f64_of_int :: "int \<Rightarrow> f64" where
  "f64_of_int i = f64_of_ratio (i < 0) (nat \<bar>i\<bar>) 1"

text \<open>The value of a finite number as an integer numerator over \<open>2 ^ k\<close>, for comparisons.\<close>

definition f64_scaled :: "bool \<Rightarrow> nat \<Rightarrow> int \<Rightarrow> int \<Rightarrow> int" where
  "f64_scaled s m e d = (if s then -1 else 1) * int (m * 2 ^ nat (e - d))"

fun f64_lt :: "f64 \<Rightarrow> f64 \<Rightarrow> bool" where
  "f64_lt (F64 s m e) (F64 s' m' e') =
     (let d = min e e' in f64_scaled s m e d < f64_scaled s' m' e' d)"
| "f64_lt (F64 _ _ _) (F64Inf s) = (\<not> s)"
| "f64_lt (F64Inf s) (F64 _ _ _) = s"
| "f64_lt (F64Inf s) (F64Inf s') = (s \<and> \<not> s')"
| "f64_lt _ _ = False"

fun f64_eq :: "f64 \<Rightarrow> f64 \<Rightarrow> bool" where
  "f64_eq (F64 s m e) (F64 s' m' e') =
     (let d = min e e' in f64_scaled s m e d = f64_scaled s' m' e' d)"
| "f64_eq (F64Inf s) (F64Inf s') = (s = s')"
| "f64_eq _ _ = False"

definition f64_le :: "f64 \<Rightarrow> f64 \<Rightarrow> bool" where
  "f64_le a b \<longleftrightarrow> f64_lt a b \<or> f64_eq a b"

fun f64_is_zero :: "f64 \<Rightarrow> bool" where
  "f64_is_zero (F64 _ m _) = (m = 0)"
| "f64_is_zero _ = False"

text \<open>\<open>n.fract() == 0.0\<close>, and \<open>n as i64\<close> for a value whose magnitude is below \<open>2 ^ 53\<close>.\<close>

fun f64_integral :: "f64 \<Rightarrow> bool" where
  "f64_integral (F64 _ m e) = (0 \<le> e \<or> m mod 2 ^ nat (- e) = 0)"
| "f64_integral _ = False"

fun f64_trunc :: "f64 \<Rightarrow> int" where
  "f64_trunc (F64 s m e) =
     (if s then -1 else 1) * int (if 0 \<le> e then m * 2 ^ nat e else m div 2 ^ nat (- e))"
| "f64_trunc _ = 0"

section \<open>Parsing a float\<close>

text \<open>\<open>str::parse::<f64>\<close>, by the grammar its documentation gives.\<close>

definition span :: "(char \<Rightarrow> bool) \<Rightarrow> string \<Rightarrow> string \<times> string" where
  "span P s = (takeWhile P s, dropWhile P s)"

definition take_sign :: "string \<Rightarrow> bool \<times> string" where
  "take_sign s = (case s of [] \<Rightarrow> (False, [])
     | c # cs \<Rightarrow> if c = CHR ''-'' then (True, cs) else if c = CHR ''+'' then (False, cs)
                 else (False, s))"

definition parse_exponent :: "string \<Rightarrow> int option" where
  "parse_exponent s = (case s of [] \<Rightarrow> Some 0
     | c # cs \<Rightarrow>
         if c = CHR ''e'' \<or> c = CHR ''E'' then
           let (neg, ds) = take_sign cs in
           if ds = [] \<or> \<not> list_all is_ascii_digit ds then None
           else Some (if neg then - int (digits_val 0 ds) else int (digits_val 0 ds))
         else None)"

definition f64_of_decimal :: "bool \<Rightarrow> nat \<Rightarrow> int \<Rightarrow> f64" where
  "f64_of_decimal neg m e10 =
     (if 0 \<le> e10 then f64_of_ratio neg (m * 10 ^ nat e10) 1
      else f64_of_ratio neg m (10 ^ nat (- e10)))"

definition parse_f64_number :: "bool \<Rightarrow> string \<Rightarrow> f64 option" where
  "parse_f64_number neg s =
     (let (whole, r1) = span is_ascii_digit s;
          (frac, r2) = (case r1 of c # cs \<Rightarrow> if c = CHR ''.'' then span is_ascii_digit cs else ([], r1)
                        | [] \<Rightarrow> ([], []))
      in if whole = [] \<and> frac = [] then None
         else case parse_exponent r2 of
                None \<Rightarrow> None
              | Some e \<Rightarrow> Some (f64_of_decimal neg (digits_val 0 (whole @ frac)) (e - int (length frac))))"

definition parse_f64 :: "string \<Rightarrow> f64 option" where
  "parse_f64 s =
     (let (neg, r) = take_sign s; l = to_ascii_lowercase r in
      if l = ''inf'' \<or> l = ''infinity'' then Some (F64Inf neg)
      else if l = ''nan'' then Some F64NaN
      else parse_f64_number neg r)"

section \<open>JSON and YAML values\<close>

datatype num = NInt int | NFloat f64

datatype json =
    Null
  | Bool bool
  | Number num
  | String string
  | Array "json list"
  | Object "(string \<times> json) list"

text \<open>
  YAML scalars other than strings, booleans and null are read only through the crate's conversion
  to JSON, so a YAML number is kept as a \<open>num\<close>. \<open>Tagged\<close> carries a \<open>!tag\<close>; the accessors look
  through it.
\<close>

datatype yaml =
    YNull
  | YBool bool
  | YNumber num
  | YString string
  | YSequence "yaml list"
  | YMapping "(yaml \<times> yaml) list"
  | YTagged string yaml

fun untag :: "yaml \<Rightarrow> yaml" where
  "untag (YTagged _ v) = untag v"
| "untag v = v"

definition y_as_mapping :: "yaml \<Rightarrow> (yaml \<times> yaml) list option" where
  "y_as_mapping v = (case untag v of YMapping m \<Rightarrow> Some m | _ \<Rightarrow> None)"

definition y_as_sequence :: "yaml \<Rightarrow> yaml list option" where
  "y_as_sequence v = (case untag v of YSequence s \<Rightarrow> Some s | _ \<Rightarrow> None)"

definition y_as_str :: "yaml \<Rightarrow> string option" where
  "y_as_str v = (case untag v of YString s \<Rightarrow> Some s | _ \<Rightarrow> None)"

record json_ops =
  float_str :: "f64 \<Rightarrow> string"
  value_str :: "json \<Rightarrow> string"
  from_json :: "string \<Rightarrow> json option"
  yaml_json :: "yaml \<Rightarrow> json option"

definition num_str :: "json_ops \<Rightarrow> num \<Rightarrow> string" where
  "num_str J n = (case n of NInt i \<Rightarrow> int_str i | NFloat f \<Rightarrow> float_str J f)"

definition num_as_f64 :: "num \<Rightarrow> f64" where
  "num_as_f64 n = (case n of NInt i \<Rightarrow> f64_of_int i | NFloat f \<Rightarrow> f)"

end
