(* ===== verification/Cycle_Search.thy ===== *)
theory Cycle_Search
  imports Prelude
begin

text \<open>
  The depth-first search for a \<open>needs\<close> cycle (\<open>Workflow::find_cycle\<close> and its local \<open>visit\<close> in
  \<open>ci/src/workflow.rs\<close>), over the table from job id to needs. The theory shows that the search
  always ends, that a path it reports is a closed walk of the table, and that it reports none
  exactly when the table is acyclic.
\<close>

section \<open>The search\<close>

text \<open>
  The recursion of \<open>visit\<close> is bounded by the number of jobs that carry no mark; the model gives it
  fuel, and \<open>None\<close> means that the fuel ran out. \<open>visit_total\<close> below shows that it never does.
\<close>

datatype mark = Open | Done

type_synonym deps = "(string \<times> string list) list"
type_synonym dfs_state = "(string \<rightharpoonup> mark) \<times> string list"

definition deps_get :: "deps \<Rightarrow> string \<Rightarrow> string list option" where
  "deps_get deps = map_of (rev deps)"

fun visit_each :: "(string \<Rightarrow> dfs_state \<Rightarrow> (string list option \<times> dfs_state) option) \<Rightarrow> deps \<Rightarrow>
    string list \<Rightarrow> dfs_state \<Rightarrow> (string list option \<times> dfs_state) option" where
  "visit_each v deps [] st = Some (None, st)"
| "visit_each v deps (n # ns) st =
     (if deps_get deps n = None then visit_each v deps ns st
      else case v n st of
        None \<Rightarrow> None
      | Some (Some c, st') \<Rightarrow> Some (Some c, st')
      | Some (None, st') \<Rightarrow> visit_each v deps ns st')"

fun visit :: "nat \<Rightarrow> deps \<Rightarrow> string \<Rightarrow> dfs_state \<Rightarrow> (string list option \<times> dfs_state) option" where
  "visit 0 deps node st = None"
| "visit (Suc fuel) deps node (marks, stack) =
     (case marks node of
        Some Done \<Rightarrow> Some (None, marks, stack)
      | Some Open \<Rightarrow>
          let start = (case position (\<lambda>n. n = node) stack of Some i \<Rightarrow> i | None \<Rightarrow> 0)
          in Some (Some (drop start stack @ [node]), marks, stack)
      | None \<Rightarrow>
          let needs = (case deps_get deps node of Some ns \<Rightarrow> ns | None \<Rightarrow> []) in
          case visit_each (visit fuel deps) deps needs (marks(node \<mapsto> Open), stack @ [node]) of
            None \<Rightarrow> None
          | Some (Some c, st) \<Rightarrow> Some (Some c, st)
          | Some (None, marks', stack') \<Rightarrow> Some (None, marks'(node \<mapsto> Done), butlast stack'))"

definition search_cycle :: "deps \<Rightarrow> (string list option \<times> dfs_state) option" where
  "search_cycle deps =
     visit_each (visit (length deps + 1) deps) deps (map fst deps) (Map.empty, [])"

section \<open>The graph and the invariant of the search\<close>

definition edge :: "deps \<Rightarrow> string \<Rightarrow> string \<Rightarrow> bool" where
  "edge deps a b \<longleftrightarrow> (\<exists>ns. deps_get deps a = Some ns \<and> b \<in> set ns) \<and> deps_get deps b \<noteq> None"

definition edges :: "deps \<Rightarrow> (string \<times> string) set" where
  "edges deps = {(a, b). edge deps a b}"

definition closed_walk :: "deps \<Rightarrow> string list \<Rightarrow> bool" where
  "closed_walk deps c \<longleftrightarrow> 2 \<le> length c \<and> hd c = last c \<and> successively (edge deps) c"

definition done_set :: "(string \<rightharpoonup> mark) \<Rightarrow> string set" where
  "done_set marks = {n. marks n = Some Done}"

definition unmarked :: "deps \<Rightarrow> (string \<rightharpoonup> mark) \<Rightarrow> string set" where
  "unmarked deps marks = {n. deps_get deps n \<noteq> None \<and> marks n = None}"

definition edges_from :: "deps \<Rightarrow> string set \<Rightarrow> (string \<times> string) set" where
  "edges_from deps D = {(a, b). edge deps a b \<and> a \<in> D}"

definition dfs_inv :: "deps \<Rightarrow> dfs_state \<Rightarrow> bool" where
  "dfs_inv deps st \<longleftrightarrow> (case st of (marks, stack) \<Rightarrow>
     successively (edge deps) stack \<and>
     (\<forall>n. marks n = Some Open \<longleftrightarrow> n \<in> set stack) \<and>
     (\<forall>a b. a \<in> done_set marks \<longrightarrow> edge deps a b \<longrightarrow> b \<in> done_set marks) \<and>
     acyclic (edges_from deps (done_set marks)))"

text \<open>What a visit leaves behind: a closed walk, or the same stack and only more nodes done.\<close>

definition kept :: "dfs_state \<Rightarrow> dfs_state \<Rightarrow> bool" where
  "kept st st' \<longleftrightarrow> snd st' = snd st \<and> (\<forall>n m. fst st n = Some m \<longrightarrow> fst st' n = Some m)"

definition visited :: "deps \<Rightarrow> dfs_state \<Rightarrow> string set \<Rightarrow> string list option \<times> dfs_state \<Rightarrow> bool" where
  "visited deps st ns r \<longleftrightarrow> (case r of
     (Some c, _) \<Rightarrow> closed_walk deps c
   | (None, st') \<Rightarrow> dfs_inv deps st' \<and> kept st st' \<and> ns \<subseteq> done_set (fst st'))"

lemma finite_unmarked [simp]: "finite (unmarked deps marks)"
proof (rule finite_subset)
  show "unmarked deps marks \<subseteq> dom (deps_get deps)" by (auto simp: unmarked_def)
  show "finite (dom (deps_get deps))" by (simp add: deps_get_def finite_dom_map_of)
qed

lemma kept_refl [simp]: "kept st st"
  by (simp add: kept_def)

lemma kept_trans: "kept a b \<Longrightarrow> kept b c \<Longrightarrow> kept a c"
  by (auto simp: kept_def)

lemma kept_unmarked: "kept st st' \<Longrightarrow> card (unmarked deps (fst st')) \<le> card (unmarked deps (fst st))"
proof (rule card_mono)
  assume "kept st st'"
  then have "fst st' n = None \<Longrightarrow> fst st n = None" for n
    by (cases "fst st n") (auto simp: kept_def)
  then show "unmarked deps (fst st') \<subseteq> unmarked deps (fst st)" by (auto simp: unmarked_def)
qed simp

lemma kept_done: "kept st st' \<Longrightarrow> done_set (fst st) \<subseteq> done_set (fst st')"
  by (auto simp: kept_def done_set_def)

lemma acyclic_add_source:
  assumes ac: "acyclic (edges_from deps D)" and x: "x \<notin> D"
    and closed: "\<And>a b. a \<in> insert x D \<Longrightarrow> edge deps a b \<Longrightarrow> b \<in> D"
  shows "acyclic (edges_from deps (insert x D))"
proof (rule acyclicI, rule allI, rule notI)
  fix n assume loop: "(n, n) \<in> (edges_from deps (insert x D))\<^sup>+"
  have into: "b \<in> D" if "(a, b) \<in> (edges_from deps (insert x D))\<^sup>+" for a b
    using that by (induction rule: trancl_induct) (use closed in \<open>auto simp: edges_from_def\<close>)
  have stay: "(a, b) \<in> (edges_from deps D)\<^sup>+" if "(a, b) \<in> (edges_from deps (insert x D))\<^sup>+" "a \<in> D" for a b
    using that
  proof (induction rule: trancl_induct)
    case (base y)
    then show ?case by (auto simp: edges_from_def)
  next
    case (step y z)
    with into[OF step(1)] have "(y, z) \<in> edges_from deps D" by (auto simp: edges_from_def)
    with step show ?case by (meson trancl.trancl_into_trancl)
  qed
  from stay[OF loop into[OF loop]] ac show False by (auto simp: acyclic_def)
qed

lemma on_stack: "dfs_inv deps (marks, stack) \<Longrightarrow> n \<in> set stack \<longleftrightarrow> marks n = Some Open"
  by (simp add: dfs_inv_def)

lemma not_on_stack: "dfs_inv deps (marks, stack) \<Longrightarrow> marks n \<noteq> Some Open \<Longrightarrow> n \<notin> set stack"
  by (simp add: on_stack)

section \<open>One visit\<close>

lemma visit_open:
  assumes inv: "dfs_inv deps (marks, stack)" and op: "marks node = Some Open"
    and e: "stack = [] \<or> edge deps (last stack) node"
  shows "closed_walk deps
    (drop (case position (\<lambda>n. n = node) stack of Some i \<Rightarrow> i | None \<Rightarrow> 0) stack @ [node])"
proof -
  from inv op have mem: "node \<in> set stack" by (auto simp: dfs_inv_def)
  then obtain i where i: "position (\<lambda>n. n = node) stack = Some i"
    by (metis (mono_tags) not_Some_eq position_None)
  from position_Some[OF i] have il: "i < length stack" "stack ! i = node" by auto
  have ne: "drop i stack \<noteq> []" using il by simp
  have "successively (edge deps) (take i stack @ drop i stack)" using inv by (simp add: dfs_inv_def)
  then have s: "successively (edge deps) (drop i stack)" by (simp only: successively_append_iff)
  have l: "last (drop i stack) = last stack" using il by (simp add: last_drop)
  with s ne e il have "successively (edge deps) (drop i stack @ [node])"
    by (auto simp: successively_append_iff)
  moreover have "hd (drop i stack @ [node]) = node" using ne il by (simp add: hd_drop_conv_nth)
  ultimately show ?thesis using i il by (simp add: closed_walk_def)
qed

lemma dfs_inv_open:
  assumes inv: "dfs_inv deps (marks, stack)" and new: "marks node = None"
    and e: "stack = [] \<or> edge deps (last stack) node"
  shows "dfs_inv deps (marks(node \<mapsto> Open), stack @ [node])"
proof -
  have d: "done_set (marks(node \<mapsto> Open)) = done_set marks"
    using new by (auto simp: done_set_def)
  from inv e have "successively (edge deps) (stack @ [node])"
    by (auto simp: dfs_inv_def successively_append_iff)
  with inv new d show ?thesis by (auto simp: dfs_inv_def)
qed

lemma dfs_inv_close:
  assumes inv: "dfs_inv deps (marks, stack @ [node])"
    and new: "node \<notin> set stack"
    and all: "\<And>b. edge deps node b \<Longrightarrow> b \<in> done_set marks"
  shows "dfs_inv deps (marks(node \<mapsto> Done), stack)"
proof -
  have op: "marks node = Some Open" using inv by (auto simp: dfs_inv_def)
  have d: "done_set (marks(node \<mapsto> Done)) = insert node (done_set marks)"
    by (auto simp: done_set_def)
  have nd: "node \<notin> done_set marks" using op by (simp add: done_set_def)
  have cl: "\<And>a b. a \<in> insert node (done_set marks) \<Longrightarrow> edge deps a b \<Longrightarrow> b \<in> done_set marks"
    using inv all by (auto simp: dfs_inv_def)
  have ac: "acyclic (edges_from deps (done_set marks))" using inv by (simp add: dfs_inv_def)
  have "acyclic (edges_from deps (insert node (done_set marks)))"
    by (rule acyclic_add_source[OF ac nd cl])
  moreover have "successively (edge deps) stack"
    using inv by (simp add: dfs_inv_def successively_append_iff)
  moreover have "(marks(node \<mapsto> Done)) n = Some Open \<longleftrightarrow> n \<in> set stack" for n
    using on_stack[OF inv, of n] new by auto
  moreover have "b \<in> insert node (done_set marks)" if "a \<in> insert node (done_set marks)" "edge deps a b" for a b
    using cl[OF that] by simp
  ultimately show ?thesis unfolding dfs_inv_def prod.case d by (intro conjI allI impI)
qed

section \<open>The whole search\<close>

lemma visit_each_total:
  assumes step: "\<And>n st'. n \<in> set ns \<Longrightarrow> deps_get deps n \<noteq> None \<Longrightarrow> kept st st' \<Longrightarrow>
      dfs_inv deps st' \<Longrightarrow> \<exists>r. v n st' = Some r \<and> visited deps st' {n} r"
    and inv: "dfs_inv deps st"
  shows "\<exists>r. visit_each v deps ns st = Some r \<and>
    visited deps st {n \<in> set ns. deps_get deps n \<noteq> None} r"
  using assms
proof (induction ns arbitrary: st)
  case Nil
  then show ?case by (simp add: visited_def)
next
  case (Cons n ns)
  show ?case
  proof (cases "deps_get deps n = None")
    case True
    have "\<exists>r. visit_each v deps ns st = Some r \<and>
        visited deps st {n \<in> set ns. deps_get deps n \<noteq> None} r"
      by (rule Cons.IH) (use Cons.prems in auto)
    moreover have "{m \<in> set (n # ns). deps_get deps m \<noteq> None} = {m \<in> set ns. deps_get deps m \<noteq> None}"
      using True by auto
    ultimately show ?thesis using True by simp
  next
    case False
    obtain r where r: "v n st = Some r" "visited deps st {n} r"
      using Cons.prems(1)[of n st] Cons.prems(2) False by auto
    obtain c st' where rc: "r = (c, st')" by (cases r)
    show ?thesis
    proof (cases c)
      case (Some cyc)
      with r rc False show ?thesis by (auto simp: visited_def)
    next
      case None
      with r rc have v': "dfs_inv deps st'" "kept st st'" "n \<in> done_set (fst st')"
        by (auto simp: visited_def)
      have "\<exists>r. visit_each v deps ns st' = Some r \<and>
          visited deps st' {n \<in> set ns. deps_get deps n \<noteq> None} r"
        by (rule Cons.IH) (use Cons.prems(1) v' kept_trans in auto)
      then obtain r' where r': "visit_each v deps ns st' = Some r'"
        "visited deps st' {n \<in> set ns. deps_get deps n \<noteq> None} r'" by blast
      have "visited deps st {m \<in> set (n # ns). deps_get deps m \<noteq> None} r'"
      proof (cases r')
        case Pair: (fields c' marks'' stack'')
        show ?thesis
        proof (cases c')
          case (Some cyc)
          with r'(2) Pair show ?thesis by (simp add: visited_def)
        next
          case None
          with r'(2) Pair have k: "kept st' (marks'', stack'')" by (simp add: visited_def)
          from None r'(2) Pair kept_trans[OF v'(2) k] subsetD[OF kept_done[OF k] v'(3)]
          show ?thesis by (auto simp: visited_def)
        qed
      qed
      moreover have "visit_each v deps (n # ns) st = Some r'"
        using False r(1) rc None r'(1) by (simp del: not_None_eq)
      ultimately show ?thesis by blast
    qed
  qed
qed

lemma visit_total:
  assumes "dfs_inv deps (marks, stack)" "deps_get deps node \<noteq> None"
    "stack = [] \<or> edge deps (last stack) node" "card (unmarked deps marks) < fuel"
  shows "\<exists>r. visit fuel deps node (marks, stack) = Some r \<and> visited deps (marks, stack) {node} r"
  using assms
proof (induction fuel arbitrary: node marks stack)
  case 0
  then show ?case by simp
next
  case (Suc fuel)
  show ?case
  proof (cases "marks node")
    case (Some m)
    show ?thesis
    proof (cases m)
      case Open
      with Some visit_open[OF Suc.prems(1) _ Suc.prems(3)] show ?thesis
        by (simp add: visited_def Let_def)
    next
      case Done
      with Some Suc.prems(1) show ?thesis by (simp add: visited_def done_set_def)
    qed
  next
    case None
    obtain needs where needs: "deps_get deps node = Some needs" using Suc.prems(2) by blast
    let ?st = "(marks(node \<mapsto> Open), stack @ [node])"
    have inv: "dfs_inv deps ?st" by (rule dfs_inv_open[OF Suc.prems(1) None Suc.prems(3)])
    have "unmarked deps (marks(node \<mapsto> Open)) = unmarked deps marks - {node}"
      by (auto simp: unmarked_def)
    moreover have "node \<in> unmarked deps marks" using None needs by (simp add: unmarked_def)
    ultimately have room: "card (unmarked deps (fst ?st)) < fuel"
      using Suc.prems(4) card_Diff1_less[OF finite_unmarked, of node deps marks] by simp
    have "\<exists>r. visit_each (visit fuel deps) deps needs ?st = Some r \<and>
        visited deps ?st {n \<in> set needs. deps_get deps n \<noteq> None} r"
    proof (rule visit_each_total[OF _ inv])
      fix n st' assume n: "n \<in> set needs" "deps_get deps n \<noteq> None" "kept ?st st'" "dfs_inv deps st'"
      obtain marks' stack' where st': "st' = (marks', stack')" by force
      have "stack' = stack @ [node]" using n(3) st' by (simp add: kept_def)
      moreover have "edge deps node n" using n needs by (auto simp: edge_def)
      moreover have "card (unmarked deps marks') < fuel"
        using kept_unmarked[OF n(3), of deps] room st' by simp
      ultimately show "\<exists>r. visit fuel deps n st' = Some r \<and> visited deps st' {n} r"
        using Suc.IH[of marks' stack' n] n st' by simp
    qed
    then obtain c st' where each: "visit_each (visit fuel deps) deps needs ?st = Some (c, st')"
      and vis: "visited deps ?st {n \<in> set needs. deps_get deps n \<noteq> None} (c, st')" by auto
    show ?thesis
    proof (cases c)
      case (Some cyc)
      with each vis None needs show ?thesis by (simp add: visited_def)
    next
      case c: None
      obtain marks' where st': "st' = (marks', stack @ [node])"
        using vis c by (cases st') (auto simp: visited_def kept_def)
      from vis c have inv': "dfs_inv deps (marks', stack @ [node])" and k: "kept ?st (marks', stack @ [node])"
        and dn: "\<And>b. edge deps node b \<Longrightarrow> b \<in> done_set marks'"
        using needs st' by (auto simp: visited_def edge_def)
      have out: "node \<notin> set stack" by (rule not_on_stack[OF Suc.prems(1)]) (simp add: None)
      have "kept (marks, stack) (marks'(node \<mapsto> Done), stack)"
        using k None by (auto simp: kept_def)
      with dfs_inv_close[OF inv' out dn] c each None needs st' show ?thesis
        by (simp add: visited_def done_set_def)
    qed
  qed
qed

lemma search_cycle_visited:
  "\<exists>r st. search_cycle deps = Some (r, st) \<and>
     visited deps (Map.empty, []) {n. deps_get deps n \<noteq> None} (r, st)"
proof -
  have inv: "dfs_inv deps (Map.empty, [])"
    by (simp add: dfs_inv_def done_set_def edges_from_def acyclic_def)
  have dm: "{n. deps_get deps n \<noteq> None} = fst ` set deps"
    by (auto simp: deps_get_def map_of_eq_None_iff)
  have keys: "{n \<in> set (map fst deps). deps_get deps n \<noteq> None} = {n. deps_get deps n \<noteq> None}"
    using dm by auto
  have "card (unmarked deps Map.empty) \<le> length deps"
    using dm card_image_le[of "set deps" fst] card_length[of deps] by (simp add: unmarked_def)
  then have room: "kept (Map.empty, []) st' \<Longrightarrow> card (unmarked deps (fst st')) < length deps + 1" for st'
    using kept_unmarked[of "(Map.empty, [])" st' deps] by simp
  have "\<exists>r. visit_each (visit (length deps + 1) deps) deps (map fst deps) (Map.empty, []) = Some r \<and>
      visited deps (Map.empty, []) {n \<in> set (map fst deps). deps_get deps n \<noteq> None} r"
  proof (rule visit_each_total[OF _ inv])
    fix n st' assume n: "deps_get deps n \<noteq> None" "kept (Map.empty, []) st'" "dfs_inv deps st'"
    obtain marks' where st': "st' = (marks', [])" using n(2) by (cases st') (simp add: kept_def)
    show "\<exists>r. visit (length deps + 1) deps n st' = Some r \<and> visited deps st' {n} r"
      using visit_total[of deps marks' "[]" n "length deps + 1"] n room[OF n(2)] st' by simp
  qed
  then show ?thesis unfolding keys search_cycle_def by auto
qed

lemma closed_walk_cyclic: "closed_walk deps c \<Longrightarrow> \<not> acyclic (edges deps)"
proof -
  assume c: "closed_walk deps c"
  have path: "successively (edge deps) xs \<Longrightarrow> 2 \<le> length xs \<Longrightarrow> (hd xs, last xs) \<in> (edges deps)\<^sup>+" for xs
  proof (induction xs)
    case Nil
    then show ?case by simp
  next
    case (Cons a xs)
    then obtain b ys where xs: "xs = b # ys" by (cases xs) auto
    with Cons.prems have ab: "(a, b) \<in> edges deps" by (simp add: edges_def)
    show ?case
    proof (cases ys)
      case Nil
      with ab xs show ?thesis by auto
    next
      case (Cons y zs)
      with Cons.IH Cons.prems xs have "(b, last xs) \<in> (edges deps)\<^sup>+" by simp
      with ab xs show ?thesis by (simp add: trancl_into_trancl2)
    qed
  qed
  from path[of c] c show ?thesis by (auto simp: closed_walk_def acyclic_def)
qed

lemma search_cycle_total: "search_cycle deps \<noteq> None"
  using search_cycle_visited[of deps] by auto

lemma search_cycle_sound: "search_cycle deps = Some (Some c, st) \<Longrightarrow> closed_walk deps c"
  using search_cycle_visited[of deps] by (auto simp: visited_def)

lemma search_cycle_complete: "search_cycle deps = Some (None, st) \<Longrightarrow> acyclic (edges deps)"
proof -
  assume s: "search_cycle deps = Some (None, st)"
  with search_cycle_visited[of deps] have inv: "dfs_inv deps st"
    and all: "{n. deps_get deps n \<noteq> None} \<subseteq> done_set (fst st)" by (auto simp: visited_def)
  from all have "edges deps \<subseteq> edges_from deps (done_set (fst st))"
    by (auto simp: edges_def edges_from_def edge_def)
  moreover have "acyclic (edges_from deps (done_set (fst st)))"
    using inv by (cases st) (simp add: dfs_inv_def)
  ultimately show ?thesis by (meson acyclic_subset)
qed

lemma search_cycle_acyclic_iff:
  "(\<exists>st. search_cycle deps = Some (None, st)) \<longleftrightarrow> acyclic (edges deps)"
proof
  assume "acyclic (edges deps)"
  moreover obtain r st where rs: "search_cycle deps = Some (r, st)"
    using search_cycle_total[of deps] by (metis not_Some_eq surj_pair)
  ultimately have "r = None"
    using search_cycle_sound[of deps _ st] closed_walk_cyclic[of deps] by (cases r) auto
  with rs show "\<exists>st. search_cycle deps = Some (None, st)" by blast
qed (use search_cycle_complete in blast)

section \<open>Properties\<close>

text \<open>
  C18. The search for a dependency cycle terminates and is exact: it always returns, it reports no
  cycle exactly when the graph is acyclic, and what it reports is a closed walk along edges.
\<close>

theorem search_cycle_exact:
  "case search_cycle deps of
     None \<Rightarrow> False
   | Some (None, _) \<Rightarrow> acyclic (edges deps)
   | Some (Some c, _) \<Rightarrow> closed_walk deps c \<and> \<not> acyclic (edges deps)"
proof -
  have "\<not> acyclic (edges deps)" if "search_cycle deps = Some (Some c, st)" for c st
    using that search_cycle_acyclic_iff[of deps] by auto
  then show ?thesis
    using search_cycle_total[of deps] search_cycle_sound[of deps] search_cycle_complete[of deps]
    by (auto split: option.splits prod.splits)
qed

end
