(* ===== verification/Workflow.thy ===== *)
theory Workflow
  imports Paths Json_Value Cycle_Search
begin

text \<open>
  The workflow file of the CI orchestrator (\<open>ci/src/workflow.rs\<close>, and the \<open>vm:\<close> block of
  \<open>ci/src/vm.rs\<close>): where a job runs, what a step is, which submits start a run, and the validation
  that a parsed document has to pass. Serde's deserialisers are not part of this repository and are
  the fields of \<open>workflow_serde\<close>. Error values carry the error they wrap; the source renders the
  same value to text.

  A \<open>BTreeMap<String, String>\<close> is the list of its entries in key order.
\<close>

type_synonym str_map = "(string \<times> string) list"

section \<open>Errors\<close>

datatype vm_spec_error =
    UnsupportedDriver
  | ZeroDisk
  | ZeroTtl
  | InvalidEnvKey string
  | EscapingCacheKeyFile string
  | ImageAndBuild
  | EscapingBuildPath string
  | EmptyDockerfilePath
  | ZeroImageSize

datatype native_placement = RunsOnAndUses | RunsOnAndVm | EmptyLabel

datatype yaml_detail = SerdeDetail string | ReleaseFilters

datatype workflow_error =
    NativePlacement native_placement
  | YamlError string yaml_detail
  | NoJobs string
  | DuplicateJob string
  | BadJobId string
  | BadTriggerBlock string string
  | BadFilter string string pattern_error
  | ConflictingFilter string string string
  | BadJob string string string
  | BadVm string vm_spec_error
  | BadUses string workflow_error
  | EmptyUses
  | EmptyRunner string
  | UsesTooDeep string
  | VmWithoutNode string
  | UnknownNeed string string
  | SelfNeed string
  | Cycle "string list"
  | NoSteps string
  | StepRunAndUses string string
  | StepNeitherRunNorUses string string

section \<open>Placement\<close>

definition DEFAULT_NODE :: string where
  "DEFAULT_NODE = ''default''"

record target =
  tgt_network :: "string option"
  tgt_node :: "string option"
  tgt_vm :: "string option"
  tgt_local :: bool

definition parse_node :: "string \<Rightarrow> string list \<Rightarrow> workflow_error + string option" where
  "parse_node raw parts =
     (if length parts \<le> 1 \<or> parts ! 1 = ''*'' then Inr None
      else if parts ! 1 = [] then Inl (EmptyRunner raw)
      else Inr (Some (parts ! 1)))"

definition parse_vm :: "string \<Rightarrow> string list \<Rightarrow> workflow_error + string option" where
  "parse_vm raw parts =
     (if length parts \<le> 2 then Inr None
      else if parts ! 2 = [] \<or> parts ! 2 = ''*'' then Inl (EmptyRunner raw)
      else Inr (Some (parts ! 2)))"

definition target_parse :: "string \<Rightarrow> workflow_error + target" where
  "target_parse raw0 =
     (let raw = trim raw0 in
      if raw = [] then Inl EmptyUses
      else if eq_ignore_ascii_case raw DEFAULT_NODE then
        Inr \<lparr>tgt_network = None, tgt_node = None, tgt_vm = None, tgt_local = True\<rparr>
      else
        let parts = map trim (split_on CHR ''/'' raw) in
        if length parts > 3 then Inl (UsesTooDeep raw)
        else if parts ! 0 = [] then Inl EmptyUses
        else and_then (parse_node raw parts) (\<lambda>node.
             and_then (parse_vm raw parts) (\<lambda>vm.
             if vm \<noteq> None \<and> node = None then Inl (VmWithoutNode raw)
             else Inr \<lparr>tgt_network = Some (parts ! 0), tgt_node = node, tgt_vm = vm,
                       tgt_local = False\<rparr>)))"

definition target_any :: target where
  "target_any = \<lparr>tgt_network = None, tgt_node = None, tgt_vm = None, tgt_local = False\<rparr>"

definition is_existing_vm :: "target \<Rightarrow> bool" where
  "is_existing_vm t \<longleftrightarrow> tgt_vm t \<noteq> None"

definition target_display :: "target \<Rightarrow> string" where
  "target_display t =
     (if tgt_local t then DEFAULT_NODE
      else let network = (case tgt_network t of None \<Rightarrow> ''*'' | Some n \<Rightarrow> n) in
        case (tgt_node t, tgt_vm t) of
          (Some n, Some v) \<Rightarrow> network @ ''/'' @ n @ ''/'' @ v
        | (Some n, None) \<Rightarrow> network @ ''/'' @ n
        | (None, _) \<Rightarrow> network @ ''/*'')"

datatype fallback = FallbackNone | FallbackAny

section \<open>The machine a job asks for\<close>

datatype sandbox_driver = Firecracker | Kvm | Libvirt | OtherDriver string

record image_build =
  ib_dockerfile :: string
  ib_context :: "string option"
  ib_size_mb :: "nat option"

text \<open>\<open>rsplit_once('/')\<close>: what stands before the last slash.\<close>

definition before_last_slash :: "string \<Rightarrow> string option" where
  "before_last_slash s =
     (if CHR ''/'' \<in> set s then Some (join ''/'' (butlast (split_on CHR ''/'' s))) else None)"

definition context_dir :: "image_build \<Rightarrow> string" where
  "context_dir b =
     (case ib_context b of
        Some c \<Rightarrow> c
      | None \<Rightarrow> (case before_last_slash (ib_dockerfile b) of Some dir \<Rightarrow> dir | None \<Rightarrow> ''.''))"

record vm_spec =
  vm_driver :: sandbox_driver
  vm_image :: "string option"
  vm_build :: "image_build option"
  vm_size_class :: "string option"
  vm_disk_size_gb :: "nat option"
  vm_working_directory :: "string option"
  vm_env_vars :: str_map
  vm_setup_hooks :: "string list"
  vm_cache_key_files :: "string list"
  vm_reuse :: bool
  vm_ttl_seconds :: "nat option"

definition vm_spec_default :: vm_spec where
  "vm_spec_default =
     \<lparr>vm_driver = Firecracker, vm_image = None, vm_build = None, vm_size_class = None,
      vm_disk_size_gb = None, vm_working_directory = None, vm_env_vars = [], vm_setup_hooks = [],
      vm_cache_key_files = [], vm_reuse = True, vm_ttl_seconds = None\<rparr>"

definition escapes_tree :: "string \<Rightarrow> bool" where
  "escapes_tree path \<longleftrightarrow>
     prefix ''/'' path \<or> list_ex (\<lambda>s. s = ''..'') (split_on CHR ''/'' path)"

definition image_build_validate :: "vm_spec \<Rightarrow> image_build \<Rightarrow> vm_spec_error + unit" where
  "image_build_validate vm b =
     and_then (fail_if (vm_image vm \<noteq> None) ImageAndBuild) (\<lambda>_.
     and_then (for_each (\<lambda>path. fail_if (escapes_tree path) (EscapingBuildPath path))
                 [ib_dockerfile b, context_dir b]) (\<lambda>_.
     and_then (fail_if (trim (ib_dockerfile b) = []) EmptyDockerfilePath) (\<lambda>_.
     fail_if (ib_size_mb b = Some 0) ZeroImageSize)))"

definition is_env_key :: "string \<Rightarrow> bool" where
  "is_env_key key \<longleftrightarrow>
     key \<noteq> [] \<and> list_all (\<lambda>b. is_ascii_alphanumeric b \<or> b = CHR ''_'') key"

definition vm_spec_validate :: "vm_spec \<Rightarrow> vm_spec_error + unit" where
  "vm_spec_validate vm =
     and_then (fail_if (vm_driver vm = Libvirt) UnsupportedDriver) (\<lambda>_.
     and_then (case vm_build vm of Some b \<Rightarrow> image_build_validate vm b | None \<Rightarrow> Inr ()) (\<lambda>_.
     and_then (fail_if (vm_disk_size_gb vm = Some 0) ZeroDisk) (\<lambda>_.
     and_then (fail_if (vm_ttl_seconds vm = Some 0) ZeroTtl) (\<lambda>_.
     and_then (for_each (\<lambda>key. fail_if (\<not> is_env_key key) (InvalidEnvKey key))
                 (map fst (vm_env_vars vm))) (\<lambda>_.
     for_each (\<lambda>path. fail_if (escapes_tree path) (EscapingCacheKeyFile path))
       (vm_cache_key_files vm))))))"

section \<open>Steps and jobs\<close>

record step =
  step_name :: "string option"
  step_id :: "string option"
  step_condition :: "string option"
  step_uses :: "string option"
  step_with :: str_map
  step_run :: "string option"
  step_shell :: "string option"
  step_working_directory :: "string option"
  step_env :: str_map
  step_timeout_minutes :: "nat option"
  step_continue_on_error :: bool

text \<open>The error names the key and says what stood there instead of a scalar.\<close>

definition with_scalar :: "(num \<Rightarrow> string) \<Rightarrow> string \<times> yaml \<Rightarrow> string \<times> string + string \<times> string" where
  "with_scalar yaml_num kv =
     (case kv of (k, v) \<Rightarrow>
        (case v of
           YString s \<Rightarrow> Inr (k, s)
         | YBool b \<Rightarrow> Inr (k, if b then ''true'' else ''false'')
         | YNumber n \<Rightarrow> Inr (k, yaml_num n)
         | YNull \<Rightarrow> Inr (k, [])
         | YSequence _ \<Rightarrow> Inl (k, ''a list'')
         | YMapping _ \<Rightarrow> Inl (k, ''a mapping'')
         | YTagged _ _ \<Rightarrow> Inl (k, ''a tagged value'')))"

definition with_scalars :: "(num \<Rightarrow> string) \<Rightarrow> (string \<times> yaml) list \<Rightarrow> string \<times> string + str_map" where
  "with_scalars yaml_num raw = collect (with_scalar yaml_num) raw"

text \<open>The ellipsis is three bytes of UTF-8.\<close>

definition ellipsis :: string where
  "ellipsis = [CHR 0xE2, CHR 0x80, CHR 0xA6]"

definition truncate_str :: "string \<Rightarrow> nat \<Rightarrow> string" where
  "truncate_str s mx =
     (if length (chars s) \<le> mx then s else concat (take (mx - 1) (chars s)) @ ellipsis)"

definition step_label :: "step \<Rightarrow> nat \<Rightarrow> string" where
  "step_label st index =
     (case step_name st of
        Some n \<Rightarrow> n
      | None \<Rightarrow> (case step_uses st of
          Some u \<Rightarrow> u
        | None \<Rightarrow> (case step_run st of
            Some r \<Rightarrow>
              let first = (case find (\<lambda>l. trim l \<noteq> []) (lines r) of Some l \<Rightarrow> trim l | None \<Rightarrow> [])
              in truncate_str first 60
          | None \<Rightarrow> ''step '' @ nat_str (index + 1))))"

record strategy =
  strat_matrix :: "yaml option"
  strat_max_parallel :: "nat option"
  strat_fail_fast :: bool

record job =
  job_name :: "string option"
  job_uses :: "string option"
  job_runs_on :: "string list"
  job_vm :: vm_spec
  job_needs :: "string list"
  job_condition :: "string option"
  job_strategy :: "strategy option"
  job_env :: str_map
  job_outputs :: str_map
  job_continue_on_error :: bool
  job_timeout_minutes :: "nat option"
  job_fallback :: fallback
  job_steps :: "step list"

definition job_target :: "job \<Rightarrow> workflow_error + target" where
  "job_target j =
     and_then
       (if job_runs_on j \<noteq> [] then
          and_then (fail_if (job_uses j \<noteq> None) (NativePlacement RunsOnAndUses)) (\<lambda>_.
          and_then (fail_if (job_vm j \<noteq> vm_spec_default) (NativePlacement RunsOnAndVm)) (\<lambda>_.
          fail_if (list_ex (\<lambda>label. trim label = []) (job_runs_on j)) (NativePlacement EmptyLabel)))
        else Inr ())
       (\<lambda>_. case job_uses j of Some u \<Rightarrow> target_parse u | None \<Rightarrow> Inr target_any)"

section \<open>Which submits start a run\<close>

record submit_filter =
  sf_branches :: "string list"
  sf_branches_ignore :: "string list"
  sf_paths :: "string list"
  sf_paths_ignore :: "string list"

definition submit_filter_default :: submit_filter where
  "submit_filter_default =
     \<lparr>sf_branches = [], sf_branches_ignore = [], sf_paths = [], sf_paths_ignore = []\<rparr>"

definition submit_filter_validate :: "submit_filter \<Rightarrow> string \<Rightarrow> workflow_error + unit" where
  "submit_filter_validate f path =
     and_then (fail_if (sf_paths f \<noteq> [] \<and> sf_paths_ignore f \<noteq> [])
                 (ConflictingFilter path ''paths'' ''paths-ignore'')) (\<lambda>_.
     and_then (fail_if (sf_branches f \<noteq> [] \<and> sf_branches_ignore f \<noteq> [])
                 (ConflictingFilter path ''branches'' ''branches-ignore'')) (\<lambda>_.
     for_each
       (\<lambda>(field, patterns).
          for_each (\<lambda>pattern. map_err (BadFilter path field) (validate_pattern pattern)) patterns)
       [(''branches'', sf_branches f), (''branches-ignore'', sf_branches_ignore f),
        (''paths'', sf_paths f), (''paths-ignore'', sf_paths_ignore f)]))"

datatype skip_reason =
    BranchNotListed string "string list"
  | BranchIgnored string string
  | NothingUnderPaths "string list" changes
  | AllPathsIgnored "string list"

definition admits :: "submit_filter \<Rightarrow> string \<Rightarrow> changes \<Rightarrow> skip_reason + unit" where
  "admits f branch ch =
     (if sf_branches f \<noteq> [] \<and> \<not> list_ex (\<lambda>p. path_matches p branch) (sf_branches f)
      then Inl (BranchNotListed branch (sf_branches f))
      else case find (\<lambda>p. path_matches p branch) (sf_branches_ignore f) of
        Some hit \<Rightarrow> Inl (BranchIgnored branch hit)
      | None \<Rightarrow>
          if sf_paths f \<noteq> [] \<and> \<not> matches_any ch (sf_paths f)
          then Inl (NothingUnderPaths (sf_paths f) ch)
          else if all_match ch (sf_paths_ignore f) then Inl (AllPathsIgnored (sf_paths_ignore f))
          else Inr ())"

section \<open>The workflow\<close>

record workflow =
  wf_path :: string
  wf_name :: "string option"
  wf_on :: "string list"
  wf_on_submit :: submit_filter
  wf_env :: str_map
  wf_jobs :: "(string \<times> job) list"

definition display_name :: "workflow \<Rightarrow> string" where
  "display_name w = (case wf_name w of Some n \<Rightarrow> n | None \<Rightarrow> wf_path w)"

definition is_job_id :: "string \<Rightarrow> bool" where
  "is_job_id s \<longleftrightarrow> s \<noteq> [] \<and> length s \<le> 64 \<and>
     list_all (\<lambda>b. is_ascii_alphanumeric b \<or> b = CHR ''_'' \<or> b = CHR ''-'') s"

subsection \<open>The search for a cycle\<close>

definition job_deps :: "(string \<times> job) list \<Rightarrow> deps" where
  "job_deps jobs = map (\<lambda>(jid, j). (jid, job_needs j)) jobs"

definition find_cycle :: "workflow \<Rightarrow> string list option" where
  "find_cycle w =
     (case search_cycle (job_deps (wf_jobs w)) of None \<Rightarrow> None | Some (r, _) \<Rightarrow> r)"

subsection \<open>Validation\<close>

definition validate_step :: "string \<Rightarrow> nat \<times> step \<Rightarrow> workflow_error + unit" where
  "validate_step jid ist =
     (case ist of (i, st) \<Rightarrow>
        (case (step_run st, step_uses st) of
           (Some _, Some _) \<Rightarrow> Inl (StepRunAndUses jid (step_label st i))
         | (None, None) \<Rightarrow> Inl (StepNeitherRunNorUses jid (step_label st i))
         | _ \<Rightarrow> Inr ()))"

definition validate_need :: "string set \<Rightarrow> string \<Rightarrow> string \<Rightarrow> workflow_error + unit" where
  "validate_need ids jid need =
     and_then (fail_if (need \<notin> ids) (UnknownNeed jid need)) (\<lambda>_. fail_if (need = jid) (SelfNeed jid))"

definition validate_job :: "string set \<Rightarrow> string \<times> job \<Rightarrow> workflow_error + unit" where
  "validate_job ids ij =
     (case ij of (jid, j) \<Rightarrow>
        and_then (fail_if (\<not> is_job_id jid) (BadJobId jid)) (\<lambda>_.
        and_then (map_err (BadVm jid) (vm_spec_validate (job_vm j))) (\<lambda>_.
        and_then (map_err (BadUses jid) (job_target j)) (\<lambda>_.
        and_then (for_each (validate_need ids jid) (job_needs j)) (\<lambda>_.
        and_then (fail_if (job_steps j = []) (NoSteps jid)) (\<lambda>_.
        for_each (validate_step jid) (enumerate 0 (job_steps j))))))))"

definition workflow_validate :: "workflow \<Rightarrow> workflow_error + unit" where
  "workflow_validate w =
     (let ids = set (map fst (wf_jobs w)) in
      and_then (fail_if (card ids \<noteq> length (wf_jobs w)) (DuplicateJob (wf_path w))) (\<lambda>_.
      and_then (for_each (validate_job ids) (wf_jobs w)) (\<lambda>_.
      case find_cycle w of Some c \<Rightarrow> Inl (Cycle c) | None \<Rightarrow> Inr ())))"

subsection \<open>Parsing\<close>

record workflow_header =
  hdr_name :: "string option"
  hdr_on :: "yaml option"
  hdr_env :: str_map
  hdr_jobs :: yaml

record workflow_serde =
  header_from_str :: "string \<Rightarrow> string + workflow_header"
  job_from_value :: "yaml \<Rightarrow> string + job"
  filter_from_value :: "yaml \<Rightarrow> string + submit_filter"
  yaml_debug :: "yaml \<Rightarrow> string"

definition parse_submit_filter :: "workflow_serde \<Rightarrow> string \<Rightarrow> yaml \<Rightarrow> workflow_error + submit_filter" where
  "parse_submit_filter S path v =
     (case y_as_mapping v of
        None \<Rightarrow> Inr submit_filter_default
      | Some m \<Rightarrow>
          (case find (\<lambda>(k, _). y_as_str k = Some ''submit'') m of
             None \<Rightarrow> Inr submit_filter_default
           | Some (_, block) \<Rightarrow>
               if untag block = YNull then Inr submit_filter_default
               else map_err (BadTriggerBlock path) (filter_from_value S block)))"

definition trigger_names :: "yaml \<Rightarrow> string list" where
  "trigger_names v =
     (case v of
        YString s \<Rightarrow> [s]
      | YSequence items \<Rightarrow> List.map_filter y_as_str items
      | YMapping m \<Rightarrow> List.map_filter (\<lambda>(k, _). y_as_str k) m
      | _ \<Rightarrow> [])"

definition parse_job :: "workflow_serde \<Rightarrow> string \<Rightarrow> yaml \<times> yaml \<Rightarrow> workflow_error + string \<times> job" where
  "parse_job S path kv =
     (case kv of (key, v) \<Rightarrow>
        and_then (ok_or (BadJobId (yaml_debug S key)) (y_as_str key)) (\<lambda>jid.
        and_then (map_err (BadJob path jid) (job_from_value S v)) (\<lambda>j. Inr (jid, j))))"

definition parse_on :: "workflow_serde \<Rightarrow> string \<Rightarrow> yaml option \<Rightarrow>
    workflow_error + string list \<times> submit_filter" where
  "parse_on S path on =
     (case on of
        None \<Rightarrow> Inr ([''submit''], submit_filter_default)
      | Some v \<Rightarrow>
          and_then
            (fail_if
              (case y_as_mapping v of
                 None \<Rightarrow> False
               | Some m \<Rightarrow> (case map_of m (YString ''release'') of
                     None \<Rightarrow> False | Some r \<Rightarrow> untag r \<noteq> YNull))
              (YamlError path ReleaseFilters))
            (\<lambda>_. and_then (parse_submit_filter S path v) (\<lambda>f. Inr (trigger_names v, f))))"

definition workflow_parse :: "workflow_serde \<Rightarrow> string \<Rightarrow> string \<Rightarrow> workflow_error + workflow" where
  "workflow_parse S path yaml =
     and_then (map_err (\<lambda>d. YamlError path (SerdeDetail d)) (header_from_str S yaml)) (\<lambda>h.
     case y_as_mapping (hdr_jobs h) of
       None \<Rightarrow> Inl (NoJobs path)
     | Some m \<Rightarrow>
         and_then (fail_if (m = []) (NoJobs path)) (\<lambda>_.
         and_then (collect (parse_job S path) m) (\<lambda>jobs.
         and_then (parse_on S path (hdr_on h)) (\<lambda>(on, on_submit).
         and_then (submit_filter_validate on_submit path) (\<lambda>_.
         let w = \<lparr>wf_path = path, wf_name = hdr_name h, wf_on = on, wf_on_submit = on_submit,
                   wf_env = hdr_env h, wf_jobs = jobs\<rparr>
         in and_then (workflow_validate w) (\<lambda>_. Inr w))))))"

section \<open>Placement round trips\<close>

lemma is_continuation_slash [simp]: "\<not> is_continuation (CHR ''/'')"
  by (simp add: is_continuation_def byte_def)

lemma chars_slash: "chars (CHR ''/'' # t) =
    (CHR ''/'' # takeWhile is_continuation t) # chars (dropWhile is_continuation t)"
  by simp

lemma slash_group_not_whitespace [simp]: "\<not> is_whitespace (CHR ''/'' # t)"
  by (simp add: is_whitespace_def unicode_whitespace_def byte_def)

lemma chars_Nil_iff [simp]: "chars s = [] \<longleftrightarrow> s = []"
  by (cases s) simp_all

lemma last_chars_slash:
  assumes "trimmed (chars t)"
  shows "\<not> is_whitespace (last (chars (CHR ''/'' # t)))"
proof (cases "dropWhile is_continuation t = []")
  case True
  then show ?thesis unfolding chars_slash True by simp
next
  case False
  obtain c cs where t: "t = c # cs" using False by (cases t) auto
  have "last (chars (dropWhile is_continuation t)) = last (chars t)"
  proof (cases "is_continuation c")
    case True
    with t False show ?thesis by (simp del: dropWhile_eq_Nil_conv)
  next
    case False
    with t show ?thesis by simp
  qed
  moreover have "\<not> is_whitespace (last (chars t))" using assms t by (simp add: trimmed_def)
  ultimately show ?thesis using False by (simp add: chars_Nil_iff)
qed

lemma trim_slash_join:
  assumes "trimmed (chars a)" "a \<noteq> []" "trimmed (chars b)"
  shows "trim (a @ CHR ''/'' # b) = a @ CHR ''/'' # b"
proof (rule trim_id)
  have ne: "chars a \<noteq> []" using assms(2) by simp
  show "trimmed (chars (a @ CHR ''/'' # b))"
    unfolding chars_append_ascii[OF is_continuation_slash] trimmed_def
    using assms ne last_chars_slash[OF assms(3)]
    by (auto simp: trimmed_def simp del: chars.simps)
qed

lemma trimmed_chars_trim: "trimmed (chars (trim s))"
  by (simp add: chars_trim trim_groups_trimmed)

lemma no_slash_trim: "CHR ''/'' \<notin> set w \<Longrightarrow> CHR ''/'' \<notin> set (trim w)"
  using set_trim by blast

lemma not_default: "CHR ''/'' \<in> set s \<Longrightarrow> \<not> eq_ignore_ascii_case s DEFAULT_NODE"
proof
  assume "CHR ''/'' \<in> set s" "eq_ignore_ascii_case s DEFAULT_NODE"
  then have "ascii_lower (CHR ''/'') \<in> set (to_ascii_lowercase DEFAULT_NODE)"
    by (metis eq_ignore_ascii_case_def image_eqI set_map to_ascii_lowercase_def)
  then show False by (simp add: to_ascii_lowercase_def DEFAULT_NODE_def ascii_defs)
qed

text \<open>A name as one segment of a parsed \<open>uses:\<close> value carries it.\<close>

definition segment_name :: "string \<Rightarrow> bool" where
  "segment_name s \<longleftrightarrow> s \<noteq> [] \<and> trimmed (chars s) \<and> CHR ''/'' \<notin> set s"

lemma segment_name_trim: "segment_name s \<Longrightarrow> trim s = s"
  by (simp add: segment_name_def trim_id)

lemma split_segment: "segment_name a \<Longrightarrow>
    split_on CHR ''/'' (a @ CHR ''/'' # t) = a # split_on CHR ''/'' t"
  by (simp add: segment_name_def split_on_append)

lemma split_last_segment: "segment_name a \<Longrightarrow> split_on CHR ''/'' a = [a]"
  by (simp add: segment_name_def split_on_no_delim)

lemma segment_star: "segment_name ''*''"
  by (simp add: segment_name_def trimmed_def is_whitespace_def unicode_whitespace_def byte_def)

lemma trim_two: "segment_name a \<Longrightarrow> segment_name b \<Longrightarrow> trim (a @ CHR ''/'' # b) = a @ CHR ''/'' # b"
  by (simp add: segment_name_def trim_slash_join)

lemma trimmed_two: "segment_name a \<Longrightarrow> segment_name b \<Longrightarrow> trimmed (chars (a @ CHR ''/'' # b))"
  by (metis trim_two trimmed_chars_trim)

lemma trim_three: "segment_name a \<Longrightarrow> segment_name b \<Longrightarrow> segment_name c \<Longrightarrow>
    trim (a @ CHR ''/'' # b @ CHR ''/'' # c) = a @ CHR ''/'' # b @ CHR ''/'' # c"
  using trimmed_two[of b c] by (intro trim_slash_join) (auto simp: segment_name_def)

definition target_wf :: "target \<Rightarrow> bool" where
  "target_wf t \<longleftrightarrow>
     (if tgt_local t then tgt_network t = None \<and> tgt_node t = None \<and> tgt_vm t = None
      else (\<exists>n. tgt_network t = Some n \<and> segment_name n) \<and>
           (\<forall>n. tgt_node t = Some n \<longrightarrow> segment_name n \<and> n \<noteq> ''*'') \<and>
           (\<forall>v. tgt_vm t = Some v \<longrightarrow> segment_name v \<and> v \<noteq> ''*'' \<and> tgt_node t \<noteq> None))"

lemma target_parse_wf: "target_parse raw = Inr t \<Longrightarrow> target_wf t"
proof -
  assume p: "target_parse raw = Inr t"
  let ?ws = "split_on CHR ''/'' (trim raw)"
  have seg: "segment_name (map trim ?ws ! i)" if "i < length ?ws" "map trim ?ws ! i \<noteq> []" for i
  proof -
    have "CHR ''/'' \<notin> set (?ws ! i)" using that(1) by (intro split_on_parts[of _ _ "trim raw"] nth_mem)
    with that no_slash_trim[of "?ws ! i"] trimmed_chars_trim show ?thesis
      by (simp add: segment_name_def)
  qed
  show ?thesis
  proof (cases "eq_ignore_ascii_case (trim raw) DEFAULT_NODE")
    case True
    with p show ?thesis by (auto simp: target_parse_def target_wf_def Let_def split: if_splits)
  next
    case False
    from False p obtain node vm where
      n: "parse_node (trim raw) (map trim ?ws) = Inr node" and v: "parse_vm (trim raw) (map trim ?ws) = Inr vm"
      and ne: "map trim ?ws ! 0 \<noteq> []" and both: "\<not> (vm \<noteq> None \<and> node = None)"
      and t: "t = \<lparr>tgt_network = Some (map trim ?ws ! 0), tgt_node = node, tgt_vm = vm, tgt_local = False\<rparr>"
      unfolding target_parse_def Let_def by (auto split: if_splits simp del: nth_map)
    have "segment_name (map trim ?ws ! 0)" by (rule seg) (use ne in auto)
    moreover have "segment_name m \<and> m \<noteq> ''*''" if "node = Some m" for m
      using n that seg[of 1] by (auto simp: parse_node_def split: if_splits simp del: nth_map)
    moreover have "segment_name m \<and> m \<noteq> ''*''" if "vm = Some m" for m
      using v that seg[of 2] by (auto simp: parse_vm_def split: if_splits simp del: nth_map)
    ultimately show ?thesis using t both by (auto simp: target_wf_def)
  qed
qed

lemma target_display_parse: "target_wf t \<Longrightarrow> target_parse (target_display t) = Inr t"
proof -
  assume w: "target_wf t"
  show ?thesis
  proof (cases "tgt_local t")
    case True
    with w have "t = \<lparr>tgt_network = None, tgt_node = None, tgt_vm = None, tgt_local = True\<rparr>"
      by (cases t) (simp add: target_wf_def)
    then show ?thesis
      by (simp add: target_display_def target_parse_def DEFAULT_NODE_def trim_def
          is_whitespace_def unicode_whitespace_def byte_def is_continuation_def)
  next
    case False
    with w obtain n where n: "tgt_network t = Some n" "segment_name n" by (auto simp: target_wf_def)
    have slash: "CHR ''/'' \<in> set (a @ CHR ''/'' # b)" for a b by simp
    note parse = target_parse_def parse_node_def parse_vm_def Let_def not_default split_segment
      split_last_segment segment_name_trim
    show ?thesis
    proof (cases "tgt_node t")
      case None
      with w False have "t = \<lparr>tgt_network = Some n, tgt_node = None, tgt_vm = None, tgt_local = False\<rparr>"
        using n by (cases t) (auto simp: target_wf_def)
      with n segment_star show ?thesis
        using trim_two[OF n(2) segment_star]
        by (simp add: target_display_def parse) (simp add: segment_name_def)
    next
      case (Some m)
      with w False have m: "segment_name m" "m \<noteq> ''*''" by (auto simp: target_wf_def)
      show ?thesis
      proof (cases "tgt_vm t")
        case None
        with Some False n have "t = \<lparr>tgt_network = Some n, tgt_node = Some m, tgt_vm = None, tgt_local = False\<rparr>"
          by (cases t) auto
        with n m show ?thesis
          using trim_two[OF n(2) m(1)]
          by (simp add: target_display_def parse) (simp add: segment_name_def)
      next
        case (Some v)
        with w False have v: "segment_name v" "v \<noteq> ''*''" by (auto simp: target_wf_def)
        from Some \<open>tgt_node t = Some m\<close> False n
        have "t = \<lparr>tgt_network = Some n, tgt_node = Some m, tgt_vm = Some v, tgt_local = False\<rparr>"
          by (cases t) auto
        with n m v show ?thesis
          using trim_three[OF n(2) m(1) v(1)]
          by (simp add: target_display_def parse) (simp add: segment_name_def)
      qed
    qed
  qed
qed

section \<open>What validation accepts\<close>

definition needs_graph :: "workflow \<Rightarrow> (string \<times> string) set" where
  "needs_graph w = {(a, b). \<exists>j. (a, j) \<in> set (wf_jobs w) \<and> b \<in> set (job_needs j)}"

definition step_ok :: "step \<Rightarrow> bool" where
  "step_ok st \<longleftrightarrow> (step_run st = None) \<noteq> (step_uses st = None)"

definition job_ok :: "string set \<Rightarrow> string \<Rightarrow> job \<Rightarrow> bool" where
  "job_ok ids jid j \<longleftrightarrow> is_job_id jid \<and> vm_spec_validate (job_vm j) = Inr () \<and>
     (\<exists>t. job_target j = Inr t) \<and> set (job_needs j) \<subseteq> ids \<and> job_steps j \<noteq> [] \<and>
     list_all step_ok (job_steps j)"

definition workflow_ok :: "workflow \<Rightarrow> bool" where
  "workflow_ok w \<longleftrightarrow> distinct (map fst (wf_jobs w)) \<and>
     (\<forall>(jid, j) \<in> set (wf_jobs w). job_ok (set (map fst (wf_jobs w))) jid j) \<and>
     acyclic (needs_graph w)"

lemma validate_step_Inr [simp]: "validate_step jid (i, st) = Inr u \<longleftrightarrow> step_ok st"
  by (auto simp: validate_step_def step_ok_def split: option.splits)

lemma validate_need_Inr [simp]: "validate_need ids jid n = Inr u \<longleftrightarrow> n \<in> ids \<and> n \<noteq> jid"
  by (auto simp: validate_need_def)

lemma validate_job_Inr:
  "validate_job ids (jid, j) = Inr u \<longleftrightarrow> job_ok ids jid j \<and> jid \<notin> set (job_needs j)"
proof -
  have "(\<forall>x \<in> set (enumerate 0 (job_steps j)). validate_step jid x = Inr ()) \<longleftrightarrow>
      list_all step_ok (job_steps j)"
    by (auto simp: list_all_length in_set_enumerate_eq all_set_conv_all_nth nth_enumerate_eq)
  then show ?thesis by (auto simp: validate_job_def job_ok_def)
qed

lemma deps_get_job_deps:
  assumes "distinct (map fst jobs)"
  shows "deps_get (job_deps jobs) a = Some ns \<longleftrightarrow> (\<exists>j. (a, j) \<in> set jobs \<and> ns = job_needs j)"
proof -
  have "map fst (job_deps jobs) = map fst jobs" by (induction jobs) (auto simp: job_deps_def)
  with assms have "distinct (map fst (rev (job_deps jobs)))" by (simp flip: rev_map)
  then have "deps_get (job_deps jobs) a = Some ns \<longleftrightarrow> (a, ns) \<in> set (job_deps jobs)"
    by (simp add: deps_get_def)
  then show ?thesis by (auto simp: job_deps_def)
qed

lemma edges_needs_graph:
  assumes d: "distinct (map fst (wf_jobs w))"
    and closed: "\<And>a j. (a, j) \<in> set (wf_jobs w) \<Longrightarrow> set (job_needs j) \<subseteq> set (map fst (wf_jobs w))"
  shows "edges (job_deps (wf_jobs w)) = needs_graph w"
proof -
  have get: "deps_get (job_deps (wf_jobs w)) b \<noteq> None \<longleftrightarrow> b \<in> set (map fst (wf_jobs w))" for b
    using deps_get_job_deps[OF d, of b] by force
  show ?thesis
    using closed by (auto simp: edges_def edge_def needs_graph_def deps_get_job_deps[OF d] get
        simp del: not_None_eq)
qed

lemma find_cycle_cases:
  "search_cycle (job_deps (wf_jobs w)) \<noteq> None \<and>
   (case find_cycle w of
      None \<Rightarrow> acyclic (edges (job_deps (wf_jobs w)))
    | Some c \<Rightarrow> closed_walk (job_deps (wf_jobs w)) c)"
proof -
  obtain r st where s: "search_cycle (job_deps (wf_jobs w)) = Some (r, st)"
    using search_cycle_total by (metis not_Some_eq surj_pair)
  then show ?thesis
    using search_cycle_sound[of _ _ st] search_cycle_complete[of _ st]
    by (cases r) (simp_all add: find_cycle_def)
qed

lemma find_cycle_None_iff: "find_cycle w = None \<longleftrightarrow> acyclic (edges (job_deps (wf_jobs w)))"
  using find_cycle_cases[of w] closed_walk_cyclic by (cases "find_cycle w") auto

lemma workflow_validate_iff: "workflow_validate w = Inr u \<longleftrightarrow> workflow_ok w"
proof -
  let ?ids = "set (map fst (wf_jobs w))"
  have card: "card ?ids = length (wf_jobs w) \<longleftrightarrow> distinct (map fst (wf_jobs w))"
    by (metis card_distinct distinct_card length_map)
  have self: "acyclic (needs_graph w) \<Longrightarrow> (jid, j) \<in> set (wf_jobs w) \<Longrightarrow> jid \<notin> set (job_needs j)" for jid j
    by (force simp: acyclic_def needs_graph_def)
  have find: "(case find_cycle w of Some c \<Rightarrow> Inl (Cycle c) | None \<Rightarrow> Inr ()) = Inr () \<longleftrightarrow> find_cycle w = None"
    by (cases "find_cycle w") auto
  have graph: "distinct (map fst (wf_jobs w)) \<Longrightarrow> (\<forall>(jid, j) \<in> set (wf_jobs w). job_ok ?ids jid j) \<Longrightarrow>
      edges (job_deps (wf_jobs w)) = needs_graph w"
    by (rule edges_needs_graph) (auto simp: job_ok_def)
  have "workflow_validate w = Inr u \<longleftrightarrow> distinct (map fst (wf_jobs w)) \<and>
      (\<forall>(jid, j) \<in> set (wf_jobs w). job_ok ?ids jid j \<and> jid \<notin> set (job_needs j)) \<and>
      acyclic (edges (job_deps (wf_jobs w)))"
    unfolding workflow_validate_def Let_def and_then_Inr_iff fail_if_Inr_iff for_each_Inr_iff
    by (auto simp: card find find_cycle_None_iff[symmetric] validate_job_Inr simp del: set_map)
  also have "\<dots> \<longleftrightarrow> workflow_ok w"
  proof (cases "distinct (map fst (wf_jobs w)) \<and> (\<forall>(jid, j) \<in> set (wf_jobs w). job_ok ?ids jid j)")
    case True
    then have "edges (job_deps (wf_jobs w)) = needs_graph w" using graph by blast
    with True self show ?thesis unfolding workflow_ok_def by (auto simp del: set_map)
  next
    case False
    then show ?thesis unfolding workflow_ok_def by (auto simp del: set_map)
  qed
  finally show ?thesis .
qed

lemma workflow_parse_ok: "workflow_parse S path y = Inr w \<Longrightarrow> workflow_ok w \<and> wf_path w = path"
  unfolding workflow_parse_def
  by (auto simp: Let_def workflow_validate_iff split: option.splits prod.splits)

section \<open>What a submit filter admits\<close>

definition covers_path :: "string \<Rightarrow> string \<Rightarrow> bool" where
  "covers_path pat path \<longleftrightarrow>
     covers (split_on CHR ''/'' (trim_start_matches ''./'' (trim pat)))
       (split_on CHR ''/'' (trim_start_matches ''./'' path))"

lemma path_matches_covers: "path_matches pat path = covers_path pat path"
  by (simp add: path_simps covers_path_def)

definition branch_admitted :: "submit_filter \<Rightarrow> string \<Rightarrow> bool" where
  "branch_admitted f branch \<longleftrightarrow>
     (sf_branches f = [] \<or> (\<exists>p \<in> set (sf_branches f). covers_path p branch)) \<and>
     (\<forall>p \<in> set (sf_branches_ignore f). \<not> covers_path p branch)"

definition paths_admitted :: "submit_filter \<Rightarrow> string list \<Rightarrow> bool" where
  "paths_admitted f changed \<longleftrightarrow>
     (sf_paths f = [] \<or> (\<exists>p \<in> set (sf_paths f). \<exists>c \<in> set changed. covers_path p c)) \<and>
     (sf_paths_ignore f = [] \<or> changed = [] \<or>
        (\<exists>c \<in> set changed. \<forall>p \<in> set (sf_paths_ignore f). \<not> covers_path p c))"

lemma admits_iff:
  "admits f branch ch = Inr u \<longleftrightarrow> branch_admitted f branch \<and>
     (case ch of Known changed \<Rightarrow> paths_admitted f changed | Unknown _ \<Rightarrow> True)"
proof -
  have "admits f branch ch = Inr u \<longleftrightarrow>
      branch_admitted f branch \<and> (sf_paths f = [] \<or> matches_any ch (sf_paths f)) \<and>
      \<not> all_match ch (sf_paths_ignore f)"
  proof (cases "find (\<lambda>p. covers_path p branch) (sf_branches_ignore f)")
    case None
    then have "\<forall>p \<in> set (sf_branches_ignore f). \<not> covers_path p branch" by (auto simp: find_None_iff)
    with None show ?thesis
      by (auto simp: admits_def branch_admitted_def path_matches_covers list_ex_iff)
  next
    case (Some hit)
    with find_set[OF Some] show ?thesis
      by (auto simp: admits_def branch_admitted_def path_matches_covers list_ex_iff)
  qed
  then show ?thesis
    by (cases ch) (auto simp: paths_admitted_def path_matches_covers list_ex_iff list_all_iff)
qed

section \<open>Properties\<close>

text \<open>
  C17. Validation accepts exactly the well-formed workflows: distinct, well-formed job ids, valid VM
  specs and targets, needs that name other jobs of the workflow, steps that are either a command or
  an action, and an acyclic graph of needs.
\<close>

theorem workflow_validate_exact: "(\<exists>u. workflow_validate w = Inr u) \<longleftrightarrow> workflow_ok w"
  by (simp add: workflow_validate_iff)

text \<open>
  A target survives printing: what a job's placement parses to, printed by its display, parses
  to the same target.
\<close>

theorem target_round_trip:
  "case target_parse raw of Inl _ \<Rightarrow> True | Inr t \<Rightarrow> target_parse (target_display t) = Inr t"
  by (auto simp: target_display_parse dest: target_parse_wf split: sum.splits)

text \<open>
  The submit filter starts a run exactly when the branch is listed and not ignored and, if the
  changed paths are known, one of them is under the listed paths and not all of them are ignored. A
  submit whose changes are unknown is never held back by a path filter.
\<close>

theorem admits_exact:
  "(\<exists>u. admits f branch ch = Inr u) \<longleftrightarrow> branch_admitted f branch \<and>
     (case ch of Known changed \<Rightarrow> paths_admitted f changed | Unknown _ \<Rightarrow> True)"
  by (simp add: admits_iff)

end
