(* ===== verification/Expr.thy ===== *)
theory Expr
  imports Paths Json_Value
begin

text \<open>
  Expression evaluation (\<open>ci/src/expr.rs\<close>): the context an expression reads, the tokenizer, the
  recursive-descent parser that evaluates while it parses, and the substitution of expressions in
  text. The theory shows that the parser always ends, that it gives every operator the precedence
  and associativity of a reference evaluator over syntax trees, and that substitution rewrites
  exactly the closed expressions of a text.
\<close>

section \<open>Tokens and errors\<close>

datatype tok =
    Ident string | Str string | Num f64 | Dot | LParen | RParen | Comma
  | EqEq | NotEq | Gt | Ge | Lt | Le | And | Or | Not

text \<open>\<open>Unexpected\<close> and \<open>Trailing\<close> carry the token the source renders with its debug format.\<close>

datatype expr_error =
    UnexpectedChar char
  | UnterminatedString
  | BadNumber string
  | UnclosedParen
  | TrailingDot string
  | Unexpected "tok option"
  | Trailing tok
  | UnknownFunction string

section \<open>Values\<close>

fun walk :: "json \<Rightarrow> string list \<Rightarrow> json" where
  "walk cur [] = cur"
| "walk cur (seg # segs) =
     walk (case cur of
             Object m \<Rightarrow> (case map_of m seg of Some v \<Rightarrow> v | None \<Rightarrow> Null)
           | Array items \<Rightarrow>
               (case parse_unsigned u64_max seg of
                  Some i \<Rightarrow> if i < length items then items ! i else Null
                | None \<Rightarrow> Null)
           | _ \<Rightarrow> Null) segs"

fun f64_abs :: "f64 \<Rightarrow> f64" where
  "f64_abs (F64 _ m e) = F64 False m e"
| "f64_abs (F64Inf _) = F64Inf False"
| "f64_abs F64NaN = F64NaN"

text \<open>\<open>Number::from_f64\<close> refuses what is not finite.\<close>

definition number :: "f64 \<Rightarrow> json" where
  "number n =
     (if f64_integral n \<and> f64_lt (f64_abs n) (f64_of_int 9007199254740992)
      then Number (NInt (f64_trunc n))
      else (case n of F64 _ _ _ \<Rightarrow> Number (NFloat n) | _ \<Rightarrow> Null))"

definition to_display :: "json_ops \<Rightarrow> json \<Rightarrow> string" where
  "to_display J v =
     (case v of
        Null \<Rightarrow> []
      | String s \<Rightarrow> s
      | Bool b \<Rightarrow> (if b then ''true'' else ''false'')
      | Number n \<Rightarrow> num_str J n
      | other \<Rightarrow> value_str J other)"

definition truthy :: "json \<Rightarrow> bool" where
  "truthy v =
     (case v of
        Null \<Rightarrow> False
      | Bool b \<Rightarrow> b
      | Number n \<Rightarrow> \<not> f64_is_zero (num_as_f64 n)
      | String s \<Rightarrow> s \<noteq> [] \<and> s \<noteq> ''false'' \<and> s \<noteq> ''0''
      | Array a \<Rightarrow> a \<noteq> []
      | Object m \<Rightarrow> m \<noteq> [])"

definition loose_eq :: "json_ops \<Rightarrow> json \<Rightarrow> json \<Rightarrow> bool" where
  "loose_eq J a b =
     (case (a, b) of
        (Null, Null) \<Rightarrow> True
      | (Bool x, Bool y) \<Rightarrow> x = y
      | (Number x, Number y) \<Rightarrow> f64_eq (num_as_f64 x) (num_as_f64 y)
      | (String x, String y) \<Rightarrow> x = y
      | (Null, _) \<Rightarrow> False
      | (_, Null) \<Rightarrow> False
      | _ \<Rightarrow> to_display J a = to_display J b)"

definition as_number :: "json \<Rightarrow> f64 option" where
  "as_number v =
     (case v of
        Number n \<Rightarrow> Some (num_as_f64 n)
      | String s \<Rightarrow> parse_f64 (trim s)
      | Bool b \<Rightarrow> Some (f64_of_int (if b then 1 else 0))
      | _ \<Rightarrow> None)"

section \<open>The context\<close>

type_synonym expr_context = "(string \<times> json) list"

definition ctx_new :: expr_context where
  "ctx_new = []"

definition ctx_into_value :: "expr_context \<Rightarrow> json" where
  "ctx_into_value c = Object c"

definition ctx_from_value :: "json \<Rightarrow> expr_context" where
  "ctx_from_value v = (case v of Object m \<Rightarrow> btree_extend [] m | _ \<Rightarrow> [])"

definition ctx_set :: "expr_context \<Rightarrow> string \<Rightarrow> json \<Rightarrow> expr_context" where
  "ctx_set c scope v = btree_insert scope v c"

definition set_status :: "expr_context \<Rightarrow> string \<Rightarrow> expr_context" where
  "set_status c s = ctx_set c ''__status'' (String s)"

definition ctx_status :: "expr_context \<Rightarrow> string" where
  "ctx_status c = (case map_of c ''__status'' of Some (String s) \<Rightarrow> s | _ \<Rightarrow> ''success'')"

definition lookup :: "expr_context \<Rightarrow> string list \<Rightarrow> json" where
  "lookup c path =
     (case path of
        [] \<Rightarrow> Null
      | first # rest \<Rightarrow> (case map_of c first of Some v \<Rightarrow> walk v rest | None \<Rightarrow> Null))"

section \<open>The tokenizer\<close>

text \<open>
  The source scans the bytes with an index; the model recurses on what is left. A byte of a string
  literal is pushed \<open>as char\<close>, so a byte from 128 on is re-encoded as two.
\<close>

definition latin1 :: "char \<Rightarrow> string" where
  "latin1 c = (if byte c < 128 then [c]
               else [char_of (192 + byte c div 64), char_of (128 + byte c mod 64)])"

fun scan_str :: "char \<Rightarrow> string \<Rightarrow> (string \<times> string) option" where
  "scan_str q [] = None"
| "scan_str q (c # cs) =
     (if c = q then
        (case cs of
           d # ds \<Rightarrow> if q = CHR 0x27 \<and> d = CHR 0x27
                     then map_option (\<lambda>(lit, r). (CHR 0x27 # lit, r)) (scan_str q ds)
                     else Some ([], cs)
         | [] \<Rightarrow> Some ([], cs))
      else map_option (\<lambda>(lit, r). (latin1 c @ lit, r)) (scan_str q cs))"

fun scan_num :: "string \<Rightarrow> string \<times> string" where
  "scan_num [] = ([], [])"
| "scan_num (c # cs) =
     (if is_ascii_digit c \<or> (c = CHR ''.'' \<and> cs \<noteq> [] \<and> is_ascii_digit (hd cs))
      then (case scan_num cs of (t, r) \<Rightarrow> (c # t, r))
      else ([], c # cs))"

definition ident_byte :: "char \<Rightarrow> bool" where
  "ident_byte c \<longleftrightarrow> is_ascii_alphanumeric c \<or> c = CHR ''_'' \<or> c = CHR ''-'' \<or> c = CHR ''*''"

lemma scan_str_shrinks: "scan_str q s = Some (lit, r) \<Longrightarrow> length r < length s"
proof (induction q s arbitrary: lit r rule: scan_str.induct)
  case (2 q c cs)
  then show ?case by (fastforce split: if_splits list.splits)
qed simp

lemma scan_num_shrinks: "length (snd (scan_num s)) \<le> length s"
  by (induction s) (auto split: prod.splits)

lemma scan_num_digit: "is_ascii_digit c \<Longrightarrow> length (snd (scan_num (c # cs))) < length (c # cs)"
  using scan_num_shrinks[of cs] by (auto split: prod.splits)

lemma tokenize_shrinks:
  "(cs, c # cs) \<in> measure length" "(drop 1 cs, c # cs) \<in> measure length"
  "(dropWhile ident_byte cs, c # cs) \<in> measure length"
  by (simp_all add: less_Suc_eq_le length_dropWhile_le)

lemma tokenize_shrinks_str: "scan_str q cs = Some z \<Longrightarrow> (lit, r) = z \<Longrightarrow> (r, c # cs) \<in> measure length"
  using scan_str_shrinks[of q cs lit r] by simp

lemma tokenize_shrinks_num: "is_ascii_digit c \<Longrightarrow> (snd (scan_num (c # cs)), c # cs) \<in> measure length"
  using scan_num_digit[of c cs] by simp

definition push :: "tok \<Rightarrow> expr_error + tok list \<Rightarrow> expr_error + tok list" where
  "push t r = and_then r (\<lambda>ts. Inr (t # ts))"

function tokenize :: "string \<Rightarrow> expr_error + tok list" where
  "tokenize [] = Inr []"
| "tokenize (c # cs) =
     (if is_ascii_whitespace c then tokenize cs
      else if c = CHR ''.'' then push Dot (tokenize cs)
      else if c = CHR ''('' then push LParen (tokenize cs)
      else if c = CHR '')'' then push RParen (tokenize cs)
      else if c = CHR '','' then push Comma (tokenize cs)
      else if prefix ''=='' (c # cs) then push EqEq (tokenize (drop 1 cs))
      else if prefix ''!='' (c # cs) then push NotEq (tokenize (drop 1 cs))
      else if c = CHR ''!'' then push Not (tokenize cs)
      else if prefix ''>='' (c # cs) then push Ge (tokenize (drop 1 cs))
      else if c = CHR ''>'' then push Gt (tokenize cs)
      else if prefix ''<='' (c # cs) then push Le (tokenize (drop 1 cs))
      else if c = CHR ''<'' then push Lt (tokenize cs)
      else if prefix ''&&'' (c # cs) then push And (tokenize (drop 1 cs))
      else if prefix ''||'' (c # cs) then push Or (tokenize (drop 1 cs))
      else if c = CHR 0x27 \<or> c = CHR 0x22 then
        (case scan_str c cs of
           None \<Rightarrow> Inl UnterminatedString
         | Some (lit, r) \<Rightarrow> push (Str lit) (tokenize r))
      else if is_ascii_digit c then
        (case parse_f64 (fst (scan_num (c # cs))) of
           None \<Rightarrow> Inl (BadNumber (fst (scan_num (c # cs))))
         | Some n \<Rightarrow> push (Num n) (tokenize (snd (scan_num (c # cs)))))
      else if ident_byte c then
        push (Ident (takeWhile ident_byte (c # cs))) (tokenize (dropWhile ident_byte cs))
      else Inl (UnexpectedChar c))"
  by pat_completeness auto
termination
  by (relation "measure length")
    (rule wf_measure | rule tokenize_shrinks | (rule tokenize_shrinks_str, assumption, assumption)
      | (rule tokenize_shrinks_num, assumption))+

declare tokenize.simps(2) [simp del]

section \<open>The functions\<close>

definition arg_str :: "json_ops \<Rightarrow> json list \<Rightarrow> nat \<Rightarrow> string" where
  "arg_str J args i = (if i < length args then to_display J (args ! i) else [])"

definition first_arg :: "json list \<Rightarrow> json" where
  "first_arg args = (case args of [] \<Rightarrow> Null | a # _ \<Rightarrow> a)"

definition call_contains :: "json_ops \<Rightarrow> json list \<Rightarrow> json" where
  "call_contains J args = Bool
     (case first_arg args of
        Array items \<Rightarrow> list_ex (\<lambda>i. loose_eq J i (if 1 < length args then args ! 1 else Null)) items
      | _ \<Rightarrow> str_contains (arg_str J args 0) (arg_str J args 1))"

definition call_format :: "json_ops \<Rightarrow> json list \<Rightarrow> json" where
  "call_format J args = String
     (fold (\<lambda>(i, a) out. str_replace (''{'' @ nat_str i @ ''}'') (to_display J a) out)
        (enumerate 0 (drop 1 args)) (arg_str J args 0))"

definition call_join :: "json_ops \<Rightarrow> json list \<Rightarrow> json" where
  "call_join J args =
     (let sep = (if length args > 1 then arg_str J args 1 else '','') in
      String (case first_arg args of
                Array items \<Rightarrow> join sep (map (to_display J) items)
              | _ \<Rightarrow> arg_str J args 0))"

definition call_changed :: "json_ops \<Rightarrow> expr_context \<Rightarrow> json list \<Rightarrow> json" where
  "call_changed J ctx args =
     (if \<not> truthy (lookup ctx [''ci'', ''changes_known'']) then Bool True
      else (case lookup ctx [''ci'', ''changed_files''] of
              Array files \<Rightarrow>
                Bool (list_ex (\<lambda>pat. list_ex (\<lambda>f. path_matches (to_display J pat) (to_display J f)) files) args)
            | _ \<Rightarrow> Bool True))"

definition call :: "json_ops \<Rightarrow> expr_context \<Rightarrow> string \<Rightarrow> json list \<Rightarrow> expr_error + json" where
  "call J ctx name args =
     (if name = ''contains'' then Inr (call_contains J args)
      else if name = ''startsWith'' then Inr (Bool (prefix (arg_str J args 1) (arg_str J args 0)))
      else if name = ''endsWith'' then Inr (Bool (suffix (arg_str J args 1) (arg_str J args 0)))
      else if name = ''format'' then Inr (call_format J args)
      else if name = ''join'' then Inr (call_join J args)
      else if name = ''toJSON'' then Inr (String (value_str J (first_arg args)))
      else if name = ''fromJSON'' then
        Inr (case from_json J (arg_str J args 0) of Some v \<Rightarrow> v | None \<Rightarrow> Null)
      else if name = ''changed'' then Inr (call_changed J ctx args)
      else if name = ''success'' then Inr (Bool (ctx_status ctx = ''success''))
      else if name = ''failure'' then Inr (Bool (ctx_status ctx = ''failure''))
      else if name = ''cancelled'' then Inr (Bool (ctx_status ctx = ''cancelled''))
      else if name = ''always'' then Inr (Bool True)
      else Inl (UnknownFunction name))"

section \<open>The parser\<close>

text \<open>
  A parse result is \<open>None\<close> when the fuel ran out, and otherwise an error or a value with the tokens
  left. The functions below \<open>parse_or\<close> in the grammar take the parser for a parenthesised
  expression as an argument; \<open>parse_or\<close> closes the recursion, one unit of fuel for every level of
  nesting, and a loop spends one unit for every turn. Both are bounded by the number of tokens.
\<close>

type_synonym presult = "(expr_error + json \<times> tok list) option"
type_synonym parser = "tok list \<Rightarrow> presult"

definition pbind :: "(expr_error + 'a) option \<Rightarrow> ('a \<Rightarrow> (expr_error + 'b) option) \<Rightarrow> (expr_error + 'b) option" where
  "pbind r k = (case r of None \<Rightarrow> None | Some (Inl e) \<Rightarrow> Some (Inl e) | Some (Inr a) \<Rightarrow> k a)"

fun parse_args :: "parser \<Rightarrow> nat \<Rightarrow> json list \<Rightarrow> tok list \<Rightarrow> (expr_error + json list \<times> tok list) option" where
  "parse_args por 0 args ts = None"
| "parse_args por (Suc n) args ts =
     pbind (por ts) (\<lambda>(v, r).
       case r of
         Comma # r' \<Rightarrow> parse_args por n (args @ [v]) r'
       | RParen # r' \<Rightarrow> Some (Inr (args @ [v], r'))
       | _ \<Rightarrow> Some (Inl UnclosedParen))"

definition keyword_or_scope :: "expr_context \<Rightarrow> string \<Rightarrow> json" where
  "keyword_or_scope ctx name =
     (if name = ''true'' then Bool True
      else if name = ''false'' then Bool False
      else if name = ''null'' then Null
      else lookup ctx [name])"

definition parse_call :: "json_ops \<Rightarrow> expr_context \<Rightarrow> parser \<Rightarrow> nat \<Rightarrow> string \<Rightarrow> parser" where
  "parse_call J ctx por n name ts =
     (case ts of
        RParen # r \<Rightarrow> Some (and_then (call J ctx name []) (\<lambda>v. Inr (v, r)))
      | _ \<Rightarrow> pbind (parse_args por n [] ts)
               (\<lambda>(args, r). Some (and_then (call J ctx name args) (\<lambda>v. Inr (v, r)))))"

definition parse_atom :: "json_ops \<Rightarrow> expr_context \<Rightarrow> parser \<Rightarrow> nat \<Rightarrow> parser" where
  "parse_atom J ctx por n ts =
     (case ts of
        LParen # r \<Rightarrow>
          pbind (por r) (\<lambda>(v, r').
            case r' of RParen # r'' \<Rightarrow> Some (Inr (v, r'')) | _ \<Rightarrow> Some (Inl UnclosedParen))
      | Str s # r \<Rightarrow> Some (Inr (String s, r))
      | Num x # r \<Rightarrow> Some (Inr (number x, r))
      | Ident name # LParen # r \<Rightarrow> parse_call J ctx por n name r
      | Ident name # r \<Rightarrow> Some (Inr (keyword_or_scope ctx name, r))
      | [] \<Rightarrow> Some (Inl (Unexpected None))
      | t # _ \<Rightarrow> Some (Inl (Unexpected (Some t))))"

fun parse_segments :: "json_ops \<Rightarrow> string list \<Rightarrow> tok list \<Rightarrow> expr_error + string list \<times> tok list" where
  "parse_segments J segs [] = Inr (segs, [])"
| "parse_segments J segs [t] =
     (if t = Dot then Inl (TrailingDot (join ''.'' segs)) else Inr (segs, [t]))"
| "parse_segments J segs (t # u # r) =
     (if t = Dot then
        (case u of
           Ident seg \<Rightarrow> parse_segments J (segs @ [seg]) r
         | Num n \<Rightarrow> parse_segments J (segs @ [to_display J (number n)]) r
         | _ \<Rightarrow> Inl (TrailingDot (join ''.'' segs)))
      else Inr (segs, t # u # r))"

definition parse_primary :: "json_ops \<Rightarrow> expr_context \<Rightarrow> parser \<Rightarrow> nat \<Rightarrow> parser" where
  "parse_primary J ctx por n ts =
     pbind (parse_atom J ctx por n ts) (\<lambda>(b, r).
       Some (and_then (parse_segments J [] r) (\<lambda>(segs, r'). Inr (walk b segs, r'))))"

definition is_cmp :: "tok \<Rightarrow> bool" where
  "is_cmp t \<longleftrightarrow> t \<in> {EqEq, NotEq, Gt, Ge, Lt, Le}"

definition compare_op :: "json_ops \<Rightarrow> tok \<Rightarrow> json \<Rightarrow> json \<Rightarrow> bool" where
  "compare_op J op left right =
     (case op of
        EqEq \<Rightarrow> loose_eq J left right
      | NotEq \<Rightarrow> \<not> loose_eq J left right
      | _ \<Rightarrow>
          (case (as_number left, as_number right) of
             (Some a, Some b) \<Rightarrow>
               (case op of Gt \<Rightarrow> f64_lt b a | Ge \<Rightarrow> f64_le b a | Lt \<Rightarrow> f64_lt a b | Le \<Rightarrow> f64_le a b
                | _ \<Rightarrow> False)
           | _ \<Rightarrow> False))"

definition parse_cmp :: "json_ops \<Rightarrow> expr_context \<Rightarrow> parser \<Rightarrow> nat \<Rightarrow> parser" where
  "parse_cmp J ctx por n ts =
     pbind (parse_primary J ctx por n ts) (\<lambda>(left, r).
       case r of
         op # r' \<Rightarrow>
           if is_cmp op then
             pbind (parse_primary J ctx por n r') (\<lambda>(right, r'').
               Some (Inr (Bool (compare_op J op left right), r'')))
           else Some (Inr (left, r))
       | [] \<Rightarrow> Some (Inr (left, r)))"

fun parse_not :: "json_ops \<Rightarrow> expr_context \<Rightarrow> parser \<Rightarrow> nat \<Rightarrow> parser" where
  "parse_not J ctx por n [] = parse_cmp J ctx por n []"
| "parse_not J ctx por n (t # ts) =
     (if t = Not then
        pbind (parse_not J ctx por n ts) (\<lambda>(v, r). Some (Inr (Bool (\<not> truthy v), r)))
      else parse_cmp J ctx por n (t # ts))"

fun and_loop :: "parser \<Rightarrow> nat \<Rightarrow> json \<Rightarrow> parser" where
  "and_loop pnot 0 left ts = None"
| "and_loop pnot (Suc n) left [] = Some (Inr (left, []))"
| "and_loop pnot (Suc n) left (t # ts) =
     (if t = And then
        pbind (pnot ts) (\<lambda>(right, r). and_loop pnot n (if truthy left then right else left) r)
      else Some (Inr (left, t # ts)))"

definition parse_and :: "json_ops \<Rightarrow> expr_context \<Rightarrow> parser \<Rightarrow> nat \<Rightarrow> parser" where
  "parse_and J ctx por n ts =
     pbind (parse_not J ctx por n ts) (\<lambda>(left, r). and_loop (parse_not J ctx por n) n left r)"

fun or_loop :: "parser \<Rightarrow> nat \<Rightarrow> json \<Rightarrow> parser" where
  "or_loop pand 0 left ts = None"
| "or_loop pand (Suc n) left [] = Some (Inr (left, []))"
| "or_loop pand (Suc n) left (t # ts) =
     (if t = Or then
        pbind (pand ts) (\<lambda>(right, r). or_loop pand n (if truthy left then left else right) r)
      else Some (Inr (left, t # ts)))"

fun parse_or :: "json_ops \<Rightarrow> expr_context \<Rightarrow> nat \<Rightarrow> parser" where
  "parse_or J ctx 0 ts = None"
| "parse_or J ctx (Suc n) ts =
     (let por = parse_or J ctx n in
      pbind (parse_and J ctx por (Suc n) ts)
        (\<lambda>(left, r). or_loop (parse_and J ctx por (Suc n)) (Suc n) left r))"

definition eval_tokens :: "json_ops \<Rightarrow> expr_context \<Rightarrow> tok list \<Rightarrow> (expr_error + json) option" where
  "eval_tokens J ctx ts =
     pbind (parse_or J ctx (length ts + 1) ts) (\<lambda>(v, r).
       case r of [] \<Rightarrow> Some (Inr v) | t # _ \<Rightarrow> Some (Inl (Trailing t)))"

definition eval :: "json_ops \<Rightarrow> expr_context \<Rightarrow> string \<Rightarrow> expr_error + json" where
  "eval J ctx expr =
     and_then (tokenize expr) (\<lambda>ts.
       case eval_tokens J ctx ts of Some r \<Rightarrow> r | None \<Rightarrow> Inl UnclosedParen)"

section \<open>Substitution and conditions\<close>

fun find_close_from :: "char option \<Rightarrow> string \<Rightarrow> nat option" where
  "find_close_from quote [] = None"
| "find_close_from (Some q) (c # cs) =
     (if c = q then
        (case cs of
           d # ds \<Rightarrow> if q = CHR 0x27 \<and> d = CHR 0x27
                     then map_option (\<lambda>i. i + 2) (find_close_from (Some q) ds)
                     else map_option Suc (find_close_from None cs)
         | [] \<Rightarrow> map_option Suc (find_close_from None cs))
      else map_option Suc (find_close_from (Some q) cs))"
| "find_close_from None (c # cs) =
     (if c = CHR 0x27 \<or> c = CHR 0x22 then map_option Suc (find_close_from (Some c) cs)
      else if prefix ''}}'' (c # cs) then Some 0
      else map_option Suc (find_close_from None cs))"

definition find_close :: "string \<Rightarrow> nat option" where
  "find_close body = find_close_from None body"

function substitute :: "json_ops \<Rightarrow> expr_context \<Rightarrow> string \<Rightarrow> string" where
  "substitute J ctx rest =
     (case str_find ''${{'' rest of
        None \<Rightarrow> rest
      | Some start \<Rightarrow>
          let body = drop (start + 3) rest in
          (case find_close body of
             None \<Rightarrow> take start rest @ drop start rest
           | Some fin \<Rightarrow>
               take start rest
               @ (case eval J ctx (take fin body) of
                    Inr v \<Rightarrow> to_display J v
                  | Inl _ \<Rightarrow> take (3 + fin + 2) (drop start rest))
               @ substitute J ctx (drop (fin + 2) body)))"
  by pat_completeness auto
termination
  by (relation "measure (\<lambda>(J, ctx, s). length s)") (auto dest!: str_find_Some)

declare substitute.simps [simp del]

definition eval_condition :: "json_ops \<Rightarrow> expr_context \<Rightarrow> string \<Rightarrow> expr_error + bool" where
  "eval_condition J ctx expr0 =
     (let expr = trim expr0 in
      if expr = [] then Inr True
      else
        let expr' = (case strip_prefix ''${{'' expr of
                       Some rest \<Rightarrow> (case strip_suffix ''}}'' rest of Some e \<Rightarrow> e | None \<Rightarrow> rest)
                     | None \<Rightarrow> expr)
        in and_then (eval J ctx expr') (\<lambda>v. Inr (truthy v)))"

section \<open>The parser always ends\<close>

definition consumes :: "presult \<Rightarrow> tok list \<Rightarrow> bool" where
  "consumes r ts \<longleftrightarrow> (\<exists>x. r = Some x \<and> (\<forall>v rest. x = Inr (v, rest) \<longrightarrow> length rest < length ts))"

definition good_parser :: "parser \<Rightarrow> nat \<Rightarrow> bool" where
  "good_parser por n \<longleftrightarrow> (\<forall>ts. length ts < n \<longrightarrow> consumes (por ts) ts)"

lemma consumesE:
  assumes "consumes r ts"
  obtains e where "r = Some (Inl e)" | v rest where "r = Some (Inr (v, rest))" "length rest < length ts"
  using assms unfolding consumes_def by (metis obj_sumE surj_pair)

lemma consumes_Inl [simp]: "consumes (Some (Inl e)) ts"
  by (simp add: consumes_def)

lemma consumes_Inr [simp]: "consumes (Some (Inr (v, rest))) ts \<longleftrightarrow> length rest < length ts"
  by (simp add: consumes_def)

lemma consumes_and_then [simp]:
  "length rest < length ts \<Longrightarrow> consumes (Some (and_then r (\<lambda>v. Inr (v, rest)))) ts"
  by (cases r) simp_all

lemma pbind_simps [simp]:
  "pbind None k = None" "pbind (Some (Inl e)) k = Some (Inl e)" "pbind (Some (Inr a)) k = k a"
  by (simp_all add: pbind_def)

lemma consumes_pbind:
  assumes "consumes r ts" and "\<And>v rest. length rest < length ts \<Longrightarrow> consumes (k (v, rest)) ts"
  shows "consumes (pbind r k) ts"
  using assms(1) by (rule consumesE) (use assms(2) in auto)

lemma consumes_mono: "consumes r ts \<Longrightarrow> length ts \<le> length ts' \<Longrightarrow> consumes r ts'"
  by (auto simp: consumes_def)

lemma good_parserD: "good_parser por n \<Longrightarrow> length ts < n \<Longrightarrow> consumes (por ts) ts"
  by (simp add: good_parser_def)

lemma parse_args_ends:
  assumes "good_parser por m" "length ts < m" "length ts < n"
  shows "\<exists>x. parse_args por n args ts = Some x \<and>
    (\<forall>vs rest. x = Inr (vs, rest) \<longrightarrow> length rest < length ts)"
  using assms(2,3)
proof (induction n arbitrary: args ts)
  case 0
  then show ?case by simp
next
  case (Suc n)
  from good_parserD[OF assms(1) Suc.prems(1)] show ?case
  proof (rule consumesE)
    fix e assume "por ts = Some (Inl e)"
    then show ?thesis by simp
  next
    fix v rest assume r: "por ts = Some (Inr (v, rest))" "length rest < length ts"
    show ?thesis
    proof (cases rest)
      case Nil
      with r show ?thesis by simp
    next
      case (Cons t rest')
      have "\<exists>x. parse_args por n (args @ [v]) rest' = Some x \<and>
          (\<forall>vs rest. x = Inr (vs, rest) \<longrightarrow> length rest < length rest')"
        by (rule Suc.IH) (use Suc.prems r Cons in auto)
      then obtain x where x: "parse_args por n (args @ [v]) rest' = Some x"
        "\<And>vs r'. x = Inr (vs, r') \<Longrightarrow> length r' < length rest'" by blast
      show ?thesis
        using r Cons x(1) x(2) by (cases t) fastforce+
    qed
  qed
qed

lemma parse_call_ends:
  assumes "good_parser por m" "length ts < m" "length ts < n"
  shows "consumes (parse_call J ctx por n name ts) (Ident name # LParen # ts)"
proof -
  obtain x where x: "parse_args por n [] ts = Some x"
    "\<And>vs r. x = Inr (vs, r) \<Longrightarrow> length r < length ts"
    using parse_args_ends[OF assms, of "[]"] by blast
  have "consumes (pbind (parse_args por n [] ts)
      (\<lambda>(args, r). Some (and_then (call J ctx name args) (\<lambda>v. Inr (v, r))))) (Ident name # LParen # ts)"
    using x(1) x(2) by (cases x) fastforce+
  then show ?thesis
    by (cases ts rule: list.exhaust; cases "hd ts") (simp_all add: parse_call_def)
qed

lemma parse_atom_ends:
  assumes "good_parser por m" "length ts \<le> m" "length ts < n"
  shows "consumes (parse_atom J ctx por n ts) ts"
proof (cases ts)
  case Nil
  then show ?thesis by (simp add: parse_atom_def)
next
  case (Cons t r)
  show ?thesis
  proof (cases t)
    case LParen
    have "consumes (por r) r" by (rule good_parserD[OF assms(1)]) (use assms Cons in auto)
    then show ?thesis
      unfolding Cons LParen parse_atom_def
      by simp (rule consumesE, assumption, auto split: list.splits tok.splits)
  next
    case (Ident name)
    show ?thesis
    proof (cases "\<exists>r'. r = LParen # r'")
      case True
      then obtain r' where r: "r = LParen # r'" by blast
      have "consumes (parse_call J ctx por n name r') (Ident name # LParen # r')"
        by (rule parse_call_ends[OF assms(1)]) (use assms Cons r in auto)
      then show ?thesis by (simp add: parse_atom_def Cons Ident r)
    next
      case False
      then show ?thesis
        by (cases r; cases "hd r") (simp_all add: parse_atom_def Cons Ident)
    qed
  qed (simp_all add: parse_atom_def Cons)
qed

lemma parse_segments_rest: "parse_segments J segs ts = Inr (s, r) \<Longrightarrow> length r \<le> length ts"
proof (induction J segs ts rule: parse_segments.induct)
  case (3 J segs t u r')
  then show ?case by (cases u) (auto split: if_splits)
qed (auto split: if_splits)

lemma parse_primary_ends:
  assumes "good_parser por m" "length ts \<le> m" "length ts < n"
  shows "consumes (parse_primary J ctx por n ts) ts"
  unfolding parse_primary_def
proof (rule consumes_pbind[OF parse_atom_ends[OF assms]])
  fix v and rest :: "tok list" assume l: "length rest < length ts"
  show "consumes ((\<lambda>(b, r). Some (and_then (parse_segments J [] r) (\<lambda>(segs, r'). Inr (walk b segs, r')))) (v, rest)) ts"
  proof (cases "parse_segments J [] rest")
    case (Inr sr)
    obtain segs r where sr: "sr = (segs, r)" by force
    with Inr parse_segments_rest[of J "[]" rest] l show ?thesis by fastforce
  qed simp
qed

lemma parse_cmp_ends:
  assumes "good_parser por m" "length ts \<le> m" "length ts < n"
  shows "consumes (parse_cmp J ctx por n ts) ts"
  unfolding parse_cmp_def
proof (rule consumes_pbind[OF parse_primary_ends[OF assms]])
  fix v and rest :: "tok list" assume l: "length rest < length ts"
  show "consumes ((\<lambda>(left, r). case r of [] \<Rightarrow> Some (Inr (left, r))
      | op # r' \<Rightarrow> if is_cmp op then pbind (parse_primary J ctx por n r')
            (\<lambda>(right, r''). Some (Inr (Bool (compare_op J op left right), r'')))
          else Some (Inr (left, r))) (v, rest)) ts"
  proof (cases rest)
    case (Cons op r)
    have "consumes (parse_primary J ctx por n r) r"
      by (rule parse_primary_ends[OF assms(1)]) (use assms l Cons in auto)
    then have "consumes (pbind (parse_primary J ctx por n r)
        (\<lambda>(right, r''). Some (Inr (Bool (compare_op J op v right), r'')))) r"
      by (rule consumes_pbind) simp
    then show ?thesis using l Cons by (auto elim: consumes_mono)
  qed (use l in simp)
qed

lemma parse_not_ends:
  assumes "good_parser por m" "length ts \<le> m" "length ts < n"
  shows "consumes (parse_not J ctx por n ts) ts"
  using assms(2,3)
proof (induction ts)
  case Nil
  then show ?case using parse_cmp_ends[OF assms(1), of "[]"] by simp
next
  case (Cons t ts)
  have "consumes (parse_not J ctx por n ts) ts" by (rule Cons.IH) (use Cons.prems in auto)
  then have "consumes (pbind (parse_not J ctx por n ts)
      (\<lambda>(v, r). Some (Inr (Bool (\<not> truthy v), r)))) (t # ts)"
    by (intro consumes_pbind) (auto elim: consumes_mono)
  moreover have "consumes (parse_cmp J ctx por n (t # ts)) (t # ts)"
    by (rule parse_cmp_ends[OF assms(1)]) (use Cons.prems in auto)
  ultimately show ?case by (cases "t = Not") auto
qed

lemma and_loop_ends:
  assumes "\<And>r. length r \<le> length ts \<Longrightarrow> consumes (p r) r" "length ts < n"
  shows "\<exists>x. and_loop p n left ts = Some x \<and> (\<forall>v r. x = Inr (v, r) \<longrightarrow> length r \<le> length ts)"
  using assms
proof (induction n arbitrary: left ts)
  case 0
  then show ?case by simp
next
  case (Suc n)
  show ?case
  proof (cases ts)
    case Nil
    then show ?thesis by simp
  next
    case (Cons t r)
    show ?thesis
    proof (cases "t = And")
      case True
      have "consumes (p r) r" by (rule Suc.prems(1)) (simp add: Cons)
      then show ?thesis
      proof (rule consumesE)
        fix v rest assume pr: "p r = Some (Inr (v, rest))" "length rest < length r"
        have "\<exists>x. and_loop p n (if truthy left then v else left) rest = Some x \<and>
            (\<forall>v r. x = Inr (v, r) \<longrightarrow> length r \<le> length rest)"
          by (rule Suc.IH) (use Suc.prems Cons pr in auto)
        with True Cons pr show ?thesis by fastforce
      qed (use True Cons in simp)
    qed (use Cons in simp)
  qed
qed

lemma or_loop_ends:
  assumes "\<And>r. length r \<le> length ts \<Longrightarrow> consumes (p r) r" "length ts < n"
  shows "\<exists>x. or_loop p n left ts = Some x \<and> (\<forall>v r. x = Inr (v, r) \<longrightarrow> length r \<le> length ts)"
  using assms
proof (induction n arbitrary: left ts)
  case 0
  then show ?case by simp
next
  case (Suc n)
  show ?case
  proof (cases ts)
    case Nil
    then show ?thesis by simp
  next
    case (Cons t r)
    show ?thesis
    proof (cases "t = Or")
      case True
      have "consumes (p r) r" by (rule Suc.prems(1)) (simp add: Cons)
      then show ?thesis
      proof (rule consumesE)
        fix v rest assume pr: "p r = Some (Inr (v, rest))" "length rest < length r"
        have "\<exists>x. or_loop p n (if truthy left then left else v) rest = Some x \<and>
            (\<forall>v r. x = Inr (v, r) \<longrightarrow> length r \<le> length rest)"
          by (rule Suc.IH) (use Suc.prems Cons pr in auto)
        with True Cons pr show ?thesis by fastforce
      qed (use True Cons in simp)
    qed (use Cons in simp)
  qed
qed

lemma parse_and_ends:
  assumes "good_parser por m" "length ts \<le> m" "length ts < n"
  shows "consumes (parse_and J ctx por n ts) ts"
  unfolding parse_and_def
proof (rule consumes_pbind[OF parse_not_ends[OF assms]])
  fix v and rest :: "tok list" assume l: "length rest < length ts"
  have "\<exists>x. and_loop (parse_not J ctx por n) n v rest = Some x \<and>
      (\<forall>v r. x = Inr (v, r) \<longrightarrow> length r \<le> length rest)"
    by (rule and_loop_ends) (use assms l parse_not_ends[OF assms(1)] in auto)
  with l show "consumes ((\<lambda>(left, r). and_loop (parse_not J ctx por n) n left r) (v, rest)) ts"
    by (auto simp: consumes_def)
qed

lemma parse_or_ends: "length ts < n \<Longrightarrow> consumes (parse_or J ctx n ts) ts"
proof (induction n arbitrary: ts)
  case 0
  then show ?case by simp
next
  case (Suc n)
  let ?p = "parse_and J ctx (parse_or J ctx n) (Suc n)"
  have good: "good_parser (parse_or J ctx n) n" using Suc.IH by (simp add: good_parser_def)
  have p: "length r \<le> n \<Longrightarrow> consumes (?p r) r" for r
    by (rule parse_and_ends[OF good]) auto
  have "consumes (pbind (?p ts) (\<lambda>(left, r). or_loop ?p (Suc n) left r)) ts"
  proof (rule consumes_pbind)
    show "consumes (?p ts) ts" by (rule p) (use Suc.prems in simp)
    fix v and rest :: "tok list" assume l: "length rest < length ts"
    have "\<exists>x. or_loop ?p (Suc n) v rest = Some x \<and> (\<forall>v r. x = Inr (v, r) \<longrightarrow> length r \<le> length rest)"
      by (rule or_loop_ends) (use p l Suc.prems in auto)
    with l show "consumes ((\<lambda>(left, r). or_loop ?p (Suc n) left r) (v, rest)) ts"
      by (auto simp: consumes_def)
  qed
  then show ?case by (simp add: Let_def)
qed

lemma eval_tokens_total: "eval_tokens J ctx ts \<noteq> None"
  using parse_or_ends[of ts "length ts + 1" J ctx]
  by (rule consumesE[where r = "parse_or J ctx (length ts + 1) ts", OF _]) (auto simp: eval_tokens_def split: list.splits)

section \<open>The reference evaluator\<close>

text \<open>
  Syntax trees, their tokens with the parentheses that precedence requires and no others, and their
  value. The levels are those of the grammar: or, and, not, comparison, property access, atom; the
  binary connectives associate to the left. Both operands of a connective are evaluated, so an
  error in either is an error of the whole.
\<close>

datatype ast =
    AStr string | ANum f64 | AVar string | ACall string "ast list" | AProp ast string
  | ANot ast | ACmp tok ast ast | AAnd ast ast | AOr ast ast

definition level :: "ast \<Rightarrow> nat" where
  "level e = (case e of AOr _ _ \<Rightarrow> 0 | AAnd _ _ \<Rightarrow> 1 | ANot _ \<Rightarrow> 2 | ACmp _ _ _ \<Rightarrow> 3 | AProp _ _ \<Rightarrow> 4 | _ \<Rightarrow> 5)"

definition wrap :: "nat \<Rightarrow> ast \<Rightarrow> tok list \<Rightarrow> tok list" where
  "wrap l e ts = (if level e < l then LParen # ts @ [RParen] else ts)"

fun commas :: "tok list list \<Rightarrow> tok list" where
  "commas [] = []"
| "commas [ts] = ts"
| "commas (ts # tss) = ts @ Comma # commas tss"

fun toks :: "ast \<Rightarrow> tok list" where
  "toks (AStr s) = [Str s]"
| "toks (ANum n) = [Num n]"
| "toks (AVar x) = [Ident x]"
| "toks (ACall f args) = Ident f # LParen # commas (map toks args) @ [RParen]"
| "toks (AProp a seg) = wrap 4 a (toks a) @ [Dot, Ident seg]"
| "toks (ANot a) = Not # wrap 2 a (toks a)"
| "toks (ACmp op a b) = wrap 4 a (toks a) @ op # wrap 4 b (toks b)"
| "toks (AAnd a b) = wrap 1 a (toks a) @ And # wrap 2 b (toks b)"
| "toks (AOr a b) = wrap 0 a (toks a) @ Or # wrap 1 b (toks b)"

abbreviation pr :: "nat \<Rightarrow> ast \<Rightarrow> tok list" where
  "pr l e \<equiv> wrap l e (toks e)"

fun wf_ast :: "ast \<Rightarrow> bool" where
  "wf_ast (ACall f args) = list_all wf_ast args"
| "wf_ast (AProp a seg) = wf_ast a"
| "wf_ast (ANot a) = wf_ast a"
| "wf_ast (ACmp op a b) = (is_cmp op \<and> wf_ast a \<and> wf_ast b)"
| "wf_ast (AAnd a b) = (wf_ast a \<and> wf_ast b)"
| "wf_ast (AOr a b) = (wf_ast a \<and> wf_ast b)"
| "wf_ast _ = True"

fun sequence :: "('e + 'a) list \<Rightarrow> 'e + 'a list" where
  "sequence [] = Inr []"
| "sequence (r # rs) = and_then r (\<lambda>v. and_then (sequence rs) (\<lambda>vs. Inr (v # vs)))"

fun ev :: "json_ops \<Rightarrow> expr_context \<Rightarrow> ast \<Rightarrow> expr_error + json" where
  "ev J ctx (AStr s) = Inr (String s)"
| "ev J ctx (ANum n) = Inr (number n)"
| "ev J ctx (AVar x) = Inr (keyword_or_scope ctx x)"
| "ev J ctx (ACall f args) = and_then (sequence (map (ev J ctx) args)) (call J ctx f)"
| "ev J ctx (AProp a seg) = and_then (ev J ctx a) (\<lambda>v. Inr (walk v [seg]))"
| "ev J ctx (ANot a) = and_then (ev J ctx a) (\<lambda>v. Inr (Bool (\<not> truthy v)))"
| "ev J ctx (ACmp op a b) =
     and_then (ev J ctx a) (\<lambda>l. and_then (ev J ctx b) (\<lambda>r. Inr (Bool (compare_op J op l r))))"
| "ev J ctx (AAnd a b) =
     and_then (ev J ctx a) (\<lambda>l. and_then (ev J ctx b) (\<lambda>r. Inr (if truthy l then r else l)))"
| "ev J ctx (AOr a b) =
     and_then (ev J ctx a) (\<lambda>l. and_then (ev J ctx b) (\<lambda>r. Inr (if truthy l then l else r)))"

section \<open>The parser agrees with the reference\<close>

definition follows :: "nat \<Rightarrow> tok list \<Rightarrow> bool" where
  "follows l ts \<longleftrightarrow> (case ts of [] \<Rightarrow> True
     | t # _ \<Rightarrow> t \<noteq> Dot \<and> t \<noteq> LParen \<and> (l \<le> 3 \<longrightarrow> \<not> is_cmp t) \<and> (l \<le> 1 \<longrightarrow> t \<noteq> And) \<and> (l = 0 \<longrightarrow> t \<noteq> Or))"

definition returns :: "expr_error + json \<Rightarrow> tok list \<Rightarrow> presult" where
  "returns r rest = Some (and_then r (\<lambda>v. Inr (v, rest)))"

lemma returns_simps [simp]: "returns (Inl e) rest = Some (Inl e)" "returns (Inr v) rest = Some (Inr (v, rest))"
  by (simp_all add: returns_def)

lemma pbind_returns: "pbind (returns r rest) k = (case r of Inl e \<Rightarrow> Some (Inl e) | Inr v \<Rightarrow> k (v, rest))"
  by (cases r) simp_all

lemma toks_nonempty [simp]: "toks e \<noteq> []"
  by (cases e) (auto simp: wrap_def)

lemma length_pr: "length (toks e) \<le> length (pr l e)"
  by (simp add: wrap_def)

lemma hd_pr: "3 \<le> l \<Longrightarrow> hd (pr l e) \<noteq> Not"
proof (induction e arbitrary: l)
  case (AProp a seg)
  then show ?case using AProp.IH[of 4] by (auto simp: wrap_def level_def hd_append)
next
  case (ACmp op a b)
  then show ?case using ACmp.IH(1)[of 4] by (auto simp: wrap_def level_def hd_append)
qed (auto simp: wrap_def level_def)

definition dots :: "string list \<Rightarrow> tok list" where
  "dots segs = concat (map (\<lambda>s. [Dot, Ident s]) segs)"

lemma walk_append: "walk v (xs @ ys) = walk (walk v xs) ys"
  by (induction xs arbitrary: v) auto

lemma parse_segments_dots:
  "follows 4 rest \<Longrightarrow> parse_segments J segs (dots ds @ rest) = Inr (segs @ ds, rest)"
proof (induction ds arbitrary: segs)
  case Nil
  then show ?case
    by (cases rest rule: remdups_adj.cases) (auto simp: dots_def follows_def)
qed (simp add: dots_def)

text \<open>Property access is a run of segments after something that is not itself one.\<close>

lemma prop_chain:
  "wf_ast e \<Longrightarrow> \<exists>b segs. level b \<noteq> 4 \<and> wf_ast b \<and> pr 4 e = pr 5 b @ dots segs \<and>
     ev J ctx e = and_then (ev J ctx b) (\<lambda>v. Inr (walk v segs)) \<and> (level e \<noteq> 4 \<longrightarrow> b = e)"
proof (induction e)
  case (AProp a seg)
  then obtain b segs where b: "level b \<noteq> 4" "wf_ast b" "pr 4 a = pr 5 b @ dots segs"
    "ev J ctx a = and_then (ev J ctx b) (\<lambda>v. Inr (walk v segs))" by auto
  have "pr 4 (AProp a seg) = pr 5 b @ dots (segs @ [seg])"
    using b(3) by (simp add: wrap_def[of 4 "AProp a seg"] level_def dots_def)
  moreover have "ev J ctx (AProp a seg) = and_then (ev J ctx b) (\<lambda>v. Inr (walk v (segs @ [seg])))"
    using b(4) by (cases "ev J ctx b") (simp_all add: walk_append)
  ultimately show ?case using b(1,2) by (intro exI[of _ b] exI[of _ "segs @ [seg]"]) (simp add: level_def)
next
  case (AStr s)
  show ?case by (intro exI[of _ "AStr s"] exI[of _ "[]"]) (simp add: level_def wrap_def dots_def)
next
  case (ANum n)
  show ?case by (intro exI[of _ "ANum n"] exI[of _ "[]"]) (simp add: level_def wrap_def dots_def)
next
  case (AVar x)
  show ?case by (intro exI[of _ "AVar x"] exI[of _ "[]"]) (simp add: level_def wrap_def dots_def)
next
  case (ACall f args)
  then show ?case
    by (intro exI[of _ "ACall f args"] exI[of _ "[]"])
       (cases "sequence (map (ev J ctx) args)"; cases "call J ctx f (projr (sequence (map (ev J ctx) args)))";
        simp add: level_def wrap_def dots_def)
next
  case (ANot a)
  then show ?case
    by (intro exI[of _ "ANot a"] exI[of _ "[]"])
       (cases "ev J ctx a"; simp add: level_def wrap_def dots_def)
next
  case (ACmp op a b)
  then show ?case
    by (intro exI[of _ "ACmp op a b"] exI[of _ "[]"])
       (cases "ev J ctx a"; cases "ev J ctx b"; simp add: level_def wrap_def dots_def)
next
  case (AAnd a b)
  then show ?case
    by (intro exI[of _ "AAnd a b"] exI[of _ "[]"])
       (cases "ev J ctx a"; cases "ev J ctx b"; simp add: level_def wrap_def dots_def)
next
  case (AOr a b)
  then show ?case
    by (intro exI[of _ "AOr a b"] exI[of _ "[]"])
       (cases "ev J ctx a"; cases "ev J ctx b"; simp add: level_def wrap_def dots_def)
qed

lemma follows_mono: "follows l ts \<Longrightarrow> l \<le> k \<Longrightarrow> follows k ts"
  by (cases ts) (auto simp: follows_def)

lemma follows_closers [simp]: "follows l (RParen # ts)" "follows l (Comma # ts)"
  by (simp_all add: follows_def is_cmp_def)

lemma hd_toks: "hd (toks e) \<noteq> RParen"
  by (induction e) (auto simp: wrap_def hd_append)

lemma hd_commas: "as \<noteq> [] \<Longrightarrow> hd (commas (map toks as) @ ts) \<noteq> RParen \<and> commas (map toks as) \<noteq> []"
  using hd_toks by (cases as rule: remdups_adj.cases) (auto simp: hd_append)

lemma length_commas: "a \<in> set as \<Longrightarrow> length (toks a) \<le> length (commas (map toks as))"
  by (induction as rule: induct_list012) auto

lemma count_commas: "length as \<le> Suc (length (commas (map toks as)))"
  by (induction as rule: induct_list012) auto

fun ands :: "ast \<Rightarrow> nat" where
  "ands (AAnd a b) = Suc (ands a)"
| "ands _ = 0"

fun ors :: "ast \<Rightarrow> nat" where
  "ors (AOr a b) = Suc (ors a)"
| "ors _ = 0"

lemma ands_length: "ands e \<le> length (toks e)"
  by (induction e) (auto simp: wrap_def)

lemma ors_length: "ors e \<le> length (toks e)"
  by (induction e) (auto simp: wrap_def)

text \<open>
  The interface between the levels of the grammar: a parser that reads every printed tree with
  fewer than \<open>m\<close> tokens. Each level, built on such a parser, reads the trees of its own level.
\<close>

locale sub_parser =
  fixes J :: json_ops and ctx :: expr_context and por :: parser and m :: nat
  assumes reads: "wf_ast e \<Longrightarrow> length (toks e) < m \<Longrightarrow> follows 0 rest \<Longrightarrow>
    por (toks e @ rest) = returns (ev J ctx e) rest"
begin

lemma args_read:
  "as \<noteq> [] \<Longrightarrow> list_all wf_ast as \<Longrightarrow> (\<And>a. a \<in> set as \<Longrightarrow> length (toks a) < m) \<Longrightarrow> length as \<le> n \<Longrightarrow>
   parse_args por n acc (commas (map toks as) @ RParen # rest) =
     Some (and_then (sequence (map (ev J ctx) as)) (\<lambda>vs. Inr (acc @ vs, rest)))"
proof (induction as arbitrary: n acc rule: induct_list012)
  case 1
  then show ?case by simp
next
  case (2 a)
  then obtain n' where n: "n = Suc n'" by (cases n) auto
  from 2 have "por (toks a @ RParen # rest) = returns (ev J ctx a) (RParen # rest)"
    by (intro reads) auto
  with n show ?case by (cases "ev J ctx a") simp_all
next
  case (3 a b as)
  then obtain n' where n: "n = Suc n'" by (cases n) auto
  let ?r = "commas (map toks (b # as)) @ RParen # rest"
  from 3 have "por (toks a @ Comma # ?r) = returns (ev J ctx a) (Comma # ?r)"
    by (intro reads) auto
  moreover have "parse_args por n' (acc @ [v]) ?r =
      Some (and_then (sequence (map (ev J ctx) (b # as))) (\<lambda>vs. Inr ((acc @ [v]) @ vs, rest)))" for v
    by (rule 3) (use 3 n in auto)
  ultimately show ?case using n
    by (cases "ev J ctx a"; cases "ev J ctx b"; cases "sequence (map (ev J ctx) as)") simp_all
qed

lemma call_reads:
  assumes "list_all wf_ast args" "length (toks (ACall f args)) \<le> m" "length (toks (ACall f args)) \<le> n"
  shows "parse_call J ctx por n f (commas (map toks args) @ RParen # rest) = returns (ev J ctx (ACall f args)) rest"
proof (cases "args = []")
  case True
  then show ?thesis by (simp add: parse_call_def returns_def)
next
  case False
  let ?ts = "commas (map toks args) @ RParen # rest"
  have small: "length (toks a) < m" if "a \<in> set args" for a
    using length_commas[OF that] assms(2) by simp
  have "parse_args por n [] ?ts = Some (and_then (sequence (map (ev J ctx) args)) (\<lambda>vs. Inr ([] @ vs, rest)))"
    by (rule args_read) (use False assms small count_commas[of args] in auto)
  moreover have "parse_call J ctx por n f ?ts = pbind (parse_args por n [] ?ts)
      (\<lambda>(args, r). Some (and_then (call J ctx f args) (\<lambda>v. Inr (v, r))))"
    using hd_commas[OF False, of "RParen # rest"]
    by (cases ?ts; cases "hd ?ts") (simp_all add: parse_call_def)
  ultimately show ?thesis
    by (cases "sequence (map (ev J ctx) args)") (simp_all add: returns_def)
qed

lemma atom_reads:
  assumes "wf_ast e" "level e \<noteq> 4" "length (pr 5 e) \<le> m" "length (pr 5 e) \<le> n"
    and "rest = [] \<or> hd rest \<noteq> LParen"
  shows "parse_atom J ctx por n (pr 5 e @ rest) = returns (ev J ctx e) rest"
proof (cases "level e < 5")
  case True
  then have "por (toks e @ RParen # rest) = returns (ev J ctx e) (RParen # rest)"
    using assms by (intro reads) (auto simp: wrap_def)
  with True show ?thesis
    by (cases "ev J ctx e") (simp_all add: wrap_def parse_atom_def)
next
  case False
  then consider s where "e = AStr s" | x where "e = ANum x" | x where "e = AVar x" | f args where "e = ACall f args"
    by (cases e) (auto simp: level_def)
  then show ?thesis
  proof cases
    case 3
    with assms(5) show ?thesis
      by (cases rest; cases "hd rest") (simp_all add: wrap_def level_def parse_atom_def)
  next
    case 4
    have "parse_call J ctx por n f (commas (map toks args) @ RParen # rest) = returns (ev J ctx e) rest"
      unfolding 4 by (rule call_reads) (use assms 4 in \<open>auto simp: wrap_def level_def\<close>)
    with 4 show ?thesis by (simp add: wrap_def level_def parse_atom_def)
  qed (simp_all add: wrap_def level_def parse_atom_def)
qed

lemma primary_reads:
  assumes "wf_ast e" "length (pr 4 e) \<le> m" "length (pr 4 e) \<le> n" "follows 4 rest"
  shows "parse_primary J ctx por n (pr 4 e @ rest) = returns (ev J ctx e) rest"
proof -
  obtain b segs where b: "level b \<noteq> 4" "wf_ast b" "pr 4 e = pr 5 b @ dots segs"
    "ev J ctx e = and_then (ev J ctx b) (\<lambda>v. Inr (walk v segs))"
    using prop_chain[OF assms(1), of J ctx] by auto
  have "dots segs @ rest = [] \<or> hd (dots segs @ rest) \<noteq> LParen"
    using assms(4) by (cases segs; cases rest) (auto simp: dots_def follows_def)
  then have "parse_atom J ctx por n (pr 5 b @ dots segs @ rest) = returns (ev J ctx b) (dots segs @ rest)"
    using b assms by (intro atom_reads) auto
  with b parse_segments_dots[OF assms(4), of J "[]" segs] show ?thesis
    by (cases "ev J ctx b") (simp_all add: parse_primary_def)
qed

lemma cmp_reads:
  assumes "wf_ast e" "length (pr 3 e) \<le> m" "length (pr 3 e) \<le> n" "follows 3 rest"
  shows "parse_cmp J ctx por n (pr 3 e @ rest) = returns (ev J ctx e) rest"
proof (cases "level e = 3")
  case True
  then obtain op a b where e: "e = ACmp op a b" by (cases e) (auto simp: level_def)
  have p: "pr 3 e = pr 4 a @ op # pr 4 b" by (simp add: e wrap_def level_def)
  have op: "is_cmp op" "follows 4 (op # pr 4 b @ rest)"
    using assms(1) e by (auto simp: follows_def is_cmp_def)
  have "parse_primary J ctx por n (pr 4 a @ op # pr 4 b @ rest) = returns (ev J ctx a) (op # pr 4 b @ rest)"
    by (rule primary_reads) (use assms e p op in auto)
  moreover have "parse_primary J ctx por n (pr 4 b @ rest) = returns (ev J ctx b) rest"
    by (rule primary_reads) (use assms e p follows_mono in auto)
  ultimately show ?thesis using op p e
    by (cases "ev J ctx a"; cases "ev J ctx b") (simp_all add: parse_cmp_def)
next
  case False
  then have p: "pr 3 e = pr 4 e" by (auto simp: wrap_def)
  have "parse_primary J ctx por n (pr 4 e @ rest) = returns (ev J ctx e) rest"
    by (rule primary_reads) (use assms p follows_mono in auto)
  with p assms(4) show ?thesis
    by (cases "ev J ctx e"; cases rest) (simp_all add: parse_cmp_def follows_def)
qed

lemma not_reads_other:
  assumes "level e \<noteq> 2" "wf_ast e" "length (pr 2 e) \<le> m" "length (pr 2 e) \<le> n" "follows 2 rest"
  shows "parse_not J ctx por n (pr 2 e @ rest) = returns (ev J ctx e) rest"
proof -
  have p: "pr 2 e = pr 3 e" using assms(1) by (auto simp: wrap_def)
  obtain t ts where ts: "pr 3 e = t # ts" "t \<noteq> Not"
    using hd_pr[of 3 e] by (cases "pr 3 e") (auto simp: wrap_def split: if_splits)
  have "parse_cmp J ctx por n (pr 3 e @ rest) = returns (ev J ctx e) rest"
    by (rule cmp_reads) (use assms p follows_mono in \<open>auto simp: follows_def\<close>)
  with ts p show ?thesis by simp
qed

lemma not_reads:
  "wf_ast e \<Longrightarrow> length (pr 2 e) \<le> m \<Longrightarrow> length (pr 2 e) \<le> n \<Longrightarrow> follows 2 rest \<Longrightarrow>
   parse_not J ctx por n (pr 2 e @ rest) = returns (ev J ctx e) rest"
proof (induction e)
  case (ANot a)
  then have "parse_not J ctx por n (pr 2 a @ rest) = returns (ev J ctx a) rest"
    by (auto simp: wrap_def[of 2 "ANot a"] level_def)
  then show ?case
    by (cases "ev J ctx a") (simp_all add: wrap_def[of 2 "ANot a"] level_def)
qed (rule not_reads_other; simp add: level_def; fail)+

lemma and_reads_other:
  assumes "level e \<noteq> 1" "wf_ast e" "length (pr 1 e) \<le> m" "length (pr 1 e) \<le> n" "follows 2 rest"
  shows "parse_and J ctx por n (pr 1 e @ rest) =
     (case ev J ctx e of Inl x \<Rightarrow> Some (Inl x)
      | Inr v \<Rightarrow> and_loop (parse_not J ctx por n) (n - ands e) v rest)"
proof -
  have p: "pr 1 e = pr 2 e" using assms(1) by (auto simp: wrap_def)
  have "parse_not J ctx por n (pr 2 e @ rest) = returns (ev J ctx e) rest"
    by (rule not_reads) (use assms p in auto)
  moreover have "ands e = 0" using assms(1) by (cases e) (simp_all add: level_def)
  ultimately show ?thesis using p by (cases "ev J ctx e") (simp_all add: parse_and_def)
qed

lemma and_reads:
  "wf_ast e \<Longrightarrow> length (pr 1 e) \<le> m \<Longrightarrow> length (pr 1 e) \<le> n \<Longrightarrow> follows 2 rest \<Longrightarrow> ands e < n \<Longrightarrow>
   parse_and J ctx por n (pr 1 e @ rest) =
     (case ev J ctx e of Inl x \<Rightarrow> Some (Inl x)
      | Inr v \<Rightarrow> and_loop (parse_not J ctx por n) (n - ands e) v rest)"
proof (induction e arbitrary: rest)
  case (AAnd a b)
  let ?l = "and_loop (parse_not J ctx por n)"
  have p: "pr 1 (AAnd a b) = pr 1 a @ And # pr 2 b" by (simp add: wrap_def level_def)
  have a: "parse_and J ctx por n (pr 1 a @ And # pr 2 b @ rest) =
     (case ev J ctx a of Inl x \<Rightarrow> Some (Inl x)
      | Inr v \<Rightarrow> ?l (n - ands a) v (And # pr 2 b @ rest))"
    by (rule AAnd.IH(1)) (use AAnd.prems p in \<open>auto simp: follows_def is_cmp_def level_def\<close>)
  have b: "parse_not J ctx por n (pr 2 b @ rest) = returns (ev J ctx b) rest"
    by (rule not_reads) (use AAnd.prems p in auto)
  have "n - ands a = Suc (n - Suc (ands a))" using AAnd.prems(5) by (simp add: level_def)
  with a b show ?case unfolding p
    by (cases "ev J ctx a"; cases "ev J ctx b") simp_all
qed (rule and_reads_other; simp add: level_def; fail)+

definition or_body :: "nat \<Rightarrow> parser" where
  "or_body n ts =
     pbind (parse_and J ctx por n ts) (\<lambda>(left, r). or_loop (parse_and J ctx por n) n left r)"

lemma and_returns:
  assumes "wf_ast e" "length (pr 1 e) \<le> m" "length (pr 1 e) < n" "follows 1 rest"
  shows "parse_and J ctx por n (pr 1 e @ rest) = returns (ev J ctx e) rest"
proof -
  have lt: "ands e < n" using assms(3) ands_length[of e] length_pr[of e 1] by linarith
  then obtain k where k: "n - ands e = Suc k" by (cases "n - ands e") auto
  have "parse_and J ctx por n (pr 1 e @ rest) = (case ev J ctx e of Inl x \<Rightarrow> Some (Inl x)
      | Inr v \<Rightarrow> and_loop (parse_not J ctx por n) (n - ands e) v rest)"
    by (rule and_reads) (use assms lt follows_mono in auto)
  with k assms(4) show ?thesis
    by (cases "ev J ctx e"; cases rest) (simp_all add: follows_def)
qed

lemma or_reads_other:
  assumes "level e \<noteq> 0" "wf_ast e" "length (pr 0 e) \<le> m" "length (pr 0 e) < n" "follows 1 rest"
  shows "or_body n (pr 0 e @ rest) =
     (case ev J ctx e of Inl x \<Rightarrow> Some (Inl x)
      | Inr v \<Rightarrow> or_loop (parse_and J ctx por n) (n - ors e) v rest)"
proof -
  have p: "pr 0 e = pr 1 e" using assms(1) by (auto simp: wrap_def)
  have "parse_and J ctx por n (pr 1 e @ rest) = returns (ev J ctx e) rest"
    by (rule and_returns) (use assms p in auto)
  moreover have "ors e = 0" using assms(1) by (cases e) (simp_all add: level_def)
  ultimately show ?thesis using p by (cases "ev J ctx e") (simp_all add: or_body_def)
qed

lemma or_reads:
  "wf_ast e \<Longrightarrow> length (pr 0 e) \<le> m \<Longrightarrow> length (pr 0 e) < n \<Longrightarrow> follows 1 rest \<Longrightarrow>
   or_body n (pr 0 e @ rest) =
     (case ev J ctx e of Inl x \<Rightarrow> Some (Inl x)
      | Inr v \<Rightarrow> or_loop (parse_and J ctx por n) (n - ors e) v rest)"
proof (induction e arbitrary: rest)
  case (AOr a b)
  let ?l = "or_loop (parse_and J ctx por n)"
  have p: "pr 0 (AOr a b) = pr 0 a @ Or # pr 1 b" by (simp add: wrap_def level_def)
  have a: "or_body n (pr 0 a @ Or # pr 1 b @ rest) =
     (case ev J ctx a of Inl x \<Rightarrow> Some (Inl x) | Inr v \<Rightarrow> ?l (n - ors a) v (Or # pr 1 b @ rest))"
    by (rule AOr.IH(1)) (use AOr.prems p in \<open>auto simp: follows_def is_cmp_def\<close>)
  have b: "parse_and J ctx por n (pr 1 b @ rest) = returns (ev J ctx b) rest"
    by (rule and_returns) (use AOr.prems p in auto)
  have "ors a < n" using ors_length[of a] length_pr[of a 0] AOr.prems(3) p by simp
  then have "n - ors a = Suc (n - Suc (ors a))" by simp
  with a b show ?case unfolding p
    by (cases "ev J ctx a"; cases "ev J ctx b") simp_all
qed (rule or_reads_other; simp add: level_def; fail)+

lemma or_returns:
  assumes "wf_ast e" "length (toks e) \<le> m" "follows 0 rest"
  shows "or_body (Suc m) (toks e @ rest) = returns (ev J ctx e) rest"
proof -
  have p: "pr 0 e = toks e" by (simp add: wrap_def)
  have "or_body (Suc m) (pr 0 e @ rest) = (case ev J ctx e of Inl x \<Rightarrow> Some (Inl x)
      | Inr v \<Rightarrow> or_loop (parse_and J ctx por (Suc m)) (Suc m - ors e) v rest)"
    by (rule or_reads) (use assms p follows_mono in auto)
  moreover obtain k where "Suc m - ors e = Suc k"
    using ors_length[of e] assms(2) by (cases "Suc m - ors e") auto
  ultimately show ?thesis using p assms(3)
    by (cases "ev J ctx e"; cases rest) (simp_all add: follows_def)
qed

end

lemma sub_parser_parse_or: "sub_parser J ctx (parse_or J ctx m) m"
proof (induction m)
  case 0
  show ?case by unfold_locales simp
next
  case (Suc m)
  show ?case
  proof unfold_locales
    fix e rest assume "wf_ast e" "length (toks e) < Suc m" "follows 0 rest"
    then show "parse_or J ctx (Suc m) (toks e @ rest) = returns (ev J ctx e) rest"
      using sub_parser.or_returns[OF Suc, of e rest]
      by (simp add: Let_def sub_parser.or_body_def[OF Suc])
  qed
qed

interpretation or_parser: sub_parser J ctx "parse_or J ctx m" m for J ctx m
  by (rule sub_parser_parse_or)

lemma eval_tokens_toks: "wf_ast e \<Longrightarrow> eval_tokens J ctx (toks e) = Some (ev J ctx e)"
  using or_parser.reads[of e "length (toks e) + 1" "[]" J ctx]
  by (cases "ev J ctx e") (simp_all add: eval_tokens_def follows_def)

section \<open>The closing braces\<close>

text \<open>The quote a scan is inside of after reading a text, as both scanners see it.\<close>

fun quote_after :: "char option \<Rightarrow> string \<Rightarrow> char option" where
  "quote_after q [] = q"
| "quote_after (Some q) (c # cs) =
     (if c = q then
        (case cs of
           d # ds \<Rightarrow> if q = CHR 0x27 \<and> d = CHR 0x27 then quote_after (Some q) ds
                     else quote_after None cs
         | [] \<Rightarrow> None)
      else quote_after (Some q) cs)"
| "quote_after None (c # cs) =
     (if c = CHR 0x27 \<or> c = CHR 0x22 then quote_after (Some c) cs else quote_after None cs)"

lemma find_close_from_Some:
  "find_close_from q s = Some i \<Longrightarrow>
     i + 2 \<le> length s \<and> prefix ''}}'' (drop i s) \<and> quote_after q (take i s) = None"
proof (induction q s arbitrary: i rule: find_close_from.induct)
  case (1 quote)
  then show ?case by simp
next
  case (2 q c cs)
  show ?case
  proof (cases "c = q")
    case False
    with 2 show ?thesis by auto
  next
    case c: True
    show ?thesis
    proof (cases cs)
      case Nil
      with 2 c show ?thesis by simp
    next
      case (Cons d ds)
      show ?thesis
      proof (cases "q = CHR 0x27 \<and> d = CHR 0x27")
        case True
        with 2(2)[OF c Cons True] "2.prems" c Cons show ?thesis by auto
      next
        case False
        with "2.prems" c Cons obtain j where j: "find_close_from None cs = Some j" "i = Suc j" by auto
        from 2(3)[OF c Cons False j(1)] c Cons False j(2) show ?thesis by (cases j) auto
      qed
    qed
  qed
next
  case (3 c cs)
  show ?case
  proof (cases "c = CHR 0x27 \<or> c = CHR 0x22")
    case True
    with 3 show ?thesis by auto
  next
    case False
    note c = False
    show ?thesis
    proof (cases "prefix ''}}'' (c # cs)")
      case True
      then have "2 \<le> length (c # cs)" using prefix_length_le by fastforce
      moreover have "i = 0" using c True "3.prems" by (simp only: find_close_from.simps if_False if_True option.inject)
      ultimately show ?thesis using True by auto
    next
      case False
      have "map_option Suc (find_close_from None cs) = Some i"
        using c False "3.prems" by (simp only: find_close_from.simps if_False)
      then obtain j where "find_close_from None cs = Some j" "i = Suc j" by auto
      with "3.IH"(2)[OF c False] c show ?thesis by simp
    qed
  qed
qed

lemma scan_str_quote:
  "quote_after (Some q) s = (case scan_str q s of None \<Rightarrow> Some q | Some (lit, r) \<Rightarrow> quote_after None r)"
proof (induction q s rule: scan_str.induct)
  case (2 q c cs)
  then show ?case by (cases cs) (auto split: option.splits)
qed simp

lemma quote_after_skip: "list_all (\<lambda>c. c \<noteq> CHR 0x27 \<and> c \<noteq> CHR 0x22) s \<Longrightarrow> quote_after None (s @ t) = quote_after None t"
  by (induction s) auto

lemma ident_byte_no_quote: "ident_byte c \<Longrightarrow> c \<noteq> CHR 0x27 \<and> c \<noteq> CHR 0x22"
  by (cases "c = CHR 0x27"; cases "c = CHR 0x22") (simp_all add: ident_byte_def ascii_defs)

lemma quote_after_ident: "quote_after None (dropWhile ident_byte s) = quote_after None s"
proof -
  have "list_all (\<lambda>c. c \<noteq> CHR 0x27 \<and> c \<noteq> CHR 0x22) (takeWhile ident_byte s)"
    unfolding list_all_iff by (rule ballI) (rule ident_byte_no_quote, drule set_takeWhileD, simp)
  from quote_after_skip[OF this, of "dropWhile ident_byte s"] show ?thesis by simp
qed

lemma quote_after_num: "quote_after None (snd (scan_num s)) = quote_after None s"
proof (induction s)
  case (Cons c s)
  show ?case
  proof (cases "is_ascii_digit c \<or> (c = CHR ''.'' \<and> s \<noteq> [] \<and> is_ascii_digit (hd s))")
    case True
    then have "c \<noteq> CHR 0x27" "c \<noteq> CHR 0x22" by (auto simp: ascii_defs)
    with True Cons show ?thesis by (cases "scan_num s") simp
  next
    case False
    then have "scan_num (c # s) = ([], c # s)" by (simp only: scan_num.simps if_False)
    then show ?thesis by simp
  qed
qed simp

lemma push_Inl [simp]: "push t r = Inl e \<longleftrightarrow> r = Inl e"
  by (cases r) (simp_all add: push_def)

lemma prefix_op_drop:
  "prefix [a, b] (c # cs) \<Longrightarrow> a \<noteq> CHR 0x27 \<Longrightarrow> a \<noteq> CHR 0x22 \<Longrightarrow> b \<noteq> CHR 0x27 \<Longrightarrow> b \<noteq> CHR 0x22 \<Longrightarrow>
     quote_after None (drop 1 cs) = quote_after None (c # cs)"
  by (auto simp: prefix_def)

lemma if_elim: "(if b then x else y) = z \<Longrightarrow> (b \<Longrightarrow> x = z \<Longrightarrow> P) \<Longrightarrow> (\<not> b \<Longrightarrow> y = z \<Longrightarrow> P) \<Longrightarrow> P"
  by (simp split: if_splits)

lemma quote_after_plain: "c \<noteq> CHR 0x27 \<Longrightarrow> c \<noteq> CHR 0x22 \<Longrightarrow> quote_after None cs = quote_after None (c # cs)"
  by simp

lemma whitespace_no_quote: "is_ascii_whitespace c \<Longrightarrow> c \<noteq> CHR 0x27 \<and> c \<noteq> CHR 0x22"
  by (auto simp: ascii_defs)

lemma tokenize_unterminated: "tokenize s = Inl UnterminatedString \<Longrightarrow> quote_after None s \<noteq> None"
proof (induction s rule: measure_induct_rule[of length])
  case (less s)
  show ?case
  proof (cases s)
    case Nil
    with less.prems show ?thesis by simp
  next
    case (Cons c cs)
    have adv: ?thesis if "tokenize x = Inl UnterminatedString" "(x, c # cs) \<in> measure length"
      "quote_after None x = quote_after None (c # cs)" for x
      using less.IH[of x] that Cons by simp
    have plain: ?thesis if "tokenize cs = Inl UnterminatedString" "c \<noteq> CHR 0x27" "c \<noteq> CHR 0x22"
      using adv[of cs] that tokenize_shrinks(1) by simp
    have op: ?thesis if "tokenize (drop 1 cs) = Inl UnterminatedString" "prefix [a, b] (c # cs)"
      "a \<noteq> CHR 0x27" "a \<noteq> CHR 0x22" "b \<noteq> CHR 0x27" "b \<noteq> CHR 0x22" for a b
      by (rule adv[OF that(1) tokenize_shrinks(2) prefix_op_drop[OF that(2-6)]])
    have t: "tokenize (c # cs) = Inl UnterminatedString" using less.prems Cons by simp
    show ?thesis
      using t[unfolded tokenize.simps(2)[of c cs]]
    proof (elim if_elim, goal_cases)
      case 1
      then show ?thesis using plain whitespace_no_quote[of c] by simp
    next
      case 2
      then show ?thesis using plain by simp
    next
      case 3
      then show ?thesis using plain by simp
    next
      case 4
      then show ?thesis using plain by simp
    next
      case 5
      then show ?thesis using plain by simp
    next
      case 6
      show ?thesis by (rule op[OF 6(7)[unfolded push_Inl] 6(6)]) simp_all
    next
      case 7
      show ?thesis by (rule op[OF 7(8)[unfolded push_Inl] 7(7)]) simp_all
    next
      case 8
      then show ?thesis using plain by simp
    next
      case 9
      show ?thesis by (rule op[OF 9(10)[unfolded push_Inl] 9(9)]) simp_all
    next
      case 10
      then show ?thesis using plain by simp
    next
      case 11
      show ?thesis by (rule op[OF 11(12)[unfolded push_Inl] 11(11)]) simp_all
    next
      case 12
      then show ?thesis using plain by simp
    next
      case 13
      show ?thesis by (rule op[OF 13(14)[unfolded push_Inl] 13(13)]) simp_all
    next
      case 14
      show ?thesis by (rule op[OF 14(15)[unfolded push_Inl] 14(14)]) simp_all
    next
      case 15
      then have q: "c = CHR 0x27 \<or> c = CHR 0x22" by simp
      show ?thesis
      proof (cases "scan_str c cs")
        case None
        with q Cons scan_str_quote[of c cs] show ?thesis by auto
      next
        case (Some lr)
        obtain lit r where lr: "lr = (lit, r)" by force
        with Some q scan_str_quote[of c cs] have "quote_after None r = quote_after None (c # cs)" by auto
        moreover have "tokenize r = Inl UnterminatedString" using 15(16) Some lr by simp
        ultimately show ?thesis
          using adv[of r] tokenize_shrinks_str[OF Some, of lit r c] lr by simp
      qed
    next
      case 16
      then show ?thesis
        using adv[of "snd (scan_num (c # cs))"] tokenize_shrinks_num[of c cs] quote_after_num[of "c # cs"]
        by (auto split: option.splits simp del: scan_num.simps)
    next
      case 17
      then show ?thesis
        using adv[of "dropWhile ident_byte cs"] tokenize_shrinks(3)[of cs c] quote_after_ident[of cs]
          ident_byte_no_quote[of c] by simp
    next
      case 18
      then show ?thesis by simp
    qed
  qed
qed

section \<open>Substitution rewrites exactly the closed expressions\<close>

datatype piece = Lit string | Hole string

fun piece_text :: "piece \<Rightarrow> string" where
  "piece_text (Lit s) = s"
| "piece_text (Hole b) = ''${{'' @ b @ ''}}''"

fun render :: "json_ops \<Rightarrow> expr_context \<Rightarrow> piece \<Rightarrow> string" where
  "render J ctx (Lit s) = s"
| "render J ctx (Hole b) =
     (case eval J ctx b of Inr v \<Rightarrow> to_display J v | Inl _ \<Rightarrow> piece_text (Hole b))"

text \<open>
  How a text falls into literal pieces and expressions. A literal piece before an expression has no
  opening braces; the text of an expression closes every string literal it opens.
\<close>

inductive splits :: "string \<Rightarrow> piece list \<Rightarrow> bool" where
  splits_plain: "\<not> str_contains s ''${{'' \<Longrightarrow> splits s [Lit s]"
| splits_open: "find_close b = None \<Longrightarrow> splits (a @ ''${{'' @ b) [Lit (a @ ''${{'' @ b)]"
| splits_hole: "(\<And>j. j < length a \<Longrightarrow> \<not> prefix ''${{'' (drop j (a @ ''${{'' @ b @ ''}}'' @ r))) \<Longrightarrow>
    find_close (b @ ''}}'' @ r) = Some (length b) \<Longrightarrow> splits r ps \<Longrightarrow>
    splits (a @ ''${{'' @ b @ ''}}'' @ r) (Lit a # Hole b # ps)"

lemma splits_text: "splits s ps \<Longrightarrow> concat (map piece_text ps) = s"
  by (induction rule: splits.induct) auto

lemma find_close_no_unterminated:
  assumes "find_close (b @ t) = Some (length b)"
  shows "tokenize b \<noteq> Inl UnterminatedString"
proof -
  have "quote_after None (take (length b) (b @ t)) = None"
    using find_close_from_Some assms unfolding find_close_def by blast
  then show ?thesis using tokenize_unterminated[of b] by auto
qed

lemma splits_holes: "splits s ps \<Longrightarrow> Hole b \<in> set ps \<Longrightarrow> tokenize b \<noteq> Inl UnterminatedString"
  by (induction rule: splits.induct) (auto dest: find_close_no_unterminated)

lemma substitute_splits: "\<exists>ps. splits s ps \<and> substitute J ctx s = concat (map (render J ctx) ps)"
proof (induction s rule: measure_induct_rule[of length])
  case (less s)
  show ?case
  proof (cases "str_find ''${{'' s")
    case None
    then have "splits s [Lit s]" by (intro splits_plain) (simp add: str_find_None)
    with None show ?thesis by (intro exI[of _ "[Lit s]"]) (simp add: substitute.simps)
  next
    case (Some start)
    let ?a = "take start s" and ?body = "drop (start + 3) s"
    obtain z where z: "drop start s = ''${{'' @ z"
      using str_find_Some[OF Some] by (auto simp: prefix_def)
    then have "?body = z" by (metis add.commute drop_drop append_eq_conv_conj length_Cons list.size(3)
          numeral_3_eq_3)
    then have s: "s = ?a @ ''${{'' @ ?body" using z append_take_drop_id[of start s] by simp
    show ?thesis
    proof (cases "find_close ?body")
      case None
      then have "splits s [Lit s]" using splits_open[of ?body ?a] s by simp
      with Some None show ?thesis
        by (intro exI[of _ "[Lit s]"]) (simp add: substitute.simps[of J ctx s])
    next
      case fin: (Some fin)
      let ?b = "take fin ?body" and ?r = "drop (fin + 2) ?body"
      have fc: "fin + 2 \<le> length ?body" "prefix ''}}'' (drop fin ?body)"
        using find_close_from_Some[of None ?body fin] fin by (auto simp: find_close_def)
      obtain y where y: "drop fin ?body = ''}}'' @ y" using fc(2) by (auto simp: prefix_def)
      have "?r = y" using arg_cong[OF y, of "drop 2"] by (simp add: add.commute)
      then have body: "?body = ?b @ ''}}'' @ ?r" using y append_take_drop_id[of fin ?body] by simp
      have lb: "length ?b = fin" using fc(1) by simp
      have "length ?r < length s" using fc(1) by simp
      then obtain ps where ps: "splits ?r ps" "substitute J ctx ?r = concat (map (render J ctx) ps)"
        using less.IH by blast
      have la: "length ?a = start" using str_find_Some[OF Some] by simp
      have "splits (?a @ ''${{'' @ ?b @ ''}}'' @ ?r) (Lit ?a # Hole ?b # ps)"
      proof (rule splits_hole)
        show "\<not> prefix ''${{'' (drop j (?a @ ''${{'' @ ?b @ ''}}'' @ ?r))" if "j < length ?a" for j
          using str_find_first[OF Some, of j] that la s body by metis
        show "find_close (?b @ ''}}'' @ ?r) = Some (length ?b)" using fin body lb by metis
      qed (rule ps(1))
      then have sp: "splits s (Lit ?a # Hole ?b # ps)" using s body by metis
      have verb: "take (3 + fin + 2) (drop start s) = piece_text (Hole ?b)"
      proof -
        have "drop start s = (''${{'' @ ?b @ ''}}'') @ ?r" using s la body by (metis append.assoc append_eq_conv_conj)
        moreover have "length (''${{'' @ ?b @ ''}}'') = 3 + fin + 2" using lb by simp
        ultimately show ?thesis by (metis append_eq_conv_conj piece_text.simps(2))
      qed
      have "substitute J ctx s = concat (map (render J ctx) (Lit ?a # Hole ?b # ps))"
        unfolding substitute.simps[of J ctx s] Some option.case Let_def fin verb ps(2)
        by (cases "eval J ctx ?b") simp_all
      with sp show ?thesis by blast
    qed
  qed
qed

lemma render_all_errors:
  "list_all (\<lambda>p. case p of Lit _ \<Rightarrow> True | Hole b \<Rightarrow> (\<exists>e. eval J ctx b = Inl e)) ps \<Longrightarrow>
     map (render J ctx) ps = map piece_text ps"
  by (induction ps) (auto split: piece.splits)

section \<open>Properties\<close>

text \<open>
  C15. The evaluator reads the grammar with the usual precedences: on the tokens of any expression
  tree, printed with parentheses only where the precedence of or, and, comparison, not and property
  access needs them, it returns the value of the tree in the reference semantics, errors included.
\<close>

theorem eval_tokens_reference: "wf_ast e \<Longrightarrow> eval_tokens J ctx (toks e) = Some (ev J ctx e)"
  by (rule eval_tokens_toks)

definition demo_ops :: json_ops where
  "demo_ops = \<lparr>float_str = (\<lambda>_. []), value_str = (\<lambda>_. []), from_json = (\<lambda>_. None), yaml_json = (\<lambda>_. None)\<rparr>"

theorem eval_tokens_reference_witness:
  "eval_tokens demo_ops [] (toks (AOr (AAnd (AStr ''a'') (AStr ''b'')) (ANot (AStr ''c''))))
     = Some (ev demo_ops [] (AOr (AAnd (AStr ''a'') (AStr ''b'')) (ANot (AStr ''c''))))"
  by (rule eval_tokens_reference) simp

text \<open>
  Evaluation terminates on every token sequence: the fuel, one more than the number of tokens,
  is never used up, whatever the input.
\<close>

theorem eval_tokens_terminates: "eval_tokens J ctx ts \<noteq> None"
  by (rule eval_tokens_total)

text \<open>
  Substitution touches only the holes: every text is a sequence of literal pieces and holes, the
  pieces make up the text exactly, no hole ends inside a string literal, and the result is the
  pieces with each hole replaced by its value, or kept verbatim when it does not evaluate.
\<close>

theorem substitute_pieces:
  "\<exists>ps. concat (map piece_text ps) = s \<and>
     list_all (\<lambda>p. case p of Hole b \<Rightarrow> tokenize b \<noteq> Inl UnterminatedString | Lit _ \<Rightarrow> True) ps \<and>
     substitute J ctx s = concat (map (render J ctx) ps)"
proof -
  obtain ps where ps: "splits s ps" "substitute J ctx s = concat (map (render J ctx) ps)"
    using substitute_splits by blast
  with splits_text[OF ps(1)] splits_holes[OF ps(1)] show ?thesis
    by (intro exI[of _ ps]) (auto simp: list_all_iff split: piece.splits)
qed

end
