(* ===== verification/Plan.thy ===== *)
theory Plan
  imports Workflow Expr
begin

text \<open>
  Planning (\<open>ci/src/plan.rs\<close>): a validated workflow becomes the ordered list of jobs to dispatch.
  Matrix expansion, the assignment of a unique key to every cell, the substitution of matrix
  values, the placement rules of the host actions (\<open>validate_plan\<close> of
  \<open>ci/src/host_maintenance.rs\<close> and \<open>ci/src/host_heyvm_bootstrap_coordinator.rs\<close>) and the
  topological order. The theory shows that a planned list is a permutation of its cells in which
  every cell follows all cells of what it needs, that a validated workflow is never unsatisfiable,
  and that keys are distinct tokens of the subject alphabet.
\<close>

section \<open>Plans\<close>

type_synonym combo = "(string \<times> json) list"

record job_plan =
  jp_key :: string
  jp_base_id :: string
  jp_display :: string
  jp_target :: target
  jp_native_labels :: "string list"
  jp_fallback :: fallback
  jp_vm :: vm_spec
  jp_needs :: "string list"
  jp_condition :: "string option"
  jp_matrix :: combo
  jp_env :: str_map
  jp_outputs :: str_map
  jp_continue_on_error :: bool
  jp_timeout_secs :: nat
  jp_steps :: "step list"
  jp_max_parallel :: "nat option"
  jp_fail_fast :: bool

record plan =
  plan_workflow_path :: string
  plan_workflow_name :: "string option"
  plan_env :: str_map
  plan_jobs :: "job_plan list"

datatype matrix_detail =
    MatrixNotMapping
  | AxisNameNotString
  | EntriesNotList string
  | AxisNotList string
  | AxisEmpty string

datatype plan_detail =
    PlacementDetail workflow_error
  | MaintenanceNotFinal
  | MaintenanceNotOwnedVm
  | BootstrapNotFinal
  | BootstrapNotOwnedVm
  | BootstrapUnsupportedInput
  | BootstrapMissingInput string
  | TokenNotSecret
  | TokenBadName
  | AppLbRolloutTolerant

datatype plan_error =
    PlanWorkflow plan_detail
  | BadMatrix string matrix_detail
  | EmptyMatrix string
  | Unsatisfiable "string list"

definition DEFAULT_JOB_TIMEOUT_MINUTES :: nat where
  "DEFAULT_JOB_TIMEOUT_MINUTES = 60"

definition base_context :: "job_plan \<Rightarrow> expr_context" where
  "base_context j =
     ctx_set (ctx_set (ctx_set ctx_new
       ''matrix'' (Object (jp_matrix j)))
       ''env'' (Object (map (\<lambda>(k, v). (k, String v)) (jp_env j))))
       ''job'' (Object [(''id'', String (jp_base_id j)), (''key'', String (jp_key j))])"

section \<open>Matrix expansion\<close>

definition yaml_to_json :: "json_ops \<Rightarrow> yaml \<Rightarrow> json" where
  "yaml_to_json J v = (case yaml_json J v of Some j \<Rightarrow> j | None \<Rightarrow> Null)"

definition yaml_map_to_json :: "json_ops \<Rightarrow> yaml \<Rightarrow> combo option" where
  "yaml_map_to_json J v =
     map_option
       (\<lambda>m. btree_extend []
          (List.map_filter (\<lambda>(k, v). map_option (\<lambda>k. (k, yaml_to_json J v)) (y_as_str k)) m))
       (y_as_mapping v)"

text \<open>\<open>serde_json::Value\<close> compares numbers of the same kind by value.\<close>

fun num_eq :: "num \<Rightarrow> num \<Rightarrow> bool" where
  "num_eq (NInt i) (NInt j) = (i = j)"
| "num_eq (NFloat x) (NFloat y) = f64_eq x y"
| "num_eq _ _ = False"

primrec json_eq :: "json \<Rightarrow> json \<Rightarrow> bool" where
  "json_eq Null w = (w = Null)"
| "json_eq (Bool b) w = (w = Bool b)"
| "json_eq (Number n) w = (case w of Number n' \<Rightarrow> num_eq n n' | _ \<Rightarrow> False)"
| "json_eq (String s) w = (w = String s)"
| "json_eq (Array xs) w =
     (case w of Array ys \<Rightarrow> list_all2 (\<lambda>f y. f y) (map json_eq xs) ys | _ \<Rightarrow> False)"
| "json_eq (Object m) w =
     (case w of
        Object m' \<Rightarrow>
          list_all2 (\<lambda>(k, f) (k', y). k = k' \<and> f y) (map (map_prod id json_eq) m) m'
      | _ \<Rightarrow> False)"

definition matches_subset :: "combo \<Rightarrow> combo \<Rightarrow> bool" where
  "matches_subset c entry =
     list_all (\<lambda>(k, v). case map_of c k of Some v' \<Rightarrow> json_eq v' v | None \<Rightarrow> False)
       (filter (\<lambda>(k, _). map_of c k \<noteq> None) entry)"

type_synonym axis = "string \<times> json list"
type_synonym matrix_parts = "axis list \<times> combo list \<times> combo list"

definition matrix_entry :: "json_ops \<Rightarrow> string \<Rightarrow> matrix_parts \<Rightarrow> yaml \<times> yaml \<Rightarrow> plan_error + matrix_parts" where
  "matrix_entry J job_id parts kv =
     (case (parts, kv) of ((axes, incl, excl), (k, v)) \<Rightarrow>
        and_then (ok_or (BadMatrix job_id AxisNameNotString) (y_as_str k)) (\<lambda>name.
        if name = ''include'' \<or> name = ''exclude'' then
          and_then (ok_or (BadMatrix job_id (EntriesNotList name)) (y_as_sequence v)) (\<lambda>sq.
          let entries = List.map_filter (yaml_map_to_json J) sq in
          if name = ''include'' then Inr (axes, entries, excl) else Inr (axes, incl, entries))
        else
          and_then (ok_or (BadMatrix job_id (AxisNotList name)) (y_as_sequence v)) (\<lambda>items.
          Inr (axes @ [(name, map (yaml_to_json J) items)], incl, excl))))"

fun matrix_entries :: "json_ops \<Rightarrow> string \<Rightarrow> matrix_parts \<Rightarrow> (yaml \<times> yaml) list \<Rightarrow> plan_error + matrix_parts" where
  "matrix_entries J job_id parts [] = Inr parts"
| "matrix_entries J job_id parts (kv # m) =
     and_then (matrix_entry J job_id parts kv) (\<lambda>parts'. matrix_entries J job_id parts' m)"

fun cartesian :: "string \<Rightarrow> axis list \<Rightarrow> combo list \<Rightarrow> plan_error + combo list" where
  "cartesian job_id [] combos = Inr combos"
| "cartesian job_id ((name, vals) # axes) combos =
     (if vals = [] then Inl (BadMatrix job_id (AxisEmpty name))
      else cartesian job_id axes
        (concat (map (\<lambda>b. map (\<lambda>v. btree_insert name v b) vals) combos)))"

definition include_entry :: "combo \<Rightarrow> combo list \<Rightarrow> combo list" where
  "include_entry entry combos =
     (let merged = map (\<lambda>c. if matches_subset c entry then btree_extend c entry else c) combos
      in if list_ex (\<lambda>c. matches_subset c entry) combos then merged else merged @ [entry])"

definition expand_matrix :: "json_ops \<Rightarrow> string \<Rightarrow> job \<Rightarrow> plan_error + combo list" where
  "expand_matrix J job_id j =
     (case Option.bind (job_strategy j) strat_matrix of
        None \<Rightarrow> Inr [[]]
      | Some matrix \<Rightarrow>
          and_then (ok_or (BadMatrix job_id MatrixNotMapping) (y_as_mapping matrix)) (\<lambda>m.
          and_then (matrix_entries J job_id ([], [], []) m) (\<lambda>(axes, incl, excl).
          and_then (cartesian job_id (sort_key fst axes) [[]]) (\<lambda>combos.
          let kept = filter (\<lambda>c. \<not> list_ex (matches_subset c) excl) combos;
              final = fold include_entry incl kept
          in if final = [] then Inl (EmptyMatrix job_id) else Inr final))))"

section \<open>Keys and labels\<close>

definition token_byte :: "char \<Rightarrow> bool" where
  "token_byte c \<longleftrightarrow> is_ascii_alphanumeric c \<or> c = CHR ''_'' \<or> c = CHR ''-''"

definition sanitize_char :: "string \<Rightarrow> char" where
  "sanitize_char g = (if length g = 1 \<and> token_byte (hd g) then hd g else CHR ''-'')"

definition trim_dashes :: "string \<Rightarrow> string" where
  "trim_dashes s =
     rev (dropWhile (\<lambda>c. c = CHR ''-'') (rev (dropWhile (\<lambda>c. c = CHR ''-'') s)))"

definition sanitize :: "string \<Rightarrow> string" where
  "sanitize s = trim_dashes (map sanitize_char (chars s))"

definition display_value :: "json_ops \<Rightarrow> json \<Rightarrow> string" where
  "display_value J v = (case v of String s \<Rightarrow> s | other \<Rightarrow> value_str J other)"

definition display_label :: "json_ops \<Rightarrow> job \<Rightarrow> string \<Rightarrow> combo \<Rightarrow> string" where
  "display_label J j jid matrix =
     (let b = (case job_name j of Some n \<Rightarrow> n | None \<Rightarrow> jid) in
      if matrix = [] then b
      else b @ '' ('' @ join '', '' (map (\<lambda>(_, v). display_value J v) matrix) @ '')'')"

definition indexed_key :: "string \<Rightarrow> nat \<Rightarrow> string" where
  "indexed_key base_id n = base_id @ ''-'' @ nat_str n"

lemma indexed_key_inj [simp]: "indexed_key b m = indexed_key b n \<longleftrightarrow> m = n"
  by (simp add: indexed_key_def)

lemma finite_indexed: "finite {k. indexed_key b k \<in> set used}"
  by (rule finite_imageD[of "indexed_key b"]) (auto simp: inj_on_def intro: finite_subset[of _ "set used"])

text \<open>The loop that extends a taken key; the keys in use are finite, so it ends.\<close>

function free_key :: "string \<Rightarrow> nat \<Rightarrow> string list \<Rightarrow> string" where
  "free_key base_id n used =
     (if indexed_key base_id n \<in> set used then free_key base_id (n + 1) used
      else indexed_key base_id n)"
  by pat_completeness auto
termination
proof (relation "measure (\<lambda>(b, n, used). card {k. n \<le> k \<and> indexed_key b k \<in> set used})", simp)
  fix b n used assume a: "indexed_key b n \<in> set used"
  have fin: "finite {k. n \<le> k \<and> indexed_key b k \<in> set used}"
    by (rule finite_subset[OF _ finite_indexed[of b used]]) auto
  have "{k. n + 1 \<le> k \<and> indexed_key b k \<in> set used} \<subset> {k. n \<le> k \<and> indexed_key b k \<in> set used}"
  proof (rule psubsetI)
    have "n \<in> {k. n \<le> k \<and> indexed_key b k \<in> set used}" using a by simp
    then show "{k. n + 1 \<le> k \<and> indexed_key b k \<in> set used} \<noteq> {k. n \<le> k \<and> indexed_key b k \<in> set used}"
      by (metis (no_types, lifting) Suc_eq_plus1 mem_Collect_eq not_less_eq_eq order_refl)
  qed auto
  from psubset_card_mono[OF fin this]
  show "((b, n + 1, used), b, n, used) \<in> measure (\<lambda>(b, n, used). card {k. n \<le> k \<and> indexed_key b k \<in> set used})"
    by simp
qed

declare free_key.simps [simp del]

definition key_candidate :: "json_ops \<Rightarrow> string \<Rightarrow> combo \<Rightarrow> string" where
  "key_candidate J base_id matrix =
     (let sfx = filter (\<lambda>s. s \<noteq> []) (map (\<lambda>(_, v). sanitize (display_value J v)) matrix) in
      if matrix \<noteq> [] \<and> sfx \<noteq> [] then base_id @ ''-'' @ join ''-'' sfx else base_id)"

definition unique_key :: "json_ops \<Rightarrow> string \<Rightarrow> combo \<Rightarrow> nat \<Rightarrow> string list \<Rightarrow> string \<times> string list" where
  "unique_key J base_id matrix index used =
     (let c0 = key_candidate J base_id matrix;
          candidate = (if length c0 > 64 \<or> c0 \<in> set used then indexed_key base_id index else c0);
          final = (if candidate \<in> set used then free_key base_id (index + 1) used else candidate)
      in (final, final # used))"

section \<open>Cells\<close>

definition substitute_matrix :: "json_ops \<Rightarrow> job_plan \<Rightarrow> job_plan" where
  "substitute_matrix J j =
     (let ctx = base_context j; sub = substitute J ctx in
      j\<lparr>jp_target := (jp_target j)\<lparr>tgt_network := map_option sub (tgt_network (jp_target j)),
                                  tgt_node := map_option sub (tgt_node (jp_target j))\<rparr>,
        jp_vm := (jp_vm j)\<lparr>vm_image := map_option sub (vm_image (jp_vm j)),
                          vm_env_vars := map (\<lambda>(k, v). (k, sub v)) (vm_env_vars (jp_vm j)),
                          vm_setup_hooks := map sub (vm_setup_hooks (jp_vm j))\<rparr>,
        jp_native_labels := map sub (jp_native_labels j),
        jp_env := map (\<lambda>(k, v). (k, sub v)) (jp_env j)\<rparr>)"

definition MAINTENANCE_ACTION :: string where
  "MAINTENANCE_ACTION = ''ci/host-heyvm-maintenance''"

definition BOOTSTRAP_ACTION :: string where
  "BOOTSTRAP_ACTION = ''ci/bootstrap-host-heyvm''"

definition HEYVMD_ACTION :: string where
  "HEYVMD_ACTION = ''ci/rollout-host-heyvmd''"

definition APP_LB_ROLLOUT :: string where
  "APP_LB_ROLLOUT = ''ci/rollout-host-app-lb''"

definition final_and_strict :: "job_plan \<Rightarrow> nat \<Rightarrow> step \<Rightarrow> bool" where
  "final_and_strict j i st \<longleftrightarrow>
     i + 1 = length (jp_steps j) \<and> \<not> step_continue_on_error st \<and> \<not> jp_continue_on_error j"

definition owned_vm :: "job_plan \<Rightarrow> bool" where
  "owned_vm j \<longleftrightarrow> \<not> is_existing_vm (jp_target j) \<and> jp_native_labels j = []"

definition maintenance_validate_plan :: "job_plan \<Rightarrow> plan_detail + unit" where
  "maintenance_validate_plan j =
     for_each (\<lambda>(i, st).
         and_then (fail_if (\<not> final_and_strict j i st) MaintenanceNotFinal) (\<lambda>_.
         fail_if (\<not> owned_vm j) MaintenanceNotOwnedVm))
       (filter (\<lambda>(_, st). step_uses st = Some MAINTENANCE_ACTION) (enumerate 0 (jp_steps j)))"

definition token_secret :: "string \<Rightarrow> plan_detail + string" where
  "token_secret expression =
     and_then (ok_or TokenNotSecret
       (Option.bind (strip_prefix ''${{ secrets.'' expression) (strip_suffix '' }}''))) (\<lambda>name.
     if name \<noteq> [] \<and> list_all (\<lambda>b. is_ascii_alphanumeric b \<or> b = CHR ''_'') name
     then Inr name else Inl TokenBadName)"

definition BOOTSTRAP_INPUTS :: "string list" where
  "BOOTSTRAP_INPUTS = [''target'', ''token'', ''workflow'', ''artifact'']"

definition bootstrap_validate_plan :: "job_plan \<Rightarrow> plan_detail + unit" where
  "bootstrap_validate_plan j =
     for_each (\<lambda>(i, st).
         and_then (fail_if (\<not> final_and_strict j i st) BootstrapNotFinal) (\<lambda>_.
         and_then (fail_if (\<not> owned_vm j) BootstrapNotOwnedVm) (\<lambda>_.
         and_then (fail_if (\<not> list_all (\<lambda>(k, _). k \<in> set BOOTSTRAP_INPUTS) (step_with st))
                     BootstrapUnsupportedInput) (\<lambda>_.
         and_then (for_each (\<lambda>key. fail_if
                       (case map_of (step_with st) key of Some v \<Rightarrow> trim v = [] | None \<Rightarrow> True)
                       (BootstrapMissingInput key)) BOOTSTRAP_INPUTS) (\<lambda>_.
         and_then (token_secret (case map_of (step_with st) ''token'' of Some v \<Rightarrow> v | None \<Rightarrow> []))
           (\<lambda>_. Inr ()))))))
       (filter (\<lambda>(_, st). step_uses st = Some BOOTSTRAP_ACTION \<or> step_uses st = Some HEYVMD_ACTION)
         (enumerate 0 (jp_steps j)))"

text \<open>A release build multiplies the minutes with wrap-around at 64 bits.\<close>

definition timeout_secs :: "job \<Rightarrow> nat" where
  "timeout_secs j =
     ((case job_timeout_minutes j of Some m \<Rightarrow> m | None \<Rightarrow> DEFAULT_JOB_TIMEOUT_MINUTES) * 60) mod 2 ^ 64"

definition raw_cell :: "json_ops \<Rightarrow> string \<Rightarrow> job \<Rightarrow> target \<Rightarrow> combo \<Rightarrow> string \<Rightarrow> job_plan" where
  "raw_cell J jid j t matrix key =
     \<lparr>jp_key = key, jp_base_id = jid, jp_display = display_label J j jid matrix, jp_target = t,
      jp_native_labels = job_runs_on j, jp_fallback = job_fallback j, jp_vm = job_vm j,
      jp_needs = job_needs j, jp_condition = job_condition j, jp_matrix = matrix,
      jp_env = job_env j, jp_outputs = job_outputs j,
      jp_continue_on_error = job_continue_on_error j, jp_timeout_secs = timeout_secs j,
      jp_steps = job_steps j,
      jp_max_parallel = Option.bind (job_strategy j) strat_max_parallel,
      jp_fail_fast = (case job_strategy j of Some s \<Rightarrow> strat_fail_fast s | None \<Rightarrow> True)\<rparr>"

definition check_cell :: "job_plan \<Rightarrow> plan_error + unit" where
  "check_cell c =
     and_then (map_err PlanWorkflow (maintenance_validate_plan c)) (\<lambda>_.
     and_then (map_err PlanWorkflow (bootstrap_validate_plan c)) (\<lambda>_.
     fail_if (list_ex (\<lambda>s. step_uses s = Some APP_LB_ROLLOUT \<and>
                         (step_continue_on_error s \<or> jp_continue_on_error c)) (jp_steps c))
       (PlanWorkflow AppLbRolloutTolerant)))"

fun plan_cells :: "json_ops \<Rightarrow> string \<Rightarrow> job \<Rightarrow> nat \<Rightarrow> combo list \<Rightarrow> string list \<Rightarrow>
    plan_error + job_plan list \<times> string list" where
  "plan_cells J jid j index [] used = Inr ([], used)"
| "plan_cells J jid j index (matrix # combos) used =
     (case unique_key J jid matrix index used of (key, used') \<Rightarrow>
        and_then (map_err (\<lambda>e. PlanWorkflow (PlacementDetail e)) (job_target j)) (\<lambda>t.
        let cell = substitute_matrix J (raw_cell J jid j t matrix key) in
        and_then (check_cell cell) (\<lambda>_.
        and_then (plan_cells J jid j (index + 1) combos used') (\<lambda>(cells, used'').
        Inr (cell # cells, used'')))))"

fun plan_all :: "json_ops \<Rightarrow> (string \<times> job) list \<Rightarrow> string list \<Rightarrow> plan_error + job_plan list" where
  "plan_all J [] used = Inr []"
| "plan_all J ((jid, j) # jobs) used =
     and_then (expand_matrix J jid j) (\<lambda>combos.
     and_then (plan_cells J jid j 0 combos used) (\<lambda>(cells, used').
     and_then (plan_all J jobs used') (\<lambda>rest. Inr (cells @ rest))))"

section \<open>Topological order\<close>

definition ready :: "string set \<Rightarrow> job_plan \<Rightarrow> bool" where
  "ready done_ids j = list_all (\<lambda>n. n \<in> done_ids) (jp_needs j)"

definition stuck_names :: "string set \<Rightarrow> job_plan list \<Rightarrow> string list" where
  "stuck_names all_bases remaining =
     (let stuck = concat (map (\<lambda>j. filter (\<lambda>n. n \<notin> all_bases) (jp_needs j)) remaining)
      in if stuck = [] then map jp_key remaining else stuck)"

function topo_loop :: "string set \<Rightarrow> job_plan list \<Rightarrow> string set \<Rightarrow> job_plan list \<Rightarrow> plan_error + job_plan list" where
  "topo_loop all_bases ordered done_ids remaining =
     (if remaining = [] then Inr ordered
      else let wave = filter (ready done_ids) remaining in
        if wave = [] then Inl (Unsatisfiable (stuck_names all_bases remaining))
        else topo_loop all_bases (ordered @ wave) (done_ids \<union> set (map jp_base_id wave))
               (filter (\<lambda>j. \<not> ready done_ids j) remaining))"
  by pat_completeness auto
termination
  by (relation "measure (\<lambda>(a, or, d, rem). length rem)")
     (auto simp: filter_empty_conv intro!: length_filter_less)

declare topo_loop.simps [simp del]

definition topological_order :: "job_plan list \<Rightarrow> plan_error + job_plan list" where
  "topological_order jobs = topo_loop (set (map jp_base_id jobs)) [] {} jobs"

definition plan_build :: "json_ops \<Rightarrow> workflow \<Rightarrow> plan_error + plan" where
  "plan_build J w =
     and_then (plan_all J (wf_jobs w) []) (\<lambda>jobs.
     and_then (topological_order jobs) (\<lambda>ordered.
     Inr \<lparr>plan_workflow_path = wf_path w, plan_workflow_name = wf_name w, plan_env = wf_env w,
          plan_jobs = ordered\<rparr>))"

definition cells_of :: "plan \<Rightarrow> string \<Rightarrow> job_plan list" where
  "cells_of p base_id = filter (\<lambda>j. jp_base_id j = base_id) (plan_jobs p)"

section \<open>Expansion is never empty\<close>

lemma cartesian_nonempty: "cartesian jid axes combos = Inr cs \<Longrightarrow> combos \<noteq> [] \<Longrightarrow> cs \<noteq> []"
proof (induction jid axes combos rule: cartesian.induct)
  case (2 jid name vals axes combos)
  then show ?case by (cases vals; cases combos) (auto split: if_splits)
qed simp

lemma expand_matrix_nonempty: "expand_matrix J jid j = Inr cs \<Longrightarrow> cs \<noteq> []"
  by (auto simp: expand_matrix_def Let_def split: option.splits if_splits)

section \<open>Keys\<close>

lemma free_key_fresh: "free_key b n used \<notin> set used \<and> (\<exists>k. n \<le> k \<and> free_key b n used = indexed_key b k)"
proof (induction b n used rule: free_key.induct)
  case (1 b n used)
  show ?case
  proof (cases "indexed_key b n \<in> set used")
    case True
    with 1 obtain k where "free_key b (n + 1) used \<notin> set used" "n + 1 \<le> k"
      "free_key b (n + 1) used = indexed_key b k" by blast
    with True show ?thesis by (subst (1 2) free_key.simps) (auto intro: exI[of _ k])
  next
    case False
    then show ?thesis by (subst (1 2) free_key.simps) auto
  qed
qed

lemma unique_key_fresh: "unique_key J b m i used = (k, used') \<Longrightarrow> k \<notin> set used \<and> used' = k # used"
  using free_key_fresh[of b "i + 1" used] by (auto simp: unique_key_def Let_def split: if_splits)

lemma token_byte_digit: "is_ascii_digit c \<Longrightarrow> token_byte c"
  by (simp add: token_byte_def is_ascii_alphanumeric_def)

lemma indexed_key_token: "list_all token_byte b \<Longrightarrow> list_all token_byte (indexed_key b n)"
proof -
  assume "list_all token_byte b"
  moreover have "list_all token_byte (nat_str n)"
    using nat_str_digits[of n] by (auto simp: list_all_iff token_byte_digit)
  ultimately show ?thesis by (simp add: indexed_key_def token_byte_def)
qed

lemma set_trim_dashes: "set (trim_dashes s) \<subseteq> set s"
  unfolding trim_dashes_def by (auto dest!: set_dropWhileD)

lemma sanitize_token: "list_all token_byte (sanitize s)"
proof -
  have "list_all token_byte (map sanitize_char gs)" for gs
    by (auto simp: list_all_iff sanitize_char_def token_byte_def)
  then show ?thesis
    unfolding sanitize_def list_all_iff using set_trim_dashes by blast
qed

lemma join_token: "list_all token_byte sep \<Longrightarrow> list_all (list_all token_byte) ws \<Longrightarrow> list_all token_byte (join sep ws)"
  by (induction sep ws rule: join.induct) auto

lemma key_candidate_token: "list_all token_byte b \<Longrightarrow> list_all token_byte (key_candidate J b m)"
proof -
  assume b: "list_all token_byte b"
  have "list_all token_byte (join ''-'' (filter (\<lambda>s. s \<noteq> []) (map (\<lambda>(_, v). sanitize (display_value J v)) m)))"
    by (rule join_token) (auto simp: token_byte_def[of "CHR ''-''"] list_all_iff[of "list_all token_byte"] sanitize_token)
  with b show ?thesis by (simp add: key_candidate_def Let_def token_byte_def)
qed

lemma unique_key_shape:
  assumes "unique_key J b m i used = (k, used')"
  shows "(k = key_candidate J b m \<and> length k \<le> 64) \<or> (\<exists>n. k = indexed_key b n)"
proof -
  obtain n where "free_key b (i + 1) used = indexed_key b n" using free_key_fresh by blast
  then show ?thesis
    using assms unfolding unique_key_def Let_def prod.inject by (metis not_less)
qed

lemma unique_key_token:
  "list_all token_byte b \<Longrightarrow> unique_key J b m i used = (k, used') \<Longrightarrow> list_all token_byte k"
  using unique_key_shape[of J b m i used k used'] indexed_key_token[of b] key_candidate_token[of b J m]
  by auto

section \<open>Cells of one job and of all jobs\<close>

lemma substitute_matrix_keeps [simp]:
  "jp_key (substitute_matrix J c) = jp_key c" "jp_base_id (substitute_matrix J c) = jp_base_id c"
  "jp_needs (substitute_matrix J c) = jp_needs c" "jp_steps (substitute_matrix J c) = jp_steps c"
  "jp_matrix (substitute_matrix J c) = jp_matrix c"
  "jp_continue_on_error (substitute_matrix J c) = jp_continue_on_error c"
  by (simp_all add: substitute_matrix_def Let_def)

lemma raw_cell_sel [simp]:
  "jp_key (raw_cell J jid j t m k) = k" "jp_base_id (raw_cell J jid j t m k) = jid"
  "jp_needs (raw_cell J jid j t m k) = job_needs j" "jp_steps (raw_cell J jid j t m k) = job_steps j"
  "jp_matrix (raw_cell J jid j t m k) = m"
  "jp_continue_on_error (raw_cell J jid j t m k) = job_continue_on_error j"
  by (simp_all add: raw_cell_def)

lemma plan_cells_spec:
  "plan_cells J jid j i cs used = Inr (cells, used') \<Longrightarrow>
     map jp_matrix cells = cs \<and> used' = rev (map jp_key cells) @ used \<and>
     (distinct used \<longrightarrow> distinct used') \<and>
     (\<forall>c \<in> set cells. jp_base_id c = jid \<and> jp_needs c = job_needs j \<and> jp_steps c = job_steps j \<and>
        check_cell c = Inr () \<and> (list_all token_byte jid \<longrightarrow> list_all token_byte (jp_key c)))"
proof (induction J jid j i cs used arbitrary: cells used' rule: plan_cells.induct)
  case (1 J jid j i used)
  then show ?case by simp
next
  case (2 J jid j i m cs used)
  obtain k used1 where uk: "unique_key J jid m i used = (k, used1)" by force
  from "2.prems" uk obtain t cells1 used2 where t: "job_target j = Inr t"
    and ck: "check_cell (substitute_matrix J (raw_cell J jid j t m k)) = Inr ()"
    and rest: "plan_cells J jid j (i + 1) cs used1 = Inr (cells1, used')"
    and cells: "cells = substitute_matrix J (raw_cell J jid j t m k) # cells1"
    by (auto simp: Let_def)
  from "2.IH"[OF uk[symmetric] refl rest] have IH: "map jp_matrix cells1 = cs"
    "used' = rev (map jp_key cells1) @ used1" "distinct used1 \<longrightarrow> distinct used'"
    "\<forall>c \<in> set cells1. jp_base_id c = jid \<and> jp_needs c = job_needs j \<and> jp_steps c = job_steps j \<and>
        check_cell c = Inr () \<and> (list_all token_byte jid \<longrightarrow> list_all token_byte (jp_key c))"
    by blast+
  from unique_key_fresh[OF uk] unique_key_token[OF _ uk] IH cells ck show ?case by auto
qed

lemma plan_all_spec:
  "plan_all J jobs used = Inr cells \<Longrightarrow>
     (distinct used \<longrightarrow> distinct (map jp_key cells @ used)) \<and>
     (\<forall>c \<in> set cells. \<exists>jid j. (jid, j) \<in> set jobs \<and> jp_base_id c = jid \<and> jp_needs c = job_needs j \<and>
        jp_steps c = job_steps j \<and> check_cell c = Inr () \<and>
        (list_all token_byte jid \<longrightarrow> list_all token_byte (jp_key c))) \<and>
     (\<forall>(jid, j) \<in> set jobs. \<exists>c \<in> set cells. jp_base_id c = jid)"
proof (induction J jobs used arbitrary: cells rule: plan_all.induct)
  case (1 J used)
  then show ?case by simp
next
  case (2 J jid j jobs used)
  from "2.prems" obtain combos cs used1 rest where ex: "expand_matrix J jid j = Inr combos"
    and pc: "plan_cells J jid j 0 combos used = Inr (cs, used1)"
    and pa: "plan_all J jobs used1 = Inr rest" and cells: "cells = cs @ rest" by auto
  note c = plan_cells_spec[OF pc]
  note r = "2.IH"[OF pa]
  have "cs \<noteq> []" using expand_matrix_nonempty[OF ex] c by auto
  then obtain c0 where "c0 \<in> set cs" "jp_base_id c0 = jid" using c by (cases cs) auto
  moreover have "distinct (map jp_key cells @ used)" if "distinct used"
  proof -
    have "distinct (map jp_key rest @ rev (map jp_key cs) @ used)" using that c r by metis
    then show ?thesis unfolding cells by auto
  qed
  moreover have "\<exists>i j'. (i, j') \<in> set ((jid, j) # jobs) \<and> jp_base_id x = i \<and> jp_needs x = job_needs j' \<and>
      jp_steps x = job_steps j' \<and> check_cell x = Inr () \<and> (list_all token_byte i \<longrightarrow> list_all token_byte (jp_key x))"
    if "x \<in> set cells" for x
  proof (cases "x \<in> set cs")
    case True
    with c show ?thesis by (intro exI[of _ jid] exI[of _ j]) simp
  next
    case False
    with that cells have "x \<in> set rest" by simp
    with r show ?thesis by (metis list.set_intros(2))
  qed
  moreover have "\<forall>(i, j') \<in> set jobs. \<exists>x \<in> set cells. jp_base_id x = i"
    using r cells by fastforce
  ultimately show ?case using cells by auto
qed

section \<open>Topological order\<close>

text \<open>Every cell stands after some cell of each base id it needs.\<close>

definition in_order :: "string set \<Rightarrow> job_plan list \<Rightarrow> bool" where
  "in_order done_ids js \<longleftrightarrow>
     (\<forall>xs j ys. js = xs @ j # ys \<longrightarrow> set (jp_needs j) \<subseteq> done_ids \<union> jp_base_id ` set xs)"

lemma in_order_append:
  assumes "in_order d a" "\<forall>j \<in> set w. set (jp_needs j) \<subseteq> d \<union> jp_base_id ` set a"
  shows "in_order d (a @ w)"
  unfolding in_order_def
proof (intro allI impI)
  fix xs j ys assume e: "a @ w = xs @ j # ys"
  show "set (jp_needs j) \<subseteq> d \<union> jp_base_id ` set xs"
  proof (cases "length xs < length a")
    case True
    with e obtain us where us: "a = xs @ us" "us @ w = j # ys" "us \<noteq> []"
      by (auto simp: append_eq_append_conv2)
    then obtain zs where "a = xs @ j # zs" by (cases us) auto
    with assms(1) show ?thesis by (auto simp: in_order_def)
  next
    case False
    then obtain zs where z: "xs = a @ zs" "w = zs @ j # ys"
      using e by (auto simp: append_eq_append_conv2 Cons_eq_append_conv)
    with assms(2) show ?thesis by auto
  qed
qed

lemma topo_loop_wave:
  "topo_loop ab ordered d rem = Inr os \<Longrightarrow> rem \<noteq> [] \<Longrightarrow> filter (ready d) rem \<noteq> []"
  by (subst (asm) topo_loop.simps) (simp only: Let_def split: if_splits, simp)

lemma topo_loop_sound:
  "topo_loop ab ordered d rem = Inr os \<Longrightarrow> d = jp_base_id ` set ordered \<Longrightarrow> in_order {} ordered \<Longrightarrow>
     mset os = mset (ordered @ rem) \<and> in_order {} os"
proof (induction ab ordered d rem rule: topo_loop.induct)
  case (1 ab ordered d rem)
  show ?case
  proof (cases "rem = []")
    case True
    with 1 show ?thesis by (simp add: topo_loop.simps)
  next
    case False
    let ?w = "filter (ready d) rem"
    have ne: "?w \<noteq> []" using "1.prems"(1) False topo_loop_wave by blast
    have step: "topo_loop ab (ordered @ ?w) (d \<union> set (map jp_base_id ?w)) (filter (\<lambda>j. \<not> ready d j) rem) = Inr os"
      using "1.prems"(1) False ne by (subst (asm) topo_loop.simps) (simp add: Let_def)
    have "in_order {} (ordered @ ?w)"
      by (rule in_order_append) (use "1.prems" in \<open>auto simp: ready_def list_all_iff\<close>)
    then have "mset os = mset ((ordered @ ?w) @ filter (\<lambda>j. \<not> ready d j) rem) \<and> in_order {} os"
      by (intro "1.IH"[OF False refl ne step]) (use "1.prems"(2) in auto)
    then show ?thesis by (simp add: mset_filter)
  qed
qed

lemma topological_order_sound:
  "topological_order js = Inr os \<Longrightarrow> mset os = mset js \<and> in_order {} os"
  unfolding topological_order_def by (drule topo_loop_sound) (auto simp: in_order_def)

text \<open>
  A list of cells can always be ordered when every need names a base id of the list and some
  well-founded relation contains the needs.
\<close>

lemma topo_loop_total:
  assumes wf: "wf r"
    and dec: "\<And>j n. j \<in> set rem \<Longrightarrow> n \<in> set (jp_needs j) \<Longrightarrow> (n, jp_base_id j) \<in> r"
    and closed: "\<And>j n. j \<in> set rem \<Longrightarrow> n \<in> set (jp_needs j) \<Longrightarrow> n \<in> d \<union> jp_base_id ` set rem"
  shows "\<exists>os. topo_loop ab ordered d rem = Inr os"
  using dec closed
proof (induction ab ordered d rem rule: topo_loop.induct)
  case (1 ab ordered d rem)
  show ?case
  proof (cases "rem = []")
    case True
    then show ?thesis by (simp add: topo_loop.simps)
  next
    case False
    then have "jp_base_id ` set rem \<noteq> {}" by simp
    then obtain z where z: "z \<in> jp_base_id ` set rem" "\<And>y. (y, z) \<in> r \<Longrightarrow> y \<notin> jp_base_id ` set rem"
      using wf wfE_min' by metis
    then obtain j where j: "j \<in> set rem" "jp_base_id j = z" by auto
    have "ready d j" unfolding ready_def list_all_iff
      using "1.prems"[OF j(1)] z(2) j(2) by blast
    with j have ne: "filter (ready d) rem \<noteq> []" by (auto simp: filter_empty_conv)
    have "\<exists>os. topo_loop ab (ordered @ filter (ready d) rem)
        (d \<union> set (map jp_base_id (filter (ready d) rem))) (filter (\<lambda>j. \<not> ready d j) rem) = Inr os"
      by (rule "1.IH"[OF False refl ne]) (use "1.prems" in fastforce)+
    with False ne show ?thesis by (subst topo_loop.simps) (simp add: Let_def)
  qed
qed

section \<open>Plans of validated workflows\<close>

lemma job_id_token: "is_job_id s \<Longrightarrow> list_all token_byte s"
  by (auto simp: is_job_id_def token_byte_def list_all_iff)

lemma wf_needs_graph:
  assumes "workflow_ok w"
  shows "wf ((needs_graph w)\<inverse>)"
proof -
  have "needs_graph w \<subseteq> set (map fst (wf_jobs w)) \<times> set (map fst (wf_jobs w))"
    using assms by (force simp: needs_graph_def workflow_ok_def job_ok_def)
  then have "finite (needs_graph w)" by (rule finite_subset) simp
  moreover have "acyclic (needs_graph w)" using assms by (simp add: workflow_ok_def)
  ultimately show ?thesis by (rule finite_acyclic_wf_converse)
qed

lemma topological_order_total:
  assumes ok: "workflow_ok w" and cells: "plan_all J (wf_jobs w) used = Inr cells"
  shows "\<exists>os. topological_order cells = Inr os"
  unfolding topological_order_def
proof (rule topo_loop_total[OF wf_needs_graph[OF ok]])
  note spec = plan_all_spec[OF cells]
  fix c n assume c: "c \<in> set cells" "n \<in> set (jp_needs c)"
  from spec c(1) obtain j where j: "(jp_base_id c, j) \<in> set (wf_jobs w)" "jp_needs c = job_needs j" by force
  with c(2) show "(n, jp_base_id c) \<in> (needs_graph w)\<inverse>" by (auto simp: needs_graph_def)
  from j c(2) ok obtain j' where "(n, j') \<in> set (wf_jobs w)"
    by (force simp: workflow_ok_def job_ok_def)
  with spec show "n \<in> {} \<union> jp_base_id ` set cells" by force
qed

lemma plan_build_satisfiable:
  assumes "workflow_ok w"
  shows "plan_build J w \<noteq> Inl (Unsatisfiable ns)"
proof -
  have no: "expand_matrix J jid j \<noteq> Inl (Unsatisfiable ns)" for jid j
  proof -
    have me: "matrix_entries J jid parts m \<noteq> Inl (Unsatisfiable ns)" for parts m
    proof (induction J jid parts m rule: matrix_entries.induct)
      case (2 J jid parts kv m)
      then show ?case
        by (cases "matrix_entry J jid parts kv")
           (auto simp: matrix_entry_def and_then_def ok_or_def Let_def split: prod.splits option.splits if_splits sum.splits)
    qed simp
    have ca: "cartesian jid axes combos \<noteq> Inl (Unsatisfiable ns)" for axes combos
      by (induction jid axes combos rule: cartesian.induct) auto
    show ?thesis
      using me ca by (auto simp: expand_matrix_def and_then_def ok_or_def Let_def split: option.splits sum.splits if_splits)
  qed
  have ce: "plan_cells J jid j i cs used \<noteq> Inl (Unsatisfiable ns)" for jid j i cs used
  proof (induction J jid j i cs used rule: plan_cells.induct)
    case (2 J jid j i m cs used)
    obtain k used1 where uk: "unique_key J jid m i used = (k, used1)" by force
    have "plan_cells J jid j (i + 1) cs used1 \<noteq> Inl (Unsatisfiable ns)"
      by (rule "2.IH"[OF uk[symmetric] refl])
    moreover have "check_cell c \<noteq> Inl (Unsatisfiable ns)" for c
      by (auto simp: and_then_def map_err_def check_cell_def fail_if_def split: sum.splits)
    ultimately show ?case
      by (auto simp: uk and_then_def map_err_def Let_def split: sum.splits)
  qed simp
  have "plan_all J jobs used \<noteq> Inl (Unsatisfiable ns)" for jobs used
    using no ce by (induction J jobs used rule: plan_all.induct) (auto simp: and_then_def split: sum.splits)
  then show ?thesis
    using topological_order_total[OF assms, of J "[]"]
    by (cases "plan_all J (wf_jobs w) []") (auto simp: plan_build_def and_then_def split: sum.splits)
qed

lemma plan_build_cases:
  assumes "plan_build J w = Inr p"
  obtains cells where "plan_all J (wf_jobs w) [] = Inr cells" "topological_order cells = Inr (plan_jobs p)"
    "mset (plan_jobs p) = mset cells" "set (plan_jobs p) = set cells"
proof -
  from assms obtain cells where c: "plan_all J (wf_jobs w) [] = Inr cells"
    "topological_order cells = Inr (plan_jobs p)" by (auto simp: plan_build_def)
  from topological_order_sound[OF c(2)] have "mset (plan_jobs p) = mset cells" by simp
  with c that show ?thesis by (metis mset_eq_setD)
qed

lemma plan_build_keys:
  assumes "workflow_ok w" "plan_build J w = Inr p"
  shows "distinct (map jp_key (plan_jobs p)) \<and> (\<forall>c \<in> set (plan_jobs p). list_all token_byte (jp_key c))"
proof -
  from assms(2) obtain cells where c: "plan_all J (wf_jobs w) [] = Inr cells"
    "mset (plan_jobs p) = mset cells" "set (plan_jobs p) = set cells" by (rule plan_build_cases)
  have "distinct (map jp_key cells)" using plan_all_spec[OF c(1)] by simp
  moreover have "mset (map jp_key (plan_jobs p)) = mset (map jp_key cells)" using c(2) by simp
  ultimately have "distinct (map jp_key (plan_jobs p))" by (metis mset_eq_imp_distinct_iff)
  moreover have "list_all token_byte (jp_key x)" if "x \<in> set (plan_jobs p)" for x
  proof -
    from that c(3) plan_all_spec[OF c(1)] obtain jid j where "(jid, j) \<in> set (wf_jobs w)"
      "list_all token_byte jid \<longrightarrow> list_all token_byte (jp_key x)" by force
    with assms(1) show ?thesis by (auto simp: workflow_ok_def job_ok_def job_id_token)
  qed
  ultimately show ?thesis by blast
qed

lemma same_base_same_needs:
  assumes ok: "workflow_ok w" and cells: "plan_all J (wf_jobs w) used = Inr cells"
    and ab: "a \<in> set cells" "b \<in> set cells" "jp_base_id a = jp_base_id b"
  shows "jp_needs a = jp_needs b"
proof -
  obtain ja jb where "(jp_base_id a, ja) \<in> set (wf_jobs w)" "jp_needs a = job_needs ja"
    "(jp_base_id b, jb) \<in> set (wf_jobs w)" "jp_needs b = job_needs jb"
    using plan_all_spec[OF cells] ab(1,2) by metis
  moreover have "distinct (map fst (wf_jobs w))" using ok by (simp add: workflow_ok_def)
  ultimately show ?thesis using ab(3) by (metis eq_key_imp_eq_value)
qed

text \<open>No cell of a needed base id is left for later, when cells of one base id share their needs.\<close>

definition none_later :: "job_plan list \<Rightarrow> string set \<Rightarrow> bool" where
  "none_later js later \<longleftrightarrow>
     (\<forall>xs j ys. js = xs @ j # ys \<longrightarrow> set (jp_needs j) \<inter> (jp_base_id ` set (j # ys) \<union> later) = {})"

lemma none_later_append:
  assumes "none_later a (jp_base_id ` set w \<union> l)"
    and "\<And>j. j \<in> set w \<Longrightarrow> set (jp_needs j) \<inter> (jp_base_id ` set w \<union> l) = {}"
  shows "none_later (a @ w) l"
  unfolding none_later_def
proof (intro allI impI)
  fix xs j ys assume e: "a @ w = xs @ j # ys"
  show "set (jp_needs j) \<inter> (jp_base_id ` set (j # ys) \<union> l) = {}"
  proof (cases "length xs < length a")
    case True
    with e obtain us where us: "a = xs @ us" "us @ w = j # ys" "us \<noteq> []"
      by (auto simp: append_eq_append_conv2)
    then obtain zs where z: "a = xs @ j # zs" "ys = zs @ w" by (cases us) auto
    with assms(1) have "set (jp_needs j) \<inter> (jp_base_id ` set (j # zs) \<union> (jp_base_id ` set w \<union> l)) = {}"
      by (auto simp: none_later_def)
    with z(2) show ?thesis by auto
  next
    case False
    then obtain zs where z: "w = zs @ j # ys"
      using e by (auto simp: append_eq_append_conv2 Cons_eq_append_conv)
    with assms(2)[of j] show ?thesis by auto
  qed
qed

lemma topo_loop_none_later:
  "topo_loop ab ordered d rem = Inr os \<Longrightarrow> d = jp_base_id ` set ordered \<Longrightarrow>
   d \<inter> jp_base_id ` set rem = {} \<Longrightarrow> none_later ordered (jp_base_id ` set rem) \<Longrightarrow>
   (\<And>x y. x \<in> set rem \<Longrightarrow> y \<in> set rem \<Longrightarrow> jp_base_id x = jp_base_id y \<Longrightarrow> jp_needs x = jp_needs y) \<Longrightarrow>
   none_later os {}"
proof (induction ab ordered d rem rule: topo_loop.induct)
  case (1 ab ordered d rem)
  show ?case
  proof (cases "rem = []")
    case True
    with "1.prems"(1) have "os = ordered" by (subst (asm) topo_loop.simps) simp
    with "1.prems"(4) True show ?thesis by simp
  next
    case False
    let ?w = "filter (ready d) rem" and ?r = "filter (\<lambda>j. \<not> ready d j) rem"
    have ne: "?w \<noteq> []" using "1.prems"(1) False topo_loop_wave by blast
    have step: "topo_loop ab (ordered @ ?w) (d \<union> set (map jp_base_id ?w)) ?r = Inr os"
      using "1.prems"(1) False ne by (subst (asm) topo_loop.simps) (simp add: Let_def)
    have parts: "jp_base_id ` set rem = jp_base_id ` set ?w \<union> jp_base_id ` set ?r" by auto
    have apart: "jp_base_id ` set ?w \<inter> jp_base_id ` set ?r = {}"
    proof (rule equals0I, elim IntE imageE)
      fix i x y assume "x \<in> set ?w" "i = jp_base_id x" "y \<in> set ?r" "i = jp_base_id y"
      moreover from this have "jp_needs x = jp_needs y" using "1.prems"(5)[of x y] by simp
      ultimately show False by (simp add: ready_def)
    qed
    have fit: "set (jp_needs j) \<inter> (jp_base_id ` set ?w \<union> jp_base_id ` set ?r) = {}" if "j \<in> set ?w" for j
      using that "1.prems"(3) unfolding parts[symmetric] by (auto simp: ready_def list_all_iff)
    have nl: "none_later (ordered @ ?w) (jp_base_id ` set ?r)"
      by (rule none_later_append[OF _ fit]) (use "1.prems"(4) parts in auto)
    show ?thesis
    proof (rule "1.IH"[OF False refl ne step _ _ nl])
      show "d \<union> set (map jp_base_id ?w) = jp_base_id ` set (ordered @ ?w)" using "1.prems"(2) by auto
      show "(d \<union> set (map jp_base_id ?w)) \<inter> jp_base_id ` set ?r = {}"
        using apart "1.prems"(3) parts by auto
      show "jp_needs x = jp_needs y" if "x \<in> set ?r" "y \<in> set ?r" "jp_base_id x = jp_base_id y" for x y
        using "1.prems"(5)[of x y] that by simp
    qed
  qed
qed

lemma plan_build_order:
  assumes ok: "workflow_ok w" and p: "plan_build J w = Inr p"
    and split: "plan_jobs p = xs @ c # ys" and n: "n \<in> set (jp_needs c)"
  shows "cells_of p n \<noteq> [] \<and> set (cells_of p n) \<subseteq> set xs"
proof -
  from p obtain cells where c: "plan_all J (wf_jobs w) [] = Inr cells"
    "topological_order cells = Inr (plan_jobs p)" by (rule plan_build_cases)
  have "in_order {} (plan_jobs p)" using topological_order_sound[OF c(2)] by simp
  with split n have mem: "n \<in> jp_base_id ` set xs" by (auto simp: in_order_def)
  have "none_later (plan_jobs p) {}"
  proof (rule topo_loop_none_later[OF c(2)[unfolded topological_order_def]])
    show "none_later [] (jp_base_id ` set cells)" by (simp add: none_later_def)
    show "\<And>x y. x \<in> set cells \<Longrightarrow> y \<in> set cells \<Longrightarrow> jp_base_id x = jp_base_id y \<Longrightarrow> jp_needs x = jp_needs y"
      by (rule same_base_same_needs[OF ok c(1)])
  qed simp_all
  then have "set (jp_needs c) \<inter> (jp_base_id ` set (c # ys) \<union> {}) = {}"
    using split unfolding none_later_def by blast
  with n have "n \<notin> jp_base_id ` set (c # ys)" by blast
  then have "x \<in> set xs" if "x \<in> set (cells_of p n)" for x
  proof -
    from that have "jp_base_id x = n" "x \<in> set (xs @ c # ys)" unfolding split[symmetric] by (simp_all add: cells_of_def)
    with \<open>n \<notin> _\<close> show ?thesis by (metis Un_iff imageI set_append)
  qed
  moreover have "cells_of p n \<noteq> []" using mem split by (auto simp: cells_of_def filter_empty_conv)
  ultimately show ?thesis by blast
qed

section \<open>Properties\<close>

text \<open>A workflow for the witnesses: a build job and a test job that needs it.\<close>

definition demo_step :: step where
  "demo_step = \<lparr>step_name = None, step_id = None, step_condition = None, step_uses = None, step_with = [],
     step_run = Some ''make'', step_shell = None, step_working_directory = None, step_env = [],
     step_timeout_minutes = None, step_continue_on_error = False\<rparr>"

definition demo_job :: "string list \<Rightarrow> job" where
  "demo_job needs = \<lparr>job_name = None, job_uses = None, job_runs_on = [], job_vm = vm_spec_default, job_needs = needs,
     job_condition = None, job_strategy = None, job_env = [], job_outputs = [], job_continue_on_error = False,
     job_timeout_minutes = None, job_fallback = FallbackNone, job_steps = [demo_step]\<rparr>"

definition demo_workflow :: workflow where
  "demo_workflow = \<lparr>wf_path = ''ci.yml'', wf_name = None, wf_on = [''submit''], wf_on_submit = submit_filter_default,
     wf_env = [], wf_jobs = [(''build'', demo_job []), (''test'', demo_job [''build''])]\<rparr>"

lemma demo_workflow_ok: "workflow_ok demo_workflow"
proof -
  have "job_ok ids jid (demo_job needs)" if "is_job_id jid" "set needs \<subseteq> ids" for ids jid needs
    using that by (simp add: job_ok_def demo_job_def job_target_def vm_spec_validate_def vm_spec_default_def step_ok_def demo_step_def)
  moreover have "is_job_id ''build''" "is_job_id ''test''" by (simp_all add: is_job_id_def ascii_defs byte_def)
  moreover have "job_needs (demo_job ns) = ns" for ns by (simp add: demo_job_def)
  then have "needs_graph demo_workflow = {(''test'', ''build'')}"
    unfolding needs_graph_def demo_workflow_def by fastforce
  ultimately show ?thesis by (simp add: workflow_ok_def demo_workflow_def acyclic_insert) (simp add: acyclic_def)
qed

text \<open>
  C14. Planning a valid workflow cannot fail for an unsatisfiable graph, and in the plan every job
  comes after all the cells of every job it needs, of which there is at least one.
\<close>

theorem plan_order:
  assumes "workflow_ok w"
  shows "case plan_build J w of
      Inl e \<Rightarrow> (\<forall>ns. e \<noteq> Unsatisfiable ns)
    | Inr p \<Rightarrow> (\<forall>xs c ys n. plan_jobs p = xs @ c # ys \<and> n \<in> set (jp_needs c) \<longrightarrow>
        cells_of p n \<noteq> [] \<and> set (cells_of p n) \<subseteq> set xs)"
proof (cases "plan_build J w")
  case (Inl e)
  with plan_build_satisfiable[OF assms, of J] show ?thesis by auto
next
  case (Inr p)
  with plan_build_order[OF assms Inr] show ?thesis by auto
qed

theorem plan_order_witness:
  "workflow_ok demo_workflow \<and> (case plan_build demo_ops demo_workflow of
      Inl e \<Rightarrow> (\<forall>ns. e \<noteq> Unsatisfiable ns)
    | Inr p \<Rightarrow> (\<forall>xs c ys n. plan_jobs p = xs @ c # ys \<and> n \<in> set (jp_needs c) \<longrightarrow>
        cells_of p n \<noteq> [] \<and> set (cells_of p n) \<subseteq> set xs))"
  using demo_workflow_ok plan_order[OF demo_workflow_ok, of demo_ops] by simp

text \<open>
  The keys of a plan's cells are distinct and made of letters, digits, underscores and dashes
  only, however many cells a matrix expands to and whatever its values print as; so results of two
  cells are never confused.
\<close>

theorem plan_keys:
  assumes "workflow_ok w"
  shows "case plan_build J w of
      Inl _ \<Rightarrow> True
    | Inr p \<Rightarrow> distinct (map jp_key (plan_jobs p)) \<and> list_all (\<lambda>c. list_all token_byte (jp_key c)) (plan_jobs p)"
  using plan_build_keys[OF assms, of J] by (auto simp: list_all_iff split: sum.splits)

theorem plan_keys_witness:
  "workflow_ok demo_workflow \<and> (case plan_build demo_ops demo_workflow of
      Inl _ \<Rightarrow> True
    | Inr p \<Rightarrow> distinct (map jp_key (plan_jobs p)) \<and> list_all (\<lambda>c. list_all token_byte (jp_key c)) (plan_jobs p))"
  using demo_workflow_ok plan_keys[OF demo_workflow_ok, of demo_ops] by simp

text \<open>
  Ordering loses nothing: whenever the planner orders its cells, the order is a rearrangement of
  them in which the needs of each are among the jobs before it.
\<close>

theorem topological_order_permutes:
  "case topological_order js of Inl _ \<Rightarrow> True | Inr os \<Rightarrow> mset os = mset js \<and> in_order {} os"
  using topological_order_sound by (auto split: sum.splits)

end
