(* ===== verification/Ip_Addr.thy ===== *)
theory Ip_Addr
  imports Rust_Str "HOL-Library.Word"
begin

unbundle bit_operations_syntax

text \<open>
  Client addresses: \<open>std::net::IpAddr\<close> as far as the load balancer's guard uses it (its parser, its
  octets, the IPv4-mapped view), and the guard's own \<open>IpPrefix\<close> (\<open>app-lb/src/guard.rs\<close>). The theory
  shows that the masked byte comparison is agreement on the leading bits.
\<close>

section \<open>Addresses and their text\<close>

datatype ip_addr = V4 "8 word list" | V6 "8 word list"

definition digit_of :: "nat \<Rightarrow> char \<Rightarrow> nat option" where
  "digit_of radix c =
     (let v = (if is_ascii_digit c then Some (byte c - 48)
               else if is_ascii_lower c then Some (byte c - 87)
               else if is_ascii_upper c then Some (byte c - 55)
               else None)
      in case v of Some d \<Rightarrow> if d < radix then Some d else None | None \<Rightarrow> None)"

text \<open>
  The standard library's reader of a number: all digits of the radix are taken, more than
  \<open>max_digits\<close> or a value above \<open>mx\<close> is a failure, and so is a leading zero where none is allowed.
\<close>

definition read_number :: "nat \<Rightarrow> nat \<Rightarrow> bool \<Rightarrow> nat \<Rightarrow> string \<Rightarrow> (nat \<times> string) option" where
  "read_number radix max_digits allow_zero_prefix mx s =
     (let ds = takeWhile (\<lambda>c. digit_of radix c \<noteq> None) s;
          v = foldl (\<lambda>acc c. acc * radix + (case digit_of radix c of Some d \<Rightarrow> d | None \<Rightarrow> 0)) 0 ds
      in if length ds > max_digits \<or> ds = [] then None
         else if \<not> allow_zero_prefix \<and> hd ds = CHR ''0'' \<and> length ds > 1 then None
         else if v > mx then None
         else Some (v, drop (length ds) s))"

definition read_given :: "char \<Rightarrow> string \<Rightarrow> string option" where
  "read_given c s = (case s of x # xs \<Rightarrow> if x = c then Some xs else None | [] \<Rightarrow> None)"

definition read_separator :: "char \<Rightarrow> nat \<Rightarrow> (string \<Rightarrow> ('a \<times> string) option) \<Rightarrow> string \<Rightarrow> ('a \<times> string) option" where
  "read_separator sep index inner s =
     (if index > 0 then Option.bind (read_given sep s) inner else inner s)"

fun read_octets :: "nat \<Rightarrow> nat \<Rightarrow> string \<Rightarrow> (nat list \<times> string) option" where
  "read_octets 0 i s = Some ([], s)"
| "read_octets (Suc k) i s =
     (case read_separator (CHR ''.'') i (read_number 10 3 False 255) s of
        None \<Rightarrow> None
      | Some (v, r) \<Rightarrow> (case read_octets k (i + 1) r of None \<Rightarrow> None | Some (vs, r') \<Rightarrow> Some (v # vs, r')))"

definition read_ipv4_addr :: "string \<Rightarrow> (nat list \<times> string) option" where
  "read_ipv4_addr s = read_octets 4 0 s"

definition v4_groups :: "nat list \<Rightarrow> nat list" where
  "v4_groups os = [os ! 0 * 256 + os ! 1, os ! 2 * 256 + os ! 3]"

text \<open>
  Sixteen-bit groups, at most \<open>limit\<close>: the groups read, whether the last two came from an embedded
  IPv4 address, and the text left.
\<close>

fun read_groups :: "nat \<Rightarrow> nat \<Rightarrow> string \<Rightarrow> nat list \<times> bool \<times> string" where
  "read_groups 0 i s = ([], False, s)"
| "read_groups (Suc left) i s =
     (case (if left > 0 then read_separator (CHR '':'') i read_ipv4_addr s else None) of
        Some (os, r) \<Rightarrow> (v4_groups os, True, r)
      | None \<Rightarrow>
          (case read_separator (CHR '':'') i (read_number 16 4 True 65535) s of
             None \<Rightarrow> ([], False, s)
           | Some (g, r) \<Rightarrow> (case read_groups left (i + 1) r of (gs, v4, r') \<Rightarrow> (g # gs, v4, r'))))"

definition read_ipv6_addr :: "string \<Rightarrow> (nat list \<times> string) option" where
  "read_ipv6_addr s =
     (case read_groups 8 0 s of (head, head_ipv4, r) \<Rightarrow>
        if length head = 8 then Some (head, r)
        else if head_ipv4 then None
        else case Option.bind (read_given (CHR '':'') r) (read_given (CHR '':'')) of
          None \<Rightarrow> None
        | Some r1 \<Rightarrow>
            (case read_groups (8 - (length head + 1)) 0 r1 of (tl_groups, _, r2) \<Rightarrow>
               Some (head @ replicate (8 - length head - length tl_groups) 0 @ tl_groups, r2)))"

definition group_octets :: "nat \<Rightarrow> 8 word list" where
  "group_octets g = [of_nat (g div 256), of_nat (g mod 256)]"

definition parse_ip :: "string \<Rightarrow> ip_addr option" where
  "parse_ip s =
     (case read_ipv4_addr s of
        Some (os, r) \<Rightarrow> if r = [] then Some (V4 (map of_nat os)) else None
      | None \<Rightarrow>
          (case read_ipv6_addr s of
             Some (gs, r) \<Rightarrow> if r = [] then Some (V6 (concat (map group_octets gs))) else None
           | None \<Rightarrow> None))"

definition to_ipv4_mapped :: "8 word list \<Rightarrow> 8 word list option" where
  "to_ipv4_mapped os =
     (if take 12 os = replicate 10 0 @ [255, 255] then Some (drop 12 os) else None)"

subsection \<open>Printing\<close>

definition hex_digit :: "nat \<Rightarrow> char" where
  "hex_digit d = (if d < 10 then char_of (48 + d) else char_of (87 + d))"

fun hex_str :: "nat \<Rightarrow> string" where
  "hex_str n = (if n < 16 then [hex_digit n] else hex_str (n div 16) @ [hex_digit (n mod 16)])"

declare hex_str.simps [simp del]

definition v4_str :: "8 word list \<Rightarrow> string" where
  "v4_str os = join ''.'' (map (\<lambda>w. nat_str (unat w)) os)"

fun segments :: "8 word list \<Rightarrow> nat list" where
  "segments (a # b # os) = (unat a * 256 + unat b) # segments os"
| "segments _ = []"

text \<open>The longest run of zero segments, the first of equals, as start and length.\<close>

fun zero_run :: "nat \<Rightarrow> nat list \<Rightarrow> nat \<times> nat \<Rightarrow> nat \<times> nat \<Rightarrow> nat \<times> nat" where
  "zero_run i [] cur longest = longest"
| "zero_run i (s # ss) cur longest =
     (if s = 0 then
        let cur' = (if snd cur = 0 then (i, 1) else (fst cur, snd cur + 1))
        in zero_run (i + 1) ss cur' (if snd cur' > snd longest then cur' else longest)
      else zero_run (i + 1) ss (0, 0) longest)"

definition v6_str :: "8 word list \<Rightarrow> string" where
  "v6_str os =
     (case to_ipv4_mapped os of
        Some v4 \<Rightarrow> ''::ffff:'' @ v4_str v4
      | None \<Rightarrow>
          (let ss = segments os; (start, len) = zero_run 0 ss (0, 0) (0, 0) in
           if len > 1 then
             join '':'' (map hex_str (take start ss)) @ ''::''
             @ join '':'' (map hex_str (drop (start + len) ss))
           else join '':'' (map hex_str ss)))"

definition ip_str :: "ip_addr \<Rightarrow> string" where
  "ip_str a = (case a of V4 os \<Rightarrow> v4_str os | V6 os \<Rightarrow> v6_str os)"

section \<open>Prefixes\<close>

record ip_prefix =
  pfx_addr :: ip_addr
  pfx_bits :: nat

definition max_bits :: "ip_addr \<Rightarrow> nat" where
  "max_bits a = (case a of V4 _ \<Rightarrow> 32 | V6 _ \<Rightarrow> 128)"

definition prefix_parse :: "string \<Rightarrow> ip_prefix option" where
  "prefix_parse s0 =
     (let s = trim s0;
          parts = (if CHR ''/'' \<in> set s
                   then map_option (\<lambda>b. (trim (takeWhile (\<lambda>c. c \<noteq> CHR ''/'') s), Some b))
                          (parse_unsigned 255 (trim (tl (dropWhile (\<lambda>c. c \<noteq> CHR ''/'') s))))
                   else Some (s, None))
      in case parts of
           None \<Rightarrow> None
         | Some (a, bits) \<Rightarrow>
             (case parse_ip a of
                None \<Rightarrow> None
              | Some addr \<Rightarrow>
                  (let n = (case bits of Some b \<Rightarrow> b | None \<Rightarrow> max_bits addr)
                   in if n \<le> max_bits addr then Some \<lparr>pfx_addr = addr, pfx_bits = n\<rparr> else None)))"

definition prefix_eq :: "8 word list \<Rightarrow> 8 word list \<Rightarrow> nat \<Rightarrow> bool" where
  "prefix_eq a b bits =
     (let whole = bits div 8; rest = bits mod 8 in
      if take whole a \<noteq> take whole b then False
      else if rest = 0 then True
      else let mask = push_bit (8 - rest) (255 :: 8 word)
           in (a ! whole) AND mask = (b ! whole) AND mask)"

definition prefix_contains :: "ip_prefix \<Rightarrow> ip_addr \<Rightarrow> bool" where
  "prefix_contains p ip =
     (case (pfx_addr p, ip) of
        (V4 net, V4 i) \<Rightarrow> prefix_eq net i (pfx_bits p)
      | (V6 net, V6 i) \<Rightarrow> prefix_eq net i (pfx_bits p)
      | (V4 net, V6 i) \<Rightarrow> (case to_ipv4_mapped i of Some v4 \<Rightarrow> prefix_eq net v4 (pfx_bits p) | None \<Rightarrow> False)
      | (V6 net, V4 i) \<Rightarrow>
          pfx_bits p \<ge> 96 \<and>
          (case to_ipv4_mapped net of Some n \<Rightarrow> prefix_eq n i (pfx_bits p - 96) | None \<Rightarrow> False))"

definition prefix_str :: "ip_prefix \<Rightarrow> string" where
  "prefix_str p =
     (if pfx_bits p = max_bits (pfx_addr p) then ip_str (pfx_addr p)
      else ip_str (pfx_addr p) @ ''/'' @ nat_str (pfx_bits p))"

section \<open>Masks compare leading bits\<close>

definition octet_bits :: "8 word \<Rightarrow> bool list" where
  "octet_bits w = map (\<lambda>i. bit w (7 - i)) [0..<8]"

definition addr_bits :: "8 word list \<Rightarrow> bool list" where
  "addr_bits os = concat (map octet_bits os)"

lemma length_octet_bits [simp]: "length (octet_bits w) = 8"
  by (simp add: octet_bits_def)

lemma octet_bits_inj: "octet_bits a = octet_bits b \<longleftrightarrow> a = b"
proof
  assume e: "octet_bits a = octet_bits b"
  show "a = b"
  proof (rule bit_word_eqI)
    fix n assume "n < LENGTH(8)"
    then have n: "n < 8" by simp
    have "octet_bits a ! (7 - n) = octet_bits b ! (7 - n)" by (simp add: e)
    moreover have "[0..<8] ! (7 - n) = 7 - n" using n by (subst nth_upt) auto
    ultimately show "bit a n = bit b n" using n by (simp add: octet_bits_def)
  qed
qed simp

lemma length_addr_bits [simp]: "length (addr_bits os) = 8 * length os"
  by (induction os) (simp_all add: addr_bits_def)

lemma addr_bits_Cons: "addr_bits (w # os) = octet_bits w @ addr_bits os"
  by (simp add: addr_bits_def)

lemma mask_bits:
  assumes "0 < r" "r < 8"
  shows "(a AND push_bit (8 - r) (255 :: 8 word)) = (b AND push_bit (8 - r) 255) \<longleftrightarrow>
    take r (octet_bits a) = take r (octet_bits b)"
proof -
  have m: "bit (push_bit (8 - r) (255 :: 8 word)) n \<longleftrightarrow> 8 - r \<le> n \<and> n < 8" for n
  proof -
    have e: "(255 :: 8 word) = mask 8" by (simp add: mask_eq_exp_minus_1)
    show ?thesis unfolding e by (auto simp: bit_push_bit_iff bit_mask_iff)
  qed
  have "(a AND push_bit (8 - r) (255 :: 8 word)) = (b AND push_bit (8 - r) 255) \<longleftrightarrow>
      (\<forall>n. 8 - r \<le> n \<and> n < 8 \<longrightarrow> bit a n = bit b n)"
    by (auto simp: bit_eq_iff bit_and_iff m)
  also have "\<dots> \<longleftrightarrow> (\<forall>i < r. bit a (7 - i) = bit b (7 - i))"
  proof
    assume l: "\<forall>n. 8 - r \<le> n \<and> n < 8 \<longrightarrow> bit a n = bit b n"
    show "\<forall>i < r. bit a (7 - i) = bit b (7 - i)"
    proof (intro allI impI)
      fix i assume "i < r"
      then have "8 - r \<le> 7 - i \<and> 7 - i < 8" using assms by linarith
      with l show "bit a (7 - i) = bit b (7 - i)" by blast
    qed
  next
    assume l: "\<forall>i < r. bit a (7 - i) = bit b (7 - i)"
    show "\<forall>n. 8 - r \<le> n \<and> n < 8 \<longrightarrow> bit a n = bit b n"
    proof (intro allI impI)
      fix n assume n: "8 - r \<le> n \<and> n < 8"
      then have "7 - n < r" using assms by linarith
      with l have "bit a (7 - (7 - n)) = bit b (7 - (7 - n))" by blast
      with n show "bit a n = bit b n" by simp
    qed
  qed
  also have "\<dots> \<longleftrightarrow> take r (octet_bits a) = take r (octet_bits b)"
    using assms by (auto simp: octet_bits_def list_eq_iff_nth_eq)
  finally show ?thesis .
qed

lemma take_addr_bits:
  "n \<le> length os \<Longrightarrow> take (8 * n) (addr_bits os) = addr_bits (take n os)"
proof (induction n arbitrary: os)
  case 0
  then show ?case by (simp add: addr_bits_def)
next
  case (Suc n)
  then obtain w ws where "os = w # ws" by (cases os) auto
  with Suc show ?case by (simp add: addr_bits_Cons)
qed

lemma addr_bits_inj: "length a = length b \<Longrightarrow> addr_bits a = addr_bits b \<longleftrightarrow> a = b"
  by (induction a b rule: list_induct2) (auto simp: addr_bits_Cons octet_bits_inj)

lemma prefix_eq_bits:
  assumes "length a = length b" "bits \<le> 8 * length a"
  shows "prefix_eq a b bits \<longleftrightarrow> take bits (addr_bits a) = take bits (addr_bits b)"
proof -
  let ?w = "bits div 8" and ?r = "bits mod 8"
  have bits: "bits = 8 * ?w + ?r" by simp
  have w: "?w \<le> length a" using assms(2) by linarith
  have split: "take bits (addr_bits os) = addr_bits (take ?w os) @ take ?r (addr_bits (drop ?w os))"
    if "?w \<le> length os" for os
  proof -
    have "addr_bits os = addr_bits (take ?w os) @ addr_bits (drop ?w os)"
      by (simp add: addr_bits_def flip: concat_append map_append)
    moreover have "length (addr_bits (take ?w os)) = 8 * ?w" using that by simp
    ultimately show ?thesis using bits by (metis append_take_drop_id take_add append_eq_conv_conj drop_drop take_append
        add_diff_cancel_left' take_all le_add1)
  qed
  have eq: "take bits (addr_bits a) = take bits (addr_bits b) \<longleftrightarrow>
      take ?w a = take ?w b \<and> take ?r (addr_bits (drop ?w a)) = take ?r (addr_bits (drop ?w b))"
    unfolding split[OF w] split[OF w[unfolded assms(1)]]
    using assms(1) w by (subst append_eq_append_conv) (auto simp: addr_bits_inj)
  show ?thesis
  proof (cases "?r = 0")
    case True
    then show ?thesis unfolding eq by (simp add: prefix_eq_def Let_def)
  next
    case False
    then have wl: "?w < length a" using assms(2) bits by linarith
    have d: "drop ?w os = os ! ?w # drop (Suc ?w) os" if "length os = length a" for os :: "8 word list"
      using wl that by (simp add: Cons_nth_drop_Suc)
    have "take ?r (addr_bits (drop ?w os)) = take ?r (octet_bits (os ! ?w))" if "length os = length a" for os
      unfolding d[OF that] addr_bits_Cons using mod_less_divisor[of 8 bits] by (simp add: take_append)
    then have "take ?r (addr_bits (drop ?w a)) = take ?r (addr_bits (drop ?w b)) \<longleftrightarrow>
        (a ! ?w) AND push_bit (8 - ?r) (255 :: 8 word) = (b ! ?w) AND push_bit (8 - ?r) 255"
      using mask_bits[of ?r "a ! ?w" "b ! ?w"] False assms(1) by simp
    with False show ?thesis unfolding eq by (simp add: prefix_eq_def Let_def)
  qed
qed

section \<open>One address space for both families\<close>

definition addr_ok :: "ip_addr \<Rightarrow> bool" where
  "addr_ok a = (case a of V4 os \<Rightarrow> length os = 4 | V6 os \<Rightarrow> length os = 16)"

definition prefix_ok :: "ip_prefix \<Rightarrow> bool" where
  "prefix_ok p \<longleftrightarrow> addr_ok (pfx_addr p) \<and> pfx_bits p \<le> max_bits (pfx_addr p)"

definition mapped_head :: "8 word list" where
  "mapped_head = replicate 10 0 @ [255, 255]"

text \<open>An IPv4 address stands at its mapped place in the IPv6 space.\<close>

definition canonical :: "ip_addr \<Rightarrow> 8 word list" where
  "canonical a = (case a of V4 os \<Rightarrow> mapped_head @ os | V6 os \<Rightarrow> os)"

definition canonical_bits :: "ip_prefix \<Rightarrow> nat" where
  "canonical_bits p = (case pfx_addr p of V4 _ \<Rightarrow> 96 + pfx_bits p | V6 _ \<Rightarrow> pfx_bits p)"

definition short_v6_on_v4 :: "ip_prefix \<Rightarrow> ip_addr \<Rightarrow> bool" where
  "short_v6_on_v4 p ip =
     (case (pfx_addr p, ip) of (V6 _, V4 _) \<Rightarrow> pfx_bits p < 96 | _ \<Rightarrow> False)"

lemma length_mapped_head [simp]: "length mapped_head = 12"
  by (simp add: mapped_head_def)

lemma to_ipv4_mapped_iff: "length os = 16 \<Longrightarrow> to_ipv4_mapped os = Some v \<longleftrightarrow> os = mapped_head @ v"
  unfolding to_ipv4_mapped_def mapped_head_def[symmetric]
  by (metis append_eq_conv_conj append_take_drop_id length_mapped_head option.discI option.inject)

lemma addr_bits_append: "addr_bits (a @ b) = addr_bits a @ addr_bits b"
  by (simp add: addr_bits_def)

lemma take_canonical:
  "take (96 + n) (addr_bits (mapped_head @ v)) = addr_bits mapped_head @ take n (addr_bits v)"
  by (simp add: addr_bits_append)

lemma head_differs:
  assumes "length os = 16" "to_ipv4_mapped os = None" "96 \<le> n"
  shows "take n (addr_bits (mapped_head @ v)) \<noteq> take n (addr_bits os)"
proof
  assume e: "take n (addr_bits (mapped_head @ v)) = take n (addr_bits os)"
  then have "take (8 * 12) (take n (addr_bits (mapped_head @ v))) = take (8 * 12) (take n (addr_bits os))"
    by simp
  then have "take (8 * 12) (addr_bits (mapped_head @ v)) = take (8 * 12) (addr_bits os)"
    using assms(3) by (simp add: min_def)
  then have "addr_bits mapped_head = addr_bits (take 12 os)"
    using assms(1) take_addr_bits[of 12 os] by (simp add: addr_bits_append)
  then have "take 12 os = mapped_head" using assms(1) by (subst (asm) addr_bits_inj) auto
  with assms(2) show False by (simp add: to_ipv4_mapped_def mapped_head_def)
qed

lemma prefix_contains_canonical:
  assumes "prefix_ok p" "addr_ok ip"
  shows "prefix_contains p ip \<longleftrightarrow>
    take (canonical_bits p) (addr_bits (canonical (pfx_addr p)))
      = take (canonical_bits p) (addr_bits (canonical ip)) \<and> \<not> short_v6_on_v4 p ip"
proof (cases "pfx_addr p")
  case net: (V4 net)
  show ?thesis
  proof (cases ip)
    case (V4 i)
    with net assms show ?thesis
      by (simp add: prefix_contains_def prefix_eq_bits prefix_ok_def addr_ok_def max_bits_def
          canonical_def canonical_bits_def take_canonical short_v6_on_v4_def)
  next
    case (V6 i)
    show ?thesis
    proof (cases "to_ipv4_mapped i")
      case None
      with V6 net assms head_differs[of i "96 + pfx_bits p" net] show ?thesis
        by (simp add: prefix_contains_def addr_ok_def canonical_def canonical_bits_def)
    next
      case (Some v)
      then have "i = mapped_head @ v" using V6 assms(2) to_ipv4_mapped_iff by (simp add: addr_ok_def)
      with Some V6 net assms show ?thesis
        by (simp add: prefix_contains_def prefix_eq_bits prefix_ok_def addr_ok_def max_bits_def
            canonical_def canonical_bits_def take_canonical short_v6_on_v4_def)
    qed
  qed
next
  case net: (V6 net)
  show ?thesis
  proof (cases ip)
    case (V6 i)
    with net assms show ?thesis
      by (simp add: prefix_contains_def prefix_eq_bits prefix_ok_def addr_ok_def max_bits_def
          canonical_def canonical_bits_def short_v6_on_v4_def)
  next
    case (V4 i)
    show ?thesis
    proof (cases "96 \<le> pfx_bits p")
      case False
      with V4 net show ?thesis by (simp add: prefix_contains_def short_v6_on_v4_def)
    next
      case True
      show ?thesis
      proof (cases "to_ipv4_mapped net")
        case None
        with V4 net assms head_differs[of net "pfx_bits p" i] True show ?thesis
          by (auto simp: prefix_contains_def prefix_ok_def addr_ok_def canonical_def canonical_bits_def)
      next
        case (Some v)
        then have nv: "net = mapped_head @ v" using net assms(1) to_ipv4_mapped_iff
          by (simp add: prefix_ok_def addr_ok_def)
        obtain k where k: "pfx_bits p = 96 + k" using True le_Suc_ex by blast
        from nv k Some V4 net assms show ?thesis
          by (simp add: prefix_contains_def prefix_eq_bits prefix_ok_def addr_ok_def max_bits_def
              canonical_def canonical_bits_def take_canonical short_v6_on_v4_def)
      qed
    qed
  qed
qed

section \<open>Parsed prefixes are well formed\<close>

lemma read_octets_length: "read_octets k i s = Some (os, r) \<Longrightarrow> length os = k"
  by (induction k i s arbitrary: os r rule: read_octets.induct) (auto split: option.splits)

lemma read_groups_length: "read_groups k i s = (gs, v4, r) \<Longrightarrow> length gs \<le> k"
proof (induction k i s arbitrary: gs v4 r rule: read_groups.induct)
  case (2 left i s)
  show ?case
  proof (cases "if left > 0 then read_separator (CHR '':'') i read_ipv4_addr s else None")
    case (Some x)
    then show ?thesis using "2.prems" by (cases x) (auto simp: v4_groups_def split: if_splits)
  next
    case None
    show ?thesis
    proof (cases "read_separator (CHR '':'') i (read_number 16 4 True 65535) s")
      case n: None
      with None "2.prems" show ?thesis by simp
    next
      case (Some gr)
      obtain g r1 where gr: "gr = (g, r1)" by force
      obtain gs' v4' r' where rg: "read_groups left (i + 1) r1 = (gs', v4', r')"
        by (cases "read_groups left (i + 1) r1")
      from "2.IH"[OF None Some gr[symmetric] rg] rg None Some gr "2.prems" show ?thesis by auto
    qed
  qed
qed simp

lemma read_ipv6_length: "read_ipv6_addr s = Some (gs, r) \<Longrightarrow> length gs = 8"
proof -
  assume a: "read_ipv6_addr s = Some (gs, r)"
  obtain head v4 r0 where h: "read_groups 8 0 s = (head, v4, r0)" by (cases "read_groups 8 0 s")
  have hl: "length head \<le> 8" by (rule read_groups_length[OF h])
  show ?thesis
  proof (cases "length head = 8")
    case True
    with a h show ?thesis by (simp add: read_ipv6_addr_def)
  next
    case False
    with a h obtain r1 where r1: "Option.bind (read_given (CHR '':'') r0) (read_given (CHR '':'')) = Some r1"
      by (auto simp: read_ipv6_addr_def split: if_splits option.splits)
    obtain tg v r2 where t: "read_groups (8 - (length head + 1)) 0 r1 = (tg, v, r2)"
      by (cases "read_groups (8 - (length head + 1)) 0 r1")
    have "length tg \<le> 8 - (length head + 1)" by (rule read_groups_length[OF t])
    with a h r1 t False hl show ?thesis by (auto simp: read_ipv6_addr_def split: if_splits)
  qed
qed

lemma length_concat_group_octets: "length (concat (map group_octets gs)) = 2 * length gs"
  by (induction gs) (simp_all add: group_octets_def)

lemma parse_ip_ok: "parse_ip s = Some a \<Longrightarrow> addr_ok a"
  using read_octets_length[of 4 0 s] read_ipv6_length[of s]
  by (fastforce simp: parse_ip_def read_ipv4_addr_def addr_ok_def length_concat_group_octets
      split: option.splits if_splits)

lemma prefix_parse_ok:
  assumes "prefix_parse s = Some p"
  shows "prefix_ok p"
proof -
  from assms obtain a addr n where "parse_ip a = Some addr" "n \<le> max_bits addr"
    "p = \<lparr>pfx_addr = addr, pfx_bits = n\<rparr>"
    unfolding prefix_parse_def Let_def by (auto split: option.splits if_splits)
  then show ?thesis using parse_ip_ok[of a addr] by (simp add: prefix_ok_def)
qed

section \<open>Properties\<close>

text \<open>
  C37. A client prefix that parsed contains an address that parsed exactly when the leading bits of
  the two agree, with IPv4 read as IPv4-mapped IPv6; except that a prefix written in IPv6 and shorter
  than the mapped range never covers an IPv4 client.
\<close>

theorem prefix_contains_bits:
  "case (prefix_parse s, parse_ip t) of
     (Some p, Some ip) \<Rightarrow> prefix_contains p ip \<longleftrightarrow>
        take (canonical_bits p) (addr_bits (canonical (pfx_addr p)))
          = take (canonical_bits p) (addr_bits (canonical ip)) \<and> \<not> short_v6_on_v4 p ip
   | _ \<Rightarrow> True"
  using prefix_contains_canonical prefix_parse_ok[of s] parse_ip_ok[of t] by (auto split: option.splits)

end
