(* ===== verification/Hit_Series.thy ===== *)
theory Hit_Series
  imports Prelude
begin

text \<open>
  The rolling hit counter of \<open>app-lb/src/guard.rs\<close> (\<open>HitSeries\<close>): a ring of sixty one-minute
  buckets. Each operation is modelled as one step, the run of a thread that meets no other writer;
  the source documents that a hit racing the zeroing of its bucket may be lost. Counters are
  \<open>u32\<close> and wrap. The theory shows that under a clock that does not go back the ring reports, minute
  by minute, the hits of the last hour.
\<close>

definition HIT_BUCKETS :: nat where
  "HIT_BUCKETS = 60"

definition HIT_BUCKET_SECS :: nat where
  "HIT_BUCKET_SECS = 60"

record hit_series =
  hs_buckets :: "nat list"
  hs_head :: nat

definition series_new :: "nat \<Rightarrow> hit_series" where
  "series_new now = \<lparr>hs_buckets = replicate HIT_BUCKETS 0, hs_head = now div HIT_BUCKET_SECS\<rparr>"

text \<open>The zeroing loop \<open>for step in 1..=lapped\<close>.\<close>

definition zero_slots :: "nat \<Rightarrow> nat \<Rightarrow> nat list \<Rightarrow> nat list" where
  "zero_slots head lapped buckets =
     fold (\<lambda>step bs. bs[(head + step) mod HIT_BUCKETS := 0]) [1..<lapped + 1] buckets"

definition roll_to :: "hit_series \<Rightarrow> nat \<Rightarrow> hit_series" where
  "roll_to hs bucket =
     (if bucket \<le> hs_head hs then hs
      else \<lparr>hs_buckets = zero_slots (hs_head hs) (min (bucket - hs_head hs) HIT_BUCKETS) (hs_buckets hs),
            hs_head = bucket\<rparr>)"

definition series_record :: "hit_series \<Rightarrow> nat \<Rightarrow> hit_series" where
  "series_record hs now =
     (let bucket = now div HIT_BUCKET_SECS;
          hs' = roll_to hs bucket;
          slot = bucket mod HIT_BUCKETS
      in hs'\<lparr>hs_buckets := (hs_buckets hs')[slot := u32_wrap_add (hs_buckets hs' ! slot) 1]\<rparr>)"

text \<open>\<open>clone_from_now\<close> rolls the original and returns it with the copy.\<close>

definition clone_from_now :: "hit_series \<Rightarrow> nat \<Rightarrow> hit_series \<times> hit_series" where
  "clone_from_now hs now = (let hs' = roll_to hs (now div HIT_BUCKET_SECS) in (hs', hs'))"

definition snapshot :: "hit_series \<Rightarrow> nat \<Rightarrow> nat list \<times> hit_series" where
  "snapshot hs now =
     (let hs' = roll_to hs (now div HIT_BUCKET_SECS) in
      (map (\<lambda>i. let age = HIT_BUCKETS - 1 - i in
              if age \<le> hs_head hs' then hs_buckets hs' ! ((hs_head hs' - age) mod HIT_BUCKETS) else 0)
         [0..<HIT_BUCKETS], hs'))"

section \<open>The abstract series: the log of all hits\<close>

definition minute :: "nat \<Rightarrow> nat" where
  "minute now = now div HIT_BUCKET_SECS"

definition hits_in :: "nat list \<Rightarrow> nat \<Rightarrow> nat" where
  "hits_in log b = length (filter (\<lambda>t. minute t = b) log)"

text \<open>
  The ring holds, for every minute within an hour of its head, the number of logged hits of that
  minute, and the log has nothing later than the head.
\<close>

definition series_inv :: "nat list \<Rightarrow> hit_series \<Rightarrow> bool" where
  "series_inv log hs \<longleftrightarrow>
     length (hs_buckets hs) = HIT_BUCKETS \<and> (\<forall>t \<in> set log. minute t \<le> hs_head hs) \<and>
     (\<forall>b. b \<le> hs_head hs \<longrightarrow> hs_head hs < b + HIT_BUCKETS \<longrightarrow>
        hs_buckets hs ! (b mod HIT_BUCKETS) = hits_in log b mod (u32_max + 1))"

lemma length_zero_slots [simp]: "length (zero_slots h l bs) = length bs"
proof -
  have "length (fold (\<lambda>step bs. bs[(h + step) mod HIT_BUCKETS := 0]) steps bs) = length bs" for steps
    by (induction steps arbitrary: bs) auto
  then show ?thesis by (simp add: zero_slots_def)
qed

lemma zero_slots_nth:
  assumes "length bs = HIT_BUCKETS" "i < HIT_BUCKETS"
  shows "zero_slots h l bs ! i = (if \<exists>s. 1 \<le> s \<and> s \<le> l \<and> (h + s) mod HIT_BUCKETS = i then 0 else bs ! i)"
proof -
  have "fold (\<lambda>step bs. bs[(h + step) mod HIT_BUCKETS := 0]) steps bs ! i =
      (if \<exists>s \<in> set steps. (h + s) mod HIT_BUCKETS = i then 0 else bs ! i)"
    if "length bs = HIT_BUCKETS" for steps bs
    using that assms(2) by (induction steps arbitrary: bs) (auto simp: nth_list_update)
  from this[OF assms(1)] show ?thesis
    by (auto simp: zero_slots_def less_Suc_eq_le simp del: upt_Suc)
qed

lemma mod_window_inj:
  fixes a b :: nat
  assumes "a mod HIT_BUCKETS = b mod HIT_BUCKETS" "a \<le> h" "b \<le> h" "h < a + HIT_BUCKETS" "h < b + HIT_BUCKETS"
  shows "a = b"
proof (cases "a \<le> b")
  case True
  with assms have "(b - a) mod HIT_BUCKETS = 0" by (metis mod_eq_dvd_iff_nat dvd_imp_mod_0)
  moreover have "b - a < HIT_BUCKETS" using assms by linarith
  ultimately show ?thesis using True by simp
next
  case False
  then have "(a - b) mod HIT_BUCKETS = 0" using assms by (metis mod_eq_dvd_iff_nat dvd_imp_mod_0 nle_le)
  moreover have "a - b < HIT_BUCKETS" using assms by linarith
  ultimately show ?thesis using False by simp
qed

lemma HIT_BUCKETS_pos [simp]: "0 < HIT_BUCKETS"
  by (simp add: HIT_BUCKETS_def)

lemma zeroed_iff:
  assumes "h < b" "b' \<le> b" "b < b' + HIT_BUCKETS"
  shows "(\<exists>s. 1 \<le> s \<and> s \<le> min (b - h) HIT_BUCKETS \<and> (h + s) mod HIT_BUCKETS = b' mod HIT_BUCKETS) \<longleftrightarrow> h < b'"
proof
  assume "\<exists>s. 1 \<le> s \<and> s \<le> min (b - h) HIT_BUCKETS \<and> (h + s) mod HIT_BUCKETS = b' mod HIT_BUCKETS"
  then obtain s where s: "1 \<le> s" "s \<le> b - h" "s \<le> HIT_BUCKETS" "(h + s) mod HIT_BUCKETS = b' mod HIT_BUCKETS"
    by auto
  show "h < b'"
  proof (rule ccontr)
    assume "\<not> h < b'"
    then have "h + s \<noteq> b'" "b' \<le> h" using s by auto
    moreover have "h + s < b' + HIT_BUCKETS" using s assms by linarith
    ultimately show False using mod_window_inj[of "h + s" b' "h + s"] s by auto
  qed
next
  assume hb: "h < b'"
  show "\<exists>s. 1 \<le> s \<and> s \<le> min (b - h) HIT_BUCKETS \<and> (h + s) mod HIT_BUCKETS = b' mod HIT_BUCKETS"
  proof (cases "b' - h \<le> HIT_BUCKETS")
    case True
    with hb assms show ?thesis by (intro exI[of _ "b' - h"]) auto
  next
    case False
    define s where "s = (if (b' - h) mod HIT_BUCKETS = 0 then HIT_BUCKETS else (b' - h) mod HIT_BUCKETS)"
    have "1 \<le> s" using HIT_BUCKETS_pos by (auto simp: s_def Suc_le_eq)
    moreover have "s \<le> HIT_BUCKETS" by (auto simp: s_def less_imp_le)
    moreover have "s mod HIT_BUCKETS = (b' - h) mod HIT_BUCKETS" by (simp add: s_def)
    then have "(h + s) mod HIT_BUCKETS = (h + (b' - h)) mod HIT_BUCKETS" by (metis mod_add_right_eq)
    ultimately show ?thesis using hb False assms by (intro exI[of _ s]) auto
  qed
qed

lemma hits_in_later: "\<forall>t \<in> set log. minute t \<le> h \<Longrightarrow> h < b \<Longrightarrow> hits_in log b = 0"
  by (auto simp: hits_in_def filter_empty_conv)

lemma roll_to_inv:
  assumes inv: "series_inv log hs"
  shows "series_inv log (roll_to hs b) \<and> hs_head (roll_to hs b) = max b (hs_head hs)"
proof (cases "b \<le> hs_head hs")
  case True
  with inv show ?thesis by (simp add: roll_to_def)
next
  case False
  let ?h = "hs_head hs" and ?z = "zero_slots (hs_head hs) (min (b - hs_head hs) HIT_BUCKETS) (hs_buckets hs)"
  have len: "length (hs_buckets hs) = HIT_BUCKETS" and late: "\<forall>t \<in> set log. minute t \<le> ?h"
    and slots: "\<And>c. c \<le> ?h \<Longrightarrow> ?h < c + HIT_BUCKETS \<Longrightarrow>
      hs_buckets hs ! (c mod HIT_BUCKETS) = hits_in log c mod (u32_max + 1)"
    using inv by (auto simp: series_inv_def)
  have "?z ! (c mod HIT_BUCKETS) = hits_in log c mod (u32_max + 1)" if c: "c \<le> b" "b < c + HIT_BUCKETS" for c
  proof (cases "?h < c")
    case True
    then have "\<exists>s. 1 \<le> s \<and> s \<le> min (b - ?h) HIT_BUCKETS \<and> (?h + s) mod HIT_BUCKETS = c mod HIT_BUCKETS"
      using zeroed_iff[of ?h b c] False c by simp
    then show ?thesis using True late hits_in_later[of log ?h c]
      by (simp add: zero_slots_nth[OF len])
  next
    case le: False
    then have "\<not> (\<exists>s. 1 \<le> s \<and> s \<le> min (b - ?h) HIT_BUCKETS \<and> (?h + s) mod HIT_BUCKETS = c mod HIT_BUCKETS)"
      using zeroed_iff[of ?h b c] False c by simp
    then have "?z ! (c mod HIT_BUCKETS) = hs_buckets hs ! (c mod HIT_BUCKETS)"
      by (subst zero_slots_nth[OF len]) (auto simp del: min_less_iff_conj)
    then show ?thesis using slots[of c] le False c by simp
  qed
  with len late False show ?thesis by (auto simp: series_inv_def roll_to_def)
qed

lemma series_new_inv: "series_inv [] (series_new now)"
  by (simp add: series_inv_def series_new_def hits_in_def)

lemma series_record_inv:
  assumes inv: "series_inv log hs" and now: "hs_head hs \<le> minute now"
  shows "series_inv (now # log) (series_record hs now) \<and> hs_head (series_record hs now) = minute now"
proof -
  let ?b = "minute now" and ?hs = "roll_to hs (minute now)"
  let ?slot = "?b mod HIT_BUCKETS"
  from roll_to_inv[OF inv, of ?b] now have r: "series_inv log ?hs" "hs_head ?hs = ?b" by auto
  have len: "length (hs_buckets ?hs) = HIT_BUCKETS" using r by (simp add: series_inv_def)
  have rec: "series_record hs now =
      ?hs\<lparr>hs_buckets := (hs_buckets ?hs)[?slot := u32_wrap_add (hs_buckets ?hs ! ?slot) 1]\<rparr>"
    by (simp add: series_record_def minute_def Let_def)
  have "(hs_buckets ?hs)[?slot := u32_wrap_add (hs_buckets ?hs ! ?slot) 1] ! (c mod HIT_BUCKETS) =
      hits_in (now # log) c mod (u32_max + 1)" if c: "c \<le> ?b" "?b < c + HIT_BUCKETS" for c
  proof (cases "c = ?b")
    case True
    have "hs_buckets ?hs ! ?slot = hits_in log ?b mod (u32_max + 1)" using r c True by (auto simp: series_inv_def)
    moreover have "(hits_in log ?b mod (u32_max + 1) + 1) mod (u32_max + 1) = Suc (hits_in log ?b) mod (u32_max + 1)"
      by (simp only: mod_add_left_eq Suc_eq_plus1)
    ultimately show ?thesis using True len by (simp add: u32_wrap_add_def hits_in_def)
  next
    case False
    have "c mod HIT_BUCKETS \<noteq> ?slot"
      using mod_window_inj[of c ?b ?b] False c by auto
    moreover have "hs_buckets ?hs ! (c mod HIT_BUCKETS) = hits_in log c mod (u32_max + 1)"
      using r c by (auto simp: series_inv_def)
    ultimately show ?thesis using False by (simp add: hits_in_def)
  qed
  with r len show ?thesis unfolding rec by (auto simp: series_inv_def)
qed

lemma record_all_inv:
  "series_inv log hs \<Longrightarrow> hs_head hs \<le> minute (hd (ts @ [now])) \<Longrightarrow> sorted (ts @ [now]) \<Longrightarrow>
     series_inv (rev ts @ log) (fold (\<lambda>t h. series_record h t) ts hs) \<and>
     hs_head (fold (\<lambda>t h. series_record h t) ts hs) \<le> minute now"
proof (induction ts arbitrary: log hs)
  case Nil
  then show ?case by simp
next
  case (Cons t ts)
  from series_record_inv[OF Cons.prems(1), of t] Cons.prems(2)
  have r: "series_inv (t # log) (series_record hs t)" "hs_head (series_record hs t) = minute t" by auto
  have "t \<le> hd (ts @ [now])" using Cons.prems(3) by (cases ts) auto
  then have "minute t \<le> minute (hd (ts @ [now]))" by (simp add: minute_def div_le_mono)
  from Cons.IH[OF r(1)] r(2) this Cons.prems(3) show ?case by simp
qed

lemma snapshot_counts:
  assumes inv: "series_inv log hs" and now: "hs_head hs \<le> minute now" and i: "i < HIT_BUCKETS"
    and age: "HIT_BUCKETS - 1 - i \<le> minute now"
  shows "fst (snapshot hs now) ! i = hits_in log (minute now - (HIT_BUCKETS - 1 - i)) mod (u32_max + 1)"
proof -
  let ?b = "minute now - (HIT_BUCKETS - 1 - i)"
  from roll_to_inv[OF inv, of "minute now"] now
  have r: "series_inv log (roll_to hs (minute now))" "hs_head (roll_to hs (minute now)) = minute now" by auto
  have "hs_buckets (roll_to hs (minute now)) ! (?b mod HIT_BUCKETS) = hits_in log ?b mod (u32_max + 1)"
    using r i age by (auto simp: series_inv_def)
  with r(2) age i show ?thesis
    by (simp add: snapshot_def minute_def[symmetric] Let_def nth_map del: upt_Suc)
qed

section \<open>Properties\<close>

text \<open>
  C20. The ring of per-minute counters refines the log of hits: after any sequence of hits in order,
  slot i of a snapshot is the number of hits in the minute it stands for, up to the wrap of a 32-bit
  counter. Hits older than the ring are forgotten, minutes without a hit read zero.
\<close>

theorem ring_counts:
  assumes "sorted (t0 # ts @ [now])" "i < HIT_BUCKETS" "HIT_BUCKETS - 1 - i \<le> minute now"
  shows "fst (snapshot (fold (\<lambda>t h. series_record h t) ts (series_new t0)) now) ! i
    = hits_in ts (minute now - (HIT_BUCKETS - 1 - i)) mod (u32_max + 1)"
proof -
  let ?hs = "fold (\<lambda>t h. series_record h t) ts (series_new t0)"
  have "hs_head (series_new t0) \<le> minute (hd (ts @ [now]))"
    using assms(1) by (cases ts) (auto simp: series_new_def minute_def div_le_mono)
  then have "series_inv (rev ts @ []) ?hs \<and> hs_head ?hs \<le> minute now"
    using record_all_inv[OF series_new_inv, of t0 ts now] assms(1) by simp
  then have "fst (snapshot ?hs now) ! i = hits_in (rev ts @ []) (minute now - (HIT_BUCKETS - 1 - i)) mod (u32_max + 1)"
    using snapshot_counts assms(2,3) by blast
  moreover have "hits_in (rev ts @ []) b = hits_in ts b" for b by (simp add: hits_in_def rev_filter[symmetric])
  ultimately show ?thesis by simp
qed

theorem ring_counts_witness:
  "fst (snapshot (fold (\<lambda>t h. series_record h t) [6000, 6030, 6060] (series_new 6000)) 6065) ! 58 = 2"
proof -
  have "minute 6065 - (HIT_BUCKETS - 1 - 58) = 100" by (simp add: minute_def HIT_BUCKETS_def HIT_BUCKET_SECS_def)
  then show ?thesis
    using ring_counts[of 6000 "[6000, 6030, 6060]" 6065 58]
    by (simp add: minute_def HIT_BUCKETS_def HIT_BUCKET_SECS_def hits_in_def u32_max_def)
qed

end
