(* ===== verification/Guard.thy ===== *)
theory Guard
  imports Ip_Addr Hit_Series
begin

text \<open>
  The response rules of the load balancer (\<open>app-lb/src/guard.rs\<close>): building a rule from what a
  caller sends, matching a request against it, the verdict over the whole list, and the operations
  that change the list. SHA-256 belongs to a crate and is the argument \<open>sha256\<close>; the bytes that are
  hashed are modelled. Counters are \<open>u64\<close> and wrap.
\<close>

section \<open>Limits, actions, errors\<close>

definition MAX_RULES :: nat where
  "MAX_RULES = 256"

definition MAX_PATTERN :: nat where
  "MAX_PATTERN = 256"

definition MAX_HOST :: nat where
  "MAX_HOST = 253"

definition MAX_UA :: nat where
  "MAX_UA = 128"

definition MAX_NOTE :: nat where
  "MAX_NOTE = 256"

datatype rule_action = Block | Allow

datatype guard_error =
    EmptyMatch
  | BadClient string
  | TooLong string
  | Full
  | NoRule string
  | GuardIo
  | GuardJson

section \<open>Conditions\<close>

record match_spec =
  ms_client :: "string option"
  ms_host :: "string option"
  ms_deployment :: "string option"
  ms_path_prefix :: "string option"
  ms_path_contains :: "string option"
  ms_method :: "string option"
  ms_user_agent_contains :: "string option"

record rule_match =
  rm_client :: "ip_prefix option"
  rm_host :: "string option"
  rm_deployment :: "string option"
  rm_path_prefix :: "string option"
  rm_path_contains :: "string option"
  rm_method :: "string option"
  rm_user_agent_contains :: "string option"

record request_facts =
  rf_client :: "ip_addr option"
  rf_host :: "string option"
  rf_path :: string
  rf_method :: string
  rf_deployment :: "string option"
  rf_user_agent :: "string option"

definition conditions :: "rule_match \<Rightarrow> nat" where
  "conditions m = length (filter (\<lambda>c. c)
     [rm_client m \<noteq> None, rm_host m \<noteq> None, rm_deployment m \<noteq> None, rm_path_prefix m \<noteq> None,
      rm_path_contains m \<noteq> None, rm_method m \<noteq> None, rm_user_agent_contains m \<noteq> None])"

text \<open>All windows of the needle's length, compared byte by byte without regard to ASCII case.\<close>

definition windows :: "nat \<Rightarrow> 'a list \<Rightarrow> 'a list list" where
  "windows n xs = map (\<lambda>i. take n (drop i xs)) [0..<length xs + 1 - n]"

definition contains_ignore_ascii_case :: "string \<Rightarrow> string \<Rightarrow> bool" where
  "contains_ignore_ascii_case h n =
     (if n = [] then True
      else if length h < length n then False
      else list_ex (\<lambda>w. list_all (\<lambda>(a, b). ascii_lower a = ascii_lower b) (zip w n))
             (windows (length n) h))"

definition match_matches :: "rule_match \<Rightarrow> request_facts \<Rightarrow> bool" where
  "match_matches m f \<longleftrightarrow>
     (case rm_client m of
        None \<Rightarrow> True
      | Some net \<Rightarrow> (case rf_client f of Some ip \<Rightarrow> prefix_contains net ip | None \<Rightarrow> False)) \<and>
     (case rm_host m of None \<Rightarrow> True | Some h \<Rightarrow> rf_host f = Some h) \<and>
     (case rm_deployment m of None \<Rightarrow> True | Some d \<Rightarrow> rf_deployment f = Some d) \<and>
     (case rm_path_prefix m of None \<Rightarrow> True | Some p \<Rightarrow> prefix p (rf_path f)) \<and>
     (case rm_path_contains m of None \<Rightarrow> True | Some p \<Rightarrow> str_contains (rf_path f) p) \<and>
     (case rm_method m of None \<Rightarrow> True | Some x \<Rightarrow> eq_ignore_ascii_case (rf_method f) x) \<and>
     (case rm_user_agent_contains m of
        None \<Rightarrow> True
      | Some ua \<Rightarrow> (case rf_user_agent f of
                      Some h \<Rightarrow> contains_ignore_ascii_case h ua
                    | None \<Rightarrow> False))"

definition to_spec :: "rule_match \<Rightarrow> match_spec" where
  "to_spec m =
     \<lparr>ms_client = map_option prefix_str (rm_client m), ms_host = rm_host m,
      ms_deployment = rm_deployment m, ms_path_prefix = rm_path_prefix m,
      ms_path_contains = rm_path_contains m, ms_method = rm_method m,
      ms_user_agent_contains = rm_user_agent_contains m\<rparr>"

definition opt_part :: "string \<Rightarrow> string option \<Rightarrow> string list" where
  "opt_part label v = (case v of Some s \<Rightarrow> [label @ s] | None \<Rightarrow> [])"

definition describe :: "rule_match \<Rightarrow> string" where
  "describe m =
     (let parts =
        opt_part ''from '' (map_option prefix_str (rm_client m)) @ opt_part ''to '' (rm_deployment m)
        @ opt_part ''host '' (rm_host m) @ opt_part ''method '' (rm_method m)
        @ opt_part ''path under '' (rm_path_prefix m)
        @ opt_part ''path containing '' (rm_path_contains m)
        @ opt_part ''user-agent containing '' (rm_user_agent_contains m)
      in if parts = [] then ''any request'' else join '', '' parts)"

section \<open>Rules\<close>

record rule_spec =
  rs_action :: rule_action
  rs_match :: match_spec
  rs_expires_in_secs :: "nat option"
  rs_note :: "string option"

record rule =
  gr_id :: string
  gr_action :: rule_action
  gr_match :: rule_match
  gr_note :: "string option"
  gr_created_at :: nat
  gr_expires_at :: "nat option"
  gr_hits :: nat
  gr_last_hit :: nat
  gr_series :: hit_series

record rule_view =
  rv_id :: string
  rv_action :: rule_action
  rv_match :: match_spec
  rv_summary :: string
  rv_note :: "string option"
  rv_created_at :: nat
  rv_expires_at :: "nat option"
  rv_hits :: nat
  rv_last_hit :: "nat option"
  rv_enforcing :: bool
  rv_hits_recent :: "nat list"

definition le32 :: "nat \<Rightarrow> string" where
  "le32 n = [char_of (n mod 256), char_of (n div 256 mod 256), char_of (n div 65536 mod 256),
             char_of (n div 16777216 mod 256)]"

definition encode_field :: "nat \<times> string option \<Rightarrow> string" where
  "encode_field tv =
     (case tv of (tag, v) \<Rightarrow>
        char_of tag # (case v of Some s \<Rightarrow> le32 (as_u32 (length s)) @ s | None \<Rightarrow> [CHR 0xFF]))"

definition rule_fields :: "rule_match \<Rightarrow> (nat \<times> string option) list" where
  "rule_fields m =
     [(1, map_option prefix_str (rm_client m)), (2, rm_host m), (3, rm_deployment m),
      (4, rm_path_prefix m), (5, rm_path_contains m), (6, rm_method m),
      (7, rm_user_agent_contains m)]"

definition rule_preimage :: "rule_action \<Rightarrow> rule_match \<Rightarrow> string" where
  "rule_preimage action m =
     (case action of Block \<Rightarrow> ''block'' @ [CHR 0x00] | Allow \<Rightarrow> ''allow'' @ [CHR 0x00])
     @ concat (map encode_field (rule_fields m))"

definition hex_byte :: "char \<Rightarrow> string" where
  "hex_byte c = [hex_digit (byte c div 16), hex_digit (byte c mod 16)]"

definition rule_id :: "(string \<Rightarrow> string) \<Rightarrow> rule_action \<Rightarrow> rule_match \<Rightarrow> string" where
  "rule_id sha256 action m = concat (map hex_byte (take 6 (sha256 (rule_preimage action m))))"

definition cap :: "string option \<Rightarrow> nat \<Rightarrow> string \<Rightarrow> guard_error + string option" where
  "cap v mx field =
     (case v of
        Some s \<Rightarrow> if trim s = [] then Inr None
                  else if length s > mx then Inl (TooLong field)
                  else Inr (Some (trim s))
      | None \<Rightarrow> Inr None)"

definition build_client :: "string option \<Rightarrow> guard_error + ip_prefix option" where
  "build_client v =
     (case v of
        Some c0 \<Rightarrow>
          let c = trim c0 in
          if c = [] then Inr None
          else and_then (ok_or (BadClient c) (prefix_parse c)) (\<lambda>p. Inr (Some p))
      | None \<Rightarrow> Inr None)"

definition build_match :: "match_spec \<Rightarrow> guard_error + rule_match" where
  "build_match m =
     and_then (build_client (ms_client m)) (\<lambda>client.
     and_then (cap (ms_host m) MAX_HOST ''match.host'') (\<lambda>host.
     and_then (cap (ms_deployment m) MAX_HOST ''match.deployment'') (\<lambda>deployment.
     and_then (cap (ms_path_prefix m) MAX_PATTERN ''match.path_prefix'') (\<lambda>path_prefix.
     and_then (cap (ms_path_contains m) MAX_PATTERN ''match.path_contains'') (\<lambda>path_contains.
     and_then (cap (ms_method m) 16 ''match.method'') (\<lambda>meth.
     and_then (cap (ms_user_agent_contains m) MAX_UA ''match.user_agent_contains'') (\<lambda>ua.
     Inr \<lparr>rm_client = client, rm_host = map_option to_ascii_lowercase host,
          rm_deployment = deployment, rm_path_prefix = path_prefix,
          rm_path_contains = path_contains, rm_method = map_option to_ascii_uppercase meth,
          rm_user_agent_contains = map_option to_ascii_lowercase ua\<rparr>)))))))"

definition rule_build :: "(string \<Rightarrow> string) \<Rightarrow> rule_spec \<Rightarrow> nat \<Rightarrow> guard_error + rule" where
  "rule_build sha256 s now =
     and_then (build_match (rs_match s)) (\<lambda>m.
     if conditions m = 0 then Inl EmptyMatch
     else and_then (cap (rs_note s) MAX_NOTE ''note'') (\<lambda>note.
     Inr \<lparr>gr_id = rule_id sha256 (rs_action s) m, gr_action = rs_action s, gr_match = m,
          gr_note = note, gr_created_at = now,
          gr_expires_at = map_option (u64_sat_add now) (rs_expires_in_secs s),
          gr_hits = 0, gr_last_hit = 0, gr_series = series_new now\<rparr>))"

definition expired :: "rule \<Rightarrow> nat \<Rightarrow> bool" where
  "expired r now = (case gr_expires_at r of Some e \<Rightarrow> now \<ge> e | None \<Rightarrow> False)"

definition record_hit :: "rule \<Rightarrow> nat \<Rightarrow> rule" where
  "record_hit r now =
     r\<lparr>gr_hits := u64_wrap_add (gr_hits r) 1, gr_last_hit := now,
       gr_series := series_record (gr_series r) now\<rparr>"

definition rule_view_of :: "rule \<Rightarrow> bool \<Rightarrow> rule_view" where
  "rule_view_of r enforcing =
     \<lparr>rv_id = gr_id r, rv_action = gr_action r, rv_match = to_spec (gr_match r),
      rv_summary = describe (gr_match r), rv_note = gr_note r, rv_created_at = gr_created_at r,
      rv_expires_at = gr_expires_at r, rv_hits = gr_hits r,
      rv_last_hit = (if gr_last_hit r \<noteq> 0 then Some (gr_last_hit r) else None),
      rv_enforcing = (enforcing \<or> gr_action r = Allow), rv_hits_recent = []\<rparr>"

definition rule_report :: "rule \<Rightarrow> bool \<Rightarrow> nat \<Rightarrow> rule_view \<times> rule" where
  "rule_report r enforcing now =
     (case snapshot (gr_series r) now of (recent, s) \<Rightarrow>
        ((rule_view_of r enforcing)\<lparr>rv_hits_recent := recent\<rparr>, r\<lparr>gr_series := s\<rparr>))"

section \<open>The guard\<close>

record guard =
  g_rules :: "rule list"
  g_enforce :: bool
  g_blocked :: nat
  g_exempted :: nat
  g_blocked_series :: hit_series
  g_exempted_series :: hit_series

datatype decision = Pass | Blocked rule | WouldBlock rule

definition guard_new :: "bool \<Rightarrow> guard" where
  "guard_new enforce =
     \<lparr>g_rules = [], g_enforce = enforce, g_blocked = 0, g_exempted = 0,
      g_blocked_series = series_new 0, g_exempted_series = series_new 0\<rparr>"

datatype scan_result = ScanPass | ScanAllow nat | ScanBlock nat

fun scan :: "rule list \<Rightarrow> request_facts \<Rightarrow> nat \<Rightarrow> nat \<Rightarrow> nat option \<Rightarrow> scan_result" where
  "scan [] f now i blocked = (case blocked of None \<Rightarrow> ScanPass | Some b \<Rightarrow> ScanBlock b)"
| "scan (r # rs) f now i blocked =
     (if expired r now \<or> \<not> match_matches (gr_match r) f then scan rs f now (i + 1) blocked
      else (case gr_action r of
              Allow \<Rightarrow> ScanAllow i
            | Block \<Rightarrow> scan rs f now (i + 1) (if blocked = None then Some i else blocked)))"

definition decide :: "guard \<Rightarrow> request_facts \<Rightarrow> nat \<Rightarrow> decision \<times> guard" where
  "decide g f now =
     (if g_rules g = [] then (Pass, g)
      else case scan (g_rules g) f now 0 None of
        ScanPass \<Rightarrow> (Pass, g)
      | ScanAllow i \<Rightarrow>
          (Pass, g\<lparr>g_rules := (g_rules g)[i := record_hit (g_rules g ! i) now],
                   g_exempted := u64_wrap_add (g_exempted g) 1,
                   g_exempted_series := series_record (g_exempted_series g) now\<rparr>)
      | ScanBlock i \<Rightarrow>
          (let r = record_hit (g_rules g ! i) now in
           (if g_enforce g then Blocked r else WouldBlock r,
            g\<lparr>g_rules := (g_rules g)[i := r],
              g_blocked := u64_wrap_add (g_blocked g) 1,
              g_blocked_series := series_record (g_blocked_series g) now\<rparr>)))"

record guard_stats =
  st_rules :: nat
  st_blocked :: nat
  st_exempted :: nat
  st_enforcing :: bool
  st_blocked_recent :: "nat list"
  st_exempted_recent :: "nat list"
  st_hits_bucket_secs :: nat
  st_hits_window_secs :: nat

definition guard_stats_of :: "guard \<Rightarrow> nat \<Rightarrow> guard_stats \<times> guard" where
  "guard_stats_of g now =
     (case snapshot (g_blocked_series g) now of (b, bs) \<Rightarrow>
      case snapshot (g_exempted_series g) now of (e, es) \<Rightarrow>
        (\<lparr>st_rules = length (g_rules g), st_blocked = g_blocked g, st_exempted = g_exempted g,
          st_enforcing = g_enforce g, st_blocked_recent = b, st_exempted_recent = e,
          st_hits_bucket_secs = HIT_BUCKET_SECS,
          st_hits_window_secs = HIT_BUCKET_SECS * HIT_BUCKETS\<rparr>,
         g\<lparr>g_blocked_series := bs, g_exempted_series := es\<rparr>))"

definition keep_others :: "string \<Rightarrow> nat \<Rightarrow> rule list \<Rightarrow> rule list" where
  "keep_others i now rs = filter (\<lambda>r. gr_id r \<noteq> i \<and> \<not> expired r now) rs"

definition guard_insert :: "(string \<Rightarrow> string) \<Rightarrow> guard \<Rightarrow> rule_spec \<Rightarrow> nat \<Rightarrow> guard_error + rule \<times> guard" where
  "guard_insert sha256 g s now =
     and_then (rule_build sha256 s now) (\<lambda>r.
     let next_rules = keep_others (gr_id r) now (g_rules g) in
     if length next_rules \<ge> MAX_RULES then Inl Full
     else Inr (r, g\<lparr>g_rules := next_rules @ [r]\<rparr>))"

definition guard_remove :: "guard \<Rightarrow> string \<Rightarrow> nat \<Rightarrow> guard_error + guard" where
  "guard_remove g i now =
     (if \<not> list_ex (\<lambda>r. gr_id r = i) (g_rules g) then Inl (NoRule i)
      else Inr (g\<lparr>g_rules := keep_others i now (g_rules g)\<rparr>))"

text \<open>The replaced rule's own series is rolled too, but the rule leaves the list.\<close>

definition guard_set_expiry :: "guard \<Rightarrow> string \<Rightarrow> nat option \<Rightarrow> nat \<Rightarrow> guard_error + rule_view \<times> guard" where
  "guard_set_expiry g i expires_in_secs now =
     (case find (\<lambda>r. gr_id r = i \<and> \<not> expired r now) (g_rules g) of
        None \<Rightarrow> Inl (NoRule i)
      | Some r \<Rightarrow>
          (let replacement = r\<lparr>gr_expires_at := map_option (u64_sat_add now) expires_in_secs,
                               gr_series := snd (clone_from_now (gr_series r) now)\<rparr>;
               (view, replacement') = rule_report replacement (g_enforce g) now
           in Inr (view, g\<lparr>g_rules := keep_others i now (g_rules g) @ [replacement']\<rparr>)))"

definition guard_sweep :: "guard \<Rightarrow> nat \<Rightarrow> nat \<times> guard" where
  "guard_sweep g now =
     (let next_rules = filter (\<lambda>r. \<not> expired r now) (g_rules g);
          dropped = length (g_rules g) - length next_rules
      in (dropped, if dropped > 0 then g\<lparr>g_rules := next_rules\<rparr> else g))"

subsection \<open>The stored rules\<close>

definition stored_rules :: "guard \<Rightarrow> rule_view list" where
  "stored_rules g = map (\<lambda>r. rule_view_of r (g_enforce g)) (g_rules g)"

definition restore_rule :: "(string \<Rightarrow> string) \<Rightarrow> rule_view \<Rightarrow> guard_error + rule" where
  "restore_rule sha256 v =
     and_then (rule_build sha256
         \<lparr>rs_action = rv_action v, rs_match = rv_match v, rs_expires_in_secs = None, rs_note = rv_note v\<rparr>
         (rv_created_at v)) (\<lambda>r.
     Inr (r\<lparr>gr_expires_at := rv_expires_at v, gr_hits := rv_hits v,
            gr_last_hit := (case rv_last_hit v of Some t \<Rightarrow> t | None \<Rightarrow> 0)\<rparr>))"

fun load_rules :: "(string \<Rightarrow> string) \<Rightarrow> nat \<Rightarrow> rule list \<Rightarrow> rule_view list \<Rightarrow> guard_error + rule list" where
  "load_rules sha256 now acc [] = Inr acc"
| "load_rules sha256 now acc (v # vs) =
     (if (case rv_expires_at v of Some e \<Rightarrow> now \<ge> e | None \<Rightarrow> False) then load_rules sha256 now acc vs
      else and_then (restore_rule sha256 v) (\<lambda>r.
        if length (acc @ [r]) \<ge> MAX_RULES then Inr (acc @ [r])
        else load_rules sha256 now (acc @ [r]) vs))"

datatype file_read = FileMissing | FileFailed | FileBytes string

definition guard_load :: "(string \<Rightarrow> string) \<Rightarrow> (string \<Rightarrow> rule_view list option) \<Rightarrow> guard \<Rightarrow> nat \<Rightarrow> file_read \<Rightarrow>
    guard_error + nat \<times> guard" where
  "guard_load sha256 decode g now file =
     (case file of
        FileMissing \<Rightarrow> Inr (0, g)
      | FileFailed \<Rightarrow> Inl GuardIo
      | FileBytes bytes \<Rightarrow>
          if list_all is_ascii_whitespace bytes then Inr (0, g)
          else and_then (ok_or GuardJson (decode bytes)) (\<lambda>stored.
               and_then (load_rules sha256 now [] stored) (\<lambda>rules.
               Inr (length rules, g\<lparr>g_rules := rules\<rparr>))))"

section \<open>The verdict\<close>

definition applies :: "rule \<Rightarrow> request_facts \<Rightarrow> nat \<Rightarrow> rule_action \<Rightarrow> bool" where
  "applies r f now a \<longleftrightarrow> \<not> expired r now \<and> match_matches (gr_match r) f \<and> gr_action r = a"

lemma scan_result:
  "scan rs f now i blocked =
     (case position (\<lambda>r. applies r f now Allow) rs of
        Some k \<Rightarrow> ScanAllow (i + k)
      | None \<Rightarrow>
          (case blocked of
             Some b \<Rightarrow> ScanBlock b
           | None \<Rightarrow> (case position (\<lambda>r. applies r f now Block) rs of
                        Some k \<Rightarrow> ScanBlock (i + k)
                      | None \<Rightarrow> ScanPass)))"
proof (induction rs f now i blocked rule: scan.induct)
  case (1 f now i blocked)
  then show ?case by (simp split: option.splits)
next
  case (2 r rs f now i blocked)
  show ?case
  proof (cases "expired r now \<or> \<not> match_matches (gr_match r) f")
    case True
    then have "\<not> applies r f now a" for a by (auto simp: applies_def)
    with 2(1)[OF True] True show ?thesis by (auto split: option.splits)
  next
    case False
    show ?thesis
    proof (cases "gr_action r")
      case Allow
      with False show ?thesis by (simp add: applies_def)
    next
      case Block
      with False have "applies r f now Block" "\<not> applies r f now Allow" by (auto simp: applies_def)
      with 2(2)[OF False Block] Block False show ?thesis by (auto split: option.splits)
    qed
  qed
qed

definition any_applies :: "guard \<Rightarrow> request_facts \<Rightarrow> nat \<Rightarrow> rule_action \<Rightarrow> bool" where
  "any_applies g f now a \<longleftrightarrow> (\<exists>r \<in> set (g_rules g). applies r f now a)"

lemma decide_cases:
  "fst (decide g f now) = Pass \<longleftrightarrow> any_applies g f now Allow \<or> \<not> any_applies g f now Block"
  "\<not> any_applies g f now Allow \<Longrightarrow> any_applies g f now Block \<Longrightarrow>
     \<exists>r \<in> set (g_rules g). applies r f now Block \<and>
       fst (decide g f now) = (if g_enforce g then Blocked else WouldBlock) (record_hit r now)"
proof -
  let ?pa = "position (\<lambda>r. applies r f now Allow) (g_rules g)"
  let ?pb = "position (\<lambda>r. applies r f now Block) (g_rules g)"
  have a: "any_applies g f now Allow \<longleftrightarrow> ?pa \<noteq> None" and b: "any_applies g f now Block \<longleftrightarrow> ?pb \<noteq> None"
    by (auto simp: any_applies_def position_None simp del: not_None_eq)
  show "fst (decide g f now) = Pass \<longleftrightarrow> any_applies g f now Allow \<or> \<not> any_applies g f now Block"
    unfolding a b by (auto simp: decide_def scan_result Let_def split: option.splits)
  assume "\<not> any_applies g f now Allow" "any_applies g f now Block"
  then obtain k where k: "?pa = None" "?pb = Some k" using a b by auto
  from position_Some[OF k(2)] have "g_rules g ! k \<in> set (g_rules g)" "applies (g_rules g ! k) f now Block"
    by auto
  moreover have "g_rules g \<noteq> []" using calculation(1) by auto
  ultimately show "\<exists>r \<in> set (g_rules g). applies r f now Block \<and>
       fst (decide g f now) = (if g_enforce g then Blocked else WouldBlock) (record_hit r now)"
    using k by (intro bexI[of _ "g_rules g ! k"]) (auto simp: decide_def scan_result Let_def)
qed

section \<open>The rule list as a bounded set\<close>

text \<open>
  Every rule is addressed by its content and has a condition, and the list is bounded. No two rules
  share an id as long as every file of rules that was loaded listed no rule twice: a load rebuilds the
  rules of its file and does not look for repetitions. \<open>once\<close> says that all files did.
\<close>

definition rule_ok :: "(string \<Rightarrow> string) \<Rightarrow> rule \<Rightarrow> bool" where
  "rule_ok sha256 r \<longleftrightarrow> 0 < conditions (gr_match r) \<and> gr_id r = rule_id sha256 (gr_action r) (gr_match r)"

definition guard_ok :: "(string \<Rightarrow> string) \<Rightarrow> bool \<Rightarrow> guard \<Rightarrow> bool" where
  "guard_ok sha256 once g \<longleftrightarrow> length (g_rules g) \<le> MAX_RULES \<and> (once \<longrightarrow> distinct (map gr_id (g_rules g))) \<and>
     (\<forall>r \<in> set (g_rules g). rule_ok sha256 r)"

fun restored_ids :: "(string \<Rightarrow> string) \<Rightarrow> rule_view list \<Rightarrow> string list" where
  "restored_ids sha256 [] = []"
| "restored_ids sha256 (v # vs) =
     (case restore_rule sha256 v of Inr r \<Rightarrow> gr_id r # restored_ids sha256 vs | Inl _ \<Rightarrow> restored_ids sha256 vs)"

definition lists_once :: "(string \<Rightarrow> string) \<Rightarrow> (string \<Rightarrow> rule_view list option) \<Rightarrow> file_read \<Rightarrow> bool" where
  "lists_once sha256 decode stored =
     (case stored of
        FileBytes bytes \<Rightarrow> (case decode bytes of Some vs \<Rightarrow> distinct (restored_ids sha256 vs) | None \<Rightarrow> True)
      | _ \<Rightarrow> True)"

inductive guard_step :: "(string \<Rightarrow> string) \<Rightarrow> (string \<Rightarrow> rule_view list option) \<Rightarrow> bool \<Rightarrow> guard \<Rightarrow> guard \<Rightarrow> bool"
  for sha256 decode once where
  step_load: "guard_load sha256 decode g now stored = Inr (n, g') \<Longrightarrow> (once \<longrightarrow> lists_once sha256 decode stored) \<Longrightarrow>
    guard_step sha256 decode once g g'"
| step_insert: "guard_insert sha256 g s now = Inr (r, g') \<Longrightarrow> guard_step sha256 decode once g g'"
| step_remove: "guard_remove g i now = Inr g' \<Longrightarrow> guard_step sha256 decode once g g'"
| step_set_expiry: "guard_set_expiry g i secs now = Inr (v, g') \<Longrightarrow> guard_step sha256 decode once g g'"
| step_sweep: "guard_step sha256 decode once g (snd (guard_sweep g now))"
| step_decide: "guard_step sha256 decode once g (snd (decide g f now))"
| step_stats: "guard_step sha256 decode once g (snd (guard_stats_of g now))"

inductive guard_reachable :: "(string \<Rightarrow> string) \<Rightarrow> (string \<Rightarrow> rule_view list option) \<Rightarrow> bool \<Rightarrow> guard \<Rightarrow> bool"
  for sha256 decode once where
  reach_new: "guard_reachable sha256 decode once (guard_new enforce)"
| reach_step: "guard_reachable sha256 decode once g \<Longrightarrow> guard_step sha256 decode once g g' \<Longrightarrow>
    guard_reachable sha256 decode once g'"

lemma rule_build_ok: "rule_build sha256 s now = Inr r \<Longrightarrow> rule_ok sha256 r"
  by (auto simp: rule_build_def rule_ok_def split: if_splits)

lemma keep_others_sub:
  "set (keep_others i now rs) \<subseteq> set rs" "i \<notin> gr_id ` set (keep_others i now rs)"
  "length (keep_others i now rs) \<le> length rs"
  by (auto simp: keep_others_def length_filter_le)

lemma keep_others_distinct: "distinct (map gr_id rs) \<Longrightarrow> distinct (map gr_id (keep_others i now rs))"
  unfolding keep_others_def by (rule distinct_map_filter)

lemma keep_others_shorter: "r \<in> set rs \<Longrightarrow> gr_id r = i \<Longrightarrow> length (keep_others i now rs) < length rs"
  unfolding keep_others_def by (rule length_filter_less) auto

lemma replace_one_ok:
  assumes "guard_ok sha256 once g" "length (keep_others (gr_id r) now (g_rules g)) < MAX_RULES" "rule_ok sha256 r"
  shows "guard_ok sha256 once (g\<lparr>g_rules := keep_others (gr_id r) now (g_rules g) @ [r]\<rparr>)"
  using assms keep_others_sub[of "gr_id r" now "g_rules g"] keep_others_distinct[of "g_rules g" "gr_id r" now]
  by (auto simp: guard_ok_def)

lemma record_hit_same [simp]:
  "gr_id (record_hit r now) = gr_id r" "gr_action (record_hit r now) = gr_action r"
  "gr_match (record_hit r now) = gr_match r" "gr_expires_at (record_hit r now) = gr_expires_at r"
  by (simp_all add: record_hit_def)

lemma update_hit_ok:
  assumes ok: "guard_ok sha256 once g"
  shows "guard_ok sha256 once (g\<lparr>g_rules := (g_rules g)[i := record_hit (g_rules g ! i) now]\<rparr>)"
proof -
  have ids: "map gr_id ((g_rules g)[i := record_hit (g_rules g ! i) now]) = map gr_id (g_rules g)"
    by (simp add: map_update) (metis list_update_beyond list_update_id map_update nth_map not_le)
  have "rule_ok sha256 r" if "r \<in> set ((g_rules g)[i := record_hit (g_rules g ! i) now])" for r
  proof (cases "i < length (g_rules g)")
    case True
    with that set_update_subset_insert have "r = record_hit (g_rules g ! i) now \<or> r \<in> set (g_rules g)" by fastforce
    with True ok show ?thesis by (auto simp: guard_ok_def rule_ok_def)
  next
    case False
    with that ok show ?thesis by (simp add: guard_ok_def list_update_beyond)
  qed
  with ok ids show ?thesis by (simp add: guard_ok_def del: map_update)
qed

lemma guard_ok_other_fields:
  "guard_ok sha256 once (g\<lparr>g_blocked := a\<rparr>) = guard_ok sha256 once g"
  "guard_ok sha256 once (g\<lparr>g_exempted := b\<rparr>) = guard_ok sha256 once g"
  "guard_ok sha256 once (g\<lparr>g_blocked_series := c\<rparr>) = guard_ok sha256 once g"
  "guard_ok sha256 once (g\<lparr>g_exempted_series := d\<rparr>) = guard_ok sha256 once g"
  by (simp_all add: guard_ok_def)

lemma decide_ok: "guard_ok sha256 once g \<Longrightarrow> guard_ok sha256 once (snd (decide g f now))"
  using update_hit_ok[of sha256 once g _ now]
  by (auto simp: decide_def Let_def guard_ok_other_fields split: scan_result.splits)

lemma load_rules_ok:
  "load_rules sha256 now acc vs = Inr rs \<Longrightarrow> length acc < MAX_RULES \<Longrightarrow>
   (\<forall>r \<in> set acc. rule_ok sha256 r \<and> \<not> expired r now) \<Longrightarrow>
   length rs \<le> MAX_RULES \<and> (\<forall>r \<in> set rs. rule_ok sha256 r \<and> \<not> expired r now)"
proof (induction sha256 now acc vs rule: load_rules.induct)
  case (2 sha256 now acc v vs)
  let ?exp = "case rv_expires_at v of Some e \<Rightarrow> now \<ge> e | None \<Rightarrow> False"
  show ?case
  proof (cases ?exp)
    case True
    with 2 show ?thesis by simp
  next
    case False
    with "2.prems"(1) obtain r where r: "restore_rule sha256 v = Inr r" by auto
    have ok: "rule_ok sha256 r"
      using r rule_build_ok by (fastforce simp: restore_rule_def rule_ok_def)
    have live: "\<not> expired r now" using r False by (auto simp: restore_rule_def expired_def)
    show ?thesis
    proof (cases "length (acc @ [r]) \<ge> MAX_RULES")
      case full: True
      with r False "2.prems" ok live show ?thesis by auto
    next
      case room: False
      then have step: "load_rules sha256 now (acc @ [r]) vs = Inr rs" using r False "2.prems"(1) by simp
      show ?thesis by (rule "2.IH"(2)[OF False room step]) (use room ok live "2.prems" in auto)
    qed
  qed
qed simp

lemma load_rules_once:
  "load_rules sha256 now acc vs = Inr rs \<Longrightarrow> distinct (map gr_id acc @ restored_ids sha256 vs) \<Longrightarrow> distinct (map gr_id rs)"
proof (induction sha256 now acc vs rule: load_rules.induct)
  case (2 sha256 now acc v vs)
  then show ?case by (cases "restore_rule sha256 v") (auto split: if_splits)
qed simp

lemma guard_load_ok:
  assumes "guard_load sha256 decode g now stored = Inr (n, g')" "guard_ok sha256 once g" "once \<longrightarrow> lists_once sha256 decode stored"
  shows "guard_ok sha256 once g'"
proof (cases stored)
  case (FileBytes bytes)
  show ?thesis
  proof (cases "list_all is_ascii_whitespace bytes")
    case False
    with assms(1) FileBytes obtain vs rs where rs: "decode bytes = Some vs" "load_rules sha256 now [] vs = Inr rs"
      "g' = g\<lparr>g_rules := rs\<rparr>" by (auto simp: guard_load_def)
    have "length rs \<le> MAX_RULES \<and> (\<forall>r \<in> set rs. rule_ok sha256 r)"
      using load_rules_ok[OF rs(2)] by (simp add: MAX_RULES_def)
    moreover have "once \<longrightarrow> distinct (map gr_id rs)"
      using load_rules_once[OF rs(2)] assms(3) FileBytes rs(1) by (auto simp: lists_once_def)
    ultimately show ?thesis by (simp add: guard_ok_def rs(3))
  qed (use assms FileBytes in \<open>simp add: guard_load_def\<close>)
qed (use assms in \<open>simp_all add: guard_load_def\<close>)

lemma guard_step_ok: "guard_step sha256 decode once g g' \<Longrightarrow> guard_ok sha256 once g \<Longrightarrow> guard_ok sha256 once g'"
proof (induction rule: guard_step.induct)
  case (step_load g now stored n g')
  then show ?case using guard_load_ok by blast
next
  case (step_insert g s now r g')
  then have "rule_build sha256 s now = Inr r" "length (keep_others (gr_id r) now (g_rules g)) < MAX_RULES"
    "g' = g\<lparr>g_rules := keep_others (gr_id r) now (g_rules g) @ [r]\<rparr>"
    by (auto simp: guard_insert_def Let_def split: if_splits)
  with step_insert.prems rule_build_ok replace_one_ok show ?case by metis
next
  case (step_remove g i now g')
  then have "g' = g\<lparr>g_rules := keep_others i now (g_rules g)\<rparr>" by (auto simp: guard_remove_def split: if_splits)
  with step_remove.prems keep_others_sub[of i now "g_rules g"] keep_others_distinct[of "g_rules g" i now]
  show ?case by (auto simp: guard_ok_def)
next
  case (step_set_expiry g i secs now v g')
  then obtain r where r: "find (\<lambda>r. gr_id r = i \<and> \<not> expired r now) (g_rules g) = Some r"
    by (auto simp: guard_set_expiry_def split: option.splits)
  from find_set[OF this] have mem: "r \<in> set (g_rules g)" "gr_id r = i" by auto
  from step_set_expiry.hyps r obtain r' where r': "g' = g\<lparr>g_rules := keep_others i now (g_rules g) @ [r']\<rparr>"
    "gr_id r' = gr_id r" "gr_action r' = gr_action r" "gr_match r' = gr_match r"
    by (auto simp: guard_set_expiry_def rule_report_def Let_def split: prod.splits)
  have "rule_ok sha256 r'" using step_set_expiry.prems mem r' by (auto simp: guard_ok_def rule_ok_def)
  moreover have "length (keep_others (gr_id r') now (g_rules g)) < MAX_RULES"
    using keep_others_shorter[OF mem(1), of "gr_id r'" now] r' step_set_expiry.prems by (simp add: guard_ok_def)
  ultimately show ?case using replace_one_ok[OF step_set_expiry.prems] r' mem by metis
next
  case (step_sweep g now)
  then show ?case
    by (auto simp: guard_sweep_def Let_def guard_ok_def distinct_map_filter
        intro: order_trans[OF length_filter_le])
next
  case (step_decide g f now)
  then show ?case by (rule decide_ok)
next
  case (step_stats g now)
  then show ?case by (auto simp: guard_stats_of_def guard_ok_other_fields split: prod.splits)
qed

lemma guard_reachable_ok: "guard_reachable sha256 decode once g \<Longrightarrow> guard_ok sha256 once g"
proof (induction rule: guard_reachable.induct)
  case (reach_new enforce)
  then show ?case by (simp add: guard_ok_def guard_new_def)
qed (rule guard_step_ok)

section \<open>The hashed bytes determine the rule\<close>








subsection \<open>Built rules have bounded fields\<close>














section \<open>Properties\<close>

text \<open>
  C19. The guard's verdict does not depend on the order of its rules: a request passes exactly when a
  live allow rule matches it or no live block rule does. Otherwise it is blocked, or only reported
  when the guard does not enforce, by a live block rule that matches it.
\<close>

theorem decide_verdict:
  "(fst (decide g f now) = Pass \<longleftrightarrow> (if any_applies g f now Block then any_applies g f now Allow else True)) \<and>
   (case fst (decide g f now) of
      Pass \<Rightarrow> True
    | Blocked r \<Rightarrow> g_enforce g \<and> (\<exists>r0 \<in> set (g_rules g). applies r0 f now Block \<and> r = record_hit r0 now)
    | WouldBlock r \<Rightarrow> \<not> g_enforce g \<and> (\<exists>r0 \<in> set (g_rules g). applies r0 f now Block \<and> r = record_hit r0 now))"
proof (cases "any_applies g f now Allow \<or> \<not> any_applies g f now Block")
  case True
  with decide_cases(1)[of g f now] show ?thesis by auto
next
  case False
  with decide_cases(2)[of g f now] decide_cases(1)[of g f now] show ?thesis
    by (auto split: if_splits)
qed

text \<open>
  C36. Whatever a guard was started from and whatever was done to it since, it has at most the maximum
  number of rules, each id is the digest of the rule's action and conditions, and no rule is free of
  conditions. The ids are distinct as well if no file it was loaded from lists a rule twice.
\<close>

theorem guard_invariant: "guard_reachable sha256 decode once g \<Longrightarrow> guard_ok sha256 once g"
  by (rule guard_reachable_ok)

definition demo_block :: rule_spec where
  "demo_block = \<lparr>rs_action = Block,
     rs_match = \<lparr>ms_client = None, ms_host = None, ms_deployment = None, ms_path_prefix = Some ''/x'', ms_path_contains = None,
                 ms_method = None, ms_user_agent_contains = None\<rparr>,
     rs_expires_in_secs = Some 60, rs_note = None\<rparr>"

lemma demo_insert:
  "\<exists>r g. guard_insert (\<lambda>s. s) (guard_new True) demo_block 5 = Inr (r, g) \<and> g_rules g = [r]"
proof -
  have "trim ''/x'' = ''/x''" by code_simp
  then show ?thesis
    by (simp add: guard_insert_def rule_build_def demo_block_def build_match_def build_client_def cap_def MAX_PATTERN_def
        conditions_def keep_others_def guard_new_def MAX_RULES_def)
qed

text \<open>
  A file that lists one rule twice is loaded as it is: the guard is reachable, has two rules of one
  id and satisfies the rest of the invariant. A rule inserted into an empty guard has its id alone.
\<close>

definition demo_view :: rule_view where
  "demo_view = \<lparr>rv_id = [], rv_action = Block, rv_match = rs_match demo_block, rv_summary = [], rv_note = None,
     rv_created_at = 5, rv_expires_at = None, rv_hits = 0, rv_last_hit = None, rv_enforcing = True, rv_hits_recent = []\<rparr>"

lemma demo_load:
  "\<exists>r n g. guard_load (\<lambda>s. s) (\<lambda>_. Some [demo_view, demo_view]) (guard_new True) 5 (FileBytes ''x'') = Inr (n, g) \<and> g_rules g = [r, r]"
proof -
  have "trim ''/x'' = ''/x''" by code_simp
  then have "\<exists>r. restore_rule (\<lambda>s. s) demo_view = Inr r"
    by (simp add: restore_rule_def rule_build_def demo_view_def demo_block_def build_match_def build_client_def cap_def
        MAX_PATTERN_def conditions_def)
  then obtain r where "restore_rule (\<lambda>s. s) demo_view = Inr r" by blast
  moreover have "rv_expires_at demo_view = None" by (simp add: demo_view_def)
  moreover have "\<not> is_ascii_whitespace (CHR ''x'')" by code_simp
  ultimately show ?thesis by (simp add: guard_load_def MAX_RULES_def ok_or_def)
qed

theorem guard_invariant_witness:
  "(\<exists>r g. guard_reachable (\<lambda>s. s) (\<lambda>_. None) True g \<and> g_rules g = [r] \<and> guard_ok (\<lambda>s. s) True g) \<and>
   (\<exists>r g. guard_reachable (\<lambda>s. s) (\<lambda>_. Some [demo_view, demo_view]) False g \<and> g_rules g = [r, r] \<and> guard_ok (\<lambda>s. s) False g)"
proof
  obtain r g where g: "guard_insert (\<lambda>s. s) (guard_new True) demo_block 5 = Inr (r, g)" "g_rules g = [r]"
    using demo_insert by blast
  have "guard_reachable (\<lambda>s. s) (\<lambda>_. None) True g"
    by (rule reach_step[OF reach_new step_insert[OF g(1)]])
  with g(2) guard_invariant[OF this] show "\<exists>r g. guard_reachable (\<lambda>s. s) (\<lambda>_. None) True g \<and> g_rules g = [r] \<and> guard_ok (\<lambda>s. s) True g" by blast
next
  obtain r n g where g: "guard_load (\<lambda>s. s) (\<lambda>_. Some [demo_view, demo_view]) (guard_new True) 5 (FileBytes ''x'') = Inr (n, g)" "g_rules g = [r, r]"
    using demo_load by blast
  have "guard_reachable (\<lambda>s. s) (\<lambda>_. Some [demo_view, demo_view]) False g"
    by (rule reach_step[OF reach_new step_load[OF g(1)]]) simp
  with g(2) guard_invariant[OF this]
  show "\<exists>r g. guard_reachable (\<lambda>s. s) (\<lambda>_. Some [demo_view, demo_view]) False g \<and> g_rules g = [r, r] \<and> guard_ok (\<lambda>s. s) False g" by blast
qed

text \<open>
  A guard loaded from a file holds only rules that were validated again, with recomputed ids and
  not expired, and never more than the maximum.
\<close>

theorem load_rules_checked:
  "case load_rules sha256 now [] vs of
     Inl _ \<Rightarrow> True
   | Inr rs \<Rightarrow> length rs \<le> MAX_RULES \<and> list_all (\<lambda>r. rule_ok sha256 r \<and> \<not> expired r now) rs"
  using load_rules_ok[of sha256 now "[]" vs] by (auto simp: list_all_iff MAX_RULES_def split: sum.splits)


end
