(* ===== verification/Secrets.thy ===== *)
theory Secrets
  imports Rust_Str
begin

text \<open>
  The secret store of the load balancer (\<open>app-lb/src/secrets.rs\<close>): references, validation, the map
  from namespaced keys to secrets and its operations. Sealing the file is left to the cryptographic
  library; loading starts from the secrets the file holds once opened. The theory shows that the wall
  between namespaces holds.
\<close>

section \<open>References and secrets\<close>

definition DEFAULT_NAMESPACE :: string where
  "DEFAULT_NAMESPACE = ''default''"

definition is_valid_namespace :: "string \<Rightarrow> bool" where
  "is_valid_namespace ns \<longleftrightarrow> ns \<noteq> [] \<and> ns \<noteq> ''.'' \<and> ns \<noteq> ''..'' \<and>
     list_all (\<lambda>b. is_ascii_alphanumeric b \<or> b = CHR ''-'' \<or> b = CHR ''_'' \<or> b = CHR ''.'') ns"

record secret_ref =
  sr_secret :: string
  sr_key :: string
  sr_username :: "string option"
  sr_namespace :: "string option"

definition ref_namespace :: "secret_ref \<Rightarrow> string" where
  "ref_namespace r = (case sr_namespace r of Some ns \<Rightarrow> ns | None \<Rightarrow> DEFAULT_NAMESPACE)"

definition scope_to :: "string \<Rightarrow> secret_ref \<Rightarrow> secret_ref" where
  "scope_to ns r = r\<lparr>sr_namespace := Some ns\<rparr>"

datatype secret_error = EmptyId | BadId string | BadNamespace string | BadKey string | NoData

definition validate_id :: "string \<Rightarrow> secret_error + unit" where
  "validate_id i =
     (if trim i = [] then Inl EmptyId
      else if length i \<le> 64
              \<and> list_all (\<lambda>b. is_ascii_alphanumeric b \<or> b = CHR ''-'' \<or> b = CHR ''_'' \<or> b = CHR ''.'') i
              \<and> \<not> str_contains i ''..''
           then Inr () else Inl (BadId i))"

definition validate_key :: "string \<Rightarrow> secret_error + unit" where
  "validate_key k =
     (if k \<noteq> [] \<and> length k \<le> 128
         \<and> list_all (\<lambda>b. is_ascii_alphanumeric b \<or> b = CHR ''-'' \<or> b = CHR ''_'' \<or> b = CHR ''.'') k
      then Inr () else Inl (BadKey k))"

definition ref_validate :: "secret_ref \<Rightarrow> secret_error + unit" where
  "ref_validate r = and_then (validate_id (sr_secret r)) (\<lambda>_. validate_key (sr_key r))"

text \<open>The data of a secret is a \<open>BTreeMap\<close>.\<close>

record secret_spec =
  ss_id :: string
  ss_namespace :: string
  ss_description :: "string option"
  ss_data :: "(string \<times> string) list"
  ss_updated_at :: nat

record secret_summary =
  sm_id :: string
  sm_namespace :: string
  sm_description :: "string option"
  sm_keys :: "string list"
  sm_updated_at :: nat
  sm_encrypted_at_rest :: bool

definition store_key :: "string \<Rightarrow> string \<Rightarrow> string" where
  "store_key ns i = ns @ ''/'' @ i"

definition secret_validate :: "secret_spec \<Rightarrow> secret_error + unit" where
  "secret_validate s =
     and_then (validate_id (ss_id s)) (\<lambda>_.
     and_then (fail_if (\<not> is_valid_namespace (ss_namespace s)) (BadNamespace (ss_namespace s))) (\<lambda>_.
     and_then (fail_if (ss_data s = []) NoData) (\<lambda>_.
     for_each validate_key (map fst (ss_data s)))))"

definition secret_summary_of :: "secret_spec \<Rightarrow> bool \<Rightarrow> secret_summary" where
  "secret_summary_of s encrypted_at_rest =
     \<lparr>sm_id = ss_id s, sm_namespace = ss_namespace s, sm_description = ss_description s,
      sm_keys = map fst (ss_data s), sm_updated_at = ss_updated_at s,
      sm_encrypted_at_rest = encrypted_at_rest\<rparr>"

section \<open>The store\<close>

record secret_store =
  st_secrets :: "(string \<times> secret_spec) list"
  st_key :: "string option"

definition secret_store_new :: "string option \<Rightarrow> secret_store" where
  "secret_store_new key = \<lparr>st_secrets = [], st_key = key\<rparr>"

definition secret_get :: "secret_store \<Rightarrow> string \<Rightarrow> string \<Rightarrow> secret_spec option" where
  "secret_get st ns i = map_of (st_secrets st) (store_key ns i)"

datatype resolve_error = NoSecret string | NoKey string string

definition secret_resolve :: "secret_store \<Rightarrow> secret_ref \<Rightarrow> resolve_error + string" where
  "secret_resolve st r =
     and_then (ok_or (NoSecret (sr_secret r)) (secret_get st (ref_namespace r) (sr_secret r))) (\<lambda>s.
     ok_or (NoKey (sr_secret r) (sr_key r)) (map_of (ss_data s) (sr_key r)))"

definition secret_list :: "secret_store \<Rightarrow> string option \<Rightarrow> secret_summary list" where
  "secret_list st ns =
     sort_key (\<lambda>m. (sm_namespace m, sm_id m))
       (map (\<lambda>(_, s). secret_summary_of s (st_key st \<noteq> None))
          (filter (\<lambda>(_, s). case ns of None \<Rightarrow> True | Some n \<Rightarrow> ss_namespace s = n) (st_secrets st)))"

definition secret_put :: "secret_spec \<Rightarrow> nat \<Rightarrow> secret_store \<Rightarrow> secret_spec \<times> secret_store" where
  "secret_put spec now st =
     (let s = spec\<lparr>ss_updated_at := now\<rparr>
      in (s, st\<lparr>st_secrets := put (store_key (ss_namespace s) (ss_id s)) (Some s) (st_secrets st)\<rparr>))"

fun patch_data :: "(string \<times> string option) list \<Rightarrow> (string \<times> string) list \<Rightarrow> secret_error + (string \<times> string) list" where
  "patch_data [] m = Inr m"
| "patch_data ((k, v) # changes) m =
     (case v of
        Some x \<Rightarrow> and_then (validate_key k) (\<lambda>_. patch_data changes (btree_insert k x m))
      | None \<Rightarrow> patch_data changes (filter (\<lambda>(k', _). k' \<noteq> k) m))"

definition secret_patch :: "string \<Rightarrow> string \<Rightarrow> (string \<times> string option) list \<Rightarrow> nat \<Rightarrow> secret_store \<Rightarrow>
    secret_error + secret_spec \<times> secret_store" where
  "secret_patch ns i changes now st =
     (case secret_get st ns i of
        None \<Rightarrow> Inl (BadId i)
      | Some current \<Rightarrow>
          and_then (patch_data changes (ss_data current)) (\<lambda>data.
          if data = [] then Inl NoData
          else Inr (secret_put (current\<lparr>ss_data := data\<rparr>) now st)))"

definition secret_remove :: "string \<Rightarrow> string \<Rightarrow> secret_store \<Rightarrow> secret_spec option \<times> secret_store" where
  "secret_remove ns i st =
     (secret_get st ns i, st\<lparr>st_secrets := put (store_key ns i) None (st_secrets st)\<rparr>)"

text \<open>The specs of a file that was read and opened; each is validated before any is kept.\<close>

definition secret_load :: "secret_spec list \<Rightarrow> secret_store \<Rightarrow> secret_error + nat \<times> secret_store" where
  "secret_load specs st =
     and_then (for_each secret_validate specs) (\<lambda>_.
     let m = fold (\<lambda>s. put (store_key (ss_namespace s) (ss_id s)) (Some s)) specs []
     in Inr (length m, st\<lparr>st_secrets := m\<rparr>))"

section \<open>The interface\<close>

text \<open>
  What the users of a namespaced store rely on: an operation keeps the store's invariant and leaves
  what other namespaces look up alone. Histories of operations inherit both.
\<close>

locale namespaced_store =
  fixes inv :: "'st \<Rightarrow> bool"
    and lookup :: "'st \<Rightarrow> string \<Rightarrow> string \<Rightarrow> 'v option"
    and run :: "'op \<Rightarrow> 'st \<Rightarrow> 'st"
    and scope :: "'op \<Rightarrow> string"
  assumes keeps: "inv st \<Longrightarrow> inv (run op st)"
    and apart: "inv st \<Longrightarrow> scope op \<noteq> ns \<Longrightarrow> lookup (run op st) ns i = lookup st ns i"
begin

lemma history_keeps: "inv st \<Longrightarrow> inv (fold run ops st)"
  by (induction ops arbitrary: st) (auto simp: keeps)

lemma history_apart:
  "inv st \<Longrightarrow> list_all (\<lambda>op. scope op \<noteq> ns) ops \<Longrightarrow> lookup (fold run ops st) ns i = lookup st ns i"
  by (induction ops arbitrary: st) (auto simp: keeps apart)

end

section \<open>The wall between namespaces\<close>

definition plain_name :: "string \<Rightarrow> bool" where
  "plain_name s \<longleftrightarrow> CHR ''/'' \<notin> set s"

definition secret_ok :: "secret_spec \<Rightarrow> bool" where
  "secret_ok s \<longleftrightarrow> secret_validate s = Inr () \<and> btree_ok (ss_data s)"

definition store_ok :: "secret_store \<Rightarrow> bool" where
  "store_ok st \<longleftrightarrow> distinct (map fst (st_secrets st)) \<and>
     list_all (\<lambda>(k, s). k = store_key (ss_namespace s) (ss_id s) \<and> secret_ok s) (st_secrets st)"

lemma alnum_plain:
  "list_all (\<lambda>b. is_ascii_alphanumeric b \<or> b = CHR ''-'' \<or> b = CHR ''_'' \<or> b = CHR ''.'') s \<Longrightarrow> plain_name s"
  by (auto simp: plain_name_def list_all_iff ascii_defs byte_def)

lemma store_key_inj:
  assumes "plain_name ns" "plain_name i" "store_key ns i = store_key ns' i'"
  shows "ns' = ns \<and> i' = i"
proof -
  have "takeWhile (\<lambda>c. c \<noteq> CHR ''/'') (store_key ns i) = ns"
    using assms(1) unfolding store_key_def plain_name_def by (subst takeWhile_append2) auto
  moreover have "length (filter (\<lambda>c. c = CHR ''/'') (store_key ns i)) = 1"
    using assms(1,2) by (auto simp: store_key_def plain_name_def filter_empty_conv)
  then have "length (filter (\<lambda>c. c = CHR ''/'') (store_key ns' i')) = 1" using assms(3) by simp
  then have p: "CHR ''/'' \<notin> set ns'" by (auto simp: store_key_def filter_empty_conv)
  then have "takeWhile (\<lambda>c. c \<noteq> CHR ''/'') (store_key ns' i') = ns'"
    unfolding store_key_def by (subst takeWhile_append2) auto
  ultimately show ?thesis using assms(3) by (simp add: store_key_def)
qed

text \<open>
  The operations as the admin API issues them: a secret is validated before it is stored
  (\<open>admin.rs\<close>, \<open>store_secret\<close>), and a failed operation changes nothing. The data of a secret, a
  \<open>BTreeMap\<close>, is sorted by construction.
\<close>

datatype secret_op = PutSecret secret_spec nat | PatchSecret string string "(string \<times> string option) list" nat | RemoveSecret string string

fun secret_op_scope :: "secret_op \<Rightarrow> string" where
  "secret_op_scope (PutSecret s _) = ss_namespace s"
| "secret_op_scope (PatchSecret ns _ _ _) = ns"
| "secret_op_scope (RemoveSecret ns _) = ns"

fun run_secret_op :: "secret_op \<Rightarrow> secret_store \<Rightarrow> secret_store" where
  "run_secret_op (PutSecret s now) st =
     (if secret_validate s = Inr () \<and> btree_ok (ss_data s) then snd (secret_put s now st) else st)"
| "run_secret_op (PatchSecret ns i changes now) st =
     (case secret_patch ns i changes now st of Inr (_, st') \<Rightarrow> st' | Inl _ \<Rightarrow> st)"
| "run_secret_op (RemoveSecret ns i) st = snd (secret_remove ns i st)"

lemma store_ok_iff:
  "store_ok st \<longleftrightarrow> distinct (map fst (st_secrets st)) \<and>
     (\<forall>(k, s) \<in> set (st_secrets st). k = store_key (ss_namespace s) (ss_id s) \<and> secret_ok s)"
  by (auto simp: store_ok_def list_all_iff)

lemma secret_validate_iff:
  "secret_validate s = Inr () \<longleftrightarrow> validate_id (ss_id s) = Inr () \<and> is_valid_namespace (ss_namespace s) \<and>
     ss_data s \<noteq> [] \<and> list_all (\<lambda>(k, _). validate_key k = Inr ()) (ss_data s)"
  by (auto simp: secret_validate_def list_all_iff)

lemma secret_ok_plain: "secret_ok s \<Longrightarrow> plain_name (ss_namespace s) \<and> plain_name (ss_id s)"
  by (auto simp: secret_validate_iff secret_ok_def validate_id_def is_valid_namespace_def
      split: if_splits intro!: alnum_plain)

lemma secret_get_own:
  assumes "store_ok st" "secret_get st ns i = Some s"
  shows "ss_namespace s = ns \<and> ss_id s = i"
  using assms store_key_inj[of "ss_namespace s" "ss_id s" ns i] secret_ok_plain[of s]
  by (auto simp: store_ok_iff secret_get_def dest!: map_of_SomeD)

lemma secret_stamp_ok [simp]: "secret_ok (s\<lparr>ss_updated_at := now\<rparr>) = secret_ok s"
  by (simp add: secret_ok_def secret_validate_iff)

lemma secret_put_ok: "store_ok st \<Longrightarrow> secret_ok s \<Longrightarrow> store_ok (snd (secret_put s now st))"
  by (auto simp: store_ok_iff secret_put_def set_put Let_def)

lemma secret_put_get:
  assumes "secret_ok s"
  shows "secret_get (snd (secret_put s now st)) ns i =
    (if ns = ss_namespace s \<and> i = ss_id s then Some (s\<lparr>ss_updated_at := now\<rparr>) else secret_get st ns i)"
  using store_key_inj[of "ss_namespace s" "ss_id s" ns i] secret_ok_plain[OF assms]
  by (auto simp: secret_get_def secret_put_def Let_def)

lemma patch_data_ok:
  "patch_data changes m = Inr m' \<Longrightarrow> btree_ok m \<Longrightarrow> list_all (\<lambda>(k, _). validate_key k = Inr ()) m \<Longrightarrow>
     btree_ok m' \<and> list_all (\<lambda>(k, _). validate_key k = Inr ()) m'"
proof (induction changes m rule: patch_data.induct)
  case (2 k v changes m)
  show ?case
  proof (cases v)
    case None
    with 2 show ?thesis by (auto simp: list_all_iff)
  next
    case (Some x)
    then have "validate_key k = Inr ()" using 2(3) by (cases "validate_key k") auto
    moreover from this have "list_all (\<lambda>(k, _). validate_key k = Inr ()) (btree_insert k x m)"
      using 2(5) btree_insert_set[of k x m] by (auto simp: list_all_iff)
    ultimately show ?thesis using 2 Some by auto
  qed
qed simp

lemma secret_patch_cases:
  assumes ok: "store_ok st" and p: "secret_patch ns i changes now st = Inr (s', st')"
  obtains s where "secret_ok s" "ss_namespace s = ns" "ss_id s = i" "(s', st') = secret_put s now st"
proof -
  obtain cur d where cur: "secret_get st ns i = Some cur" and d: "patch_data changes (ss_data cur) = Inr d" "d \<noteq> []"
    and put: "(s', st') = secret_put (cur\<lparr>ss_data := d\<rparr>) now st"
    using p by (auto simp: secret_patch_def split: option.splits if_splits)
  have own: "ss_namespace cur = ns" "ss_id cur = i" using secret_get_own[OF ok cur] by simp_all
  have "secret_ok cur" using ok cur by (auto simp: store_ok_iff secret_get_def dest!: map_of_SomeD)
  then have "secret_ok (cur\<lparr>ss_data := d\<rparr>)" using patch_data_ok[OF d(1)] d(2) by (simp add: secret_ok_def secret_validate_iff)
  then show ?thesis using that put own by simp
qed

lemma secret_remove_get:
  assumes "store_ok st" "ns \<noteq> ns'"
  shows "secret_get (snd (secret_remove ns i st)) ns' i' = secret_get st ns' i'"
proof (cases "store_key ns i = store_key ns' i'")
  case True
  have "secret_get st ns' i' = None"
  proof (rule ccontr)
    assume "secret_get st ns' i' \<noteq> None"
    then obtain s where s: "secret_get st ns' i' = Some s" by blast
    then have "secret_get st ns i = Some s" using True by (simp add: secret_get_def)
    with s secret_get_own[OF assms(1)] assms(2) show False by metis
  qed
  with True show ?thesis by (simp add: secret_remove_def secret_get_def)
next
  case False
  then show ?thesis by (simp add: secret_remove_def secret_get_def)
qed

interpretation secrets: namespaced_store store_ok secret_get run_secret_op secret_op_scope
proof
  fix st op assume ok: "store_ok st"
  show "store_ok (run_secret_op op st)"
  proof (cases op)
    case (PutSecret s now)
    with ok show ?thesis by (auto simp: secret_ok_def intro: secret_put_ok)
  next
    case (PatchSecret ns i changes now)
    with ok show ?thesis
      by (auto split: sum.splits elim!: secret_patch_cases[OF ok] intro: secret_put_ok) (metis secret_put_ok snd_conv)
  next
    case (RemoveSecret ns i)
    with ok show ?thesis by (auto simp: store_ok_iff secret_remove_def set_put)
  qed
  fix ns i assume other: "secret_op_scope op \<noteq> ns"
  show "secret_get (run_secret_op op st) ns i = secret_get st ns i"
  proof (cases op)
    case (PutSecret s now)
    with ok other show ?thesis by (auto simp: secret_put_get secret_ok_def)
  next
    case (PatchSecret ns' i' changes now)
    show ?thesis
    proof (cases "secret_patch ns' i' changes now st")
      case (Inr p)
      obtain s' st' where p: "p = (s', st')" by force
      obtain s where "secret_ok s" "ss_namespace s = ns'" "(s', st') = secret_put s now st"
        using secret_patch_cases[OF ok Inr[unfolded p]] by blast
      with PatchSecret Inr p other show ?thesis using secret_put_get[of s now st ns i] by (metis (no_types) case_prod_conv old.sum.simps(6) run_secret_op.simps(2) secret_op_scope.simps(2) snd_conv)
    qed (simp add: PatchSecret)
  next
    case (RemoveSecret ns' i')
    with ok other show ?thesis by (simp add: secret_remove_get)
  qed
qed

lemma secret_store_new_ok: "store_ok (secret_store_new key)"
  by (simp add: store_ok_iff secret_store_new_def)

lemma run_secret_ops_key: "st_key (fold run_secret_op ops (secret_store_new key)) = key"
proof -
  have step: "st_key (run_secret_op op st) = st_key st" for op st
    by (cases "(op, st)" rule: run_secret_op.cases)
      (auto simp: secret_put_def secret_patch_def secret_remove_def Let_def split: sum.splits option.splits if_splits)
  have "st_key (fold run_secret_op ops st) = st_key st" for st
    by (induction ops arbitrary: st) (simp_all add: step)
  then show ?thesis by (simp add: secret_store_new_def)
qed

lemma secret_load_ok:
  assumes load: "secret_load specs st = Inr (n, st')" and sorted: "\<forall>s \<in> set specs. btree_ok (ss_data s)"
  shows "store_ok st' \<and> n = length (st_secrets st')"
proof -
  let ?put = "\<lambda>s. put (store_key (ss_namespace s) (ss_id s)) (Some s)"
  have valid: "\<forall>s \<in> set specs. secret_ok s" and st': "st_secrets st' = fold ?put specs []" "n = length (st_secrets st')"
    using load sorted by (auto simp: secret_load_def Let_def secret_ok_def)
  define Q where "Q m \<longleftrightarrow> distinct (map fst m) \<and>
    (\<forall>(k, s) \<in> set m. k = store_key (ss_namespace s) (ss_id s) \<and> secret_ok s)" for m
  have "Q (?put s m)" if "Q m" "secret_ok s" for s m using that by (auto simp: Q_def set_put)
  then have "Q m \<Longrightarrow> \<forall>s \<in> set ss. secret_ok s \<Longrightarrow> Q (fold ?put ss m)" for ss m
    by (induction ss arbitrary: m) simp_all
  from this[of "[]" specs] valid st' show ?thesis by (simp add: store_ok_iff Q_def)
qed

section \<open>Properties\<close>

text \<open>
  C34. The wall between namespaces holds: whatever was stored before, operations on other namespaces
  never change what a reference resolves to, and what it resolves to is a value of a secret stored
  under its own namespace and id.
\<close>

theorem secret_wall:
  assumes "list_all (\<lambda>op. secret_op_scope op \<noteq> ref_namespace r) later"
  shows "secret_resolve (fold run_secret_op (ops @ later) (secret_store_new key)) r =
      secret_resolve (fold run_secret_op ops (secret_store_new key)) r \<and>
    (case secret_resolve (fold run_secret_op ops (secret_store_new key)) r of
       Inl _ \<Rightarrow> True
     | Inr v \<Rightarrow> (\<exists>s \<in> snd ` set (st_secrets (fold run_secret_op ops (secret_store_new key))).
         ss_namespace s = ref_namespace r \<and> ss_id s = sr_secret r \<and> map_of (ss_data s) (sr_key r) = Some v))"
proof -
  let ?st = "fold run_secret_op ops (secret_store_new key)"
  have ok: "store_ok ?st" by (rule secrets.history_keeps[OF secret_store_new_ok])
  have same: "secret_get (fold run_secret_op later ?st) (ref_namespace r) i = secret_get ?st (ref_namespace r) i" for i
    by (rule secrets.history_apart[OF ok assms])
  have own: "\<exists>s \<in> snd ` set (st_secrets ?st). ss_namespace s = ref_namespace r \<and> ss_id s = sr_secret r \<and>
      map_of (ss_data s) (sr_key r) = Some v" if "secret_resolve ?st r = Inr v" for v
  proof -
    obtain s where s: "secret_get ?st (ref_namespace r) (sr_secret r) = Some s" "map_of (ss_data s) (sr_key r) = Some v"
      using \<open>secret_resolve ?st r = Inr v\<close> by (auto simp: secret_resolve_def ok_or_def split: option.splits)
    then have "s \<in> snd ` set (st_secrets ?st)" unfolding secret_get_def by (metis map_of_SomeD image_eqI snd_conv)
    with s secret_get_own[OF ok s(1)] show ?thesis by blast
  qed
  show ?thesis using same own by (auto simp: secret_resolve_def split: sum.splits)
qed

definition demo_secret :: "string \<Rightarrow> string \<Rightarrow> secret_op" where
  "demo_secret ns v = PutSecret \<lparr>ss_id = ''github'', ss_namespace = ns, ss_description = None,
     ss_data = [(''token'', v)], ss_updated_at = 0\<rparr> 1"

theorem secret_wall_witness:
  "secret_resolve (fold run_secret_op ([demo_secret ''a'' ''x''] @ [demo_secret ''b'' ''y'', RemoveSecret ''b'' ''github'']) (secret_store_new None))
     \<lparr>sr_secret = ''github'', sr_key = ''token'', sr_username = None, sr_namespace = Some ''a''\<rparr>
   = secret_resolve (fold run_secret_op [demo_secret ''a'' ''x''] (secret_store_new None))
     \<lparr>sr_secret = ''github'', sr_key = ''token'', sr_username = None, sr_namespace = Some ''a''\<rparr>"
proof -
  let ?r = "\<lparr>sr_secret = ''github'', sr_key = ''token'', sr_username = None, sr_namespace = Some ''a''\<rparr>"
  have "list_all (\<lambda>op. secret_op_scope op \<noteq> ref_namespace ?r) [demo_secret ''b'' ''y'', RemoveSecret ''b'' ''github'']"
    by (simp add: demo_secret_def ref_namespace_def)
  from secret_wall[OF this, of "[demo_secret ''a'' ''x'']" None] show ?thesis by blast
qed

text \<open>
  Loading is all or nothing: a file with one invalid secret is refused, and otherwise every key
  of the new store is the key of its secret, each secret is valid, and the count is their number.
\<close>

theorem secret_load_checked:
  "case secret_load specs st of
     Inl e \<Rightarrow> list_ex (\<lambda>s. secret_validate s = Inl e) specs
   | Inr (n, st') \<Rightarrow> list_all (\<lambda>s. secret_validate s = Inr ()) specs \<and>
       (list_all (\<lambda>s. btree_ok (ss_data s)) specs \<longrightarrow> store_ok st' \<and> n = length (st_secrets st'))"
proof (cases "secret_load specs st")
  case (Inl e)
  then have "for_each secret_validate specs = Inl e"
    by (cases "for_each secret_validate specs") (auto simp: secret_load_def Let_def)
  from for_each_Inl[OF this] show ?thesis using Inl by (auto simp: list_ex_iff)
next
  case (Inr p)
  obtain n st' where p: "p = (n, st')" by force
  have "list_all (\<lambda>s. secret_validate s = Inr ()) specs"
    using Inr by (auto simp: secret_load_def list_all_iff)
  with secret_load_ok[OF Inr[unfolded p]] show ?thesis unfolding Inr p by (simp add: list_all_iff)
qed

theorem secret_load_checked_witness: "case secret_load [] (secret_store_new None) of
     Inl e \<Rightarrow> list_ex (\<lambda>s. secret_validate s = Inl e) ([] :: secret_spec list)
   | Inr (n, st') \<Rightarrow> store_ok st' \<and> n = 0"
  using secret_load_checked[of "[]" "secret_store_new None"] by (simp add: secret_load_def)

end
