(* ===== verification/Secret_File.thy ===== *)
theory Secret_File
  imports Secrets Ip_Addr "HOL-Library.Countable"
begin

text \<open>
  The file of the secret store (\<open>app-lb/src/secrets.rs\<close>): the key derived from the configured
  material, the envelope, sealing and writing, reading and opening. The cipher, base64 and the JSON
  printer and parser are libraries: they are arguments, and what is relied on of them is
  \<open>lib_faithful\<close>. The theory shows that a written store is read back.
\<close>

section \<open>The key\<close>

text \<open>
  \<open>u8::from_str_radix(s, 16)\<close> on two bytes, so that no value overflows: an optional plus sign, then
  digits.
\<close>

definition u8_from_hex :: "string \<Rightarrow> nat option" where
  "u8_from_hex s =
     (let ds = (case s of c # d # cs \<Rightarrow> if c = CHR ''+'' then d # cs else s | _ \<Rightarrow> s)
      in if ds = [] \<or> list_ex (\<lambda>c. digit_of 16 c = None) ds then None
         else Some (foldl (\<lambda>acc c. acc * 16 + (case digit_of 16 c of Some d \<Rightarrow> d | None \<Rightarrow> 0)) 0 ds))"

text \<open>
  The pairs of bytes of an even string. A slice that does not end on a character boundary panics
  (\<open>None\<close>); a pair that is not a number is an error (\<open>Some (Inl ())\<close>).
\<close>

fun hex_pairs :: "string \<Rightarrow> (unit + string) option" where
  "hex_pairs (a # b # s) =
     (if is_continuation a \<or> (case s of [] \<Rightarrow> False | c # _ \<Rightarrow> is_continuation c) then None
      else case u8_from_hex [a, b] of
        None \<Rightarrow> Some (Inl ())
      | Some v \<Rightarrow> map_option (\<lambda>r. and_then r (\<lambda>bytes. Inr (char_of v # bytes))) (hex_pairs s))"
| "hex_pairs s = Some (Inr [])"

definition hex_decode :: "string \<Rightarrow> (unit + string) option" where
  "hex_decode s = (if odd (length s) then Some (Inl ()) else hex_pairs s)"

definition derive_key :: "(string \<Rightarrow> string) \<Rightarrow> string \<Rightarrow> string option" where
  "derive_key sha256 material0 =
     (let material = trim material0 in
      if length material = 64
      then (case hex_decode material of
              None \<Rightarrow> None
            | Some (Inr bytes) \<Rightarrow> Some bytes
            | Some (Inl _) \<Rightarrow> Some (sha256 material))
      else Some (sha256 material))"

section \<open>The envelope\<close>

record secret_file =
  sf_version :: nat
  sf_encryption :: string
  sf_secrets :: "secret_spec list option"
  sf_nonce :: "string option"
  sf_tag :: "string option"
  sf_ciphertext :: "string option"

text \<open>An unknown format keeps the data that its message shows.\<close>

datatype format_error = NewerVersion nat | MissingField | NotBase64 | UnknownEncryption string | InvalidSecret secret_error

datatype store_error = Io | Json | KeyRequired | Undecryptable | UnknownFormat format_error

definition AAD :: string where
  "AAD = ''app-lb-secrets-v1''"

text \<open>The libraries: AES-256-GCM of \<open>openssl\<close>, base64, and \<open>serde_json\<close> on the two types it prints.\<close>

record seal_lib =
  encrypt_aead :: "string \<Rightarrow> string \<Rightarrow> string \<Rightarrow> string \<Rightarrow> (string \<times> string) option"
  decrypt_aead :: "string \<Rightarrow> string \<Rightarrow> string \<Rightarrow> string \<Rightarrow> string \<Rightarrow> string option"
  b64_encode :: "string \<Rightarrow> string"
  b64_decode :: "string \<Rightarrow> string option"
  specs_to_json :: "secret_spec list \<Rightarrow> string option"
  specs_from_json :: "string \<Rightarrow> secret_spec list option"
  file_to_json :: "secret_file \<Rightarrow> string option"
  file_from_json :: "string \<Rightarrow> secret_file option"

definition store_specs :: "secret_store \<Rightarrow> secret_spec list" where
  "store_specs st = sort_key (\<lambda>s. (ss_namespace s, ss_id s)) (map snd (st_secrets st))"

text \<open>
  Writing. \<open>nonce\<close> is what the random generator returns, \<open>None\<close> when it fails; \<open>io_ok\<close> is whether the
  directory, the temporary file and the rename succeed. The file is replaced by a rename, so on an
  error it is what it was.
\<close>

definition seal_file :: "seal_lib \<Rightarrow> string option \<Rightarrow> secret_store \<Rightarrow> store_error + secret_file" where
  "seal_file lib nonce st =
     (case st_key st of
        None \<Rightarrow> Inr \<lparr>sf_version = 1, sf_encryption = ''none'', sf_secrets = Some (store_specs st),
                     sf_nonce = None, sf_tag = None, sf_ciphertext = None\<rparr>
      | Some key \<Rightarrow>
          and_then (ok_or Json (specs_to_json lib (store_specs st))) (\<lambda>plaintext.
          and_then (ok_or Io nonce) (\<lambda>n.
          and_then (ok_or Io (encrypt_aead lib key n AAD plaintext)) (\<lambda>(ciphertext, tag).
          Inr \<lparr>sf_version = 1, sf_encryption = ''aes-256-gcm'', sf_secrets = None,
               sf_nonce = Some (b64_encode lib n), sf_tag = Some (b64_encode lib tag),
               sf_ciphertext = Some (b64_encode lib ciphertext)\<rparr>))))"

definition secret_persist :: "seal_lib \<Rightarrow> string option \<Rightarrow> bool \<Rightarrow> secret_store \<Rightarrow> string option \<Rightarrow>
    (store_error + unit) \<times> string option" where
  "secret_persist lib nonce io_ok st disk =
     (case and_then (seal_file lib nonce st) (\<lambda>file.
           and_then (ok_or Json (file_to_json lib file)) (\<lambda>json.
           and_then (fail_if (\<not> io_ok) Io) (\<lambda>_. Inr json))) of
        Inl e \<Rightarrow> (Inl e, disk)
      | Inr json \<Rightarrow> (Inr (), Some json))"

text \<open>
  Reading. A missing file leaves the store alone; \<open>read_ok\<close> is whether an existing one can be read.
\<close>

definition sealed_field :: "seal_lib \<Rightarrow> string option \<Rightarrow> store_error + string" where
  "sealed_field lib v =
     and_then (ok_or (UnknownFormat MissingField) v) (\<lambda>s.
     ok_or (UnknownFormat NotBase64) (b64_decode lib s))"

definition open_file :: "seal_lib \<Rightarrow> string option \<Rightarrow> secret_file \<Rightarrow> store_error + secret_spec list" where
  "open_file lib key file =
     (if sf_encryption file = ''none''
      then Inr (case sf_secrets file of Some specs \<Rightarrow> specs | None \<Rightarrow> [])
      else if sf_encryption file = ''aes-256-gcm'' then
        and_then (ok_or KeyRequired key) (\<lambda>k.
        and_then (sealed_field lib (sf_nonce file)) (\<lambda>nonce.
        and_then (sealed_field lib (sf_tag file)) (\<lambda>tag.
        and_then (sealed_field lib (sf_ciphertext file)) (\<lambda>ciphertext.
        and_then (ok_or Undecryptable (decrypt_aead lib k nonce AAD ciphertext tag)) (\<lambda>plaintext.
        ok_or Json (specs_from_json lib plaintext))))))
      else Inl (UnknownFormat (UnknownEncryption (sf_encryption file))))"

definition secret_load_file :: "seal_lib \<Rightarrow> bool \<Rightarrow> string option \<Rightarrow> secret_store \<Rightarrow> store_error + nat \<times> secret_store" where
  "secret_load_file lib read_ok disk st =
     (case disk of
        None \<Rightarrow> Inr (0, st)
      | Some bytes \<Rightarrow>
          and_then (fail_if (\<not> read_ok) Io) (\<lambda>_.
          and_then (ok_or Json (file_from_json lib bytes)) (\<lambda>file.
          and_then (fail_if (sf_version file \<noteq> 1) (UnknownFormat (NewerVersion (sf_version file)))) (\<lambda>_.
          and_then (open_file lib (st_key st) file) (\<lambda>specs.
          map_err (\<lambda>e. UnknownFormat (InvalidSecret e)) (secret_load specs st))))))"

section \<open>Round trips\<close>

text \<open>What the libraries document: each decoder undoes its encoder.\<close>

definition lib_faithful :: "seal_lib \<Rightarrow> bool" where
  "lib_faithful lib \<longleftrightarrow>
     (\<forall>key nonce aad text ciphertext tag. encrypt_aead lib key nonce aad text = Some (ciphertext, tag) \<longrightarrow>
        decrypt_aead lib key nonce aad ciphertext tag = Some text) \<and>
     (\<forall>s. b64_decode lib (b64_encode lib s) = Some s) \<and>
     (\<forall>specs json. specs_to_json lib specs = Some json \<longrightarrow> specs_from_json lib json = Some specs) \<and>
     (\<forall>file json. file_to_json lib file = Some json \<longrightarrow> file_from_json lib json = Some file)"

lemma open_seal:
  assumes "lib_faithful lib" "seal_file lib nonce st = Inr file"
  shows "open_file lib (st_key st) file = Inr (store_specs st) \<and> sf_version file = 1"
  using assms
  by (cases "st_key st")
    (auto simp: lib_faithful_def seal_file_def open_file_def sealed_field_def ok_or_def split: option.splits)

abbreviation own_key :: "secret_spec \<Rightarrow> string" where
  "own_key s \<equiv> store_key (ss_namespace s) (ss_id s)"

lemma load_map:
  "distinct (map fst m @ map own_key specs) \<Longrightarrow>
     fold (\<lambda>s. put (own_key s) (Some s)) specs m = m @ map (\<lambda>s. (own_key s, s)) specs"
  by (induction specs arbitrary: m) (auto simp: put_fresh)

lemma store_specs_keyed:
  assumes "store_ok st"
  shows "mset (map (\<lambda>s. (own_key s, s)) (store_specs st)) = mset (st_secrets st)"
    and "list_all secret_ok (store_specs st)"
proof -
  have "map (\<lambda>s. (own_key s, s)) (map snd (st_secrets st)) = st_secrets st"
    unfolding map_map using assms by (intro map_idI) (auto simp: store_ok_iff)
  from arg_cong[OF this, of mset]
  show "mset (map (\<lambda>s. (own_key s, s)) (store_specs st)) = mset (st_secrets st)"
    by (simp add: store_specs_def multiset.map_comp)
  show "list_all secret_ok (store_specs st)" using assms by (auto simp: store_ok_iff store_specs_def list_all_iff)
qed

lemma load_store_specs:
  assumes ok: "store_ok st"
  obtains st' where "secret_load (store_specs st) st0 = Inr (length (st_secrets st), st')"
    "secret_get st' = secret_get st" "st_key st' = st_key st0"
proof -
  let ?m = "map (\<lambda>s. (own_key s, s)) (store_specs st)"
  note keyed = store_specs_keyed[OF ok]
  have "mset (map fst ?m) = mset (map fst (st_secrets st))" using arg_cong[OF keyed(1), of "image_mset fst"] by (simp add: multiset.map_comp)
  then have d: "distinct (map fst ?m)" using ok mset_eq_imp_distinct_iff unfolding store_ok_iff by blast
  then have fold: "fold (\<lambda>s. put (own_key s) (Some s)) (store_specs st) [] = ?m"
    by (subst load_map) (simp_all add: comp_def)
  have "map_of ?m = map_of (st_secrets st)"
    using d ok mset_eq_setD[OF keyed(1)] map_of_inject_set unfolding store_ok_iff by blast
  moreover have "length ?m = length (st_secrets st)" using keyed(1) by (metis size_mset)
  moreover have "for_each secret_validate (store_specs st) = Inr ()"
    using keyed(2) by (auto simp: list_all_iff secret_ok_def)
  ultimately show ?thesis
    using that[of "st0\<lparr>st_secrets := ?m\<rparr>"] by (simp add: secret_load_def fold secret_get_def fun_eq_iff)
qed

section \<open>Properties\<close>

text \<open>
  C26. A store that was written is read back: whatever operations built it, once writing succeeds a
  store opened with the same key holds the same secrets, as many as before; a sealed file shows no
  secret in the clear and asks a store without a key for the key.
\<close>

theorem persist_load:
  assumes "lib_faithful lib" "secret_persist lib nonce io_ok (fold run_secret_op ops (secret_store_new key)) disk = (Inr (), disk')"
  shows "(case secret_load_file lib True disk' (secret_store_new key) of
       Inl _ \<Rightarrow> False
     | Inr (n, st') \<Rightarrow> n = length (st_secrets (fold run_secret_op ops (secret_store_new key))) \<and> st_key st' = key \<and>
         secret_get st' = secret_get (fold run_secret_op ops (secret_store_new key))) \<and>
    (key \<noteq> None \<longrightarrow> secret_load_file lib True disk' (secret_store_new None) = Inl KeyRequired \<and>
       map_option sf_secrets (Option.bind disk' (file_from_json lib)) = Some None)"
proof -
  let ?st = "fold run_secret_op ops (secret_store_new key)"
  have ok: "store_ok ?st" by (rule secrets.history_keeps[OF secret_store_new_ok])
  have key: "st_key ?st = key" by (rule run_secret_ops_key)
  obtain f json where fl: "seal_file lib nonce ?st = Inr f" "file_to_json lib f = Some json" "disk' = Some json"
    using assms(2) by (auto simp: secret_persist_def split: sum.splits)
  have json: "file_from_json lib json = Some f" using assms(1) fl(2) by (auto simp: lib_faithful_def)
  note opened = open_seal[OF assms(1) fl(1), unfolded key]
  obtain st' where "secret_load (store_specs ?st) (secret_store_new key) = Inr (length (st_secrets ?st), st')"
    "secret_get st' = secret_get ?st" "st_key st' = st_key (secret_store_new key)"
    by (rule load_store_specs[OF ok])
  then have "secret_load_file lib True disk' (secret_store_new key) = Inr (length (st_secrets ?st), st')"
    using opened json fl(3) by (simp add: secret_load_file_def ok_or_def fail_if_def map_err_def secret_store_new_def)
  moreover have "sf_encryption f = ''aes-256-gcm'' \<and> sf_secrets f = None" if "key \<noteq> None"
    using that fl(1) key by (auto simp: seal_file_def split: option.splits prod.splits)
  ultimately show ?thesis
    using \<open>secret_get st' = _\<close> \<open>st_key st' = _\<close> json fl(3) opened
    by (auto simp: secret_load_file_def open_file_def ok_or_def fail_if_def secret_store_new_def)
qed

text \<open>
  A concrete library for the witness: texts are numbered, the cipher prepends the length of the key,
  and base64 is the identity.
\<close>

definition spec_parts :: "secret_spec \<Rightarrow> string \<times> string \<times> string option \<times> (string \<times> string) list \<times> nat" where
  "spec_parts s = (ss_id s, ss_namespace s, ss_description s, ss_data s, ss_updated_at s)"

definition spec_of_parts :: "string \<times> string \<times> string option \<times> (string \<times> string) list \<times> nat \<Rightarrow> secret_spec" where
  "spec_of_parts p = (case p of (i, ns, d, m, t) \<Rightarrow>
     \<lparr>ss_id = i, ss_namespace = ns, ss_description = d, ss_data = m, ss_updated_at = t\<rparr>)"

definition file_parts where
  "file_parts f = (sf_version f, sf_encryption f, map_option (map spec_parts) (sf_secrets f), sf_nonce f, sf_tag f, sf_ciphertext f)"

definition file_of_parts where
  "file_of_parts p = (case p of (v, e, s, n, t, c) \<Rightarrow> \<lparr>sf_version = v, sf_encryption = e,
     sf_secrets = map_option (map spec_of_parts) s, sf_nonce = n, sf_tag = t, sf_ciphertext = c\<rparr>)"

definition numbered_lib :: seal_lib where
  "numbered_lib =
     \<lparr>encrypt_aead = (\<lambda>key nonce aad text. Some (key @ text, nonce @ aad)),
      decrypt_aead = (\<lambda>key nonce aad ciphertext tag.
        if tag = nonce @ aad \<and> take (length key) ciphertext = key then Some (drop (length key) ciphertext) else None),
      b64_encode = (\<lambda>s. s), b64_decode = Some,
      specs_to_json = (\<lambda>specs. Some (replicate (to_nat (map spec_parts specs)) CHR ''x'')),
      specs_from_json = (\<lambda>s. Some (map spec_of_parts (from_nat (length s)))),
      file_to_json = (\<lambda>f. Some (replicate (to_nat (file_parts f)) CHR ''x'')),
      file_from_json = (\<lambda>s. Some (file_of_parts (from_nat (length s))))\<rparr>"

lemma spec_of_parts [simp]: "spec_of_parts (spec_parts s) = s"
  by (simp add: spec_of_parts_def spec_parts_def)

lemma map_spec_of_parts [simp]: "map (spec_of_parts \<circ> spec_parts) specs = specs"
  by (simp add: comp_def)

lemma file_of_parts [simp]: "file_of_parts (file_parts f) = f"
  by (cases "sf_secrets f") (auto simp: file_of_parts_def file_parts_def)

lemma numbered_lib_faithful: "lib_faithful numbered_lib"
  by (auto simp: lib_faithful_def numbered_lib_def)

theorem persist_load_witness:
  "case secret_load_file numbered_lib True
          (snd (secret_persist numbered_lib (Some ''nonce'') True
             (fold run_secret_op [demo_secret ''a'' ''x''] (secret_store_new (Some ''k''))) None))
          (secret_store_new (Some ''k'')) of
     Inl _ \<Rightarrow> False
   | Inr (n, st') \<Rightarrow> secret_get st' = secret_get (fold run_secret_op [demo_secret ''a'' ''x''] (secret_store_new (Some ''k'')))"
proof -
  let ?st = "fold run_secret_op [demo_secret ''a'' ''x''] (secret_store_new (Some ''k''))"
  let ?p = "secret_persist numbered_lib (Some ''nonce'') True ?st None"
  have "seal_file numbered_lib (Some ''nonce'') ?st \<noteq> Inl e" for e
    unfolding seal_file_def run_secret_ops_key by (simp add: numbered_lib_def ok_or_def)
  then obtain f where "seal_file numbered_lib (Some ''nonce'') ?st = Inr f"
    by (cases "seal_file numbered_lib (Some ''nonce'') ?st") auto
  then have "?p = (Inr (), snd ?p)" by (simp add: secret_persist_def ok_or_def fail_if_def numbered_lib_def)
  from persist_load[OF numbered_lib_faithful this] show ?thesis by (auto split: sum.splits)
qed

end
