(* ===== verification/Route_Index.thy ===== *)
theory Route_Index
  imports Prelude
begin

text \<open>
  What the registry relies on of its route index: an index can be built from the declared rules of
  every deployment, changing one deployment gives the index a rebuild would give, and an index only
  names declared deployments. \<open>Route\<close> provides it, \<open>Registry\<close> is the client.
\<close>

section \<open>The interface\<close>

locale route_index =
  fixes empty :: 'idx
    and build :: "(string \<times> 'rules) list \<Rightarrow> 'idx"
    and updated :: "'idx \<Rightarrow> string \<Rightarrow> 'rules option \<Rightarrow> 'rules option \<Rightarrow> 'idx"
    and resolve :: "'idx \<Rightarrow> 'host \<Rightarrow> 'path \<Rightarrow> string option"
  assumes empty_build: "empty = build []"
    and updated_build: "distinct (map fst ds) \<Longrightarrow> distinct (map fst ds') \<Longrightarrow> map_of ds' = (map_of ds)(i := nx) \<Longrightarrow>
      updated (build ds) i (map_of ds i) nx = build ds'"
    and resolve_declared: "resolve (build ds) h p = Some i \<Longrightarrow> i \<in> fst ` set ds"
begin

lemma updated_put:
  "distinct (map fst ds) \<Longrightarrow> updated (build ds) i (map_of ds i) nx = build (put i nx ds)"
  by (rule updated_build) auto

lemma changes_build:
  "distinct (map fst ds) \<Longrightarrow>
     fold (\<lambda>(i, nx) (idx, m). (updated idx i (map_of m i) nx, put i nx m)) cs (build ds, ds) =
       (build (fold (\<lambda>(i, nx). put i nx) cs ds), fold (\<lambda>(i, nx). put i nx) cs ds)"
  by (induction cs arbitrary: ds) (auto simp: updated_put)

lemma removed_unresolved:
  assumes "distinct (map fst ds)"
  shows "resolve (updated (build ds) i (map_of ds i) None) h p \<noteq> Some i"
proof
  assume "resolve (updated (build ds) i (map_of ds i) None) h p = Some i"
  then have "i \<in> fst ` set (put i None ds)" using assms by (auto simp: updated_put dest: resolve_declared)
  then show False by (auto simp: set_put[OF assms])
qed

end

end
