(* ===== verification/Route.thy ===== *)
theory Route
  imports Rust_Str Route_Index
begin

text \<open>
  Request routing of the load balancer: the rule of \<open>app-lb/src/config.rs\<close> and the two-part index of
  \<open>app-lb/src/registry.rs\<close>. The theory shows that the incrementally updated index is the one a full
  rebuild gives, whatever order the hash map is iterated in, and that resolving against the index is
  taking the most specific matching rule of the whole fleet.
\<close>

section \<open>Rules\<close>

record route_rule =
  rr_host :: "string option"
  rr_host_suffix :: "string option"
  rr_path_prefix :: "string option"
  rr_strip_prefix :: bool

definition rule_is_empty :: "route_rule \<Rightarrow> bool" where
  "rule_is_empty r \<longleftrightarrow> rr_host r = None \<and> rr_host_suffix r = None \<and> rr_path_prefix r = None"

definition specificity :: "route_rule \<Rightarrow> nat" where
  "specificity r =
     (if rr_host r \<noteq> None then 1000000 else 0)
     + (case rr_host_suffix r of Some s \<Rightarrow> 100000 + length (trim_start_matches ''.'' s) | None \<Rightarrow> 0)
     + (case rr_path_prefix r of Some p \<Rightarrow> length p | None \<Rightarrow> 0)"

text \<open>
  The last comparison slices the host at a byte index; the byte before it is a dot, so the index is
  a character boundary and the slice cannot panic.
\<close>

definition host_in_domain :: "string \<Rightarrow> string \<Rightarrow> bool" where
  "host_in_domain host sfx0 =
     (let sfx = trim_start_matches ''.'' sfx0 in
      if sfx = [] then False
      else if eq_ignore_ascii_case host sfx then True
      else length host > length sfx \<and>
           host ! (length host - length sfx - 1) = CHR ''.'' \<and>
           eq_ignore_ascii_case (drop (length host - length sfx) host) sfx)"

definition rule_matches :: "route_rule \<Rightarrow> string option \<Rightarrow> string \<Rightarrow> bool" where
  "rule_matches r host path =
     (if rule_is_empty r then False
      else (case rr_host r of
              None \<Rightarrow> True
            | Some want \<Rightarrow> (case host of Some got \<Rightarrow> eq_ignore_ascii_case got want | None \<Rightarrow> False)) \<and>
           (case rr_host_suffix r of
              None \<Rightarrow> True
            | Some sfx \<Rightarrow> (case host of Some got \<Rightarrow> host_in_domain got sfx | None \<Rightarrow> False)) \<and>
           (case rr_path_prefix r of None \<Rightarrow> True | Some p \<Rightarrow> prefix p path))"

section \<open>The index\<close>

type_synonym route_entry = "route_rule \<times> string"
type_synonym declared = "(string \<times> route_rule list) list"

record route_table =
  rt_exact :: "string \<rightharpoonup> route_entry list"
  rt_rest :: "route_entry list"

text \<open>
  \<open>by_specificity\<close> compares the specificities in reverse and then the ids. As a sort key: the
  negated specificity, then the id; the sort is stable in both.
\<close>

definition by_specificity :: "route_entry \<Rightarrow> int \<times> string" where
  "by_specificity e = (case e of (r, i) \<Rightarrow> (- int (specificity r), i))"

definition host_key :: "route_rule \<Rightarrow> string option" where
  "host_key r = map_option to_ascii_lowercase (rr_host r)"

definition route_table_default :: route_table where
  "route_table_default = \<lparr>rt_exact = Map.empty, rt_rest = []\<rparr>"

definition push_entry :: "string \<Rightarrow> route_rule \<Rightarrow> route_table \<Rightarrow> route_table" where
  "push_entry i rule t =
     (case host_key rule of
        Some h \<Rightarrow>
          t\<lparr>rt_exact := (rt_exact t)(h \<mapsto>
             (case rt_exact t h of Some b \<Rightarrow> b | None \<Rightarrow> []) @ [(rule, i)])\<rparr>
      | None \<Rightarrow> t\<lparr>rt_rest := rt_rest t @ [(rule, i)]\<rparr>)"

definition push_deployment :: "string \<times> route_rule list \<Rightarrow> route_table \<Rightarrow> route_table" where
  "push_deployment d t = (case d of (i, rules) \<Rightarrow> fold (push_entry i) rules t)"

text \<open>\<open>build\<close> receives the deployments in the order the hash map yields them.\<close>

definition route_build :: "declared \<Rightarrow> route_table" where
  "route_build ds =
     (let t = fold push_deployment ds route_table_default in
      \<lparr>rt_exact = (\<lambda>h. map_option (sort_key by_specificity) (rt_exact t h)),
       rt_rest = sort_key by_specificity (rt_rest t)\<rparr>)"

definition declared_rules :: "route_rule list option \<Rightarrow> route_rule list option \<Rightarrow> route_rule list" where
  "declared_rules previous next_rules =
     (case previous of Some rs \<Rightarrow> rs | None \<Rightarrow> []) @ (case next_rules of Some rs \<Rightarrow> rs | None \<Rightarrow> [])"

definition update_bucket :: "string \<Rightarrow> route_rule list option \<Rightarrow> string \<Rightarrow>
    (string \<rightharpoonup> route_entry list) \<Rightarrow> (string \<rightharpoonup> route_entry list)" where
  "update_bucket i next_rules host exact =
     (let kept = (case exact host of Some b \<Rightarrow> filter (\<lambda>(_, j). j \<noteq> i) b | None \<Rightarrow> []);
          added = (case next_rules of
                     Some rules \<Rightarrow> map (\<lambda>r. (r, i)) (filter (\<lambda>r. host_key r = Some host) rules)
                   | None \<Rightarrow> []);
          bucket = kept @ added
      in if bucket = [] then exact(host := None)
         else exact(host \<mapsto> sort_key by_specificity bucket))"

definition route_updated :: "route_table \<Rightarrow> string \<Rightarrow> route_rule list option \<Rightarrow> route_rule list option \<Rightarrow> route_table" where
  "route_updated t i previous next_rules =
     (let rules = declared_rules previous next_rules;
          touched = remdups (List.map_filter host_key rules);
          touches_rest = list_ex (\<lambda>r. host_key r = None) rules
      in if touched = [] \<and> \<not> touches_rest then t
         else \<lparr>rt_exact = fold (update_bucket i next_rules) touched (rt_exact t),
               rt_rest =
                 (if touches_rest then
                    sort_key by_specificity
                      (filter (\<lambda>(_, j). j \<noteq> i) (rt_rest t)
                       @ (case next_rules of
                            Some rs \<Rightarrow> map (\<lambda>r. (r, i)) (filter (\<lambda>r. rr_host r = None) rs)
                          | None \<Rightarrow> []))
                  else rt_rest t)\<rparr>)"

definition first_match :: "route_entry list \<Rightarrow> string option \<Rightarrow> string \<Rightarrow> string option" where
  "first_match es host path = map_option snd (find (\<lambda>(r, _). rule_matches r host path) es)"

definition resolve :: "route_table \<Rightarrow> string option \<Rightarrow> string \<Rightarrow> string option" where
  "resolve t host path =
     (case (case host of
              None \<Rightarrow> None
            | Some h \<Rightarrow> (case rt_exact t (to_ascii_lowercase h) of
                           None \<Rightarrow> None
                         | Some bucket \<Rightarrow> first_match bucket host path)) of
        Some i \<Rightarrow> Some i
      | None \<Rightarrow> first_match (rt_rest t) host path)"

section \<open>The index as sorted selections of all entries\<close>

definition all_entries :: "declared \<Rightarrow> route_entry list" where
  "all_entries ds = concat (map (\<lambda>(i, rs). map (\<lambda>r. (r, i)) rs) ds)"

definition keyed :: "string option \<Rightarrow> route_entry list \<Rightarrow> route_entry list" where
  "keyed k es = filter (\<lambda>(r, _). host_key r = k) es"

definition bucket_of :: "route_entry list \<Rightarrow> route_entry list option" where
  "bucket_of es = (if es = [] then None else Some (sort_key by_specificity es))"

lemma host_key_None: "host_key r = None \<longleftrightarrow> rr_host r = None"
  by (simp add: host_key_def)

lemma keyed_simps [simp]:
  "keyed k [] = []" "keyed k ((r, i) # es) = (if host_key r = k then (r, i) # keyed k es else keyed k es)"
  by (simp_all add: keyed_def)

lemma push_entries:
  "fold (push_entry i) rs t =
     \<lparr>rt_exact = (\<lambda>h. let new = keyed (Some h) (map (\<lambda>r. (r, i)) rs) in
        if new = [] then rt_exact t h
        else Some ((case rt_exact t h of Some b \<Rightarrow> b | None \<Rightarrow> []) @ new)),
      rt_rest = rt_rest t @ keyed None (map (\<lambda>r. (r, i)) rs)\<rparr>"
proof (induction rs arbitrary: t)
  case Nil
  then show ?case by simp
next
  case (Cons r rs)
  show ?case
    unfolding fold_Cons comp_def Cons
    by (cases "host_key r") (auto simp: push_entry_def[of i r] Let_def fun_eq_iff split: option.splits)
qed

lemma keyed_append: "keyed k (xs @ ys) = keyed k xs @ keyed k ys"
  by (simp add: keyed_def)

lemma push_deployments:
  "fold push_deployment ds t =
     \<lparr>rt_exact = (\<lambda>h. let new = keyed (Some h) (all_entries ds) in
        if new = [] then rt_exact t h
        else Some ((case rt_exact t h of Some b \<Rightarrow> b | None \<Rightarrow> []) @ new)),
      rt_rest = rt_rest t @ keyed None (all_entries ds)\<rparr>"
proof (induction ds arbitrary: t)
  case Nil
  then show ?case by (simp add: keyed_def all_entries_def)
next
  case (Cons d ds)
  obtain i rs where d: "d = (i, rs)" by force
  have all: "all_entries (d # ds) = map (\<lambda>r. (r, i)) rs @ all_entries ds"
    by (simp add: all_entries_def d)
  show ?case
    unfolding fold_Cons comp_def Cons all keyed_append
    by (auto simp: push_deployment_def d push_entries Let_def fun_eq_iff split: option.splits)
qed

lemma route_build_eq:
  "route_build ds =
     \<lparr>rt_exact = (\<lambda>h. bucket_of (keyed (Some h) (all_entries ds))),
      rt_rest = sort_key by_specificity (keyed None (all_entries ds))\<rparr>"
  by (auto simp: route_build_def push_deployments route_table_default_def bucket_of_def Let_def fun_eq_iff)

lemma fold_update_bucket:
  "distinct hs \<Longrightarrow> fold (update_bucket i nx) hs m h = (if h \<in> set hs then update_bucket i nx h m h else m h)"
proof (induction hs arbitrary: m)
  case Nil
  then show ?case by simp
next
  case (Cons a hs)
  have other: "h \<noteq> a \<Longrightarrow> update_bucket i nx a m h = m h" by (simp add: update_bucket_def Let_def)
  have same: "h \<noteq> a \<Longrightarrow> update_bucket i nx h (update_bucket i nx a m) h = update_bucket i nx h m h"
    using other by (simp add: update_bucket_def[of i nx h] Let_def)
  show ?case using Cons other same by auto
qed

section \<open>Incremental updates equal a rebuild\<close>

text \<open>The entries with one sort key all come from one deployment, in the order it declares them.\<close>

lemma entries_of_key:
  assumes "distinct (map fst ds)"
  shows "filter (\<lambda>e. by_specificity e = (s, i)) (keyed k (all_entries ds)) =
    (case map_of ds i of
       None \<Rightarrow> []
     | Some rs \<Rightarrow> filter (\<lambda>e. by_specificity e = (s, i)) (keyed k (map (\<lambda>r. (r, i)) rs)))"
  using assms
proof (induction ds)
  case Nil
  then show ?case by (simp add: all_entries_def keyed_def)
next
  case (Cons d ds)
  obtain j rs where d: "d = (j, rs)" by force
  have all: "all_entries (d # ds) = map (\<lambda>r. (r, j)) rs @ all_entries ds"
    by (simp add: all_entries_def d)
  have IH: "filter (\<lambda>e. by_specificity e = (s, i)) (keyed k (all_entries ds)) =
      (case map_of ds i of None \<Rightarrow> []
       | Some rs \<Rightarrow> filter (\<lambda>e. by_specificity e = (s, i)) (keyed k (map (\<lambda>r. (r, i)) rs)))"
    using Cons by simp
  show ?case
  proof (cases "j = i")
    case True
    then have "map_of ds i = None" using Cons.prems d by (auto simp: map_of_eq_None_iff)
    with True IH show ?thesis unfolding all by (simp add: keyed_append d)
  next
    case False
    then have "filter (\<lambda>e. by_specificity e = (s, i)) (keyed k (map (\<lambda>r. (r, j)) rs)) = []"
      by (auto simp: keyed_def by_specificity_def filter_empty_conv)
    with False IH show ?thesis unfolding all by (simp add: keyed_append d)
  qed
qed

lemma filter_key_id: "filter (\<lambda>e. by_specificity e = (s, i)) (filter (\<lambda>(_, j). j \<noteq> i') es) =
    (if i = i' then [] else filter (\<lambda>e. by_specificity e = (s, i)) es)"
  by (induction es) (auto simp: by_specificity_def)

lemma filter_key_sort: "filter (\<lambda>e. by_specificity e = k) (sort_key by_specificity es) = filter (\<lambda>e. by_specificity e = k) es"
  by (rule sort_key_stable)

lemma route_build_cong:
  assumes "distinct (map fst ds)" "distinct (map fst ds')" "map_of ds = map_of ds'"
  shows "route_build ds = route_build ds'"
proof -
  have parts: "filter (\<lambda>e. by_specificity e = k') (keyed k (all_entries ds)) =
      filter (\<lambda>e. by_specificity e = k') (keyed k (all_entries ds'))" for k k'
    using entries_of_key[OF assms(1)] entries_of_key[OF assms(2)] assms(3) by (cases k') simp
  have "mset (keyed k (all_entries ds)) = mset (keyed k (all_entries ds'))" for k
    by (rule mset_filter_parts[OF parts])
  then have "keyed k (all_entries ds) = [] \<longleftrightarrow> keyed k (all_entries ds') = []" for k
    by (metis mset_zero_iff)
  moreover have "sort_key by_specificity (keyed k (all_entries ds)) =
      sort_key by_specificity (keyed k (all_entries ds'))" for k
    by (rule sort_key_by_parts[OF parts])
  ultimately show ?thesis unfolding route_build_eq bucket_of_def by presburger
qed

definition new_entries :: "string \<Rightarrow> string option \<Rightarrow> route_rule list option \<Rightarrow> route_entry list" where
  "new_entries i k nx = (case nx of Some rs \<Rightarrow> keyed k (map (\<lambda>r. (r, i)) rs) | None \<Rightarrow> [])"

text \<open>Replacing one deployment's entries in a sorted selection gives the sorted new selection.\<close>

lemma replace_parts:
  assumes d: "distinct (map fst ds)" and d': "distinct (map fst ds')"
    and m: "map_of ds' = (map_of ds)(i := nx)"
  shows "filter (\<lambda>e. by_specificity e = k')
      (filter (\<lambda>(_, j). j \<noteq> i) (sort_key by_specificity (keyed k (all_entries ds))) @ new_entries i k nx)
    = filter (\<lambda>e. by_specificity e = k') (keyed k (all_entries ds'))"
proof -
  obtain s j where k': "k' = (s, j)" by force
  have new: "filter (\<lambda>e. by_specificity e = (s, j)) (new_entries i k nx) = []" if "j \<noteq> i"
    using that by (auto simp: new_entries_def keyed_def by_specificity_def filter_empty_conv split: option.splits)
  show ?thesis
    unfolding k' filter_append filter_key_id filter_key_sort entries_of_key[OF d] entries_of_key[OF d'] m
    using new by (auto simp: new_entries_def split: option.splits)
qed

lemma replace_bucket:
  assumes "distinct (map fst ds)" "distinct (map fst ds')" "map_of ds' = (map_of ds)(i := nx)"
  shows "bucket_of (filter (\<lambda>(_, j). j \<noteq> i) (sort_key by_specificity (keyed k (all_entries ds))) @ new_entries i k nx)
    = bucket_of (keyed k (all_entries ds'))"
    and "sort_key by_specificity (filter (\<lambda>(_, j). j \<noteq> i) (sort_key by_specificity (keyed k (all_entries ds))) @ new_entries i k nx)
    = sort_key by_specificity (keyed k (all_entries ds'))"
proof -
  let ?l = "filter (\<lambda>(_, j). j \<noteq> i) (sort_key by_specificity (keyed k (all_entries ds))) @ new_entries i k nx"
  note parts = replace_parts[OF assms]
  have "mset ?l = mset (keyed k (all_entries ds'))" by (rule mset_filter_parts[OF parts])
  then have "?l = [] \<longleftrightarrow> keyed k (all_entries ds') = []" by (metis mset_zero_iff)
  moreover show *: "sort_key by_specificity ?l = sort_key by_specificity (keyed k (all_entries ds'))"
    by (rule sort_key_by_parts[OF parts])
  ultimately show "bucket_of ?l = bucket_of (keyed k (all_entries ds'))" by (simp add: bucket_of_def)
qed

text \<open>A key that the deployment named neither before nor now keeps its selection.\<close>

lemma untouched_keyed:
  assumes d: "distinct (map fst ds)" "distinct (map fst ds')" "map_of ds' = (map_of ds)(i := nx)"
    and un: "list_all (\<lambda>r. host_key r \<noteq> k) (declared_rules (map_of ds i) nx)"
  shows "bucket_of (keyed k (all_entries ds)) = bucket_of (keyed k (all_entries ds'))"
    and "sort_key by_specificity (keyed k (all_entries ds)) = sort_key by_specificity (keyed k (all_entries ds'))"
proof -
  have none: "keyed k (map (\<lambda>r. (r, i)) rs) = []" if "list_all (\<lambda>r. host_key r \<noteq> k) rs" for rs
    using that by (auto simp: keyed_def filter_empty_conv list_all_iff)
  have parts: "filter (\<lambda>e. by_specificity e = k') (keyed k (all_entries ds)) =
      filter (\<lambda>e. by_specificity e = k') (keyed k (all_entries ds'))" for k'
  proof -
    obtain s j where k': "k' = (s, j)" by force
    show ?thesis unfolding k' entries_of_key[OF d(1)] entries_of_key[OF d(2)] d(3)
      using un none by (auto simp: declared_rules_def split: option.splits)
  qed
  have "mset (keyed k (all_entries ds)) = mset (keyed k (all_entries ds'))"
    by (rule mset_filter_parts[OF parts])
  then have "keyed k (all_entries ds) = [] \<longleftrightarrow> keyed k (all_entries ds') = []"
    by (metis mset_zero_iff)
  moreover show *: "sort_key by_specificity (keyed k (all_entries ds)) =
      sort_key by_specificity (keyed k (all_entries ds'))" by (rule sort_key_by_parts[OF parts])
  ultimately show "bucket_of (keyed k (all_entries ds)) = bucket_of (keyed k (all_entries ds'))"
    by (simp add: bucket_of_def)
qed

lemma keyed_filter: "keyed k (map (\<lambda>r. (r, i)) rs) = map (\<lambda>r. (r, i)) (filter (\<lambda>r. host_key r = k) rs)"
  by (induction rs) auto

lemma update_bucket_at:
  "update_bucket i nx h m h =
     bucket_of ((case m h of Some b \<Rightarrow> filter (\<lambda>(_, j). j \<noteq> i) b | None \<Rightarrow> []) @ new_entries i (Some h) nx)"
  by (simp add: update_bucket_def bucket_of_def new_entries_def keyed_filter Let_def split: option.splits)

lemma bucket_contents:
  "(case bucket_of es of Some b \<Rightarrow> filter P b | None \<Rightarrow> []) = filter P (sort_key by_specificity es)"
  by (auto simp: bucket_of_def)

lemma route_updated_build:
  assumes d: "distinct (map fst ds)" "distinct (map fst ds')" "map_of ds' = (map_of ds)(i := nx)"
  shows "route_updated (route_build ds) i (map_of ds i) nx = route_build ds'"
proof -
  let ?rules = "declared_rules (map_of ds i) nx" and ?t = "route_build ds"
  let ?touched = "remdups (List.map_filter host_key ?rules)"
  let ?rest = "list_ex (\<lambda>r. host_key r = None) ?rules"
  have touched: "h \<in> set ?touched \<longleftrightarrow> \<not> list_all (\<lambda>r. host_key r \<noteq> Some h) ?rules" for h
    by (force simp: List.map_filter_def list_all_iff)
  have exact: "fold (update_bucket i nx) ?touched (rt_exact ?t) h = rt_exact (route_build ds') h" for h
  proof (cases "h \<in> set ?touched")
    case True
    then show ?thesis
      unfolding fold_update_bucket[OF distinct_remdups] update_bucket_at
      by (simp add: route_build_eq bucket_contents replace_bucket(1)[OF d] del: set_remdups)
  next
    case False
    then have "list_all (\<lambda>r. host_key r \<noteq> Some h) ?rules" using touched by blast
    from untouched_keyed(1)[OF d this] False show ?thesis
      unfolding fold_update_bucket[OF distinct_remdups] by (simp add: route_build_eq)
  qed
  have rest: "(if ?rest then sort_key by_specificity
        (filter (\<lambda>(_, j). j \<noteq> i) (rt_rest ?t)
         @ (case nx of Some rs \<Rightarrow> map (\<lambda>r. (r, i)) (filter (\<lambda>r. rr_host r = None) rs) | None \<Rightarrow> []))
      else rt_rest ?t) = rt_rest (route_build ds')"
  proof (cases ?rest)
    case True
    have "(case nx of Some rs \<Rightarrow> map (\<lambda>r. (r, i)) (filter (\<lambda>r. rr_host r = None) rs) | None \<Rightarrow> []) =
        new_entries i None nx"
      by (simp add: new_entries_def keyed_filter host_key_None split: option.splits)
    with True replace_bucket(2)[OF d, of None] show ?thesis by (simp add: route_build_eq)
  next
    case False
    then have "list_all (\<lambda>r. host_key r \<noteq> None) ?rules" by (auto simp: list_all_iff list_ex_iff)
    from untouched_keyed(2)[OF d this] False show ?thesis by (simp add: route_build_eq)
  qed
  show ?thesis
  proof (cases "?touched = [] \<and> \<not> ?rest")
    case True
    then have "rt_exact ?t = rt_exact (route_build ds')" "rt_rest ?t = rt_rest (route_build ds')"
      using exact rest by (auto simp: fun_eq_iff)
    with True show ?thesis unfolding route_updated_def Let_def by simp
  next
    case False
    then show ?thesis
      unfolding route_updated_def Let_def using exact rest by (auto simp: fun_eq_iff)
  qed
qed

section \<open>Resolving is taking the most specific matching rule\<close>

definition flat_resolve :: "declared \<Rightarrow> string option \<Rightarrow> string \<Rightarrow> string option" where
  "flat_resolve ds host path = first_match (sort_key by_specificity (all_entries ds)) host path"

text \<open>The tiers stay apart: no rule without an exact host scores like one with it.\<close>

definition tiers_apart :: "declared \<Rightarrow> bool" where
  "tiers_apart ds \<longleftrightarrow>
     list_all (\<lambda>(_, rs). list_all (\<lambda>r. rr_host r = None \<longrightarrow> specificity r < 1000000) rs) ds"

lemma sort_key_partition:
  assumes "\<And>x y. x \<in> set xs \<Longrightarrow> y \<in> set xs \<Longrightarrow> Q x \<Longrightarrow> \<not> Q y \<Longrightarrow> f x < f y"
  shows "sort_key f xs = sort_key f (filter Q xs) @ sort_key f (filter (\<lambda>x. \<not> Q x) xs)"
proof (rule properties_for_sort_key)
  show "mset (sort_key f (filter Q xs) @ sort_key f (filter (\<lambda>x. \<not> Q x) xs)) = mset xs"
    by (simp add: mset_filter)
  show "sorted (map f (sort_key f (filter Q xs) @ sort_key f (filter (\<lambda>x. \<not> Q x) xs)))"
    using assms by (auto simp: sorted_append less_imp_le)
next
  fix k assume "k \<in> set (sort_key f (filter Q xs) @ sort_key f (filter (\<lambda>x. \<not> Q x) xs))"
  then have k: "k \<in> set xs" by auto
  have st: "filter (\<lambda>x. f k = f x) (sort_key f ys) = filter (\<lambda>x. f k = f x) ys" for ys
    using sort_key_stable[of f "f k" ys] by (simp add: eq_commute)
  have "filter (\<lambda>x. f k = f x \<and> Q x) xs @ filter (\<lambda>x. f k = f x \<and> \<not> Q x) xs = filter (\<lambda>x. f k = f x) xs"
  proof (cases "Q k")
    case True
    then have "filter (\<lambda>x. f k = f x \<and> \<not> Q x) xs = []" "filter (\<lambda>x. f k = f x \<and> Q x) xs = filter (\<lambda>x. f k = f x) xs"
      using assms[OF k] by (fastforce simp: filter_empty_conv intro!: filter_cong)+
    then show ?thesis by simp
  next
    case False
    then have "filter (\<lambda>x. f k = f x \<and> Q x) xs = []" "filter (\<lambda>x. f k = f x \<and> \<not> Q x) xs = filter (\<lambda>x. f k = f x) xs"
      using assms[OF _ k] by (fastforce simp: filter_empty_conv intro!: filter_cong)+
    then show ?thesis by simp
  qed
  then show "filter (\<lambda>x. f k = f x) (sort_key f (filter Q xs) @ sort_key f (filter (\<lambda>x. \<not> Q x) xs)) =
      filter (\<lambda>x. f k = f x) xs"
    by (simp add: st conj_commute)
qed

lemma find_filter: "find P xs = (case filter P xs of [] \<Rightarrow> None | x # _ \<Rightarrow> Some x)"
  by (induction xs) auto

lemma find_filter_superset: "(\<And>x. x \<in> set xs \<Longrightarrow> P x \<Longrightarrow> Q x) \<Longrightarrow> find P (filter Q xs) = find P xs"
  by (induction xs) auto

lemma exact_first:
  assumes "tiers_apart ds" "e \<in> set (all_entries ds)" "e' \<in> set (all_entries ds)"
    "rr_host (fst e) \<noteq> None" "rr_host (fst e') = None"
  shows "by_specificity e < by_specificity e'"
proof -
  have "specificity (fst e') < 1000000"
    using assms(1,3,5) by (fastforce simp: tiers_apart_def all_entries_def list_all_iff)
  moreover have "1000000 \<le> specificity (fst e)" using assms(4) by (simp add: specificity_def)
  ultimately show ?thesis by (auto simp: by_specificity_def less_prod_def split: prod.splits)
qed

lemma matches_host_key:
  "rule_matches r (Some h) path \<Longrightarrow> rr_host r \<noteq> None \<Longrightarrow> host_key r = Some (to_ascii_lowercase h)"
  by (auto simp: rule_matches_def host_key_def eq_ignore_ascii_case_def split: if_splits option.splits)

lemma matches_no_host: "rule_matches r None path \<Longrightarrow> rr_host r = None"
  by (auto simp: rule_matches_def split: if_splits option.splits)

lemma resolve_build:
  assumes "tiers_apart ds"
  shows "resolve (route_build ds) host path = flat_resolve ds host path"
proof -
  let ?m = "\<lambda>(r, _ :: string). rule_matches r host path"
  let ?all = "all_entries ds" and ?sort = "sort_key by_specificity :: route_entry list \<Rightarrow> _"
  let ?ex = "\<lambda>e :: route_entry. rr_host (fst e) \<noteq> None"
  have part: "?sort ?all = ?sort (filter ?ex ?all) @ ?sort (filter (\<lambda>e. \<not> ?ex e) ?all)"
    by (rule sort_key_partition) (use exact_first[OF assms] in blast)
  have rest: "filter (\<lambda>e. \<not> ?ex e) ?all = keyed None ?all"
    by (auto simp: keyed_def host_key_None intro!: filter_cong)
  have flat: "find ?m (?sort ?all) = (case find ?m (?sort (filter ?ex ?all)) of
      Some e \<Rightarrow> Some e | None \<Rightarrow> find ?m (?sort (keyed None ?all)))"
    unfolding part rest find_append ..
  have ex: "find ?m (?sort (filter ?ex ?all)) = (case host of None \<Rightarrow> None
      | Some h \<Rightarrow> find ?m (?sort (keyed (Some (to_ascii_lowercase h)) ?all)))"
  proof (cases host)
    case None
    then show ?thesis using matches_no_host by (fastforce simp: find_None_iff)
  next
    case (Some h)
    have sub: "keyed (Some (to_ascii_lowercase h)) ?all =
        filter (\<lambda>(r, _). host_key r = Some (to_ascii_lowercase h)) (filter ?ex ?all)"
      by (auto simp: keyed_def host_key_def intro!: filter_cong)
    have "find ?m (?sort (keyed (Some (to_ascii_lowercase h)) ?all)) = find ?m (?sort (filter ?ex ?all))"
      unfolding sub filter_sort[symmetric]
      by (rule find_filter_superset) (use Some matches_host_key in auto)
    with Some show ?thesis by simp
  qed
  have bucket: "(case bucket_of es of None \<Rightarrow> None | Some b \<Rightarrow> first_match b host path) =
      map_option snd (find ?m (?sort es))" for es
    by (simp add: bucket_of_def first_match_def)
  show ?thesis
  proof (cases host)
    case None
    then show ?thesis
      unfolding flat_resolve_def first_match_def[of "?sort ?all"] flat ex
      by (simp add: resolve_def route_build_eq first_match_def)
  next
    case (Some h)
    let ?f = "find ?m (?sort (keyed (Some (to_ascii_lowercase h)) ?all))"
    have "resolve (route_build ds) host path =
        (case map_option snd ?f of Some i \<Rightarrow> Some i | None \<Rightarrow> first_match (?sort (keyed None ?all)) host path)"
      by (simp only: resolve_def route_build_eq route_table.simps Some option.case bucket[unfolded Some])
    then show ?thesis
      unfolding flat_resolve_def first_match_def[of "?sort ?all"] flat ex
      by (cases ?f) (simp_all add: Some first_match_def)
  qed
qed

lemma flat_resolve_best:
  assumes "flat_resolve ds host path = Some i"
  shows "\<exists>r. (r, i) \<in> set (all_entries ds) \<and> rule_matches r host path \<and>
    (\<forall>(r', i') \<in> set (all_entries ds). rule_matches r' host path \<longrightarrow> specificity r' \<le> specificity r)"
proof -
  from assms obtain e where e: "find (\<lambda>(r, _). rule_matches r host path) (sort_key by_specificity (all_entries ds)) = Some e"
    "snd e = i" by (auto simp: flat_resolve_def first_match_def)
  obtain r where r: "e = (r, i)" using e(2) by (cases e) auto
  from find_sort_key_first[OF e(1)] r have "(r, i) \<in> set (all_entries ds)" "rule_matches r host path"
    and le: "\<forall>y \<in> set (all_entries ds). (case y of (r, _) \<Rightarrow> rule_matches r host path) \<longrightarrow> by_specificity (r, i) \<le> by_specificity y"
    by auto
  moreover have "specificity r' \<le> specificity r"
    if "(r', i') \<in> set (all_entries ds)" "rule_matches r' host path" for r' i'
    using le that by (fastforce simp: by_specificity_def less_eq_prod_def)
  ultimately show ?thesis by blast
qed

section \<open>Domains match at label boundaries\<close>

definition labels :: "string \<Rightarrow> string list" where
  "labels h = split_on CHR ''.'' (to_ascii_lowercase h)"

lemma split_on_at: "split_on d (a @ d # b) = split_on d a @ split_on d b"
  by (induction a) (auto split: list.splits)

lemma join_split_on: "join [d] (split_on d s) = s"
proof (induction s)
  case (Cons c s)
  obtain w ws where "split_on d s = w # ws" using split_on_nonempty[of d s] list.exhaust by blast
  with Cons show ?case by (cases ws) auto
qed simp

lemma join_append: "xs \<noteq> [] \<Longrightarrow> ys \<noteq> [] \<Longrightarrow> join sep (xs @ ys) = join sep xs @ sep @ join sep ys"
proof (induction sep xs rule: join.induct)
  case (2 sep w)
  then show ?case by (cases ys) auto
qed auto

lemma lower_dot: "ascii_lower c = CHR ''.'' \<longleftrightarrow> c = CHR ''.''"
proof
  assume e: "ascii_lower c = CHR ''.''"
  then have "byte (ascii_lower c) = 46" by (simp add: byte_def)
  then have "\<not> is_ascii_upper c" by (auto simp: byte_ascii_lower is_ascii_upper_def)
  with e show "c = CHR ''.''" by (simp add: ascii_lower_def)
qed (simp add: ascii_defs)

lemma suffix_labels_iff:
  "suffix (labels s) (labels h) \<longleftrightarrow>
     to_ascii_lowercase h = to_ascii_lowercase s \<or>
     (\<exists>p. to_ascii_lowercase h = p @ CHR ''.'' # to_ascii_lowercase s)"
proof
  assume "suffix (labels s) (labels h)"
  then obtain ls where ls: "labels h = ls @ labels s" by (auto simp: suffix_def)
  have h: "to_ascii_lowercase h = join ''.'' (labels h)" by (simp add: labels_def join_split_on)
  have s: "to_ascii_lowercase s = join ''.'' (labels s)" by (simp add: labels_def join_split_on)
  show "to_ascii_lowercase h = to_ascii_lowercase s \<or> (\<exists>p. to_ascii_lowercase h = p @ CHR ''.'' # to_ascii_lowercase s)"
  proof (cases "ls = []")
    case True
    with ls h s show ?thesis by simp
  next
    case False
    then have "to_ascii_lowercase h = join ''.'' ls @ ''.'' @ to_ascii_lowercase s"
      unfolding h ls s by (rule join_append) (simp add: labels_def)
    then show ?thesis by auto
  qed
next
  assume "to_ascii_lowercase h = to_ascii_lowercase s \<or> (\<exists>p. to_ascii_lowercase h = p @ CHR ''.'' # to_ascii_lowercase s)"
  then show "suffix (labels s) (labels h)"
    by (auto simp: labels_def split_on_at suffix_def)
qed

lemma host_in_domain_labels:
  "host_in_domain h s \<longleftrightarrow>
     trim_start_matches ''.'' s \<noteq> [] \<and> suffix (labels (trim_start_matches ''.'' s)) (labels h)"
proof -
  let ?s = "trim_start_matches ''.'' s" and ?low = to_ascii_lowercase
  have "(length h > length ?s \<and> h ! (length h - length ?s - 1) = CHR ''.'' \<and>
        eq_ignore_ascii_case (drop (length h - length ?s) h) ?s)
      \<longleftrightarrow> (\<exists>p. ?low h = p @ CHR ''.'' # ?low ?s)" (is "?l \<longleftrightarrow> ?r")
  proof
    assume l: ?l
    let ?n = "length h - length ?s - 1"
    have n: "?n < length h" "Suc ?n = length h - length ?s" using l by linarith+
    have "h = take ?n h @ h ! ?n # drop (Suc ?n) h" using n(1) by (rule id_take_nth_drop)
    then have "?low h = ?low (take ?n h) @ ascii_lower (h ! ?n) # ?low (drop (Suc ?n) h)"
      by (metis to_ascii_lowercase_def list.simps(9) map_append)
    moreover have "?low (drop (Suc ?n) h) = ?low ?s" using l n(2) by (simp add: eq_ignore_ascii_case_def)
    moreover have "ascii_lower (h ! ?n) = CHR ''.''" using l by (simp add: lower_dot)
    ultimately show ?r by metis
  next
    assume ?r
    then obtain p where p: "?low h = p @ CHR ''.'' # ?low ?s" by blast
    have len: "length h = length p + 1 + length ?s" using arg_cong[OF p, of length] by simp
    have "?low h ! length p = CHR ''.''" using p by simp
    then have dot: "h ! length p = CHR ''.''" using len by (simp add: to_ascii_lowercase_def lower_dot)
    have "drop (Suc (length p)) (?low h) = ?low ?s" using p by simp
    then have "?low (drop (Suc (length p)) h) = ?low ?s" by (simp add: to_ascii_lowercase_def drop_map)
    with len dot show ?l by (simp add: eq_ignore_ascii_case_def)
  qed
  then show ?thesis
    unfolding host_in_domain_def Let_def suffix_labels_iff by (simp add: eq_ignore_ascii_case_def)
qed

lemma flat_resolve_None:
  "flat_resolve ds host path = None \<longleftrightarrow> (\<forall>(r, i) \<in> set (all_entries ds). \<not> rule_matches r host path)"
  by (auto simp: flat_resolve_def first_match_def find_None_iff)

section \<open>The index the registry relies on\<close>

lemma entries_declared: "(r, i) \<in> set (all_entries ds) \<Longrightarrow> i \<in> fst ` set ds"
  by (force simp: all_entries_def)

lemma first_match_mem: "first_match es host path = Some i \<Longrightarrow> \<exists>r. (r, i) \<in> set es"
proof -
  assume "first_match es host path = Some i"
  then obtain e where e: "find (\<lambda>(r, _). rule_matches r host path) es = Some e" "snd e = i"
    by (auto simp: first_match_def)
  then have "e \<in> set es" by (metis find_Some_iff nth_mem)
  with e(2) show ?thesis by (cases e) auto
qed

lemma first_match_declared:
  assumes "first_match (sort_key by_specificity (keyed k (all_entries ds))) host path = Some i"
  shows "i \<in> fst ` set ds"
  using first_match_mem[OF assms] by (auto simp: keyed_def intro: entries_declared)

interpretation table: route_index route_table_default route_build route_updated resolve
proof
  show "route_table_default = route_build []"
    by (simp add: route_build_def route_table_default_def)
  show "route_updated (route_build ds) i (map_of ds i) nx = route_build ds'"
    if "distinct (map fst ds)" "distinct (map fst ds')" "map_of ds' = (map_of ds)(i := nx)" for ds ds' i nx
    using that by (rule route_updated_build)
  show "i \<in> fst ` set ds" if "resolve (route_build ds) h p = Some i" for ds h p i
    using that
    by (auto simp: resolve_def route_build_eq bucket_of_def split: option.splits if_splits
      dest: first_match_declared)
qed

section \<open>Properties\<close>

text \<open>
  C16. Updating the index for one deployment gives the index a full rebuild would give, whether the
  deployment is new, changed or removed, and in whatever order the rebuild meets the deployments.
\<close>

theorem updated_equals_rebuild:
  assumes "distinct (map fst ds)" "distinct (map fst ds')" "map_of ds' = (map_of ds)(i := nx)"
  shows "route_updated (route_build ds) i (map_of ds i) nx = route_build ds'"
  using assms by (rule route_updated_build)

definition demo_rule :: "string \<Rightarrow> route_rule" where
  "demo_rule p = \<lparr>rr_host = None, rr_host_suffix = None, rr_path_prefix = Some p, rr_strip_prefix = False\<rparr>"

theorem updated_equals_rebuild_witness:
  "route_updated (route_build [(''a'', [demo_rule ''/''])]) ''b'' None (Some [demo_rule ''/api''])
     = route_build [(''b'', [demo_rule ''/api'']), (''a'', [demo_rule ''/''])]"
  using updated_equals_rebuild[of "[(''a'', [demo_rule ''/''])]" "[(''b'', [demo_rule ''/api'']), (''a'', [demo_rule ''/''])]"
      "''b''" "Some [demo_rule ''/api'']"] by (simp add: fun_eq_iff)

text \<open>
  A host is in a domain exactly when the domain's labels end the host's labels, letter case and
  leading dots of the domain aside; a domain never matches inside a label.
\<close>

theorem host_in_domain_by_labels:
  "host_in_domain h s \<longleftrightarrow>
     trim_start_matches ''.'' s \<noteq> [] \<and> suffix (labels (trim_start_matches ''.'' s)) (labels h)"
  by (rule host_in_domain_labels)

end
