(* ===== verification/Backend.thy ===== *)
theory Backend
  imports Route Secrets
begin

text \<open>
  The parts of a deployment's spec that routing, pools and the registry read
  (\<open>app-lb/src/config.rs\<close>), and one backend of a pool with the operations that take its admission
  lock (\<open>app-lb/src/deployment.rs\<close>). The clock is an argument. Counters of the Rust types \<open>usize\<close>
  and \<open>u64\<close> are natural numbers where they only count.
\<close>

section \<open>Specs\<close>

datatype idle_action = Destroy | Retain

record scaling_policy =
  sp_min_replicas :: nat
  sp_max_replicas :: nat
  sp_warm_pool :: nat
  sp_target_concurrency :: nat
  sp_scale_to_zero_after_secs :: nat
  sp_cold_start_timeout_secs :: nat
  sp_drain_timeout_secs :: nat
  sp_boot_timeout_secs :: nat
  sp_idle_action :: idle_action

definition scaling_policy_default :: scaling_policy where
  "scaling_policy_default =
     \<lparr>sp_min_replicas = 0, sp_max_replicas = 5, sp_warm_pool = 0, sp_target_concurrency = 10,
      sp_scale_to_zero_after_secs = 300, sp_cold_start_timeout_secs = 120,
      sp_drain_timeout_secs = 30, sp_boot_timeout_secs = 300, sp_idle_action = Destroy\<rparr>"

record regional_spec =
  rsp_gateway_id :: string
  rsp_backend_server_id :: string
  rsp_environment :: string
  rsp_auth :: secret_ref

record discovery_source =
  dsrc_url :: string
  dsrc_auth :: secret_ref

record discovery_spec =
  dc_service_id :: string
  dc_region :: "string option"
  dc_regional :: "regional_spec option"
  dc_source :: "discovery_source option"

datatype gateway_mode = Forward | Local

record gateway_spec =
  gs_service :: string
  gs_region :: string
  gs_auth :: secret_ref
  gs_mode :: gateway_mode

text \<open>
  The fields of \<open>DeploymentSpec\<close> that routing, the pool and the registry read; the record is
  extensible and the rest of the spec would be its extension.
\<close>

record deployment_spec =
  spec_id :: string
  spec_namespace :: string
  spec_routes :: "route_rule list"
  spec_upstreams :: "string list"
  spec_discovery :: "discovery_spec option"
  spec_gateway :: "gateway_spec option"
  spec_auth :: bool
  spec_site :: bool
  spec_maintenance :: bool
  spec_scaling :: scaling_policy

datatype backend_kind = BackendVm | BackendUpstreams | BackendSite

definition spec_backend :: "deployment_spec \<Rightarrow> backend_kind" where
  "spec_backend s =
     (if spec_site s then BackendSite
      else if spec_upstreams s \<noteq> [] \<or> spec_discovery s \<noteq> None then BackendUpstreams
      else BackendVm)"

definition is_static :: "deployment_spec \<Rightarrow> bool" where
  "is_static s \<longleftrightarrow> spec_backend s = BackendUpstreams"

definition is_site :: "deployment_spec \<Rightarrow> bool" where
  "is_site s \<longleftrightarrow> spec_backend s = BackendSite"

definition is_managed :: "deployment_spec \<Rightarrow> bool" where
  "is_managed s \<longleftrightarrow> spec_backend s = BackendVm"

subsection \<open>Static upstreams\<close>

record static_upstream =
  su_address :: string
  su_tls :: bool
  su_sni :: string

text \<open>What the \<open>url\<close> crate reports of a parsed URL; its parser is an argument.\<close>

record parsed_url =
  url_scheme :: string
  url_username :: string
  url_password :: "string option"
  url_path :: string
  url_query :: "string option"
  url_fragment :: "string option"
  url_port_or_default :: "nat option"
  url_domain :: "string option"
  url_host_str :: "string option"
  url_text :: string

text \<open>\<open>rsplit_once(':')\<close>.\<close>

definition rsplit_colon :: "string \<Rightarrow> (string \<times> string) option" where
  "rsplit_colon s =
     (if CHR '':'' \<in> set s
      then (let port = rev (takeWhile (\<lambda>c. c \<noteq> CHR '':'') (rev s))
            in Some (take (length s - length port - 1) s, port))
      else None)"

definition is_valid_host_port :: "string \<Rightarrow> bool" where
  "is_valid_host_port s =
     (case rsplit_colon s of
        None \<Rightarrow> False
      | Some (host0, port) \<Rightarrow>
          (let host = (case Option.bind (strip_prefix ''['' host0) (strip_suffix '']'') of
                         Some h \<Rightarrow> h | None \<Rightarrow> host0)
           in host \<noteq> [] \<and> (case parse_unsigned 65535 port of Some p \<Rightarrow> p > 0 | None \<Rightarrow> False)))"

definition upstream_parse :: "(string \<Rightarrow> parsed_url option) \<Rightarrow> string \<Rightarrow> static_upstream option" where
  "upstream_parse url_parse v =
     (case str_find ''://'' v of
        None \<Rightarrow>
          if is_valid_host_port v then Some \<lparr>su_address = v, su_tls = False, su_sni = []\<rparr> else None
      | Some i \<Rightarrow>
          (let rest = drop (i + 3) v;
               authority = (case strip_suffix ''/'' rest of Some a \<Rightarrow> a | None \<Rightarrow> rest)
           in if list_ex (\<lambda>c. c \<in> set [CHR ''/'', CHR 0x5C, CHR ''?'', CHR ''#'', CHR ''@'']) authority
                 \<or> list_ex is_whitespace (chars v)
              then None
              else case url_parse v of
                None \<Rightarrow> None
              | Some u \<Rightarrow>
                  if url_scheme u \<noteq> ''https'' \<or> url_username u \<noteq> [] \<or> url_password u \<noteq> None
                     \<or> url_path u \<noteq> ''/'' \<or> url_query u \<noteq> None \<or> url_fragment u \<noteq> None
                  then None
                  else case url_port_or_default u of
                    None \<Rightarrow> None
                  | Some port \<Rightarrow>
                      if port = 0 then None
                      else map_option (\<lambda>h. \<lparr>su_address = h @ '':'' @ nat_str port, su_tls = True, su_sni = h\<rparr>)
                             (url_domain u)))"

section \<open>Backends\<close>

record vm_backend =
  vb_sandbox_id :: string
  vb_peer :: string
  vb_address :: string
  vb_tls :: bool
  vb_sni :: string
  vb_in_flight :: nat
  vb_draining :: bool
  vb_healthy :: bool
  vb_last_active :: nat
  vb_ready_at :: nat
  vb_cpu_percent_bits :: nat
  vb_mem_bytes :: nat
  vb_has_usage :: bool
  vb_bind :: "string option"

definition backend_with_peer :: "string \<Rightarrow> string \<Rightarrow> string \<Rightarrow> bool \<Rightarrow> string \<Rightarrow> nat \<Rightarrow> vm_backend" where
  "backend_with_peer sandbox_id peer address tls sni now =
     \<lparr>vb_sandbox_id = sandbox_id, vb_peer = peer, vb_address = address, vb_tls = tls, vb_sni = sni,
      vb_in_flight = 0, vb_draining = False, vb_healthy = True, vb_last_active = now,
      vb_ready_at = now, vb_cpu_percent_bits = 0, vb_mem_bytes = 0, vb_has_usage = False,
      vb_bind = None\<rparr>"

definition backend_new :: "string \<Rightarrow> string \<Rightarrow> nat \<Rightarrow> vm_backend" where
  "backend_new sandbox_id addr now = backend_with_peer sandbox_id addr addr False [] now"

text \<open>\<open>None\<close> is the panic of the \<open>expect\<close>: specs are validated before a deployment is built.\<close>

definition backend_for_upstream :: "(string \<Rightarrow> parsed_url option) \<Rightarrow> string \<Rightarrow> nat \<Rightarrow> vm_backend option" where
  "backend_for_upstream url_parse address now =
     map_option (\<lambda>t. backend_with_peer address address (su_address t) (su_tls t) (su_sni t) now)
       (upstream_parse url_parse address)"

definition set_bind :: "vm_backend \<Rightarrow> string option \<Rightarrow> vm_backend" where
  "set_bind b s = b\<lparr>vb_bind := s\<rparr>"

definition uptime_secs :: "vm_backend \<Rightarrow> nat \<Rightarrow> nat" where
  "uptime_secs b now = now - vb_ready_at b"

definition set_usage :: "vm_backend \<Rightarrow> nat \<Rightarrow> nat \<Rightarrow> vm_backend" where
  "set_usage b cpu mem = b\<lparr>vb_cpu_percent_bits := cpu, vb_mem_bytes := mem, vb_has_usage := True\<rparr>"

definition usage :: "vm_backend \<Rightarrow> (nat \<times> nat) option" where
  "usage b = (if vb_has_usage b then Some (vb_cpu_percent_bits b, vb_mem_bytes b) else None)"

definition is_available :: "vm_backend \<Rightarrow> bool" where
  "is_available b \<longleftrightarrow> vb_healthy b \<and> \<not> vb_draining b"

definition set_draining :: "vm_backend \<Rightarrow> bool \<Rightarrow> vm_backend" where
  "set_draining b d = b\<lparr>vb_draining := d\<rparr>"

definition set_healthy :: "vm_backend \<Rightarrow> bool \<Rightarrow> vm_backend" where
  "set_healthy b h = b\<lparr>vb_healthy := h\<rparr>"

definition acquire :: "vm_backend \<Rightarrow> nat \<Rightarrow> vm_backend" where
  "acquire b now = b\<lparr>vb_in_flight := vb_in_flight b + 1, vb_last_active := now\<rparr>"

definition try_acquire :: "vm_backend \<Rightarrow> nat \<Rightarrow> bool \<times> vm_backend" where
  "try_acquire b now = (if \<not> is_available b then (False, b) else (True, acquire b now))"

definition release :: "vm_backend \<Rightarrow> nat \<Rightarrow> vm_backend" where
  "release b now = b\<lparr>vb_in_flight := vb_in_flight b - 1, vb_last_active := now\<rparr>"

section \<open>Admission and drains on one backend\<close>

text \<open>
  The operations on a backend take its admission lock, so a history of a backend is a sequence of
  them. \<open>run_op\<close> also reports what \<open>try_acquire\<close> answered.
\<close>

datatype backend_op = TryAcquire nat | Release nat | SetDraining bool | SetHealthy bool | SetUsage nat nat

fun run_op :: "backend_op \<Rightarrow> vm_backend \<Rightarrow> bool \<times> vm_backend" where
  "run_op (TryAcquire now) b = try_acquire b now"
| "run_op (Release now) b = (False, release b now)"
| "run_op (SetDraining d) b = (False, set_draining b d)"
| "run_op (SetHealthy h) b = (False, set_healthy b h)"
| "run_op (SetUsage c m) b = (False, set_usage b c m)"

fun run_ops :: "backend_op list \<Rightarrow> vm_backend \<Rightarrow> bool list \<times> vm_backend" where
  "run_ops [] b = ([], b)"
| "run_ops (op # ops) b =
     (case run_op op b of (r, b') \<Rightarrow> case run_ops ops b' of (rs, b'') \<Rightarrow> (r # rs, b''))"

lemmas backend_simps = try_acquire_def acquire_def release_def set_draining_def set_healthy_def
  set_usage_def is_available_def

lemma drained_stays:
  "vb_draining b \<Longrightarrow> list_all (\<lambda>op. op \<noteq> SetDraining False) ops \<Longrightarrow>
     list_all (\<lambda>r. \<not> r) (fst (run_ops ops b)) \<and> vb_draining (snd (run_ops ops b)) \<and>
     vb_in_flight (snd (run_ops ops b)) \<le> vb_in_flight b"
proof (induction ops arbitrary: b)
  case Nil
  then show ?case by simp
next
  case (Cons op ops)
  obtain r b' where op: "run_op op b = (r, b')" by force
  have "\<not> r \<and> vb_draining b' \<and> vb_in_flight b' \<le> vb_in_flight b"
    using op Cons.prems by (cases op) (auto simp: backend_simps)
  with Cons.IH[of b'] Cons.prems op show ?case by (auto split: prod.splits)
qed

text \<open>The slots a history holds: an admitted request adds one, a release gives one back.\<close>

fun held :: "backend_op list \<Rightarrow> bool list \<Rightarrow> nat \<Rightarrow> nat" where
  "held (TryAcquire _ # ops) (r # rs) n = held ops rs (if r then n + 1 else n)"
| "held (Release _ # ops) (r # rs) n = held ops rs (n - 1)"
| "held (_ # ops) (r # rs) n = held ops rs n"
| "held _ _ n = n"

lemma in_flight_held:
  "vb_in_flight (snd (run_ops ops b)) = held ops (fst (run_ops ops b)) (vb_in_flight b)"
proof (induction ops arbitrary: b)
  case (Cons op ops)
  obtain r b' where op: "run_op op b = (r, b')" by force
  obtain rs b'' where ops: "run_ops ops b' = (rs, b'')" by force
  have "held (op # ops) (r # rs) (vb_in_flight b) = held ops rs (vb_in_flight b')"
    using op by (cases op) (auto simp: backend_simps split: if_splits)
  with Cons.IH[of b'] op ops show ?case by simp
qed simp

section \<open>Properties\<close>

text \<open>
  Draining is final until it is lifted: whatever requests, releases, health and usage reports
  follow, a draining backend admits no request and its load only falls.
\<close>

theorem drain_is_final:
  assumes "vb_draining b" "list_all (\<lambda>op. op \<noteq> SetDraining False) ops"
  shows "list_all (\<lambda>r. \<not> r) (fst (run_ops ops b)) \<and> vb_in_flight (snd (run_ops ops b)) \<le> vb_in_flight b"
  using drained_stays[OF assms] by simp

theorem drain_is_final_witness:
  "list_all (\<lambda>r. \<not> r) (fst (run_ops [TryAcquire 1, SetHealthy True, TryAcquire 2] (set_draining (backend_new [] [] 0) True)))"
  using drain_is_final[of "set_draining (backend_new [] [] 0) True" "[TryAcquire 1, SetHealthy True, TryAcquire 2]"]
  by (simp add: set_draining_def)

text \<open>
  The in-flight count is exact: after any history it is the number of admitted requests that
  were not released, and a release without an admission does not wrap it.
\<close>

theorem in_flight_exact:
  "vb_in_flight (snd (run_ops ops b)) = held ops (fst (run_ops ops b)) (vb_in_flight b)"
  by (rule in_flight_held)

end
