(* ===== verification/Gateway.thy ===== *)
theory Gateway
  imports Backend Ip_Addr
begin

text \<open>
  The one-hop transport between gateways (\<open>app-lb/src/gateway.rs\<close>): the spec and its validation,
  the admission of a request by its peer headers, and the headers of a forwarded request. The header
  map is the \<open>http\<close> crate's: its operations are an argument, and what is relied on of them is
  \<open>header_laws\<close>. The theory shows that what one gateway forwards the next admits, and that it goes
  no further.
\<close>

section \<open>Headers\<close>

text \<open>
  The header map as its documentation describes it: all values of a name, removal of a name, and
  insertion that replaces what the name had. \<open>hm_value_ok\<close> is whether \<open>HeaderValue::from_str\<close> takes a
  text, \<open>hm_visible\<close> whether \<open>to_str\<close> gives one back.
\<close>

record 'h header_map =
  hm_empty :: 'h
  hm_get_all :: "'h \<Rightarrow> string \<Rightarrow> string list"
  hm_remove :: "string \<Rightarrow> 'h \<Rightarrow> 'h"
  hm_insert :: "string \<Rightarrow> string \<Rightarrow> 'h \<Rightarrow> 'h"
  hm_value_ok :: "string \<Rightarrow> bool"
  hm_visible :: "string \<Rightarrow> bool"

definition contains_key :: "'h header_map \<Rightarrow> 'h \<Rightarrow> string \<Rightarrow> bool" where
  "contains_key hm h name \<longleftrightarrow> hm_get_all hm h name \<noteq> []"

definition header_get :: "'h header_map \<Rightarrow> 'h \<Rightarrow> string \<Rightarrow> string option" where
  "header_get hm h name = (case hm_get_all hm h name of [] \<Rightarrow> None | v # _ \<Rightarrow> Some v)"

definition header_laws :: "'h header_map \<Rightarrow> bool" where
  "header_laws hm \<longleftrightarrow>
     (\<forall>n. hm_get_all hm (hm_empty hm) n = []) \<and>
     (\<forall>h n m. hm_get_all hm (hm_remove hm n h) m = (if m = n then [] else hm_get_all hm h m)) \<and>
     (\<forall>h n v m. hm_get_all hm (hm_insert hm n v h) m = (if m = n then [v] else hm_get_all hm h m))"

section \<open>The transport\<close>

definition TOKEN :: string where "TOKEN = ''x-heyo-peer-token''"

definition SERVICE :: string where "SERVICE = ''x-heyo-peer-service''"

definition REGION :: string where "REGION = ''x-heyo-peer-region''"

definition NAMESPACE :: string where "NAMESPACE = ''x-heyo-peer-namespace''"

definition HEADERS :: "string list" where
  "HEADERS = [TOKEN, SERVICE, REGION, NAMESPACE]"

lemmas header_names = TOKEN_def SERVICE_def REGION_def NAMESPACE_def

text \<open>\<open>SocketAddr\<close> as the standard library parses it, and its address.\<close>

definition read_port :: "string \<Rightarrow> (nat \<times> string) option" where
  "read_port s = Option.bind (read_given (CHR '':'') s) (\<lambda>r. read_number 10 (length r) True 65535 r)"

definition read_scope_id :: "string \<Rightarrow> string" where
  "read_scope_id s =
     (case Option.bind (read_given (CHR ''%'') s) (\<lambda>r. read_number 10 (length r) True u32_max r) of
        Some (_, r) \<Rightarrow> r | None \<Rightarrow> s)"

definition parse_socket_addr :: "string \<Rightarrow> (ip_addr \<times> nat) option" where
  "parse_socket_addr s =
     (case Option.bind (read_ipv4_addr s) (\<lambda>(os, r). map_option (\<lambda>(p, r'). (os, p, r')) (read_port r)) of
        Some (os, p, r) \<Rightarrow> if r = [] then Some (V4 (map of_nat os), p) else None
      | None \<Rightarrow>
          (case Option.bind (Option.bind (read_given (CHR ''['') s) read_ipv6_addr) (\<lambda>(gs, r).
                Option.bind (read_given (CHR '']'') (read_scope_id r)) (\<lambda>r'.
                map_option (\<lambda>(p, r''). (gs, p, r'')) (read_port r'))) of
             Some (gs, p, r) \<Rightarrow> if r = [] then Some (V6 (concat (map group_octets gs)), p) else None
           | None \<Rightarrow> None))"

definition is_loopback :: "ip_addr \<Rightarrow> bool" where
  "is_loopback a = (case a of V4 os \<Rightarrow> hd os = 127 | V6 os \<Rightarrow> os = replicate 15 0 @ [1])"

datatype gateway_error = BadIdentifier | BadAuth secret_error | NoUpstreams | InvalidUpstream
  | ForwardNeedsHttps | LocalNeedsHostPort | LocalNeedsLoopback

definition bounded_identifier :: "string \<Rightarrow> bool" where
  "bounded_identifier v \<longleftrightarrow> v \<noteq> [] \<and> length v \<le> 128 \<and>
     list_all (\<lambda>b. is_ascii_alphanumeric b \<or> b \<in> set ''-_.'') v"

definition check_gateway_upstream :: "(string \<Rightarrow> parsed_url option) \<Rightarrow> gateway_mode \<Rightarrow> string \<Rightarrow> gateway_error + unit" where
  "check_gateway_upstream url_parse mode upstream =
     and_then (ok_or InvalidUpstream (upstream_parse url_parse upstream)) (\<lambda>target.
     case mode of
       Forward \<Rightarrow> fail_if (\<not> su_tls target) ForwardNeedsHttps
     | Local \<Rightarrow>
         and_then (ok_or LocalNeedsHostPort (parse_socket_addr (su_address target))) (\<lambda>(ip, _).
         fail_if (su_tls target \<or> \<not> is_loopback ip) LocalNeedsLoopback))"

definition gateway_validate :: "(string \<Rightarrow> parsed_url option) \<Rightarrow> gateway_spec \<Rightarrow> string list \<Rightarrow> gateway_error + unit" where
  "gateway_validate url_parse g upstreams =
     and_then (for_each (\<lambda>v. fail_if (\<not> bounded_identifier v) BadIdentifier) [gs_service g, gs_region g]) (\<lambda>_.
     and_then (map_err BadAuth (ref_validate (gs_auth g))) (\<lambda>_.
     and_then (fail_if (upstreams = []) NoUpstreams) (\<lambda>_.
     for_each (check_gateway_upstream url_parse (gs_mode g)) upstreams)))"

text \<open>The comparison is by length and then in constant time, so it is equality.\<close>

definition check_peer_header :: "'h header_map \<Rightarrow> 'h \<Rightarrow> string \<times> string \<Rightarrow> nat + unit" where
  "check_peer_header hm h p =
     (case p of (name, expected) \<Rightarrow>
        and_then (fail_if (length (hm_get_all hm h name) \<noteq> 1) 403) (\<lambda>_.
        and_then (ok_or 403 (header_get hm h name)) (\<lambda>actual.
        fail_if (actual \<noteq> expected) 403)))"

definition peer_values :: "gateway_spec \<Rightarrow> string \<Rightarrow> (string \<times> string) list" where
  "peer_values g token =
     [(TOKEN, token), (SERVICE, gs_service g), (REGION, gs_region g), (NAMESPACE, ref_namespace (gs_auth g))]"

definition gateway_admit :: "'h header_map \<Rightarrow> gateway_spec option \<Rightarrow> 'h \<Rightarrow> secret_store \<Rightarrow> nat + string option" where
  "gateway_admit hm spec headers secrets =
     (let has_peer = list_ex (contains_key hm headers) HEADERS in
      case spec of
        None \<Rightarrow> if has_peer then Inl 403 else Inr None
      | Some g \<Rightarrow>
          if has_peer \<and> gs_mode g = Forward then Inl 508
          else if \<not> has_peer \<and> gs_mode g = Local then Inl 403
          else and_then (map_err (\<lambda>_. 503) (secret_resolve secrets (gs_auth g))) (\<lambda>token.
               if token = [] \<or> \<not> hm_value_ok hm token then Inl 503
               else if gs_mode g = Forward then Inr (Some token)
               else and_then (for_each (check_peer_header hm headers) (peer_values g token)) (\<lambda>_. Inr None)))"

text \<open>The headers after the call, and whether every value was taken.\<close>

fun insert_all :: "'h header_map \<Rightarrow> (string \<times> string) list \<Rightarrow> 'h \<Rightarrow> 'h \<times> bool" where
  "insert_all hm [] h = (h, True)"
| "insert_all hm ((n, v) # nvs) h =
     (if hm_value_ok hm v then insert_all hm nvs (hm_insert hm n v h) else (h, False))"

definition write_forward_headers :: "'h header_map \<Rightarrow> gateway_spec \<Rightarrow> string \<Rightarrow> 'h \<Rightarrow> 'h \<times> bool" where
  "write_forward_headers hm g token headers =
     insert_all hm (peer_values g token) (fold (hm_remove hm) HEADERS headers)"

section \<open>What is written and what is read\<close>

lemma distinct_HEADERS: "distinct HEADERS"
  by (simp add: HEADERS_def header_names)

lemma map_fst_peer_values [simp]: "map fst (peer_values g token) = HEADERS"
  by (simp add: peer_values_def HEADERS_def)

lemma check_peer_header_ok: "check_peer_header hm h (n, v) = Inr () \<longleftrightarrow> hm_get_all hm h n = [v]"
  by (cases "hm_get_all hm h n") (auto simp: check_peer_header_def header_get_def ok_or_def fail_if_def)

lemma insert_all_get:
  assumes "header_laws hm"
  shows "insert_all hm nvs h = (h', True) \<Longrightarrow> distinct (map fst nvs) \<Longrightarrow>
    hm_get_all hm h' n = (case map_of nvs n of Some v \<Rightarrow> [v] | None \<Rightarrow> hm_get_all hm h n)"
proof (induction nvs arbitrary: h)
  case (Cons nv nvs)
  obtain m v where nv: "nv = (m, v)" by force
  have "hm_get_all hm h' n = (case map_of nvs n of Some v \<Rightarrow> [v] | None \<Rightarrow> hm_get_all hm (hm_insert hm m v h) n)"
    using Cons nv by (auto split: if_splits)
  moreover have "map_of nvs m = None" using Cons.prems(2) nv by (simp add: map_of_eq_None_iff)
  ultimately show ?case using assms nv by (auto simp: header_laws_def split: option.splits)
qed simp

lemma remove_all_get:
  assumes "header_laws hm"
  shows "hm_get_all hm (fold (hm_remove hm) ns h) n = (if n \<in> set ns then [] else hm_get_all hm h n)"
proof (induction ns arbitrary: h)
  case (Cons m ns)
  with assms show ?case by (auto simp: header_laws_def)
qed simp

lemma forward_headers_get:
  assumes "header_laws hm" "write_forward_headers hm g token h = (h', True)"
  shows "hm_get_all hm h' n = (case map_of (peer_values g token) n of Some v \<Rightarrow> [v] | None \<Rightarrow> hm_get_all hm h n)"
proof -
  have "n \<in> set HEADERS \<longleftrightarrow> map_of (peer_values g token) n \<noteq> None"
    by (metis map_fst_peer_values map_of_eq_None_iff set_map)
  with insert_all_get[OF assms(1) assms(2)[unfolded write_forward_headers_def], of n] distinct_HEADERS
  show ?thesis by (auto simp: remove_all_get[OF assms(1)] split: option.splits)
qed

lemma gateway_admit_iff:
  "gateway_admit hm (Some g) h st = Inr r \<longleftrightarrow>
    (\<exists>token. secret_resolve st (gs_auth g) = Inr token \<and> token \<noteq> [] \<and> hm_value_ok hm token \<and>
       (case gs_mode g of
          Forward \<Rightarrow> r = Some token \<and> list_all (\<lambda>n. hm_get_all hm h n = []) HEADERS
        | Local \<Rightarrow> r = None \<and> list_all (\<lambda>(n, v). hm_get_all hm h n = [v]) (peer_values g token)))"
proof -
  have checks: "for_each (check_peer_header hm h) nvs = Inr () \<longleftrightarrow> list_all (\<lambda>(n, v). hm_get_all hm h n = [v]) nvs" for nvs
    by (auto simp: list_all_iff check_peer_header_ok)
  have peer: "list_ex (contains_key hm h) HEADERS" if "list_all (\<lambda>(n, v). hm_get_all hm h n = [v]) (peer_values g token)" for token
    using that by (simp add: peer_values_def HEADERS_def contains_key_def)
  have none: "\<not> list_ex (contains_key hm h) HEADERS \<longleftrightarrow> list_all (\<lambda>n. hm_get_all hm h n = []) HEADERS"
    by (auto simp: list_ex_iff list_all_iff contains_key_def)
  show ?thesis
    by (cases "secret_resolve st (gs_auth g)"; cases "gs_mode g")
      (use peer none checks in \<open>auto simp: gateway_admit_def Let_def map_err_def split: if_splits\<close>)
qed

section \<open>Properties\<close>

text \<open>
  Admission by a gateway's spec, in both directions: a forwarding gateway admits exactly the
  requests without any peer header, and answers with its credential; a local one exactly those that
  carry each of the four peer headers once with the expected value. Either needs a credential that
  resolves to a non-empty header value.
\<close>

theorem gateway_admission:
  "gateway_admit hm (Some g) h st = Inr r \<longleftrightarrow>
    (\<exists>token. secret_resolve st (gs_auth g) = Inr token \<and> token \<noteq> [] \<and> hm_value_ok hm token \<and>
       (case gs_mode g of
          Forward \<Rightarrow> r = Some token \<and> list_all (\<lambda>n. hm_get_all hm h n = []) HEADERS
        | Local \<Rightarrow> r = None \<and> list_all (\<lambda>(n, v). hm_get_all hm h n = [v])
            [(TOKEN, token), (SERVICE, gs_service g), (REGION, gs_region g), (NAMESPACE, ref_namespace (gs_auth g))]))"
  using gateway_admit_iff[of hm g h st r] unfolding peer_values_def .

text \<open>
  One hop: what a gateway forwards is admitted by the local gateway of the same service, region
  and namespace that holds the same credential, with every other header as it was; a forwarding
  gateway refuses it with 508, and a deployment without a gateway with 403.
\<close>

theorem gateway_one_hop:
  assumes "header_laws hm" "gateway_admit hm (Some src) h st = Inr (Some token)"
    and "write_forward_headers hm src token h = (h', True)"
    and "gs_mode dst = Local" "gs_service dst = gs_service src" "gs_region dst = gs_region src"
    and "ref_namespace (gs_auth dst) = ref_namespace (gs_auth src)" "secret_resolve st' (gs_auth dst) = Inr token"
  shows "gateway_admit hm (Some dst) h' st' = Inr None \<and>
    (n \<notin> set HEADERS \<longrightarrow> hm_get_all hm h' n = hm_get_all hm h n) \<and>
    (gs_mode next = Forward \<longrightarrow> gateway_admit hm (Some next) h' st'' = Inl 508) \<and>
    gateway_admit hm None h' st'' = Inl 403"
proof -
  note get = forward_headers_get[OF assms(1,3)]
  have token: "token \<noteq> []" "hm_value_ok hm token"
    using assms(2) by (cases "gs_mode src"; auto simp: gateway_admit_iff)+
  have same: "peer_values dst token = peer_values src token" using assms(5-7) by (simp add: peer_values_def)
  have "map_of (peer_values src token) m = Some v" if "(m, v) \<in> set (peer_values src token)" for m v
    using that distinct_HEADERS by (metis map_fst_peer_values map_of_is_SomeI)
  then have all: "list_all (\<lambda>(m, v). hm_get_all hm h' m = [v]) (peer_values src token)"
    by (auto simp: list_all_iff get)
  have other: "hm_get_all hm h' n = hm_get_all hm h n" if "n \<notin> set HEADERS"
    using that get[of n] map_of_eq_None_iff[of "peer_values src token" n]
    by (metis map_fst_peer_values option.simps(4) set_map)
  have "list_ex (contains_key hm h') HEADERS" using all by (simp add: peer_values_def HEADERS_def contains_key_def)
  moreover have "gateway_admit hm (Some dst) h' st' = Inr None"
    using assms(4,8) token all by (simp add: gateway_admit_iff same)
  ultimately show ?thesis using other by (simp add: gateway_admit_def)
qed

definition fun_headers :: "(string \<Rightarrow> string list) header_map" where
  "fun_headers = \<lparr>hm_empty = (\<lambda>_. []), hm_get_all = (\<lambda>h n. h n), hm_remove = (\<lambda>n h. h(n := [])),
     hm_insert = (\<lambda>n v h. h(n := [v])), hm_value_ok = (\<lambda>_. True), hm_visible = (\<lambda>_. True)\<rparr>"

definition demo_gateway :: "gateway_mode \<Rightarrow> gateway_spec" where
  "demo_gateway mode = \<lparr>gs_service = ''smoke'', gs_region = ''eu'',
     gs_auth = \<lparr>sr_secret = ''peer'', sr_key = ''token'', sr_username = None, sr_namespace = None\<rparr>,
     gs_mode = mode\<rparr>"

definition demo_peer_store :: secret_store where
  "demo_peer_store = \<lparr>st_secrets = [(''default/peer'', \<lparr>ss_id = ''peer'', ss_namespace = ''default'', ss_description = None,
     ss_data = [(''token'', ''t'')], ss_updated_at = 0\<rparr>)], st_key = None\<rparr>"

lemma fun_headers_laws: "header_laws fun_headers"
  by (auto simp: header_laws_def fun_headers_def)

lemma demo_peer_token: "secret_resolve demo_peer_store (gs_auth (demo_gateway m)) = Inr ''t''"
  by (simp add: secret_resolve_def demo_peer_store_def demo_gateway_def secret_get_def store_key_def ref_namespace_def
      DEFAULT_NAMESPACE_def ok_or_def)

lemma fun_headers_written: "snd (write_forward_headers fun_headers g token h)"
proof -
  have "snd (insert_all fun_headers nvs h)" for nvs and h :: "string \<Rightarrow> string list"
    by (induction nvs arbitrary: h) (auto simp: fun_headers_def)
  then show ?thesis by (simp add: write_forward_headers_def)
qed

theorem gateway_one_hop_witness:
  "gateway_admit fun_headers (Some (demo_gateway Local))
     (fst (write_forward_headers fun_headers (demo_gateway Forward) ''t'' (\<lambda>_. []))) demo_peer_store = Inr None"
proof -
  have sent: "gateway_admit fun_headers (Some (demo_gateway Forward)) (\<lambda>_. []) demo_peer_store = Inr (Some ''t'')"
    unfolding gateway_admit_iff demo_peer_token by (simp add: demo_gateway_def fun_headers_def HEADERS_def)
  have "write_forward_headers fun_headers (demo_gateway Forward) ''t'' (\<lambda>_. []) =
      (fst (write_forward_headers fun_headers (demo_gateway Forward) ''t'' (\<lambda>_. [])), True)"
    by (simp add: prod_eq_iff fun_headers_written)
  from gateway_one_hop[OF fun_headers_laws sent this, of "demo_gateway Local" demo_peer_store] demo_peer_token
  show ?thesis by (simp add: demo_gateway_def)
qed

end
