(* ===== verification/Regional.thy ===== *)
theory Regional
  imports Gateway
begin

text \<open>
  The regional router of a gateway (\<open>app-lb/src/regional.rs\<close>): the snapshots of the control plane,
  the router's state, admission of requests into a generation, the two kinds of probe reservation,
  and the accounting of assignments. Every operation takes the router's lock, so an operation is a
  step. Backends are references into the arena of the deployments; the clock, in nanoseconds, the
  random generator and the parser of URLs are arguments.
\<close>

section \<open>Snapshots\<close>

type_synonym backend_ref = nat

record gateway_entry =
  gw_id :: string
  gw_backend_server_id :: string
  gw_url :: string

record region_entry =
  rg_region :: string
  rg_weight :: nat
  rg_gateways :: "gateway_entry list"

record policy =
  pl_version :: nat
  pl_regions :: "region_entry list"

record generation =
  gn_generation :: int
  gn_policy :: policy

record endpoint =
  ep_deployment_id :: string
  ep_backend_server_id :: string
  ep_region :: string
  ep_revision :: "string option"
  ep_url :: string
  ep_health_status :: string
  ep_draining :: bool

record snapshot =
  sn_protocol_version :: nat
  sn_service_id :: string
  sn_environment :: string
  sn_region :: string
  sn_gateway_id :: string
  sn_boot_id :: string
  sn_version :: nat
  sn_operation_id :: string
  sn_phase :: string
  sn_proposal_generation :: int
  sn_active_generation :: "int option"
  sn_drain_target :: "string option"
  sn_closed_through_generation :: int
  sn_policies :: "generation list"
  sn_endpoints :: "endpoint list"

section \<open>The router\<close>

definition GENERATION :: string where "GENERATION = ''x-heyo-peer-generation''"

definition ENVIRONMENT :: string where "ENVIRONMENT = ''x-heyo-peer-environment''"

definition PROBE :: string where "PROBE = ''x-heyo-peer-probe''"

definition ACTIVE_PROBE :: string where "ACTIVE_PROBE = ''x-heyo-peer-active-probe''"

definition SNAPSHOT_EVIDENCE_TTL :: nat where "SNAPSHOT_EVIDENCE_TTL = 30 * 10 ^ 9"

record router =
  rt_boot_id :: string
  rt_snapshot :: "snapshot option"
  rt_observed_at :: "nat option"
  rt_local :: "backend_ref list"
  rt_counters :: "((int \<times> string) \<times> nat \<times> nat) list"
  rt_sequence :: nat
  rt_fenced :: bool

text \<open>\<open>{b:02x}\<close>, and the boot identity made of sixteen random bytes.\<close>

definition byte_hex :: "char \<Rightarrow> string" where
  "byte_hex b = [hex_digit (byte b div 16), hex_digit (byte b mod 16)]"

definition boot_id_of :: "string \<Rightarrow> string" where
  "boot_id_of bytes =
     (let hex = concat (map byte_hex bytes)
      in take 8 hex @ ''-'' @ take 4 (drop 8 hex) @ ''-'' @ take 4 (drop 12 hex) @ ''-'' @
         take 4 (drop 16 hex) @ ''-'' @ drop 20 hex)"

definition router_init :: "string \<Rightarrow> router" where
  "router_init bytes =
     \<lparr>rt_boot_id = boot_id_of bytes, rt_snapshot = None, rt_observed_at = None, rt_local = [],
      rt_counters = [], rt_sequence = 0, rt_fenced = False\<rparr>"

definition fence :: "router \<Rightarrow> router" where
  "fence r = r\<lparr>rt_fenced := True\<rparr>"

text \<open>The policy of a generation, and a region of a policy.\<close>

definition generation_policy :: "snapshot \<Rightarrow> int \<Rightarrow> policy option" where
  "generation_policy s g = map_option gn_policy (find (\<lambda>p. gn_generation p = g) (sn_policies s))"

definition find_region :: "policy \<Rightarrow> string \<Rightarrow> region_entry option" where
  "find_region p region = find (\<lambda>r. rg_region r = region) (pl_regions p)"

definition router_available :: "(backend_ref \<Rightarrow> vm_backend) \<Rightarrow> router \<Rightarrow> bool" where
  "router_available cells r = list_ex (\<lambda>b. is_available (cells b)) (rt_local r)"

definition evidence_fresh :: "router \<Rightarrow> nat \<Rightarrow> bool" where
  "evidence_fresh r now =
     (case rt_observed_at r of Some at \<Rightarrow> now - at < SNAPSHOT_EVIDENCE_TTL | None \<Rightarrow> False)"

definition own_weight_zero :: "snapshot \<Rightarrow> bool" where
  "own_weight_zero s =
     (case Option.bind (generation_policy s (sn_proposal_generation s)) (\<lambda>p. find_region p (sn_region s)) of
        Some r \<Rightarrow> rg_weight r = 0 | None \<Rightarrow> False)"

record preparation =
  pr_boot_id :: string
  pr_operation_id :: string
  pr_version :: nat
  pr_prepared :: bool
  pr_adopted :: bool

definition router_preparation :: "(backend_ref \<Rightarrow> vm_backend) \<Rightarrow> nat \<Rightarrow> bool \<Rightarrow> router \<Rightarrow> preparation option" where
  "router_preparation cells now enabled r =
     (case rt_snapshot r of
        None \<Rightarrow> None
      | Some s \<Rightarrow>
          if \<not> rt_fenced r \<and> evidence_fresh r now
          then Some \<lparr>pr_boot_id = rt_boot_id r, pr_operation_id = sn_operation_id s, pr_version = sn_version s,
                 pr_prepared = (enabled \<and> (own_weight_zero s \<or> router_available cells r)),
                 pr_adopted = (sn_active_generation s = Some (sn_proposal_generation s)
                   \<and> sn_closed_through_generation s < sn_proposal_generation s)\<rparr>
          else None)"

subsection \<open>Applying a snapshot\<close>

datatype apply_error = IdentityMismatch | InvalidGeneration | InvalidInventory | BadGatewayUrl | InvalidTransport
  | NoPositiveWeights | UnavailableGenerations | HostBindingMismatch | RuntimeFenced | PolicyRegressed | HistoryChanged

definition transport_ok :: "parsed_url \<Rightarrow> bool" where
  "transport_ok u \<longleftrightarrow> url_scheme u = ''https'' \<and> url_domain u \<noteq> None \<and> url_username u = [] \<and> url_password u = None
     \<and> url_path u = ''/'' \<and> url_query u = None \<and> url_fragment u = None"

fun check_gateways :: "(string \<Rightarrow> parsed_url option) \<Rightarrow> gateway_entry list \<Rightarrow> string set \<times> string set \<Rightarrow>
    apply_error + string set \<times> string set" where
  "check_gateways url_parse [] seen = Inr seen"
| "check_gateways url_parse (g # gs) (gateways, addresses) =
     and_then (ok_or BadGatewayUrl (url_parse (gw_url g))) (\<lambda>url.
     if gw_id g = [] \<or> gw_backend_server_id g = [] \<or> gw_id g \<in> gateways \<or> url_text url \<in> addresses \<or> \<not> transport_ok url
     then Inl InvalidTransport
     else check_gateways url_parse gs (insert (gw_id g) gateways, insert (url_text url) addresses))"

fun check_regions :: "(string \<Rightarrow> parsed_url option) \<Rightarrow> region_entry list \<Rightarrow> string set \<Rightarrow> string set \<times> string set \<Rightarrow> nat \<Rightarrow>
    apply_error + nat" where
  "check_regions url_parse [] regions seen weights = Inr weights"
| "check_regions url_parse (r # rs) regions seen weights =
     (if rg_region r = [] \<or> rg_region r \<in> regions \<or> rg_gateways r = [] then Inl InvalidInventory
      else and_then (check_gateways url_parse (rg_gateways r) seen) (\<lambda>seen'.
           check_regions url_parse rs (insert (rg_region r) regions) seen' (weights + rg_weight r)))"

fun check_generations :: "(string \<Rightarrow> parsed_url option) \<Rightarrow> generation list \<Rightarrow> int set \<Rightarrow> apply_error + unit" where
  "check_generations url_parse [] generations = Inr ()"
| "check_generations url_parse (g # gs) generations =
     (if gn_generation g \<le> 0 \<or> gn_generation g \<in> generations \<or> pl_version (gn_policy g) \<noteq> 1 then Inl InvalidGeneration
      else and_then (check_regions url_parse (pl_regions (gn_policy g)) {} ({}, {}) 0) (\<lambda>weights.
           and_then (fail_if (weights = 0) NoPositiveWeights) (\<lambda>_.
           check_generations url_parse gs (insert (gn_generation g) generations))))"

text \<open>\<open>Option\<close>'s order: \<open>None\<close> is below every \<open>Some\<close>.\<close>

fun option_less :: "int option \<Rightarrow> int option \<Rightarrow> bool" where
  "option_less None (Some _) = True"
| "option_less (Some a) (Some b) = (a < b)"
| "option_less _ None = False"

definition bound_to_host :: "snapshot \<Rightarrow> regional_spec \<Rightarrow> string \<Rightarrow> bool" where
  "bound_to_host s spec region =
     (case Option.bind (generation_policy s (sn_proposal_generation s)) (\<lambda>p. find_region p region) of
        Some r \<Rightarrow> list_ex (\<lambda>g. gw_id g = rsp_gateway_id spec \<and> gw_backend_server_id g = rsp_backend_server_id spec) (rg_gateways r)
      | None \<Rightarrow> False)"

definition check_snapshot :: "(string \<Rightarrow> parsed_url option) \<Rightarrow> snapshot \<Rightarrow> regional_spec \<Rightarrow> string \<Rightarrow> string \<Rightarrow> string \<Rightarrow>
    apply_error + unit" where
  "check_snapshot url_parse s spec service region boot_id =
     (let generations = gn_generation ` set (sn_policies s) in
      and_then (fail_if (sn_protocol_version s \<noteq> 1 \<or> sn_service_id s \<noteq> service \<or> sn_region s \<noteq> region
        \<or> sn_gateway_id s \<noteq> rsp_gateway_id spec \<or> sn_environment s \<noteq> rsp_environment spec \<or> sn_boot_id s \<noteq> boot_id)
        IdentityMismatch) (\<lambda>_.
      and_then (check_generations url_parse (sn_policies s) {}) (\<lambda>_.
      and_then (fail_if (sn_proposal_generation s \<notin> generations
        \<or> (case sn_active_generation s of Some g \<Rightarrow> g \<notin> generations | None \<Rightarrow> False)
        \<or> sn_closed_through_generation s < 0 \<or> sn_closed_through_generation s > sn_proposal_generation s)
        UnavailableGenerations) (\<lambda>_.
      fail_if (\<not> bound_to_host s spec region) HostBindingMismatch))))"

definition router_apply :: "(string \<Rightarrow> parsed_url option) \<Rightarrow> nat \<Rightarrow> snapshot \<Rightarrow> regional_spec \<Rightarrow> string \<Rightarrow> string \<Rightarrow>
    backend_ref list \<Rightarrow> router \<Rightarrow> (apply_error + bool) \<times> router" where
  "router_apply url_parse now s spec service region local r =
     (let accepted = (Inr True, r\<lparr>rt_local := local, rt_snapshot := Some s, rt_observed_at := Some now\<rparr>)
      in case check_snapshot url_parse s spec service region (rt_boot_id r) of
           Inl e \<Rightarrow> (Inl e, r)
         | Inr _ \<Rightarrow>
             if rt_fenced r then (Inl RuntimeFenced, r)
             else case rt_snapshot r of
               None \<Rightarrow> accepted
             | Some old \<Rightarrow>
                 if sn_version s < sn_version old then (Inr False, r)
                 else if option_less (sn_active_generation s) (sn_active_generation old)
                   \<or> sn_closed_through_generation s < sn_closed_through_generation old then (Inl PolicyRegressed, r)
                 else if list_ex (\<lambda>previous. \<not> list_ex (\<lambda>p. gn_generation p = gn_generation previous
                        \<and> gn_policy p = gn_policy previous) (sn_policies s)) (sn_policies old)
                 then (Inl HistoryChanged, r)
                 else accepted)"

subsection \<open>Assignments\<close>

datatype assigned_backend = Pooled backend_ref | Private vm_backend

record assignment =
  as_generation :: int
  as_region :: string
  as_source :: bool
  as_local :: bool
  as_backend :: assigned_backend
  as_forward :: "(gateway_spec \<times> string \<times> string) option"

definition as_key :: "assignment \<Rightarrow> int \<times> string" where
  "as_key a = (as_generation a, as_region a)"

text \<open>The entry of a key, or zeros, with what the assignment adds.\<close>

definition charge :: "assignment \<Rightarrow> router \<Rightarrow> router" where
  "charge a r =
     (let (out, inn) = (case map_of (rt_counters r) (as_key a) of Some c \<Rightarrow> c | None \<Rightarrow> (0, 0))
      in r\<lparr>rt_counters := btree_insert (as_key a) (out + of_bool (as_source a), inn + of_bool (as_local a)) (rt_counters r)\<rparr>)"

text \<open>
  Dropping an assignment. \<open>None\<close> is a panic: the expectation that the counters exist, or a
  subtraction below zero.
\<close>

definition assignment_drop :: "assignment \<Rightarrow> router \<Rightarrow> router option" where
  "assignment_drop a r =
     (case map_of (rt_counters r) (as_key a) of
        None \<Rightarrow> None
      | Some (out, inn) \<Rightarrow>
          if out < of_bool (as_source a) \<or> inn < of_bool (as_local a) then None
          else (let c = (out - of_bool (as_source a), inn - of_bool (as_local a))
                in Some (r\<lparr>rt_counters := (if c = (0, 0) then filter (\<lambda>(k, _). k \<noteq> as_key a) (rt_counters r)
                                           else btree_insert (as_key a) c (rt_counters r))\<rparr>)))"

text \<open>The ticket walks the weights; the region it falls into is chosen.\<close>

fun pick_region :: "nat \<Rightarrow> region_entry list \<Rightarrow> region_entry option" where
  "pick_region ticket [] = None"
| "pick_region ticket (r # rs) = (if ticket < rg_weight r then Some r else pick_region (ticket - rg_weight r) rs)"

definition weight_sum :: "policy \<Rightarrow> nat" where
  "weight_sum p = sum_list (map rg_weight (pl_regions p))"

text \<open>What admission is given besides the request: the spec of the deployment and its surroundings.\<close>

record 'h admission =
  ad_headers :: "'h header_map"
  ad_url_parse :: "string \<Rightarrow> parsed_url option"
  ad_secrets :: secret_store
  ad_cells :: "backend_ref \<Rightarrow> vm_backend"
  ad_now :: nat

definition open_snapshot :: "router \<Rightarrow> nat + snapshot" where
  "open_snapshot r = ok_or 503 (if rt_fenced r then None else rt_snapshot r)"

definition own_gateway :: "regional_spec \<Rightarrow> string \<Rightarrow> string \<Rightarrow> gateway_mode \<Rightarrow> gateway_spec" where
  "own_gateway spec service region mode =
     \<lparr>gs_service = service, gs_region = region, gs_auth = rsp_auth spec, gs_mode = mode\<rparr>"

definition header_text :: "'h header_map \<Rightarrow> 'h \<Rightarrow> string \<Rightarrow> string option" where
  "header_text hm h name = Option.bind (header_get hm h name) (\<lambda>v. if hm_visible hm v then Some v else None)"

definition has_peer :: "'h header_map \<Rightarrow> 'h \<Rightarrow> bool" where
  "has_peer hm headers = list_ex (contains_key hm headers) (HEADERS @ [GENERATION, ENVIRONMENT])"

text \<open>The generation a request is pinned to: the one its peer chose, or the active one.\<close>

definition peer_generation :: "'h admission \<Rightarrow> regional_spec \<Rightarrow> string \<Rightarrow> string \<Rightarrow> 'h \<Rightarrow> snapshot \<Rightarrow> nat + int" where
  "peer_generation env spec service region headers s =
     (let hm = ad_headers env in
      and_then (gateway_admit hm (Some (own_gateway spec service region Local)) headers (ad_secrets env)) (\<lambda>_.
      and_then (fail_if (length (hm_get_all hm headers ENVIRONMENT) \<noteq> 1
        \<or> header_text hm headers ENVIRONMENT \<noteq> Some (rsp_environment spec)
        \<or> length (hm_get_all hm headers GENERATION) \<noteq> 1) 403) (\<lambda>_.
      and_then (ok_or 403 (Option.bind (header_text hm headers GENERATION) parse_i64)) (\<lambda>g.
      and_then (fail_if (g \<le> sn_closed_through_generation s) 503) (\<lambda>_. Inr g)))))"

text \<open>
  The destination. Eight random bytes make a 64-bit number, whose remainder by the sum of the weights
  is the ticket; the remainder panics when the sum is zero (\<open>None\<close>). A failing random generator is an
  answer of 503.
\<close>

definition choose_region :: "64 word option \<Rightarrow> bool \<Rightarrow> string \<Rightarrow> policy \<Rightarrow> (nat + region_entry) option" where
  "choose_region random peer region p =
     (if peer then Some (ok_or 503 (find (\<lambda>r. rg_region r = region \<and> rg_weight r > 0) (pl_regions p)))
      else case random of
        None \<Rightarrow> Some (Inl 503)
      | Some n \<Rightarrow>
          if weight_sum p = 0 then None
          else Some (ok_or 503 (pick_region (unat n mod weight_sum p) (pl_regions p))))"

definition local_backend :: "(backend_ref \<Rightarrow> vm_backend) \<Rightarrow> router \<Rightarrow> backend_ref option" where
  "local_backend cells r =
     min_by_key (\<lambda>b. vb_in_flight (cells b)) (filter (\<lambda>b. is_available (cells b)) (rt_local r))"

text \<open>A remote destination's first gateway; a URL that is not a static upstream panics.\<close>

definition remote_backend :: "'h admission \<Rightarrow> region_entry \<Rightarrow> (nat + vm_backend) option" where
  "remote_backend env destination =
     (case rg_gateways destination of
        [] \<Rightarrow> Some (Inl 503)
      | g # _ \<Rightarrow> map_option Inr (backend_for_upstream (ad_url_parse env) (gw_url g) (ad_now env)))"

definition assign :: "'h admission \<Rightarrow> regional_spec \<Rightarrow> string \<Rightarrow> string \<Rightarrow> 'h \<Rightarrow> bool \<Rightarrow> snapshot \<Rightarrow> int \<Rightarrow> region_entry \<Rightarrow>
    router \<Rightarrow> (nat + assignment) option" where
  "assign env spec service region headers peer s g destination r =
     (let base = \<lparr>as_generation = g, as_region = rg_region destination, as_source = \<not> peer,
                  as_local = (rg_region destination = region), as_backend = Pooled 0, as_forward = None\<rparr>
      in if rg_region destination = region
         then Some (and_then (fail_if (g \<le> sn_closed_through_generation s) 503) (\<lambda>_.
                    and_then (ok_or 503 (local_backend (ad_cells env) r)) (\<lambda>b.
                    Inr (base\<lparr>as_backend := Pooled b\<rparr>))))
         else map_option (\<lambda>res. and_then res (\<lambda>b.
                let forward = own_gateway spec service (rg_region destination) Forward in
                and_then (gateway_admit (ad_headers env) (Some forward) headers (ad_secrets env)) (\<lambda>token.
                and_then (ok_or 503 token) (\<lambda>t.
                Inr (base\<lparr>as_backend := Private b, as_forward := Some (forward, t, rsp_environment spec)\<rparr>)))))
              (remote_backend env destination))"

definition router_admit :: "'h admission \<Rightarrow> 64 word option \<Rightarrow> regional_spec \<Rightarrow> string \<Rightarrow> string \<Rightarrow> 'h \<Rightarrow> router \<Rightarrow>
    ((nat + assignment) \<times> router) option" where
  "router_admit env random spec service region headers r =
     (let hm = ad_headers env; peer = has_peer hm headers;
          pinned =
            and_then (fail_if (contains_key hm headers PROBE \<or> contains_key hm headers ACTIVE_PROBE) 403) (\<lambda>_.
            and_then (open_snapshot r) (\<lambda>s.
            and_then (if peer then peer_generation env spec service region headers s
                      else ok_or 503 (sn_active_generation s)) (\<lambda>g.
            and_then (ok_or 503 (generation_policy s g)) (\<lambda>p. Inr (s, g, p)))))
      in case pinned of
           Inl e \<Rightarrow> Some (Inl e, r)
         | Inr (s, g, p) \<Rightarrow>
             (case choose_region random peer region p of
                None \<Rightarrow> None
              | Some (Inl e) \<Rightarrow> Some (Inl e, r)
              | Some (Inr destination) \<Rightarrow>
                  (case assign env spec service region headers peer s g destination r of
                     None \<Rightarrow> None
                   | Some (Inl e) \<Rightarrow> Some (Inl e, r)
                   | Some (Inr a) \<Rightarrow> Some (Inr a, charge a r))))"

subsection \<open>Endpoints\<close>

text \<open>
  The address of an endpoint's URL (\<open>discovery.rs\<close>). An explicit port is looked for in the text,
  because the parsed URL hides an explicit default. \<open>None\<close> is the panic of an http URL without a
  default port.
\<close>

datatype endpoint_error = BadEndpointUrl string | EndpointNotPlain string | EndpointNoHost string | EndpointNoPort string

definition url_authority :: "string \<Rightarrow> string" where
  "url_authority v =
     (case str_find ''//'' v of
        Some i \<Rightarrow> takeWhile (\<lambda>c. c \<noteq> CHR ''/'' \<and> c \<noteq> CHR ''?'' \<and> c \<noteq> CHR ''#'') (drop (i + 2) v)
      | None \<Rightarrow> [])"

definition has_explicit_port :: "string \<Rightarrow> bool" where
  "has_explicit_port v =
     (let authority = url_authority v
      in if prefix ''['' authority then str_contains authority '']:'' else CHR '':'' \<in> set authority)"

definition upstream_from_url :: "(string \<Rightarrow> parsed_url option) \<Rightarrow> string \<Rightarrow> (endpoint_error + string) option" where
  "upstream_from_url url_parse v =
     (case url_parse v of
        None \<Rightarrow> Some (Inl (BadEndpointUrl v))
      | Some u \<Rightarrow>
          if url_scheme u \<noteq> ''http'' \<or> url_username u \<noteq> [] \<or> url_password u \<noteq> None \<or> url_query u \<noteq> None
             \<or> url_fragment u \<noteq> None \<or> url_path u \<noteq> ''/''
          then Some (Inl (EndpointNotPlain v))
          else case url_host_str u of
            None \<Rightarrow> Some (Inl (EndpointNoHost v))
          | Some host0 \<Rightarrow>
              if \<not> has_explicit_port v then Some (Inl (EndpointNoPort v))
              else case url_port_or_default u of
                None \<Rightarrow> None
              | Some port \<Rightarrow>
                  (let host = (case Option.bind (strip_prefix ''['' host0) (strip_suffix '']'') of Some h \<Rightarrow> h | None \<Rightarrow> host0)
                   in Some (Inr ((if CHR '':'' \<in> set host then ''['' @ host @ '']:'' else host @ '':'') @ nat_str port))))"

text \<open>The loopback address of an endpoint, as both probes ask for it; every failure is a conflict.\<close>

definition loopback_peer :: "(string \<Rightarrow> parsed_url option) \<Rightarrow> string \<Rightarrow> (nat + string) option" where
  "loopback_peer url_parse url =
     map_option (\<lambda>res.
       and_then (map_err (\<lambda>_. 409) res) (\<lambda>peer.
       and_then (ok_or 409 (parse_socket_addr peer)) (\<lambda>(ip, _).
       and_then (fail_if (\<not> is_loopback ip) 409) (\<lambda>_. Inr peer))))
     (upstream_from_url url_parse url)"

subsection \<open>Probes\<close>

record active_probe_request =
  ap_operation_id :: string
  ap_step_id :: string
  ap_epoch :: int
  ap_challenge :: string
  ap_generation :: int
  ap_version :: nat
  ap_region :: string
  ap_gateway_id :: string
  ap_gateway_boot_id :: string
  ap_backend_server_id :: string
  ap_deployment_id :: string
  ap_revision :: string

record probe_request =
  pq_operation_id :: string
  pq_generation :: int
  pq_region :: string
  pq_gateway_id :: string
  pq_gateway_boot_id :: string
  pq_deployment_id :: string
  pq_revision :: string

definition bounded_text :: "string \<Rightarrow> bool" where
  "bounded_text s \<longleftrightarrow> s \<noteq> [] \<and> length s \<le> 256"

text \<open>\<open>members.first().filter(|_| members.len() == 1)\<close>.\<close>

definition only_one :: "'a list \<Rightarrow> 'a option" where
  "only_one xs = (case xs of [x] \<Rightarrow> Some x | _ \<Rightarrow> None)"

definition lift_result :: "'e + 'a \<Rightarrow> ('a \<Rightarrow> ('e + 'b) option) \<Rightarrow> ('e + 'b) option" where
  "lift_result res k = (case res of Inl e \<Rightarrow> Some (Inl e) | Inr a \<Rightarrow> k a)"

definition probe_member :: "(string \<Rightarrow> parsed_url option) \<Rightarrow> (backend_ref \<Rightarrow> vm_backend) \<Rightarrow> regional_spec \<Rightarrow> active_probe_request \<Rightarrow>
    snapshot \<Rightarrow> router \<Rightarrow> (nat + backend_ref \<times> string) option" where
  "probe_member url_parse cells spec q s r =
     lift_result
       (and_then (fail_if (rsp_gateway_id spec \<noteq> ap_gateway_id q \<or> rt_boot_id r \<noteq> ap_gateway_boot_id q
          \<or> rsp_backend_server_id spec \<noteq> ap_backend_server_id q \<or> sn_region s \<noteq> ap_region q
          \<or> ap_generation q \<le> sn_closed_through_generation s) 409) (\<lambda>_.
        and_then (ok_or 409 (only_one (filter (\<lambda>e. ep_deployment_id e = ap_deployment_id q) (sn_endpoints s)))) (\<lambda>m.
        and_then (fail_if (ep_region m \<noteq> ap_region q \<or> ep_backend_server_id m \<noteq> ap_backend_server_id q
          \<or> ep_revision m \<noteq> Some (ap_revision q) \<or> ep_health_status m \<noteq> ''healthy'' \<or> ep_draining m) 409) (\<lambda>_.
        Inr m))))
       (\<lambda>m. map_option (\<lambda>res.
          and_then res (\<lambda>peer.
          and_then (ok_or 409 (find (\<lambda>b. vb_peer (cells b) = peer \<and> is_available (cells b)) (rt_local r))) (\<lambda>b.
          Inr (b, ep_url m))))
        (loopback_peer url_parse (ep_url m)))"

definition is_ascii_hexdigit :: "char \<Rightarrow> bool" where
  "is_ascii_hexdigit c \<longleftrightarrow> digit_of 16 c \<noteq> None"

definition active_probe_backend :: "'h admission \<Rightarrow> regional_spec \<Rightarrow> active_probe_request \<Rightarrow> bool \<Rightarrow> router \<Rightarrow>
    (nat + assigned_backend \<times> string option) option" where
  "active_probe_backend env spec q destination r =
     lift_result
       (and_then (fail_if (ap_epoch q \<le> 0 \<or> length (ap_challenge q) \<noteq> 64 \<or> \<not> list_all is_ascii_hexdigit (ap_challenge q)
          \<or> \<not> list_all bounded_text [ap_operation_id q, ap_step_id q, ap_region q, ap_gateway_id q, ap_gateway_boot_id q,
               ap_backend_server_id q, ap_deployment_id q, ap_revision q]) 400) (\<lambda>_.
        and_then (open_snapshot r) (\<lambda>s.
        and_then (fail_if (sn_active_generation s \<noteq> Some (ap_generation q) \<or> sn_version s \<noteq> ap_version q) 409) (\<lambda>_.
        and_then (ok_or 409 (generation_policy s (ap_generation q))) (\<lambda>p.
        and_then (fail_if (\<not> list_ex (\<lambda>rg. rg_region rg = sn_region s \<and> list_ex (\<lambda>g. gw_id g = rsp_gateway_id spec
          \<and> gw_backend_server_id g = rsp_backend_server_id spec) (rg_gateways rg)) (pl_regions p)) 409) (\<lambda>_.
        and_then (ok_or 409 (find (\<lambda>rg. rg_region rg = ap_region q \<and> rg_weight rg > 0) (pl_regions p))) (\<lambda>target.
        and_then (ok_or 409 (find (\<lambda>g. gw_id g = ap_gateway_id q \<and> gw_backend_server_id g = ap_backend_server_id q)
          (rg_gateways target))) (\<lambda>gateway.
        Inr (s, gateway)))))))))
       (\<lambda>(s, gateway).
          if \<not> destination
          then map_option (\<lambda>b. Inr (Private b, None)) (backend_for_upstream (ad_url_parse env) (gw_url gateway) (ad_now env))
          else map_option (\<lambda>res. and_then res (\<lambda>(b, url). Inr (Pooled b, Some url)))
                 (probe_member (ad_url_parse env) (ad_cells env) spec q s r))"

definition probe_reservation :: "int \<Rightarrow> string \<Rightarrow> bool \<Rightarrow> assigned_backend \<Rightarrow> assignment" where
  "probe_reservation g region destination b =
     \<lparr>as_generation = g, as_region = region, as_source = \<not> destination, as_local = destination, as_backend = b,
      as_forward = None\<rparr>"

definition reserve :: "router \<Rightarrow> (nat + assignment) option \<Rightarrow> ((nat + assignment) \<times> router) option" where
  "reserve r res = map_option (\<lambda>x. case x of Inl e \<Rightarrow> (Inl e, r) | Inr a \<Rightarrow> (Inr a, charge a r)) res"

definition active_probe_assignment :: "'h admission \<Rightarrow> regional_spec \<Rightarrow> active_probe_request \<Rightarrow> bool \<Rightarrow> router \<Rightarrow>
    ((nat + assignment) \<times> router) option" where
  "active_probe_assignment env spec q destination r =
     reserve r (map_option (\<lambda>res. and_then res (\<lambda>(b, _).
        Inr (probe_reservation (ap_generation q) (ap_region q) destination b)))
       (active_probe_backend env spec q destination r))"

definition is_serving :: "snapshot \<Rightarrow> bool" where
  "is_serving s \<longleftrightarrow> sn_phase s \<in> set [''bake'', ''verify'', ''verify_baseline'', ''rolled_back'']
     \<or> sn_phase s = ''passed'' \<and> sn_drain_target s = None"

definition probe_endpoint :: "'h admission \<Rightarrow> regional_spec \<Rightarrow> probe_request \<Rightarrow> snapshot \<Rightarrow> router \<Rightarrow> (nat + vm_backend) option" where
  "probe_endpoint env spec q s r =
     lift_result
       (and_then (fail_if (rsp_gateway_id spec \<noteq> pq_gateway_id q \<or> rt_boot_id r \<noteq> pq_gateway_boot_id q
          \<or> sn_region s \<noteq> pq_region q) 409) (\<lambda>_.
        and_then (fail_if (is_serving s \<and> pq_generation q \<le> sn_closed_through_generation s
          \<or> \<not> is_serving s \<and> sn_closed_through_generation s < pq_generation q) 409) (\<lambda>_.
        and_then (ok_or 409 (only_one (filter (\<lambda>e. ep_deployment_id e = pq_deployment_id q) (sn_endpoints s)))) (\<lambda>e.
        and_then (fail_if (ep_revision e \<noteq> Some (pq_revision q) \<or> ep_region e \<noteq> pq_region q
          \<or> ep_backend_server_id e \<noteq> rsp_backend_server_id spec
          \<or> is_serving s \<and> (ep_health_status e \<noteq> ''healthy'' \<or> ep_draining e)) 409) (\<lambda>_.
        Inr e)))))
       (\<lambda>e. Option.bind (loopback_peer (ad_url_parse env) (ep_url e)) (\<lambda>res.
          lift_result res (\<lambda>peer. map_option Inr (backend_for_upstream (ad_url_parse env) peer (ad_now env)))))"

definition probe_assignment :: "'h admission \<Rightarrow> regional_spec \<Rightarrow> probe_request \<Rightarrow> bool \<Rightarrow> router \<Rightarrow>
    ((nat + assignment) \<times> router) option" where
  "probe_assignment env spec q destination r =
     reserve r (lift_result
       (and_then (fail_if (\<not> list_all bounded_text [pq_operation_id q, pq_region q, pq_gateway_id q, pq_gateway_boot_id q,
          pq_deployment_id q, pq_revision q]) 400) (\<lambda>_.
        and_then (open_snapshot r) (\<lambda>s.
        and_then (fail_if (sn_operation_id s \<noteq> pq_operation_id q
          \<or> \<not> is_serving s \<and> sn_phase s \<notin> set [''passed'', ''probe_candidates'', ''probe_retained'']
          \<or> sn_active_generation s \<noteq> Some (pq_generation q) \<or> sn_proposal_generation s \<noteq> pq_generation q
          \<or> (if is_serving s then sn_drain_target s \<noteq> None else sn_drain_target s \<noteq> Some (pq_region q))) 409) (\<lambda>_.
        and_then (ok_or 409 (Option.bind (generation_policy s (pq_generation q)) (\<lambda>p.
          find (\<lambda>rg. rg_region rg = pq_region q \<and> (if is_serving s then rg_weight rg > 0 else rg_weight rg = 0))
            (pl_regions p)))) (\<lambda>target.
        and_then (ok_or 409 (find (\<lambda>g. gw_id g = pq_gateway_id q) (rg_gateways target))) (\<lambda>gateway.
        Inr (s, gateway)))))))
       (\<lambda>(s, gateway).
          map_option (\<lambda>res. and_then res (\<lambda>b.
            Inr (probe_reservation (pq_generation q) (pq_region q) destination (Private b))))
          (if destination then probe_endpoint env spec q s r
           else map_option Inr (backend_for_upstream (ad_url_parse env) (gw_url gateway) (ad_now env)))))"

subsection \<open>Reports\<close>

record report =
  rp_sequence :: nat
  rp_generation :: int
  rp_prepared :: bool
  rp_adopted :: bool
  rp_outgoing_target :: nat
  rp_local_target :: nat
  rp_peer_admission_closed :: bool

definition target_counts :: "string option \<Rightarrow> router \<Rightarrow> nat \<times> nat" where
  "target_counts target r =
     fold (\<lambda>(_, b) a. (fst a + fst b, snd a + snd b)) (filter (\<lambda>((_, region), _). Some region = target) (rt_counters r)) (0, 0)"

text \<open>The report of the status, with the operation it is about; nothing before a snapshot was applied.\<close>

definition router_status :: "(backend_ref \<Rightarrow> vm_backend) \<Rightarrow> nat \<Rightarrow> bool \<Rightarrow> router \<Rightarrow> (string \<times> report) option \<times> router" where
  "router_status cells now enabled r0 =
     (let r = r0\<lparr>rt_sequence := rt_sequence r0 + 1\<rparr>
      in (map_option (\<lambda>s. (sn_operation_id s,
            \<lparr>rp_sequence = rt_sequence r, rp_generation = sn_proposal_generation s,
             rp_prepared = (enabled \<and> \<not> rt_fenced r \<and> evidence_fresh r now \<and> (own_weight_zero s \<or> router_available cells r)),
             rp_adopted = (sn_active_generation s = Some (sn_proposal_generation s)),
             rp_outgoing_target = fst (target_counts (sn_drain_target s) r),
             rp_local_target = snd (target_counts (sn_drain_target s) r),
             rp_peer_admission_closed = (sn_closed_through_generation s \<ge> sn_proposal_generation s)\<rparr>)) (rt_snapshot r), r))"

subsection \<open>The lock\<close>

text \<open>
  The state of a router is behind a mutex. A panic while the mutex is held poisons it, and from then
  on every \<open>lock().unwrap()\<close> panics (\<open>None\<close>). The operations with that flag: what each of them checks
  before it takes the lock is still answered.
\<close>

definition locked_apply :: "bool \<Rightarrow> (string \<Rightarrow> parsed_url option) \<Rightarrow> nat \<Rightarrow> snapshot \<Rightarrow> regional_spec \<Rightarrow> string \<Rightarrow> string \<Rightarrow>
    backend_ref list \<Rightarrow> router \<Rightarrow> ((apply_error + bool) \<times> router) option" where
  "locked_apply poisoned url_parse now s spec service region local r =
     (case check_snapshot url_parse s spec service region (rt_boot_id r) of
        Inl e \<Rightarrow> Some (Inl e, r)
      | Inr _ \<Rightarrow> if poisoned then None else Some (router_apply url_parse now s spec service region local r))"

definition locked_admit :: "bool \<Rightarrow> 'h admission \<Rightarrow> 64 word option \<Rightarrow> regional_spec \<Rightarrow> string \<Rightarrow> string \<Rightarrow> 'h \<Rightarrow> router \<Rightarrow>
    ((nat + assignment) \<times> router) option" where
  "locked_admit poisoned env random spec service region headers r =
     (if contains_key (ad_headers env) headers PROBE \<or> contains_key (ad_headers env) headers ACTIVE_PROBE then Some (Inl 403, r)
      else if poisoned then None
      else router_admit env random spec service region headers r)"

definition locked_active_probe :: "bool \<Rightarrow> 'h admission \<Rightarrow> regional_spec \<Rightarrow> active_probe_request \<Rightarrow> bool \<Rightarrow> router \<Rightarrow>
    ((nat + assignment) \<times> router) option" where
  "locked_active_probe poisoned env spec q destination r =
     (if poisoned then None else active_probe_assignment env spec q destination r)"

definition locked_probe :: "bool \<Rightarrow> 'h admission \<Rightarrow> regional_spec \<Rightarrow> probe_request \<Rightarrow> bool \<Rightarrow> router \<Rightarrow>
    ((nat + assignment) \<times> router) option" where
  "locked_probe poisoned env spec q destination r =
     (if \<not> list_all bounded_text [pq_operation_id q, pq_region q, pq_gateway_id q, pq_gateway_boot_id q, pq_deployment_id q,
           pq_revision q] then Some (Inl 400, r)
      else if poisoned then None
      else probe_assignment env spec q destination r)"

text \<open>An active probe asks for its backend again after the call; nothing is reserved.\<close>

definition locked_revalidate :: "bool \<Rightarrow> 'h admission \<Rightarrow> regional_spec \<Rightarrow> active_probe_request \<Rightarrow> bool \<Rightarrow> router \<Rightarrow>
    (nat + assigned_backend \<times> string option) option" where
  "locked_revalidate poisoned env spec q destination r =
     (if poisoned then None else active_probe_backend env spec q destination r)"

definition locked_status :: "bool \<Rightarrow> (backend_ref \<Rightarrow> vm_backend) \<Rightarrow> nat \<Rightarrow> bool \<Rightarrow> router \<Rightarrow>
    ((string \<times> report) option \<times> router) option" where
  "locked_status poisoned cells now enabled r = (if poisoned then None else Some (router_status cells now enabled r))"

definition locked_fence :: "bool \<Rightarrow> router \<Rightarrow> router option" where
  "locked_fence poisoned r = (if poisoned then None else Some (fence r))"

definition locked_drop :: "bool \<Rightarrow> assignment \<Rightarrow> router \<Rightarrow> router option" where
  "locked_drop poisoned a r = (if poisoned then None else assignment_drop a r)"

end
