(* ===== verification/Deployment.thy ===== *)
theory Deployment
  imports Regional
begin

text \<open>
  A deployment's live state (\<open>app-lb/src/deployment.rs\<close>). Backends are shared: the pool, the requests
  being served and the registry's list of withdrawn generations hold the same object. So backends
  live in an arena, and everything else holds references. The clock is an argument.
\<close>

section \<open>The arena\<close>

text \<open>
  Beside the backends it holds the regional routers, and the random bytes the generator returns for
  the boot identity of each. Deployments are numbered as they are made: \<open>Arc::ptr_eq\<close> on two of them
  compares the numbers.
\<close>

type_synonym router_ref = nat

record arena =
  ar_next :: backend_ref
  ar_cell :: "backend_ref \<Rightarrow> vm_backend"
  ar_next_router :: router_ref
  ar_router :: "router_ref \<Rightarrow> router"
  ar_entropy :: "router_ref \<Rightarrow> string"
  ar_next_deployment :: nat

definition arena_alloc :: "arena \<Rightarrow> vm_backend \<Rightarrow> backend_ref \<times> arena" where
  "arena_alloc a b =
     (ar_next a, a\<lparr>ar_next := ar_next a + 1, ar_cell := (ar_cell a)(ar_next a := b)\<rparr>)"

definition arena_update :: "backend_ref \<Rightarrow> (vm_backend \<Rightarrow> vm_backend) \<Rightarrow> arena \<Rightarrow> arena" where
  "arena_update r f a = a\<lparr>ar_cell := (ar_cell a)(r := f (ar_cell a r))\<rparr>"

definition router_new :: "arena \<Rightarrow> router_ref \<times> arena" where
  "router_new a =
     (ar_next_router a,
      a\<lparr>ar_next_router := ar_next_router a + 1,
        ar_router := (ar_router a)(ar_next_router a := router_init (ar_entropy a (ar_next_router a)))\<rparr>)"

definition router_fence :: "router_ref \<Rightarrow> arena \<Rightarrow> arena" where
  "router_fence r a = a\<lparr>ar_router := (ar_router a)(r := fence (ar_router a r))\<rparr>"

fun arena_alloc_all :: "arena \<Rightarrow> vm_backend list \<Rightarrow> backend_ref list \<times> arena" where
  "arena_alloc_all a [] = ([], a)"
| "arena_alloc_all a (b # bs) =
     (case arena_alloc a b of (r, a') \<Rightarrow>
        case arena_alloc_all a' bs of (rs, a'') \<Rightarrow> (r # rs, a''))"

section \<open>Deployments\<close>

datatype boot_origin = Created | Resumed

record pending_vm =
  pv_sandbox_id :: string
  pv_created_at :: nat
  pv_status :: "string option"
  pv_reported_at_secs :: nat
  pv_origin :: boot_origin
  pv_missing_since :: "nat option"

definition pending_new :: "string \<Rightarrow> nat \<Rightarrow> pending_vm" where
  "pending_new i now =
     \<lparr>pv_sandbox_id = i, pv_created_at = now, pv_status = None, pv_reported_at_secs = 0,
      pv_origin = Created, pv_missing_since = None\<rparr>"

definition pending_resumed :: "string \<Rightarrow> nat \<Rightarrow> pending_vm" where
  "pending_resumed i now = (pending_new i now)\<lparr>pv_origin := Resumed\<rparr>"

definition age_secs :: "pending_vm \<Rightarrow> nat \<Rightarrow> nat" where
  "age_secs p now = now - pv_created_at p"

record upstream_drain =
  ud_upstream :: string
  ud_reason :: "string option"
  ud_started_at :: nat

text \<open>
  Of a retirement operation, a create attempt and a rollout only what the modelled code reads:
  the sandboxes they name (an allocation is the sandbox it reports, if any), the name prefix of a
  rollout, and their flags.
\<close>

record retirement =
  ret_targets :: "string list"
  ret_inventory :: "string list"

record create_attempt =
  ca_allocation :: bool
  ca_runtime_observed :: bool
  ca_sandbox_id :: "string option"

record rollout =
  ro_prefix :: string
  ro_previous :: "string list"
  ro_allocations :: "string option list"
  ro_readiness_verified :: bool

text \<open>The durable record of a public-selector transition (\<open>registry.rs\<close>); its operations are not modelled.\<close>

datatype route_handoff_phase = Preparing | Prepared | Committed

record route_handoff_record =
  rh_operation_id :: string
  rh_predecessor_fingerprint :: string
  rh_staged_fingerprint :: string
  rh_staged_spec :: deployment_spec
  rh_phase :: route_handoff_phase
  rh_prepared_boot_id :: "string option"
  rh_prepared_version :: "nat option"

record deployment_state =
  ds_retirement :: "retirement option"
  ds_create_attempts :: "create_attempt list"
  ds_allocation_history_complete :: bool
  ds_rollout_revision :: string
  ds_active_prefix :: "string option"
  ds_rollouts :: "rollout list"
  ds_suspended :: "string list"
  ds_upstream_drains :: "upstream_drain list"
  ds_discovery_version :: "nat option"
  ds_discovery_source_url :: "string option"
  ds_route_handoff :: "route_handoff_record option"

record deployment =
  dp_serial :: nat
  dp_spec :: deployment_spec
  dp_regional :: "router_ref option"
  dp_state :: deployment_state
  dp_backends :: "backend_ref list"
  dp_pending :: "pending_vm list"
  dp_waiters :: nat
  dp_boot_failures :: nat
  dp_boot_backoff_until :: nat

definition deployment_state_new :: "string \<Rightarrow> deployment_state" where
  "deployment_state_new revision =
     \<lparr>ds_retirement = None, ds_create_attempts = [], ds_allocation_history_complete = True,
      ds_rollout_revision = revision, ds_active_prefix = None, ds_rollouts = [], ds_suspended = [],
      ds_upstream_drains = [], ds_discovery_version = None, ds_discovery_source_url = None,
      ds_route_handoff = None\<rparr>"

definition deployment_router :: "deployment_spec \<Rightarrow> arena \<Rightarrow> router_ref option \<times> arena" where
  "deployment_router spec a =
     (case Option.bind (spec_discovery spec) dc_regional of
        None \<Rightarrow> (None, a)
      | Some _ \<Rightarrow> (case router_new a of (r, a') \<Rightarrow> (Some r, a')))"

text \<open>A new deployment receives the revision that \<open>rollout::revision\<close> drew.\<close>

definition deployment_new :: "(string \<Rightarrow> parsed_url option) \<Rightarrow> string \<Rightarrow> nat \<Rightarrow> deployment_spec \<Rightarrow> arena \<Rightarrow>
    (deployment \<times> arena) option" where
  "deployment_new url_parse revision now spec a =
     (case those (map (\<lambda>u. backend_for_upstream url_parse u now) (spec_upstreams spec)) of
        None \<Rightarrow> None
      | Some bs \<Rightarrow>
          (case arena_alloc_all a bs of (refs, a') \<Rightarrow>
             case deployment_router spec a' of (router, a'') \<Rightarrow>
             Some (\<lparr>dp_serial = ar_next_deployment a'', dp_spec = spec, dp_regional = router, dp_state = deployment_state_new revision,
                    dp_backends = refs, dp_pending = [], dp_waiters = 0,
                    dp_boot_failures = 0, dp_boot_backoff_until = 0\<rparr>,
                   a''\<lparr>ar_next_deployment := ar_next_deployment a'' + 1\<rparr>)))"

definition drained_peers :: "deployment_state \<Rightarrow> string set" where
  "drained_peers st = ud_upstream ` set (ds_upstream_drains st)"

definition mark_drains :: "deployment_state \<Rightarrow> backend_ref list \<Rightarrow> arena \<Rightarrow> arena" where
  "mark_drains st refs a =
     fold (\<lambda>r a. arena_update r
             (\<lambda>b. set_draining b (list_ex (\<lambda>d. ud_upstream d = vb_peer b) (ds_upstream_drains st))) a)
       refs a"

definition set_state :: "deployment_state \<Rightarrow> deployment \<Rightarrow> arena \<Rightarrow> deployment \<times> arena" where
  "set_state st d a =
     (d\<lparr>dp_state := st\<rparr>,
      if is_static (dp_spec d) then mark_drains st (dp_backends d) a else a)"

definition find_drain :: "deployment \<Rightarrow> string \<Rightarrow> upstream_drain option" where
  "find_drain d u = find (\<lambda>x. ud_upstream x = u) (ds_upstream_drains (dp_state d))"

definition mutate_state :: "(deployment_state \<Rightarrow> deployment_state) \<Rightarrow> deployment \<Rightarrow> arena \<Rightarrow>
    bool \<times> deployment \<times> arena" where
  "mutate_state f d a =
     (let next_state = f (dp_state d) in
      if next_state = dp_state d then (False, d, a) else (True, set_state next_state d a))"

definition track_waiter :: "deployment \<Rightarrow> deployment" where
  "track_waiter d = d\<lparr>dp_waiters := dp_waiters d + 1\<rparr>"

definition drop_waiter :: "deployment \<Rightarrow> deployment" where
  "drop_waiter d = d\<lparr>dp_waiters := dp_waiters d - 1\<rparr>"

definition set_backends :: "backend_ref list \<Rightarrow> deployment \<Rightarrow> arena \<Rightarrow> deployment \<times> arena" where
  "set_backends refs d a =
     (d\<lparr>dp_backends := refs\<rparr>,
      if is_static (dp_spec d) then mark_drains (dp_state d) refs a else a)"

definition set_pending :: "pending_vm list \<Rightarrow> deployment \<Rightarrow> deployment" where
  "set_pending ps d = d\<lparr>dp_pending := ps\<rparr>"

definition total_in_flight :: "deployment \<Rightarrow> arena \<Rightarrow> nat" where
  "total_in_flight d a = sum_list (map (\<lambda>r. vb_in_flight (ar_cell a r)) (dp_backends d))"

definition select :: "deployment \<Rightarrow> string list \<Rightarrow> arena \<Rightarrow> backend_ref option" where
  "select d exclude a =
     min_by_key (\<lambda>r. vb_in_flight (ar_cell a r))
       (filter (\<lambda>r. is_available (ar_cell a r) \<and> vb_peer (ar_cell a r) \<notin> set exclude) (dp_backends d))"

definition can_grow :: "deployment \<Rightarrow> bool" where
  "can_grow d =
     (if \<not> is_managed (dp_spec d) then False
      else as_u32 (length (dp_backends d) + length (dp_pending d))
             < sp_max_replicas (spec_scaling (dp_spec d)))"

definition demand :: "deployment \<Rightarrow> arena \<Rightarrow> nat" where
  "demand d a = total_in_flight d a + dp_waiters d"

definition idle_for :: "deployment \<Rightarrow> nat \<Rightarrow> arena \<Rightarrow> nat" where
  "idle_for d now a =
     (if dp_backends d = [] then u64_max
      else now - Max (set (map (\<lambda>r. vb_last_active (ar_cell a r)) (dp_backends d))))"

text \<open>\<open>Ord::clamp\<close> panics when its bounds are the wrong way round.\<close>

definition clamp :: "nat \<Rightarrow> nat \<Rightarrow> nat \<Rightarrow> nat option" where
  "clamp x lo hi = (if hi < lo then None else Some (max lo (min x hi)))"

definition replicas_wanted :: "scaling_policy \<Rightarrow> nat \<Rightarrow> nat \<Rightarrow> nat" where
  "replicas_wanted p dem idle =
     (let needed = as_u32 (div_ceil dem (max (sp_target_concurrency p) 1));
          desired = u32_sat_add needed (sp_warm_pool p)
      in if (sp_min_replicas p = 0 \<and> sp_warm_pool p = 0) \<and> dem = 0
            \<and> idle \<ge> sp_scale_to_zero_after_secs p
         then 0 else desired)"

definition desired_replicas :: "deployment \<Rightarrow> nat \<Rightarrow> arena \<Rightarrow> nat option" where
  "desired_replicas d now a =
     (let p = spec_scaling (dp_spec d)
      in clamp (replicas_wanted p (demand d a) (idle_for d now a)) (sp_min_replicas p) (sp_max_replicas p))"

subsection \<open>Boot backoff\<close>

definition BOOT_BACKOFF_BASE_SECS :: nat where
  "BOOT_BACKOFF_BASE_SECS = 30"

definition BOOT_BACKOFF_MAX_SECS :: nat where
  "BOOT_BACKOFF_MAX_SECS = 3600"

definition boot_backoff_secs :: "nat \<Rightarrow> nat" where
  "boot_backoff_secs failures =
     (if failures = 0 then 0
      else min (u64_sat_mul BOOT_BACKOFF_BASE_SECS (2 ^ min (failures - 1) 63)) BOOT_BACKOFF_MAX_SECS)"

definition note_boot_failure :: "deployment \<Rightarrow> nat \<Rightarrow> (nat \<times> nat) \<times> deployment" where
  "note_boot_failure d now =
     (let failures = dp_boot_failures d + 1; delay = boot_backoff_secs failures
      in ((failures, delay),
          d\<lparr>dp_boot_failures := failures, dp_boot_backoff_until := u64_sat_add now delay\<rparr>))"

definition note_boot_success :: "deployment \<Rightarrow> bool \<times> deployment" where
  "note_boot_success d =
     (dp_boot_failures d \<noteq> 0, d\<lparr>dp_boot_backoff_until := 0, dp_boot_failures := 0\<rparr>)"

definition boot_backoff_remaining :: "deployment \<Rightarrow> nat \<Rightarrow> nat option" where
  "boot_backoff_remaining d now =
     (if dp_boot_backoff_until d > now then Some (dp_boot_backoff_until d - now) else None)"

section \<open>Replica counts\<close>

lemma desired_bounds:
  "desired_replicas d now a = Some n \<Longrightarrow>
     sp_min_replicas (spec_scaling (dp_spec d)) \<le> n \<and> n \<le> sp_max_replicas (spec_scaling (dp_spec d))"
  by (auto simp: desired_replicas_def clamp_def Let_def split: if_splits)

lemma desired_panics_iff:
  "desired_replicas d now a = None \<longleftrightarrow>
     sp_max_replicas (spec_scaling (dp_spec d)) < sp_min_replicas (spec_scaling (dp_spec d))"
  by (simp add: desired_replicas_def clamp_def Let_def)

lemma replicas_wanted_covers:
  assumes "dem \<le> u32_max" "0 < dem"
  shows "dem \<le> replicas_wanted p dem idle * max (sp_target_concurrency p) 1"
proof -
  let ?t = "max (sp_target_concurrency p) 1" and ?n = "div_ceil dem (max (sp_target_concurrency p) 1)"
  have t: "0 < ?t" by simp
  have "?n \<le> dem" by (rule div_ceil_least[OF t]) (simp add: max_def)
  then have n: "as_u32 ?n = ?n" using assms by (intro as_u32_small) simp
  have "?n \<le> u32_sat_add ?n (sp_warm_pool p)" using \<open>?n \<le> dem\<close> assms by (simp add: u32_sat_add_def)
  then have "?n * ?t \<le> u32_sat_add ?n (sp_warm_pool p) * ?t" by (rule mult_le_mono1)
  with div_ceil_covers[OF t, of dem] have "dem \<le> u32_sat_add ?n (sp_warm_pool p) * ?t" by linarith
  with n assms(2) show ?thesis by (simp add: replicas_wanted_def Let_def)
qed

lemma desired_covers:
  assumes d: "desired_replicas d now a = Some n" and dem: "0 < demand d a" "demand d a \<le> u32_max"
  shows "n = sp_max_replicas (spec_scaling (dp_spec d)) \<or>
    demand d a \<le> n * max (sp_target_concurrency (spec_scaling (dp_spec d))) 1"
proof -
  let ?p = "spec_scaling (dp_spec d)"
  let ?w = "replicas_wanted ?p (demand d a) (idle_for d now a)"
  have n: "n = max (sp_min_replicas ?p) (min ?w (sp_max_replicas ?p))"
    and le: "sp_min_replicas ?p \<le> sp_max_replicas ?p"
    using d by (auto simp: desired_replicas_def clamp_def Let_def split: if_splits)
  show ?thesis
  proof (cases "?w \<le> sp_max_replicas ?p")
    case True
    then have "?w \<le> n" using n by simp
    then have "?w * max (sp_target_concurrency ?p) 1 \<le> n * max (sp_target_concurrency ?p) 1" by (rule mult_le_mono1)
    with replicas_wanted_covers[OF dem(2,1), of ?p "idle_for d now a"] show ?thesis by linarith
  next
    case False
    with n le show ?thesis by simp
  qed
qed

section \<open>Backoff\<close>

lemma boot_backoff_bounds: "boot_backoff_secs n \<le> BOOT_BACKOFF_MAX_SECS"
  by (simp add: boot_backoff_secs_def)

lemma boot_backoff_value:
  "boot_backoff_secs n = (if n = 0 then 0 else if n \<le> 7 then 30 * 2 ^ (n - 1) else 3600)"
proof (cases "n = 0")
  case True
  then show ?thesis by (simp add: boot_backoff_secs_def)
next
  case n: False
  show ?thesis
  proof (cases "n \<le> 7")
    case True
    then have "(2 :: nat) ^ (n - 1) \<le> 2 ^ 6" by (intro power_increasing) auto
    with n True show ?thesis
      by (simp add: boot_backoff_secs_def u64_sat_mul_def u64_max_def BOOT_BACKOFF_BASE_SECS_def BOOT_BACKOFF_MAX_SECS_def)
  next
    case False
    then have "(2 :: nat) ^ 7 \<le> 2 ^ min (n - 1) 63" by (intro power_increasing) auto
    with n False show ?thesis
      by (simp add: boot_backoff_secs_def u64_sat_mul_def u64_max_def BOOT_BACKOFF_BASE_SECS_def BOOT_BACKOFF_MAX_SECS_def min_def)
  qed
qed

lemma boot_backoff_mono: "m \<le> n \<Longrightarrow> boot_backoff_secs m \<le> boot_backoff_secs n"
proof (induction rule: inc_induct)
  case (step k)
  have "boot_backoff_secs k \<le> boot_backoff_secs (Suc k)"
  proof (cases "k \<le> 6")
    case True
    then have "k \<in> {0, 1, 2, 3, 4, 5, 6}" by auto
    then show ?thesis by (auto simp: boot_backoff_value)
  next
    case False
    then have "boot_backoff_secs (Suc k) = 3600" by (simp add: boot_backoff_value)
    with boot_backoff_bounds[of k] show ?thesis by (simp add: BOOT_BACKOFF_MAX_SECS_def)
  qed
  with step show ?case by simp
qed simp

section \<open>Operator drains\<close>

text \<open>On a static deployment a backend is draining exactly when an operator drain names its peer.\<close>

definition drains_applied :: "deployment \<Rightarrow> arena \<Rightarrow> bool" where
  "drains_applied d a \<longleftrightarrow> is_static (dp_spec d) \<longrightarrow>
     (\<forall>r \<in> set (dp_backends d). vb_draining (ar_cell a r) \<longleftrightarrow>
        vb_peer (ar_cell a r) \<in> drained_peers (dp_state d))"

definition drain_mark :: "deployment_state \<Rightarrow> vm_backend \<Rightarrow> vm_backend" where
  "drain_mark st b = set_draining b (vb_peer b \<in> drained_peers st)"

lemma drain_mark_simps [simp]:
  "vb_peer (drain_mark st b) = vb_peer b" "vb_draining (drain_mark st b) \<longleftrightarrow> vb_peer b \<in> drained_peers st"
  "vb_in_flight (drain_mark st b) = vb_in_flight b" "vb_healthy (drain_mark st b) = vb_healthy b"
  "drain_mark st (drain_mark st b) = drain_mark st b"
  by (simp_all add: drain_mark_def set_draining_def)

lemma mark_drains_cell:
  "ar_cell (mark_drains st refs a) r = (if r \<in> set refs then drain_mark st (ar_cell a r) else ar_cell a r)"
proof -
  have f: "(\<lambda>b. set_draining b (list_ex (\<lambda>d. ud_upstream d = vb_peer b) (ds_upstream_drains st))) = drain_mark st"
    by (rule ext) (simp add: drain_mark_def drained_peers_def list_ex_iff image_iff eq_commute)
  show ?thesis unfolding mark_drains_def f
    by (induction refs arbitrary: a) (auto simp: arena_update_def)
qed

lemma set_state_drains: "case set_state st d a of (d', a') \<Rightarrow> drains_applied d' a'"
  by (simp add: set_state_def drains_applied_def mark_drains_cell)

lemma set_backends_drains: "case set_backends refs d a of (d', a') \<Rightarrow> drains_applied d' a'"
  by (simp add: set_backends_def drains_applied_def mark_drains_cell)

section \<open>Properties\<close>

text \<open>
  The balancer picks a least-loaded backend among the available ones not tried yet, and finds
  none only when there is none.
\<close>

theorem select_least_loaded:
  "case select d exclude a of
     None \<Rightarrow> \<not> list_ex (\<lambda>r. is_available (ar_cell a r) \<and> vb_peer (ar_cell a r) \<notin> set exclude) (dp_backends d)
   | Some r \<Rightarrow> r \<in> set (dp_backends d) \<and> is_available (ar_cell a r) \<and> vb_peer (ar_cell a r) \<notin> set exclude \<and>
       list_all (\<lambda>r'. vb_in_flight (ar_cell a r) \<le> vb_in_flight (ar_cell a r'))
         (filter (\<lambda>r. is_available (ar_cell a r) \<and> vb_peer (ar_cell a r) \<notin> set exclude) (dp_backends d))"
proof (cases "select d exclude a")
  case None
  then show ?thesis by (auto simp: select_def filter_empty_conv list_ex_iff)
next
  case (Some r)
  from min_by_key_Some[OF Some[unfolded select_def]] Some show ?thesis by (simp add: list_all_iff)
qed

text \<open>
  C39. The desired replica count stays between the policy's bounds, and covers the demand at the
  target concurrency unless it is at the maximum or the demand exceeds 32 bits; it
  panics exactly when the bounds are the wrong way round.
\<close>

theorem desired_replicas_spec:
  "case desired_replicas d now a of
     None \<Rightarrow> sp_max_replicas (spec_scaling (dp_spec d)) < sp_min_replicas (spec_scaling (dp_spec d))
   | Some n \<Rightarrow> sp_min_replicas (spec_scaling (dp_spec d)) \<le> n \<and> n \<le> sp_max_replicas (spec_scaling (dp_spec d)) \<and>
       (n = sp_max_replicas (spec_scaling (dp_spec d)) \<or> demand d a > u32_max \<or>
        demand d a \<le> n * max (sp_target_concurrency (spec_scaling (dp_spec d))) 1)"
proof (cases "desired_replicas d now a")
  case None
  with desired_panics_iff[of d now a] show ?thesis by simp
next
  case (Some n)
  with desired_bounds[OF Some] desired_covers[OF Some] show ?thesis
    by (cases "demand d a = 0"; cases "demand d a \<le> u32_max") auto
qed

text \<open>
  After n failed boots in a row the deployment waits 30 seconds doubled each time, at most an
  hour; the wait never shrinks with another failure and the shift never overflows.
\<close>

theorem boot_backoff_schedule:
  "boot_backoff_secs n = (if n = 0 then 0 else if n \<le> 7 then 30 * 2 ^ (n - 1) else 3600) \<and>
   boot_backoff_secs n \<le> boot_backoff_secs (n + k)"
  using boot_backoff_value boot_backoff_mono[of n "n + k"] by simp

end
