(* ===== verification/Registry.thy ===== *)
theory Registry
  imports Deployment
begin

text \<open>
  The registry of \<open>app-lb/src/registry.rs\<close>: the deployments by id, the route index kept beside them,
  and the withdrawn backend generations that still serve requests. Every write goes through
  \<open>install\<close>. Clock, parser of upstream URLs and the revisions drawn by \<open>rollout::revision\<close> are
  arguments; an operation that returns \<open>None\<close> in the outer option panicked.

  The theory shows that the index is always the one of the registered deployments, that pools never
  share a backend, that operator drains hold on every static pool and that a withdrawn backend stays
  closed; that a frozen deployment cannot be replaced or removed; and what a replacement keeps.
\<close>

section \<open>The registry\<close>

record registry =
  reg_deployments :: "(string \<times> deployment) list"
  reg_routes :: route_table
  reg_retired :: "string \<rightharpoonup> backend_ref list"
  reg_arena :: arena

definition registry_new :: "arena \<Rightarrow> registry" where
  "registry_new a =
     \<lparr>reg_deployments = [], reg_routes = route_table_default, reg_retired = Map.empty, reg_arena = a\<rparr>"

definition get :: "registry \<Rightarrow> string \<Rightarrow> deployment option" where
  "get r i = map_of (reg_deployments r) i"

definition frozen :: "deployment \<Rightarrow> bool" where
  "frozen d \<longleftrightarrow> ds_retirement (dp_state d) \<noteq> None"

definition retirement_frozen :: "registry \<Rightarrow> string \<Rightarrow> bool" where
  "retirement_frozen r i = (case get r i of Some d \<Rightarrow> frozen d | None \<Rightarrow> False)"

definition allocation_protects :: "registry \<Rightarrow> string \<Rightarrow> bool" where
  "allocation_protects r sandbox =
     list_ex (\<lambda>(_, d). list_ex (\<lambda>c. ca_allocation c \<and> \<not> ca_runtime_observed c \<and>
                (case ca_sandbox_id c of None \<Rightarrow> True | Some i \<Rightarrow> i = sandbox))
              (ds_create_attempts (dp_state d)))
       (reg_deployments r)"

definition protected_ids :: "deployment_state \<Rightarrow> string list" where
  "protected_ids st =
     concat (map (\<lambda>o'. ro_previous o' @ List.map_filter (\<lambda>x. x) (ro_allocations o')) (ds_rollouts st))"

definition retirement_protects :: "registry \<Rightarrow> string \<Rightarrow> string option \<Rightarrow> bool" where
  "retirement_protects r sandbox deployment =
     ((case deployment of Some i \<Rightarrow> retirement_frozen r i | None \<Rightarrow> False) \<or>
      list_ex (\<lambda>(_, d). case ds_retirement (dp_state d) of
          None \<Rightarrow> False
        | Some op \<Rightarrow> sandbox \<in> set (ret_targets op) \<or> sandbox \<in> set (ret_inventory op)
            \<or> list_ex (\<lambda>c. ca_sandbox_id c = Some sandbox) (ds_create_attempts (dp_state d))
            \<or> sandbox \<in> set (protected_ids (dp_state d)))
        (reg_deployments r))"

definition adoptable :: "deployment \<Rightarrow> string \<Rightarrow> string \<Rightarrow> bool" where
  "adoptable d name i =
     (let st = dp_state d in
      if ds_retirement st \<noteq> None then False
      else if list_ex (\<lambda>c. ca_allocation c \<and> \<not> ca_runtime_observed c) (ds_create_attempts st) then False
      else case ds_active_prefix st of
        Some p \<Rightarrow> prefix p name
      | None \<Rightarrow> \<not> list_ex (\<lambda>o'. prefix (ro_prefix o') name
                    \<or> i \<in> set (ro_previous o') \<and> ro_readiness_verified o') (ds_rollouts st))"

definition route :: "registry \<Rightarrow> string option \<Rightarrow> string \<Rightarrow> deployment option" where
  "route r host path = Option.bind (resolve (reg_routes r) host path) (get r)"

subsection \<open>Publication\<close>

definition routes_of :: "deployment \<Rightarrow> route_rule list" where
  "routes_of d = spec_routes (dp_spec d)"

definition install :: "deployment option \<Rightarrow> string \<Rightarrow> registry \<Rightarrow> registry" where
  "install dep i r =
     r\<lparr>reg_deployments := put i dep (reg_deployments r),
       reg_routes := route_updated (reg_routes r) i (map_option routes_of (get r i)) (map_option routes_of dep)\<rparr>"

definition publish :: "deployment \<Rightarrow> registry \<Rightarrow> registry" where
  "publish d r =
     (if retirement_frozen r (spec_id (dp_spec d)) then r
      else install (Some d) (spec_id (dp_spec d)) r)"

text \<open>\<open>Deployment::set_state\<close> on a registered deployment: the entry changes in place.\<close>

definition reg_set_state :: "string \<Rightarrow> deployment_state \<Rightarrow> registry \<Rightarrow> registry" where
  "reg_set_state i st r =
     (case get r i of
        None \<Rightarrow> r
      | Some d \<Rightarrow> (case set_state st d (reg_arena r) of (d', a) \<Rightarrow>
          r\<lparr>reg_deployments := put i (Some d') (reg_deployments r), reg_arena := a\<rparr>))"

definition reg_backend_op :: "backend_ref \<Rightarrow> backend_op \<Rightarrow> registry \<Rightarrow> bool \<times> registry" where
  "reg_backend_op b op r =
     (case run_op op (ar_cell (reg_arena r) b) of (ok, x) \<Rightarrow>
        (ok, r\<lparr>reg_arena := arena_update b (\<lambda>_. x) (reg_arena r)\<rparr>))"

subsection \<open>Withdrawal\<close>

definition peer_of :: "registry \<Rightarrow> backend_ref \<Rightarrow> string" where
  "peer_of r b = vb_peer (ar_cell (reg_arena r) b)"

definition busy :: "registry \<Rightarrow> backend_ref \<Rightarrow> bool" where
  "busy r b \<longleftrightarrow> vb_in_flight (ar_cell (reg_arena r) b) \<noteq> 0"

definition drain_all :: "backend_ref list \<Rightarrow> arena \<Rightarrow> arena" where
  "drain_all bs a = fold (\<lambda>b. arena_update b (\<lambda>x. set_draining x True)) bs a"

definition fence_discovery_removals :: "deployment \<Rightarrow> string list \<Rightarrow> registry \<Rightarrow> registry" where
  "fence_discovery_removals d upstreams r =
     (let removed = filter (\<lambda>b. peer_of r b \<notin> set upstreams) (dp_backends d);
          i = spec_id (dp_spec d);
          generations = (case reg_retired r i of Some bs \<Rightarrow> bs | None \<Rightarrow> [])
      in r\<lparr>reg_arena := drain_all removed (reg_arena r),
           reg_retired := (if removed = [] then reg_retired r
                           else (reg_retired r)(i \<mapsto> filter (busy r) generations @ removed))\<rparr>)"

definition discovery_backends :: "string \<Rightarrow> registry \<Rightarrow> backend_ref list \<times> registry" where
  "discovery_backends i r =
     (let current = (case get r i of Some d \<Rightarrow> dp_backends d | None \<Rightarrow> []) in
      case reg_retired r i of
        None \<Rightarrow> (current, r)
      | Some bs \<Rightarrow>
          (let kept = filter (busy r) bs
           in (current @ kept,
               r\<lparr>reg_retired := (reg_retired r)(i := (if kept = [] then None else Some kept))\<rparr>)))"

subsection \<open>Replacement\<close>

definition region_of :: "deployment_spec \<Rightarrow> string option" where
  "region_of s = Option.bind (spec_discovery s) dc_region"

definition service_of :: "deployment_spec \<Rightarrow> (string \<times> string option) option" where
  "service_of s = map_option (\<lambda>d. (dc_service_id d, dc_region d)) (spec_discovery s)"

definition rescoped :: "deployment option \<Rightarrow> deployment_spec \<Rightarrow> deployment_spec" where
  "rescoped previous spec =
     (case previous of
        None \<Rightarrow> spec
      | Some old \<Rightarrow>
          if region_of (dp_spec old) \<noteq> region_of spec \<and> spec_discovery spec \<noteq> None
          then spec\<lparr>spec_upstreams := []\<rparr> else spec)"

definition carried_state :: "deployment \<Rightarrow> deployment_spec \<Rightarrow> deployment_state option" where
  "carried_state old spec =
     (if is_static spec \<and> is_static (dp_spec old) then
        (let st = dp_state old;
             same = (service_of (dp_spec old) = service_of spec);
             st1 = (if same then st else st\<lparr>ds_discovery_version := None, ds_discovery_source_url := None\<rparr>)
         in Some (if spec_discovery spec = None \<or> \<not> same
                  then st1\<lparr>ds_upstream_drains :=
                         filter (\<lambda>d. ud_upstream d \<in> set (spec_upstreams spec)) (ds_upstream_drains st1)\<rparr>
                  else st1))
      else None)"

definition carry_regional :: "deployment \<Rightarrow> deployment \<Rightarrow> arena \<Rightarrow> deployment \<times> arena" where
  "carry_regional old d a =
     (if spec_namespace (dp_spec old) = spec_namespace (dp_spec d)
         \<and> spec_discovery (dp_spec old) = spec_discovery (dp_spec d)
      then (d\<lparr>dp_regional := dp_regional old\<rparr>, a)
      else (d, case dp_regional old of Some x \<Rightarrow> router_fence x a | None \<Rightarrow> a))"

definition carry_history :: "string \<Rightarrow> deployment \<Rightarrow> deployment \<Rightarrow> arena \<Rightarrow> deployment \<times> arena" where
  "carry_history revision old d a =
     snd (mutate_state (\<lambda>s. s\<lparr>ds_rollouts := ds_rollouts (dp_state old),
                              ds_create_attempts := ds_create_attempts (dp_state old),
                              ds_allocation_history_complete := ds_allocation_history_complete (dp_state old),
                              ds_rollout_revision := revision\<rparr>) d a)"

text \<open>
  Each upstream takes the first old backend of its address not taken yet, or the fresh one at its
  index. The flag beside an old backend is the source's \<open>used\<close> array.
\<close>

fun reuse :: "(backend_ref \<Rightarrow> string) \<Rightarrow> (backend_ref \<times> bool) list \<Rightarrow> (string \<times> backend_ref) list \<Rightarrow> backend_ref list" where
  "reuse peer old [] = []"
| "reuse peer old ((u, fresh) # rest) =
     (case position (\<lambda>(b, used). \<not> used \<and> peer b = u) old of
        Some k \<Rightarrow> fst (old ! k) # reuse peer (old[k := (fst (old ! k), True)]) rest
      | None \<Rightarrow> fresh # reuse peer old rest)"

definition keep_backends :: "deployment \<Rightarrow> deployment \<Rightarrow> arena \<Rightarrow> deployment \<times> arena" where
  "keep_backends old d a =
     (if is_static (dp_spec d) \<and> is_static (dp_spec old) then
        set_backends (reuse (\<lambda>b. vb_peer (ar_cell a b)) (map (\<lambda>b. (b, False)) (dp_backends old))
                        (zip (spec_upstreams (dp_spec d)) (dp_backends d))) d a
      else (d, a))"

text \<open>What a replacement takes from the deployment it replaces, in the order of the source.\<close>

definition inherit :: "string \<Rightarrow> deployment \<Rightarrow> deployment \<Rightarrow> arena \<Rightarrow> deployment \<times> arena" where
  "inherit revision old d0 a0 =
     (case carry_regional old d0 a0 of (d1, a1) \<Rightarrow>
      case (case carried_state old (dp_spec d0) of Some st \<Rightarrow> set_state st d1 a1 | None \<Rightarrow> (d1, a1)) of (d2, a2) \<Rightarrow>
      case carry_history revision old d2 a2 of (d3, a3) \<Rightarrow>
      keep_backends old d3 a3)"

definition upsert :: "(string \<Rightarrow> parsed_url option) \<Rightarrow> string \<times> string \<Rightarrow> nat \<Rightarrow> deployment_spec \<Rightarrow> registry \<Rightarrow>
    (deployment \<times> registry) option" where
  "upsert url_parse revisions now spec0 r =
     (let previous = get r (spec_id spec0) in
      case previous of
        Some old \<Rightarrow>
          if frozen old then Some (old, r)
          else
            (let spec = rescoped previous spec0;
                 r1 = (if spec_discovery (dp_spec old) \<noteq> None
                       then fence_discovery_removals old (spec_upstreams spec) r else r)
             in case deployment_new url_parse (fst revisions) now spec (reg_arena r1) of
                  None \<Rightarrow> None
                | Some (d0, a0) \<Rightarrow>
                    (case inherit (snd revisions) old d0 a0 of (d, a) \<Rightarrow>
                       Some (d, install (Some d) (spec_id spec) (r1\<lparr>reg_arena := a\<rparr>))))
      | None \<Rightarrow>
          (case deployment_new url_parse (fst revisions) now spec0 (reg_arena r) of
             None \<Rightarrow> None
           | Some (d, a) \<Rightarrow> Some (d, install (Some d) (spec_id spec0) (r\<lparr>reg_arena := a\<rparr>))))"

definition apply_discovery_upstreams :: "(string \<Rightarrow> parsed_url option) \<Rightarrow> string \<times> string \<Rightarrow> nat \<Rightarrow> deployment \<Rightarrow>
    string list \<Rightarrow> registry \<Rightarrow> (deployment \<times> registry) option" where
  "apply_discovery_upstreams url_parse revisions now d upstreams r =
     upsert url_parse revisions now ((dp_spec d)\<lparr>spec_upstreams := upstreams\<rparr>) r"

definition update_spec :: "(string \<Rightarrow> parsed_url option) \<Rightarrow> string \<times> string \<Rightarrow> nat \<Rightarrow> deployment_spec \<Rightarrow> registry \<Rightarrow>
    (deployment option \<times> registry) option" where
  "update_spec url_parse revisions now spec r =
     (case get r (spec_id spec) of
        None \<Rightarrow> Some (None, r)
      | Some old \<Rightarrow>
          if frozen old then Some (None, r)
          else case deployment_new url_parse (fst revisions) now spec (reg_arena r) of
            None \<Rightarrow> None
          | Some (d0, a0) \<Rightarrow>
              (case set_state (dp_state old) d0 a0 of (d1, a1) \<Rightarrow>
               case snd (mutate_state (\<lambda>s. s\<lparr>ds_rollout_revision := snd revisions\<rparr>) d1 a1) of (d2, a2) \<Rightarrow>
               case set_backends (dp_backends old) d2 a2 of (d3, a3) \<Rightarrow>
               let d = set_pending (dp_pending old) d3
               in Some (Some d, install (Some d) (spec_id spec) (r\<lparr>reg_arena := a3\<rparr>))))"

definition remove :: "string \<Rightarrow> registry \<Rightarrow> deployment option \<times> registry" where
  "remove i r =
     (case get r i of
        None \<Rightarrow> (None, r)
      | Some d \<Rightarrow>
          if frozen d then (None, r)
          else if list_ex ca_allocation (ds_create_attempts (dp_state d)) then (None, r)
          else
            (let r1 = (if spec_discovery (dp_spec d) \<noteq> None then fence_discovery_removals d [] r else r)
             in (Some d, install None i r1)))"

subsection \<open>State files\<close>

definition hex_upper :: "nat \<Rightarrow> char" where
  "hex_upper n = ''0123456789ABCDEF'' ! n"

definition plain_byte :: "char \<Rightarrow> bool" where
  "plain_byte c \<longleftrightarrow> is_ascii_alphanumeric c \<or> c = CHR ''-'' \<or> c = CHR ''_''"

definition escape_byte :: "char \<Rightarrow> string" where
  "escape_byte c =
     (if plain_byte c then [c] else [CHR ''%'', hex_upper (byte c div 16), hex_upper (byte c mod 16)])"

definition state_file_name :: "string \<Rightarrow> string" where
  "state_file_name i = concat (map escape_byte i) @ ''.json''"

section \<open>The invariant\<close>

definition index_ok :: "registry \<Rightarrow> bool" where
  "index_ok r \<longleftrightarrow> distinct (map fst (reg_deployments r)) \<and>
     (\<forall>(i, d) \<in> set (reg_deployments r). spec_id (dp_spec d) = i) \<and>
     reg_routes r = route_build (map (\<lambda>(i, d). (i, routes_of d)) (reg_deployments r))"

text \<open>
  The pools, except that of a deployment about to be replaced: operator drains hold, pools hold
  allocated backends and share none, and withdrawn backends are closed and in no pool.
\<close>

definition others :: "string set \<Rightarrow> registry \<Rightarrow> (string \<times> deployment) set" where
  "others X r = {p \<in> set (reg_deployments r). fst p \<notin> X}"

definition pool_ok :: "arena \<Rightarrow> deployment \<Rightarrow> bool" where
  "pool_ok a d \<longleftrightarrow> drains_applied d a \<and> (\<forall>b \<in> set (dp_backends d). b < ar_next a)"

definition retired_refs :: "registry \<Rightarrow> backend_ref set" where
  "retired_refs r = {b. \<exists>i bs. reg_retired r i = Some bs \<and> b \<in> set bs}"

definition retired_ok :: "arena \<Rightarrow> backend_ref \<Rightarrow> bool" where
  "retired_ok a b \<longleftrightarrow> vb_draining (ar_cell a b) \<and> b < ar_next a"

definition pools_ok :: "string set \<Rightarrow> registry \<Rightarrow> bool" where
  "pools_ok X r \<longleftrightarrow>
     (\<forall>i d. (i, d) \<in> others X r \<longrightarrow>
        pool_ok (reg_arena r) d \<and> set (dp_backends d) \<inter> retired_refs r = {}) \<and>
     (\<forall>i d j e. (i, d) \<in> others X r \<and> (j, e) \<in> others X r \<and> i \<noteq> j \<longrightarrow>
        set (dp_backends d) \<inter> set (dp_backends e) = {}) \<and>
     (\<forall>b \<in> retired_refs r. retired_ok (reg_arena r) b)"

definition reg_ok :: "registry \<Rightarrow> bool" where
  "reg_ok r \<longleftrightarrow> index_ok r \<and> pools_ok {} r"

text \<open>\<open>touches R a a'\<close>: from \<open>a\<close> to \<open>a'\<close> only the backends \<open>R\<close> change, and none is freed.\<close>

definition touches :: "backend_ref set \<Rightarrow> arena \<Rightarrow> arena \<Rightarrow> bool" where
  "touches R a a' \<longleftrightarrow> ar_next a \<le> ar_next a' \<and> (\<forall>b. b \<notin> R \<longrightarrow> ar_cell a' b = ar_cell a b)"

lemma touches_refl [simp]: "touches R a a"
  by (simp add: touches_def)

lemma touches_trans: "touches R a a' \<Longrightarrow> touches S a' a'' \<Longrightarrow> touches (R \<union> S) a a''"
  by (auto simp: touches_def)

lemma touches_mono: "touches R a a' \<Longrightarrow> R \<subseteq> S \<Longrightarrow> touches S a a'"
  by (auto simp: touches_def)

lemma drains_applied_cong:
  "(\<And>b. b \<in> set (dp_backends d) \<Longrightarrow> ar_cell a' b = ar_cell a b) \<Longrightarrow> drains_applied d a' = drains_applied d a"
  by (simp add: drains_applied_def)

lemma pool_ok_touches:
  "touches R a a' \<Longrightarrow> set (dp_backends d) \<inter> R = {} \<Longrightarrow> pool_ok a d \<Longrightarrow> pool_ok a' d"
proof -
  assume t: "touches R a a'" "set (dp_backends d) \<inter> R = {}" "pool_ok a d"
  then have "drains_applied d a' = drains_applied d a"
    by (intro drains_applied_cong) (auto simp: touches_def)
  with t show "pool_ok a' d" by (auto simp: pool_ok_def touches_def)
qed

lemma retired_ok_touches: "touches R a a' \<Longrightarrow> b \<notin> R \<Longrightarrow> retired_ok a b \<Longrightarrow> retired_ok a' b"
  by (auto simp: touches_def retired_ok_def)

section \<open>Publishing one deployment\<close>

lemma install_index_ok:
  assumes ok: "index_ok r" and d: "\<And>d. dep = Some d \<Longrightarrow> spec_id (dp_spec d) = i"
  shows "index_ok (install dep i r)"
proof -
  let ?R = "\<lambda>ds. map (\<lambda>(i, d). (i, routes_of d)) ds" and ?ds = "reg_deployments r"
  have dist: "distinct (map fst ?ds)" using ok by (simp add: index_ok_def)
  then have dist': "distinct (map fst (?R ?ds))" by (simp add: comp_def case_prod_unfold)
  have m: "map_of (?R ?ds) i = map_option routes_of (get r i)" by (simp add: get_def map_of_map)
  have "reg_routes (install dep i r) = route_build (?R (put i dep ?ds))"
    using ok table.updated_put[OF dist', of i "map_option routes_of dep"]
    by (simp add: install_def index_ok_def m map_put)
  with dist d ok show ?thesis
    by (auto simp: index_ok_def install_def set_put split: option.splits)
qed

lemma install_pools_ok:
  assumes dist: "distinct (map fst (reg_deployments r))" and ok: "pools_ok {i} r"
    and t: "touches R (reg_arena r) a"
    and free: "R \<inter> retired_refs r = {}" "\<And>j e. (j, e) \<in> others {i} r \<Longrightarrow> set (dp_backends e) \<inter> R = {}"
    and dep: "\<And>d. dep = Some d \<Longrightarrow> pool_ok a d \<and> set (dp_backends d) \<inter> retired_refs r = {} \<and>
      (\<forall>j e. (j, e) \<in> others {i} r \<longrightarrow> set (dp_backends d) \<inter> set (dp_backends e) = {})"
  shows "pools_ok {} (install dep i (r\<lparr>reg_arena := a\<rparr>))"
proof -
  let ?r = "install dep i (r\<lparr>reg_arena := a\<rparr>)"
  have others: "others {} ?r = others {i} r \<union> (case dep of None \<Rightarrow> {} | Some d \<Rightarrow> {(i, d)})"
    using dist by (auto simp: others_def install_def set_put split: option.splits)
  have refs: "retired_refs ?r = retired_refs r" and arena: "reg_arena ?r = a"
    by (simp_all add: retired_refs_def install_def)
  have old: "pool_ok a e" "set (dp_backends e) \<inter> retired_refs r = {}" if "(j, e) \<in> others {i} r" for j e
    using that ok free(2)[OF that] t by (auto simp: pools_ok_def intro: pool_ok_touches)
  have ret: "retired_ok a b" if "b \<in> retired_refs r" for b
    using that ok free(1) t by (auto simp: pools_ok_def intro: retired_ok_touches)
  have pair: "set (dp_backends d) \<inter> set (dp_backends e) = {}"
    if "(j, d) \<in> others {i} r" "(k, e) \<in> others {i} r" "j \<noteq> k" for j d k e
    using that ok unfolding pools_ok_def by blast
  show ?thesis
  proof (cases dep)
    case None
    with old ret pair show ?thesis unfolding pools_ok_def others refs arena by simp blast
  next
    case (Some d)
    have new: "pool_ok a d" "set (dp_backends d) \<inter> retired_refs r = {}"
      and apart: "\<And>j e. (j, e) \<in> others {i} r \<Longrightarrow> set (dp_backends d) \<inter> set (dp_backends e) = {}"
      using dep[OF Some] by blast+
    show ?thesis unfolding pools_ok_def others refs arena
    proof (intro conjI allI impI ballI)
      fix k f l g
      assume kl: "(k, f) \<in> others {i} r \<union> (case dep of None \<Rightarrow> {} | Some d \<Rightarrow> {(i, d)}) \<and>
        (l, g) \<in> others {i} r \<union> (case dep of None \<Rightarrow> {} | Some d \<Rightarrow> {(i, d)}) \<and> k \<noteq> l"
      then consider "(k, f) \<in> others {i} r" "(l, g) \<in> others {i} r" | "f = d" "(l, g) \<in> others {i} r" | "g = d" "(k, f) \<in> others {i} r"
        using Some by auto
      then show "set (dp_backends f) \<inter> set (dp_backends g) = {}"
        using kl pair apart by cases (blast, blast, metis Int_commute)
    next
      fix k f assume "(k, f) \<in> others {i} r \<union> (case dep of None \<Rightarrow> {} | Some d \<Rightarrow> {(i, d)})"
      then have kf: "(k, f) \<in> others {i} r \<or> f = d" using Some by auto
      from kf show "pool_ok a f" using old(1) new(1) by blast
      from kf show "set (dp_backends f) \<inter> retired_refs r = {}" using old(2) new(2) by blast
    qed (rule ret)
  qed
qed

section \<open>Building a replacement\<close>

lemma arena_alloc_all_spec:
  "arena_alloc_all a bs = (refs, a') \<Longrightarrow>
     refs = [ar_next a ..< ar_next a + length bs] \<and> ar_next a' = ar_next a + length bs \<and>
     (\<forall>k < length bs. ar_cell a' (ar_next a + k) = bs ! k) \<and>
     (\<forall>b < ar_next a. ar_cell a' b = ar_cell a b) \<and> (\<forall>b \<ge> ar_next a'. ar_cell a' b = ar_cell a b)"
proof (induction bs arbitrary: a refs)
  case Nil
  then show ?case by simp
next
  case (Cons x bs)
  let ?a = "a\<lparr>ar_next := ar_next a + 1, ar_cell := (ar_cell a)(ar_next a := x)\<rparr>"
  obtain rs where rest: "arena_alloc_all ?a bs = (rs, a')" and refs: "refs = ar_next a # rs"
    using Cons.prems by (auto simp: arena_alloc_def split: prod.splits)
  note ih = Cons.IH[OF rest]
  have "ar_cell a' (ar_next a + k) = (x # bs) ! k" if "k < length (x # bs)" for k
  proof (cases k)
    case 0
    with ih show ?thesis by simp
  next
    case (Suc m)
    with that ih have "ar_cell a' (ar_next ?a + m) = bs ! m" by simp
    with Suc show ?thesis by simp
  qed
  with ih refs show ?case by (simp add: upt_rec)
qed

lemma deployment_router_spec:
  "deployment_router spec a = (router, a') \<Longrightarrow> ar_next a' = ar_next a \<and> ar_cell a' = ar_cell a"
  by (auto simp: deployment_router_def router_new_def split: option.splits)

lemma those_nth: "those xs = Some ys \<Longrightarrow> length ys = length xs \<and> (\<forall>k < length ys. xs ! k = Some (ys ! k))"
proof (induction xs arbitrary: ys)
  case (Cons x xs)
  then obtain y zs where "x = Some y" "those xs = Some zs" "ys = y # zs" by (auto split: option.splits)
  with Cons.IH[of zs] show ?case by (auto simp: nth_Cons split: nat.splits)
qed simp

lemma backend_for_upstream_Some:
  "backend_for_upstream P u now = Some x \<Longrightarrow> vb_peer x = u \<and> \<not> vb_draining x \<and> vb_in_flight x = 0"
  by (auto simp: backend_for_upstream_def backend_with_peer_def)

lemma deployment_new_spec:
  assumes "deployment_new P rv now spec a = Some (d, a')"
  shows "dp_spec d = spec \<and> dp_state d = deployment_state_new rv \<and>
    dp_backends d = [ar_next a ..< ar_next a + length (spec_upstreams spec)] \<and>
    ar_next a' = ar_next a + length (spec_upstreams spec) \<and> touches (set (dp_backends d)) a a' \<and>
    map (\<lambda>b. vb_peer (ar_cell a' b)) (dp_backends d) = spec_upstreams spec \<and>
    (\<forall>b \<in> set (dp_backends d). \<not> vb_draining (ar_cell a' b) \<and> vb_in_flight (ar_cell a' b) = 0)"
proof -
  obtain bs where bs: "those (map (\<lambda>u. backend_for_upstream P u now) (spec_upstreams spec)) = Some bs"
    using assms by (auto simp: deployment_new_def split: option.splits)
  obtain refs a1 router a2 where r: "arena_alloc_all a bs = (refs, a1)" "deployment_router spec a1 = (router, a2)"
    by (metis surj_pair)
  have d: "dp_spec d = spec" "dp_state d = deployment_state_new rv" "dp_backends d = refs"
      "ar_next a' = ar_next a2" "ar_cell a' = ar_cell a2"
    using assms by (auto simp: deployment_new_def bs r)
  note alloc = arena_alloc_all_spec[OF r(1)] and rt = deployment_router_spec[OF r(2)]
  have len: "length bs = length (spec_upstreams spec)" using those_nth[OF bs] by simp
  have new: "vb_peer (bs ! k) = spec_upstreams spec ! k \<and> \<not> vb_draining (bs ! k) \<and> vb_in_flight (bs ! k) = 0"
    if "k < length bs" for k
  proof -
    have "backend_for_upstream P (spec_upstreams spec ! k) now = Some (bs ! k)"
      using that those_nth[OF bs] len by simp
    then show ?thesis by (rule backend_for_upstream_Some)
  qed
  have cell: "ar_cell a' (ar_next a + k) = bs ! k" if "k < length bs" for k
    using that alloc rt d(4,5) by simp
  have "map (\<lambda>b. vb_peer (ar_cell a' b)) refs = spec_upstreams spec"
    using alloc cell new len by (auto intro!: nth_equalityI)
  moreover have "\<not> vb_draining (ar_cell a' b) \<and> vb_in_flight (ar_cell a' b) = 0" if b: "b \<in> set refs" for b
  proof -
    obtain k where "k < length bs" "b = ar_next a + k"
      using b alloc le_Suc_ex[of "ar_next a" b] by auto
    with cell new show ?thesis by simp
  qed
  moreover have "touches (set refs) a a'"
    using alloc rt d(4,5) by (auto simp: touches_def not_le not_less)
  ultimately show ?thesis using d alloc rt len by simp
qed

lemma mark_drains_touches: "touches (set refs) a (mark_drains st refs a)"
proof -
  have "ar_next (mark_drains st refs a) = ar_next a"
    unfolding mark_drains_def by (induction refs arbitrary: a) (auto simp: arena_update_def)
  then show ?thesis by (simp add: touches_def mark_drains_cell)
qed

lemma set_state_spec:
  "set_state st d a = (d', a') \<Longrightarrow> dp_spec d' = dp_spec d \<and> dp_state d' = st \<and> dp_backends d' = dp_backends d \<and>
     dp_regional d' = dp_regional d \<and> touches (set (dp_backends d)) a a' \<and> drains_applied d' a'"
  using mark_drains_touches set_state_drains[of st d a] by (auto simp: set_state_def)

lemma mutate_state_spec:
  "snd (mutate_state f d a) = (d', a') \<Longrightarrow> dp_spec d' = dp_spec d \<and> dp_state d' = f (dp_state d) \<and>
     dp_backends d' = dp_backends d \<and> dp_regional d' = dp_regional d \<and>
     touches (set (dp_backends d)) a a' \<and> (drains_applied d a \<longrightarrow> drains_applied d' a')"
  using set_state_spec[of "f (dp_state d)" d a d' a'] by (auto simp: mutate_state_def Let_def split: if_splits)

lemma set_backends_spec:
  "set_backends refs d a = (d', a') \<Longrightarrow> dp_spec d' = dp_spec d \<and> dp_state d' = dp_state d \<and> dp_backends d' = refs \<and>
     dp_regional d' = dp_regional d \<and> touches (set refs) a a' \<and> drains_applied d' a'"
  using mark_drains_touches set_backends_drains[of refs d a] by (auto simp: set_backends_def)

lemma reuse_mem:
  "b \<in> set (reuse peer old us) \<Longrightarrow>
     (b \<in> fst ` set old \<and> peer b \<in> fst ` set us) \<or> b \<in> snd ` set us"
proof (induction peer old us rule: reuse.induct)
  case (1 peer old)
  then show ?case by simp
next
  case (2 peer old u fresh us)
  show ?case
  proof (cases "position (\<lambda>(b, used). \<not> used \<and> peer b = u) old")
    case None
    with 2 show ?thesis by auto
  next
    case (Some k)
    then have k: "k < length old" "case old ! k of (b, used) \<Rightarrow> \<not> used \<and> peer b = u"
      by (auto dest: position_Some)
    let ?old = "old[k := (fst (old ! k), True)]"
    have sub: "fst ` set ?old \<subseteq> fst ` set old"
      using k(1) by (auto simp: set_conv_nth nth_list_update image_iff split: if_splits)
    have "peer (fst (old ! k)) = u" using k(2) by (auto split: prod.splits)
    moreover have "fst (old ! k) \<in> fst ` set old" using k(1) by simp
    ultimately show ?thesis using 2 Some sub by auto
  qed
qed

lemma carry_regional_spec:
  "carry_regional old d a = (d', a') \<Longrightarrow> dp_spec d' = dp_spec d \<and> dp_state d' = dp_state d \<and>
     dp_backends d' = dp_backends d \<and> ar_cell a' = ar_cell a \<and> ar_next a' = ar_next a"
  by (auto simp: carry_regional_def router_fence_def split: if_splits option.splits)

lemma carry_history_spec:
  "carry_history rv old d a = (d', a') \<Longrightarrow> dp_spec d' = dp_spec d \<and> dp_backends d' = dp_backends d \<and>
     ds_upstream_drains (dp_state d') = ds_upstream_drains (dp_state d) \<and>
     ds_create_attempts (dp_state d') = ds_create_attempts (dp_state old) \<and>
     ds_rollouts (dp_state d') = ds_rollouts (dp_state old) \<and>
     ds_retirement (dp_state d') = ds_retirement (dp_state d) \<and>
     touches (set (dp_backends d)) a a' \<and> (drains_applied d a \<longrightarrow> drains_applied d' a')"
  unfolding carry_history_def by (drule mutate_state_spec) auto

lemma keep_backends_spec:
  assumes "keep_backends old d a = (d', a')"
  shows "dp_spec d' = dp_spec d \<and> dp_state d' = dp_state d \<and> touches (set (dp_backends d')) a a' \<and>
    (drains_applied d a \<longrightarrow> drains_applied d' a') \<and>
    (\<forall>b \<in> set (dp_backends d'). b \<in> set (dp_backends d) \<or>
       b \<in> set (dp_backends old) \<and> vb_peer (ar_cell a b) \<in> set (spec_upstreams (dp_spec d)))"
proof (cases "is_static (dp_spec d) \<and> is_static (dp_spec old)")
  case True
  let ?bs = "reuse (\<lambda>b. vb_peer (ar_cell a b)) (map (\<lambda>b. (b, False)) (dp_backends old))
    (zip (spec_upstreams (dp_spec d)) (dp_backends d))"
  have set: "set_backends ?bs d a = (d', a')" using assms True by (simp add: keep_backends_def)
  have "b \<in> set (dp_backends d) \<or> b \<in> set (dp_backends old) \<and> vb_peer (ar_cell a b) \<in> set (spec_upstreams (dp_spec d))"
    if "b \<in> set ?bs" for b
    using reuse_mem[OF that] by (auto simp: image_iff dest: set_zip_leftD set_zip_rightD)
  with set_backends_spec[OF set] show ?thesis by simp
next
  case False
  then have "d' = d" "a' = a" using assms by (auto simp: keep_backends_def)
  then show ?thesis by simp
qed

definition carried_drains :: "deployment \<Rightarrow> deployment_spec \<Rightarrow> upstream_drain list" where
  "carried_drains old spec = (case carried_state old spec of Some st \<Rightarrow> ds_upstream_drains st | None \<Rightarrow> [])"

lemma fresh_drains_applied:
  assumes "deployment_new P rv now spec a = Some (d, a')"
  shows "drains_applied d a'"
  using deployment_new_spec[OF assms]
  by (simp add: drains_applied_def drained_peers_def deployment_state_new_def)

lemma inherit_spec:
  assumes new: "deployment_new P rv now spec a = Some (d0, a0)" and inh: "inherit rv' old d0 a0 = (d, a')"
    and old: "\<forall>b \<in> set (dp_backends old). b < ar_next a"
  shows "dp_spec d = spec \<and> touches (set (dp_backends d0) \<union> set (dp_backends d)) a a' \<and> drains_applied d a' \<and>
    ar_next a0 \<le> ar_next a' \<and> ds_upstream_drains (dp_state d) = carried_drains old spec \<and>
    (\<forall>b \<in> set (dp_backends d). b \<in> set (dp_backends d0) \<or>
       b \<in> set (dp_backends old) \<and> vb_peer (ar_cell a b) \<in> set (spec_upstreams spec))"
proof -
  obtain d1 a1 where s1: "carry_regional old d0 a0 = (d1, a1)" by force
  obtain d2 a2 where s2: "(case carried_state old (dp_spec d0) of Some st \<Rightarrow> set_state st d1 a1 | None \<Rightarrow> (d1, a1)) = (d2, a2)"
    by (metis surj_pair)
  obtain d3 a3 where s3: "carry_history rv' old d2 a2 = (d3, a3)" by force
  have s4: "keep_backends old d3 a3 = (d, a')" using inh by (simp add: inherit_def s1 s2 s3)
  note n = deployment_new_spec[OF new] and p1 = carry_regional_spec[OF s1]
    and p3 = carry_history_spec[OF s3] and p4 = keep_backends_spec[OF s4]
  have app1: "drains_applied d1 a1" using fresh_drains_applied[OF new] p1 by (simp add: drains_applied_def)
  have p2: "dp_spec d2 = spec \<and> dp_backends d2 = dp_backends d0 \<and> touches (set (dp_backends d0)) a1 a2 \<and>
      drains_applied d2 a2 \<and> ds_upstream_drains (dp_state d2) = carried_drains old spec"
    using s2 n p1 app1 set_state_spec[of _ d1 a1 d2 a2]
    by (auto simp: carried_drains_def deployment_state_new_def split: option.splits)
  let ?F = "set (dp_backends d0)"
  have "touches ?F a a1" using n p1 by (simp add: touches_def)
  then have t3: "touches ?F a a3" using p2 p3 touches_trans[of ?F a a1 ?F a2] touches_trans[of ?F a a2 ?F a3] by simp
  have "vb_peer (ar_cell a3 b) = vb_peer (ar_cell a b)" if "b \<in> set (dp_backends old)" for b
    using that old n t3 by (auto simp: touches_def)
  moreover have "touches (?F \<union> set (dp_backends d)) a a'" using touches_trans[OF t3] p4 by blast
  moreover have "ar_next a0 \<le> ar_next a'" using p1 p2 p3 p4 by (simp add: touches_def)
  ultimately show ?thesis using n p2 p3 p4 by auto
qed

section \<open>Every operation keeps the invariant\<close>

lemma drain_all_spec:
  "ar_next (drain_all bs a) = ar_next a \<and>
   ar_cell (drain_all bs a) b = (if b \<in> set bs then set_draining (ar_cell a b) True else ar_cell a b)"
  unfolding drain_all_def
  by (induction bs arbitrary: a) (auto simp: arena_update_def set_draining_def)

lemma reg_ok_get:
  assumes "reg_ok r" "get r i = Some d"
  shows "(i, d) \<in> set (reg_deployments r)" "spec_id (dp_spec d) = i" "pool_ok (reg_arena r) d"
    "set (dp_backends d) \<inter> retired_refs r = {}"
    "\<And>j e. (j, e) \<in> others {i} r \<Longrightarrow> set (dp_backends e) \<inter> set (dp_backends d) = {}"
proof -
  show m: "(i, d) \<in> set (reg_deployments r)" using assms by (auto simp: get_def dest: map_of_SomeD)
  then have o: "(i, d) \<in> others {} r" by (simp add: others_def)
  show "spec_id (dp_spec d) = i" using m assms by (auto simp: reg_ok_def index_ok_def)
  show "pool_ok (reg_arena r) d" "set (dp_backends d) \<inter> retired_refs r = {}"
    using o assms by (auto simp: reg_ok_def pools_ok_def)
  fix j e assume "(j, e) \<in> others {i} r"
  then have "(j, e) \<in> others {} r" "j \<noteq> i" by (auto simp: others_def)
  with o assms show "set (dp_backends e) \<inter> set (dp_backends d) = {}"
    unfolding reg_ok_def pools_ok_def by blast
qed

lemma pools_ok_mono: "pools_ok X r \<Longrightarrow> X \<subseteq> Y \<Longrightarrow> pools_ok Y r"
  unfolding pools_ok_def others_def by blast

text \<open>Fencing closes the withdrawn backends and leaves the other pools alone.\<close>

lemma fence_spec:
  assumes ok: "reg_ok r" and d: "get r i = Some d" and r': "r' = fence_discovery_removals d ups r"
  shows "pools_ok {i} r' \<and> reg_deployments r' = reg_deployments r \<and> reg_routes r' = reg_routes r \<and>
    others {i} r' = others {i} r \<and> touches (set (dp_backends d)) (reg_arena r) (reg_arena r') \<and>
    ar_next (reg_arena r') = ar_next (reg_arena r) \<and> (\<forall>b. peer_of r' b = peer_of r b) \<and>
    (\<forall>b \<in> retired_refs r'. b \<in> retired_refs r \<or> b \<in> set (dp_backends d) \<and> peer_of r b \<notin> set ups) \<and>
    (\<forall>b \<in> set (dp_backends d). peer_of r b \<notin> set ups \<longrightarrow> b \<in> retired_refs r')"
proof -
  let ?rem = "filter (\<lambda>b. peer_of r b \<notin> set ups) (dp_backends d)"
  have same: "reg_deployments r' = reg_deployments r" "reg_routes r' = reg_routes r"
    and arena: "reg_arena r' = drain_all ?rem (reg_arena r)"
    by (simp_all add: r' fence_discovery_removals_def Let_def)
  have t: "touches (set ?rem) (reg_arena r) (reg_arena r')" unfolding arena touches_def by (simp add: drain_all_spec)
  have next_eq: "ar_next (reg_arena r') = ar_next (reg_arena r)" unfolding arena by (simp add: drain_all_spec)
  have peers: "peer_of r' b = peer_of r b" for b
    unfolding peer_of_def arena by (simp add: drain_all_spec set_draining_def)
  have sub: "retired_refs r' \<subseteq> retired_refs r \<union> set ?rem"
    by (auto simp: retired_refs_def r' fence_discovery_removals_def Let_def split: if_splits option.splits)
  have sup: "b \<in> retired_refs r'" if b: "b \<in> set ?rem" for b
  proof -
    have "?rem \<noteq> []" using b by (cases ?rem) auto
    then have "\<exists>gs. reg_retired r' (spec_id (dp_spec d)) = Some (gs @ ?rem)"
      unfolding r' fence_discovery_removals_def Let_def by simp
    with b show ?thesis unfolding retired_refs_def by fastforce
  qed
  have oth: "others {i} r' = others {i} r" by (simp add: others_def same)
  have "retired_ok (reg_arena r') b" if b: "b \<in> retired_refs r'" for b
  proof (cases "b \<in> set ?rem")
    case True
    with reg_ok_get(3)[OF ok d] show ?thesis
      unfolding retired_ok_def arena by (auto simp: drain_all_spec set_draining_def pool_ok_def)
  next
    case False
    with b sub ok t show ?thesis by (auto simp: reg_ok_def pools_ok_def intro: retired_ok_touches)
  qed
  moreover have "pool_ok (reg_arena r') e \<and> set (dp_backends e) \<inter> retired_refs r' = {}" if "(j, e) \<in> others {i} r" for j e
  proof -
    have "(j, e) \<in> others {} r" using that by (auto simp: others_def)
    then have "pool_ok (reg_arena r) e" "set (dp_backends e) \<inter> retired_refs r = {}"
      using ok by (auto simp: reg_ok_def pools_ok_def)
    moreover have "set (dp_backends e) \<inter> set ?rem = {}" using reg_ok_get(5)[OF ok d that] by auto
    ultimately show ?thesis using sub t by (blast intro: pool_ok_touches)
  qed
  moreover have "pools_ok {i} r" using ok by (auto simp: reg_ok_def intro: pools_ok_mono)
  ultimately have "pools_ok {i} r'" unfolding pools_ok_def oth by blast
  with same oth next_eq peers sub sup touches_mono[OF t] show ?thesis by auto
qed

text \<open>The registry a replacement starts from, with or without a fence.\<close>

definition withdrawn :: "string \<Rightarrow> deployment \<Rightarrow> string list \<Rightarrow> registry \<Rightarrow> registry \<Rightarrow> bool" where
  "withdrawn i old ups r r1 \<longleftrightarrow>
     pools_ok {i} r1 \<and> reg_deployments r1 = reg_deployments r \<and> reg_routes r1 = reg_routes r \<and>
     ar_next (reg_arena r1) = ar_next (reg_arena r) \<and>
     (\<forall>b \<in> retired_refs r1. b \<notin> set (dp_backends old) \<or> peer_of r1 b \<notin> set ups)"

lemma withdrawn_fence:
  assumes ok: "reg_ok r" and old: "get r i = Some old"
  shows "withdrawn i old ups r (fence_discovery_removals old ups r)"
proof -
  let ?r = "fence_discovery_removals old ups r"
  note f = fence_spec[OF ok old refl, of ups]
  have "b \<notin> set (dp_backends old) \<or> peer_of ?r b \<notin> set ups" if "b \<in> retired_refs ?r" for b
    using that f reg_ok_get(4)[OF ok old] by auto
  with f show ?thesis by (simp add: withdrawn_def)
qed

lemma withdrawn_refl: "reg_ok r \<Longrightarrow> get r i = Some old \<Longrightarrow> withdrawn i old ups r r"
  using reg_ok_get(4)[of r i old] pools_ok_mono[of "{}" r "{i}"] unfolding withdrawn_def reg_ok_def by blast

lemma index_ok_cong:
  "reg_deployments r1 = reg_deployments r \<Longrightarrow> reg_routes r1 = reg_routes r \<Longrightarrow> index_ok r1 = index_ok r"
  by (simp add: index_ok_def)

lemma below_next:
  assumes "pools_ok X r"
  shows "b \<in> retired_refs r \<Longrightarrow> b < ar_next (reg_arena r)"
    "(j, e) \<in> others X r \<Longrightarrow> b \<in> set (dp_backends e) \<Longrightarrow> b < ar_next (reg_arena r)"
  using assms by (auto simp: pools_ok_def pool_ok_def retired_ok_def)

lemma replace_ok:
  assumes ok: "reg_ok r" and old: "get r i = Some old" and w: "withdrawn i old ups r r1"
    and spec: "spec_id (dp_spec d) = i" and app: "drains_applied d a"
    and next_le: "ar_next (reg_arena r1) \<le> ar_next a"
    and t: "touches (F \<union> set (dp_backends d)) (reg_arena r1) a"
    and F: "\<forall>b \<in> F. ar_next (reg_arena r1) \<le> b" "\<forall>b \<in> set (dp_backends d) \<inter> F. b < ar_next a"
    and pool: "\<forall>b \<in> set (dp_backends d). b \<in> F \<or> b \<in> set (dp_backends old) \<and> peer_of r1 b \<in> set ups"
  shows "reg_ok (install (Some d) i (r1\<lparr>reg_arena := a\<rparr>))"
proof -
  have ok1: "pools_ok {i} r1" and index: "index_ok r1" and oth: "others {i} r1 = others {i} r"
    using w ok index_ok_cong[of r1 r] by (auto simp: withdrawn_def reg_ok_def others_def)
  have oldpool: "\<forall>b \<in> set (dp_backends old). b < ar_next (reg_arena r1)"
    using reg_ok_get(3)[OF ok old] w by (simp add: pool_ok_def withdrawn_def)
  have ret: "(F \<union> set (dp_backends d)) \<inter> retired_refs r1 = {}"
    using F(1) pool w below_next(1)[OF ok1] by (fastforce simp: withdrawn_def)
  have apart: "set (dp_backends e) \<inter> (F \<union> set (dp_backends d)) = {}" if e: "(j, e) \<in> others {i} r1" for j e
    using F(1) pool below_next(2)[OF ok1 e] reg_ok_get(5)[OF ok old e[unfolded oth]] by fastforce
  have "pool_ok a d" unfolding pool_ok_def using app pool F(2) oldpool next_le by fastforce
  then have "pools_ok {} (install (Some d) i (r1\<lparr>reg_arena := a\<rparr>))"
    using index ret apart by (intro install_pools_ok[OF _ ok1 t]) (auto simp: index_ok_def)
  moreover have "index_ok (install (Some d) i (r1\<lparr>reg_arena := a\<rparr>))"
    using index spec by (intro install_index_ok) (auto simp: index_ok_def)
  ultimately show ?thesis by (simp add: reg_ok_def)
qed

lemma rescoped_spec: "spec_id (rescoped p s) = spec_id s" "spec_discovery (rescoped p s) = spec_discovery s"
  "spec_routes (rescoped p s) = spec_routes s" "is_static (rescoped p s) = is_static s"
  by (auto simp: rescoped_def is_static_def spec_backend_def split: option.splits)

text \<open>A replacing upsert, taken apart.\<close>

lemma upsert_replace:
  assumes ok: "reg_ok r" and old: "get r (spec_id spec0) = Some old" and fr: "\<not> frozen old"
    and up: "upsert P rvs now spec0 r = Some (d, r')"
  obtains r1 d0 a0 a where
    "withdrawn (spec_id spec0) old (spec_upstreams (rescoped (Some old) spec0)) r r1"
    "r1 = (if spec_discovery (dp_spec old) \<noteq> None
       then fence_discovery_removals old (spec_upstreams (rescoped (Some old) spec0)) r else r)"
    "deployment_new P (fst rvs) now (rescoped (Some old) spec0) (reg_arena r1) = Some (d0, a0)"
    "inherit (snd rvs) old d0 a0 = (d, a)" "r' = install (Some d) (spec_id spec0) (r1\<lparr>reg_arena := a\<rparr>)"
proof -
  let ?spec = "rescoped (Some old) spec0"
  let ?r1 = "if spec_discovery (dp_spec old) \<noteq> None then fence_discovery_removals old (spec_upstreams ?spec) r else r"
  obtain d0 a0 where new: "deployment_new P (fst rvs) now ?spec (reg_arena ?r1) = Some (d0, a0)"
    using up old fr by (auto simp: upsert_def Let_def split: option.splits)
  obtain d' a where inh: "inherit (snd rvs) old d0 a0 = (d', a)" by force
  have "d' = d" "r' = install (Some d) (spec_id spec0) (?r1\<lparr>reg_arena := a\<rparr>)"
    using up old fr new inh by (auto simp: upsert_def Let_def rescoped_spec)
  moreover have "withdrawn (spec_id spec0) old (spec_upstreams ?spec) r ?r1"
    using withdrawn_fence[OF ok old] withdrawn_refl[OF ok old] by simp
  ultimately show ?thesis using that[OF _ refl new] inh by simp
qed

lemma upsert_ok:
  assumes ok: "reg_ok r" and up: "upsert P rvs now spec r = Some (d, r')"
  shows "reg_ok r'"
proof (cases "get r (spec_id spec)")
  case None
  then obtain a where new: "deployment_new P (fst rvs) now spec (reg_arena r) = Some (d, a)"
    and r': "r' = install (Some d) (spec_id spec) (r\<lparr>reg_arena := a\<rparr>)"
    using up by (auto simp: upsert_def split: option.splits)
  note n = deployment_new_spec[OF new]
  have pools: "pools_ok {spec_id spec} r" using ok by (auto simp: reg_ok_def intro: pools_ok_mono)
  have fresh: "set (dp_backends d) \<inter> retired_refs r = {}"
    "\<And>j e. (j, e) \<in> others {spec_id spec} r \<Longrightarrow> set (dp_backends e) \<inter> set (dp_backends d) = {}"
    using n below_next[OF pools] by fastforce+
  have "pools_ok {} r'" unfolding r'
    using ok n fresh fresh_drains_applied[OF new]
    by (intro install_pools_ok[OF _ pools, of "set (dp_backends d)"]) (auto simp: reg_ok_def index_ok_def pool_ok_def)
  moreover have "index_ok r'" unfolding r'
    using ok n by (intro install_index_ok) (auto simp: reg_ok_def index_ok_def)
  ultimately show ?thesis by (simp add: reg_ok_def)
next
  case (Some old)
  show ?thesis
  proof (cases "frozen old")
    case True
    with Some up ok show ?thesis by (simp add: upsert_def)
  next
    case False
    obtain r1 d0 a0 a where w: "withdrawn (spec_id spec) old (spec_upstreams (rescoped (Some old) spec)) r r1"
      and new: "deployment_new P (fst rvs) now (rescoped (Some old) spec) (reg_arena r1) = Some (d0, a0)"
      and inh: "inherit (snd rvs) old d0 a0 = (d, a)"
      and r': "r' = install (Some d) (spec_id spec) (r1\<lparr>reg_arena := a\<rparr>)"
      by (rule upsert_replace[OF ok Some False up])
    have "\<forall>b \<in> set (dp_backends old). b < ar_next (reg_arena r1)"
      using reg_ok_get(3)[OF ok Some] w by (simp add: pool_ok_def withdrawn_def)
    note i = inherit_spec[OF new inh this] and n = deployment_new_spec[OF new]
    show ?thesis unfolding r'
      by (rule replace_ok[OF ok Some w, where F = "set (dp_backends d0)"])
        (use i n in \<open>auto simp: rescoped_spec peer_of_def\<close>)
  qed
qed

text \<open>An update that goes through, taken apart.\<close>

lemma update_replace:
  assumes old: "get r (spec_id spec) = Some old" and fr: "\<not> frozen old"
    and up: "update_spec P rvs now spec r = Some (res, r')"
  obtains d a F where "res = Some d" "r' = install (Some d) (spec_id spec) (r\<lparr>reg_arena := a\<rparr>)"
    "dp_spec d = spec" "dp_backends d = dp_backends old" "dp_pending d = dp_pending old"
    "dp_state d = (dp_state old)\<lparr>ds_rollout_revision := snd rvs\<rparr>" "drains_applied d a"
    "touches (F \<union> set (dp_backends old)) (reg_arena r) a" "\<forall>b \<in> F. ar_next (reg_arena r) \<le> b"
proof -
  obtain d0 a0 where new: "deployment_new P (fst rvs) now spec (reg_arena r) = Some (d0, a0)"
    using up old fr by (auto simp: update_spec_def split: option.splits)
  obtain d1 a1 where s1: "set_state (dp_state old) d0 a0 = (d1, a1)" by force
  obtain d2 a2 where s2: "snd (mutate_state (\<lambda>s. s\<lparr>ds_rollout_revision := snd rvs\<rparr>) d1 a1) = (d2, a2)"
    by (metis surj_pair)
  obtain d3 a3 where s3: "set_backends (dp_backends old) d2 a2 = (d3, a3)" by force
  let ?d = "set_pending (dp_pending old) d3" and ?F = "set (dp_backends d0)"
  have r': "res = Some ?d" "r' = install (Some ?d) (spec_id spec) (r\<lparr>reg_arena := a3\<rparr>)"
    using up old fr by (auto simp: update_spec_def new s1 s2 s3 Let_def)
  note n = deployment_new_spec[OF new] and p1 = set_state_spec[OF s1]
    and p2 = mutate_state_spec[OF s2] and p3 = set_backends_spec[OF s3]
  have "touches ?F (reg_arena r) a0" "touches ?F a0 a1" "touches (set (dp_backends old)) a2 a3"
    using n p1 p3 by blast+
  moreover have "touches ?F a1 a2" using p1 p2 by metis
  ultimately have "touches (?F \<union> set (dp_backends old)) (reg_arena r) a3" by (auto simp: touches_def)
  moreover have "dp_spec ?d = spec" "dp_backends ?d = dp_backends old" "drains_applied ?d a3" "dp_pending ?d = dp_pending old"
    "dp_state ?d = (dp_state old)\<lparr>ds_rollout_revision := snd rvs\<rparr>"
    using n p1 p2 p3 by (simp_all add: set_pending_def drains_applied_def)
  ultimately show ?thesis using r' n by (intro that[of ?d a3 ?F]) auto
qed

lemma update_ok:
  assumes ok: "reg_ok r" and up: "update_spec P rvs now spec r = Some (res, r')"
  shows "reg_ok r'"
proof (cases "\<exists>old. get r (spec_id spec) = Some old \<and> \<not> frozen old")
  case True
  then obtain old where old: "get r (spec_id spec) = Some old" "\<not> frozen old" by blast
  obtain d a F where r': "r' = install (Some d) (spec_id spec) (r\<lparr>reg_arena := a\<rparr>)"
    and d: "dp_spec d = spec" "dp_backends d = dp_backends old" "drains_applied d a"
    and t: "touches (F \<union> set (dp_backends old)) (reg_arena r) a" "\<forall>b \<in> F. ar_next (reg_arena r) \<le> b"
    by (rule update_replace[OF old up])
  have w: "withdrawn (spec_id spec) old (map (peer_of r) (dp_backends old)) r r" by (rule withdrawn_refl[OF ok old(1)])
  show ?thesis unfolding r'
    by (rule replace_ok[OF ok old(1) w, where F = F])
      (use d t reg_ok_get(3)[OF ok old(1)] in \<open>auto simp: touches_def pool_ok_def\<close>)
next
  case False
  then have "r' = r" using up by (auto simp: update_spec_def split: option.splits)
  with ok show ?thesis by simp
qed

lemma remove_ok:
  assumes ok: "reg_ok r"
  shows "reg_ok (snd (remove i r))"
proof (cases "\<exists>d. get r i = Some d \<and> \<not> frozen d \<and> \<not> list_ex ca_allocation (ds_create_attempts (dp_state d))")
  case True
  then obtain d where d: "get r i = Some d" "\<not> frozen d" "\<not> list_ex ca_allocation (ds_create_attempts (dp_state d))" by blast
  let ?r1 = "if spec_discovery (dp_spec d) \<noteq> None then fence_discovery_removals d [] r else r"
  have w: "withdrawn i d [] r ?r1" using withdrawn_fence[OF ok d(1)] withdrawn_refl[OF ok d(1)] by simp
  have rm: "snd (remove i r) = install None i (?r1\<lparr>reg_arena := reg_arena ?r1\<rparr>)" using d by (simp add: remove_def Let_def)
  have index: "index_ok ?r1" using w ok index_ok_cong[of ?r1 r] by (simp add: withdrawn_def reg_ok_def)
  have "pools_ok {} (install None i (?r1\<lparr>reg_arena := reg_arena ?r1\<rparr>))"
    by (rule install_pools_ok[where R = "{}"]) (use w index in \<open>auto simp: withdrawn_def index_ok_def\<close>)
  moreover have "index_ok (install None i ?r1)" using index by (intro install_index_ok) auto
  ultimately show ?thesis unfolding reg_ok_def rm by simp
next
  case False
  then have "snd (remove i r) = r" by (auto simp: remove_def split: option.splits)
  with ok show ?thesis by simp
qed

lemma put_same: "map_of m k = Some v \<Longrightarrow> put k (Some v) m = m"
  by (simp add: put_def update_triv)

lemma reg_set_state_ok:
  assumes ok: "reg_ok r"
  shows "reg_ok (reg_set_state i st r)"
proof (cases "get r i")
  case None
  with ok show ?thesis by (simp add: reg_set_state_def)
next
  case (Some d)
  obtain d' a where s: "set_state st d (reg_arena r) = (d', a)" by force
  note p = set_state_spec[OF s] and g = reg_ok_get[OF ok Some]
  let ?m = "map (\<lambda>(i, d). (i, routes_of d)) (reg_deployments r)"
  have routes: "routes_of d' = routes_of d" using p by (simp add: routes_of_def)
  have "map_of ?m i = Some (routes_of d)" using Some by (simp add: get_def map_of_map)
  then have "put i (Some (routes_of d)) ?m = ?m" by (rule put_same)
  moreover have "distinct (map fst ?m)" using ok by (simp add: reg_ok_def index_ok_def comp_def case_prod_unfold)
  ultimately have "reg_routes r = route_updated (reg_routes r) i (Some (routes_of d)) (Some (routes_of d'))"
    using table.updated_put[of ?m i "Some (routes_of d)"] \<open>map_of ?m i = _\<close> ok routes
    by (simp add: reg_ok_def index_ok_def)
  then have r': "reg_set_state i st r = install (Some d') i (r\<lparr>reg_arena := a\<rparr>)"
    using Some s by (simp add: reg_set_state_def install_def get_def)
  have "withdrawn i d (map (peer_of r) (dp_backends d)) r r" by (rule withdrawn_refl[OF ok Some])
  then show ?thesis unfolding r'
    by (rule replace_ok[OF ok Some, where F = "{}"]) (use p g in \<open>auto simp: touches_def\<close>)
qed

definition is_drain_op :: "backend_op \<Rightarrow> bool" where
  "is_drain_op op = (case op of SetDraining _ \<Rightarrow> True | _ \<Rightarrow> False)"

lemma run_op_keeps:
  "\<not> is_drain_op op \<Longrightarrow> vb_peer (snd (run_op op b)) = vb_peer b \<and> vb_draining (snd (run_op op b)) = vb_draining b"
  by (cases op) (auto simp: is_drain_op_def backend_simps)

text \<open>A change of cells that keeps peers and drain flags keeps the invariant.\<close>

lemma reg_ok_arena:
  assumes ok: "reg_ok r" and n: "ar_next a = ar_next (reg_arena r)"
    and c: "\<And>b. vb_peer (ar_cell a b) = vb_peer (ar_cell (reg_arena r) b)"
      "\<And>b. vb_draining (ar_cell a b) = vb_draining (ar_cell (reg_arena r) b)"
  shows "reg_ok (r\<lparr>reg_arena := a\<rparr>)"
proof -
  have "retired_refs (r\<lparr>reg_arena := a\<rparr>) = retired_refs r" "others {} (r\<lparr>reg_arena := a\<rparr>) = others {} r"
    by (simp_all add: retired_refs_def others_def)
  moreover have "pool_ok a d = pool_ok (reg_arena r) d" "retired_ok a b = retired_ok (reg_arena r) b" for d b
    by (simp_all add: pool_ok_def drains_applied_def retired_ok_def n c)
  ultimately show ?thesis using ok by (simp add: reg_ok_def pools_ok_def index_ok_def)
qed

lemma reg_backend_op_ok:
  assumes "reg_ok r" "\<not> is_drain_op op"
  shows "reg_ok (snd (reg_backend_op b op r))"
proof -
  obtain ok x where x: "run_op op (ar_cell (reg_arena r) b) = (ok, x)" by force
  show ?thesis unfolding reg_backend_op_def x prod.case snd_conv
    using run_op_keeps[OF assms(2), of "ar_cell (reg_arena r) b"] x
    by (intro reg_ok_arena[OF assms(1)]) (simp_all add: arena_update_def)
qed

lemma pools_ok_shrink:
  assumes ok: "pools_ok X r" and sub: "retired_refs r' \<subseteq> retired_refs r"
    and same: "others X r' = others X r" "reg_arena r' = reg_arena r"
  shows "pools_ok X r'"
  unfolding pools_ok_def same
proof (intro conjI allI impI ballI)
  fix i d assume "(i, d) \<in> others X r"
  then have "pool_ok (reg_arena r) d" "set (dp_backends d) \<inter> retired_refs r = {}" using ok by (auto simp: pools_ok_def)
  with sub show "pool_ok (reg_arena r) d" "set (dp_backends d) \<inter> retired_refs r' = {}" by blast+
qed (use ok sub in \<open>unfold pools_ok_def, blast+\<close>)

lemma discovery_backends_ok:
  assumes ok: "reg_ok r"
  shows "reg_ok (snd (discovery_backends i r))"
proof (cases "reg_retired r i")
  case None
  with ok show ?thesis by (simp add: discovery_backends_def)
next
  case (Some bs)
  let ?k = "filter (busy r) bs"
  let ?r = "r\<lparr>reg_retired := (reg_retired r)(i := (if ?k = [] then None else Some ?k))\<rparr>"
  have "retired_refs ?r \<subseteq> retired_refs r"
    using Some by (auto simp: retired_refs_def split: if_splits)
  moreover have "others {} ?r = others {} r" by (simp add: others_def)
  ultimately have "reg_ok ?r"
    using ok pools_ok_shrink[of "{}" r ?r] by (simp add: reg_ok_def index_ok_def)
  with Some show ?thesis by (simp add: discovery_backends_def Let_def)
qed

section \<open>Reachable registries\<close>

inductive reg_step :: "(string \<Rightarrow> parsed_url option) \<Rightarrow> registry \<Rightarrow> registry \<Rightarrow> bool" for P where
  step_upsert: "upsert P rvs now spec r = Some (d, r') \<Longrightarrow> reg_step P r r'"
| step_update: "update_spec P rvs now spec r = Some (res, r') \<Longrightarrow> reg_step P r r'"
| step_remove: "reg_step P r (snd (remove i r))"
| step_state: "reg_step P r (reg_set_state i st r)"
| step_backend: "\<not> is_drain_op op \<Longrightarrow> reg_step P r (snd (reg_backend_op b op r))"
| step_discovery: "reg_step P r (snd (discovery_backends i r))"

inductive reg_reachable :: "(string \<Rightarrow> parsed_url option) \<Rightarrow> registry \<Rightarrow> bool" for P where
  reach_new: "reg_reachable P (registry_new a)"
| reach_step: "reg_reachable P r \<Longrightarrow> reg_step P r r' \<Longrightarrow> reg_reachable P r'"

lemma reg_step_ok: "reg_step P r r' \<Longrightarrow> reg_ok r \<Longrightarrow> reg_ok r'"
  by (induction rule: reg_step.induct)
    (auto intro: upsert_ok update_ok remove_ok reg_set_state_ok reg_backend_op_ok discovery_backends_ok)

lemma registry_new_ok: "reg_ok (registry_new a)"
  by (simp add: registry_new_def reg_ok_def index_ok_def pools_ok_def others_def retired_refs_def
      table.empty_build)

lemma reg_reachable_ok: "reg_reachable P r \<Longrightarrow> reg_ok r"
  by (induction rule: reg_reachable.induct) (auto intro: reg_step_ok registry_new_ok)

section \<open>A withdrawn backend stays closed\<close>

definition closed_backend :: "backend_ref \<Rightarrow> registry \<Rightarrow> bool" where
  "closed_backend b r \<longleftrightarrow> retired_ok (reg_arena r) b \<and> (\<forall>(i, d) \<in> set (reg_deployments r). b \<notin> set (dp_backends d))"

lemma closed_refused: "closed_backend b r \<Longrightarrow> \<not> fst (reg_backend_op b (TryAcquire now) r)"
  by (auto simp: closed_backend_def retired_ok_def reg_backend_op_def backend_simps)

lemma install_closed:
  assumes "distinct (map fst (reg_deployments r))" "touches R (reg_arena r) a" "b \<notin> R"
    and "retired_ok (reg_arena r) b" "\<forall>(j, e) \<in> others {i} r. b \<notin> set (dp_backends e)"
    and "\<And>d. dep = Some d \<Longrightarrow> b \<notin> set (dp_backends d)"
  shows "closed_backend b (install dep i (r\<lparr>reg_arena := a\<rparr>))"
  using assms unfolding closed_backend_def
  by (auto simp: install_def set_put others_def intro: retired_ok_touches split: option.splits)

lemma fence_cell:
  "vb_in_flight (ar_cell (reg_arena (fence_discovery_removals d ups r)) b) = vb_in_flight (ar_cell (reg_arena r) b)"
  "reg_deployments (fence_discovery_removals d ups r) = reg_deployments r"
  "ar_next (reg_arena (fence_discovery_removals d ups r)) = ar_next (reg_arena r)"
  "b \<notin> set (dp_backends d) \<Longrightarrow> ar_cell (reg_arena (fence_discovery_removals d ups r)) b = ar_cell (reg_arena r) b"
  by (auto simp: fence_discovery_removals_def Let_def drain_all_spec set_draining_def)

lemma upsert_closes:
  assumes ok: "reg_ok r" and up: "upsert P rvs now spec r = Some (d, r')" and old: "get r (spec_id spec) = Some old"
    and fr: "\<not> frozen old" and disc: "spec_discovery (dp_spec old) \<noteq> None"
    and b: "b \<in> set (dp_backends old)" "peer_of r b \<notin> set (spec_upstreams (rescoped (Some old) spec))"
  shows "closed_backend b r'"
proof -
  let ?ups = "spec_upstreams (rescoped (Some old) spec)"
  obtain r1 d0 a0 a where w: "withdrawn (spec_id spec) old ?ups r r1"
    and r1: "r1 = (if spec_discovery (dp_spec old) \<noteq> None then fence_discovery_removals old ?ups r else r)"
    and new: "deployment_new P (fst rvs) now (rescoped (Some old) spec) (reg_arena r1) = Some (d0, a0)"
    and inh: "inherit (snd rvs) old d0 a0 = (d, a)"
    and r': "r' = install (Some d) (spec_id spec) (r1\<lparr>reg_arena := a\<rparr>)"
    by (rule upsert_replace[OF ok old fr up])
  have f: "r1 = fence_discovery_removals old ?ups r" using r1 disc by simp
  note fs = fence_spec[OF ok old f]
  have pool: "\<forall>b \<in> set (dp_backends old). b < ar_next (reg_arena r1)"
    using reg_ok_get(3)[OF ok old] w by (simp add: pool_ok_def withdrawn_def)
  note i = inherit_spec[OF new inh pool] and n = deployment_new_spec[OF new]
  have ret: "b \<in> retired_refs r1" using fs b by blast
  have nd: "b \<notin> set (dp_backends d0)" using pool b(1) n by auto
  have "vb_peer (ar_cell (reg_arena r1) b) \<notin> set ?ups" using fs b(2) by (simp add: peer_of_def)
  then have nb: "b \<notin> set (dp_backends d)" using i nd by blast
  show ?thesis unfolding r'
  proof (rule install_closed[where R = "set (dp_backends d0) \<union> set (dp_backends d)"])
    show "distinct (map fst (reg_deployments r1))" using ok w by (simp add: withdrawn_def reg_ok_def index_ok_def)
    show "touches (set (dp_backends d0) \<union> set (dp_backends d)) (reg_arena r1) a" using i by blast
    show "retired_ok (reg_arena r1) b" using w ret by (simp add: withdrawn_def pools_ok_def)
    show "\<forall>(j, e) \<in> others {spec_id spec} r1. b \<notin> set (dp_backends e)"
      using fs reg_ok_get(5)[OF ok old] b(1) by fastforce
  qed (use nd nb in auto)
qed

lemma upsert_keeps_closed:
  assumes ok: "reg_ok r" and up: "upsert P rvs now spec r = Some (d, r')" and cl: "closed_backend b r"
  shows "closed_backend b r'"
proof (cases "get r (spec_id spec)")
  case None
  then obtain a where new: "deployment_new P (fst rvs) now spec (reg_arena r) = Some (d, a)"
    and r': "r' = install (Some d) (spec_id spec) (r\<lparr>reg_arena := a\<rparr>)"
    using up by (auto simp: upsert_def split: option.splits)
  have nb: "b \<notin> set (dp_backends d)" using deployment_new_spec[OF new] cl by (auto simp: closed_backend_def retired_ok_def)
  show ?thesis unfolding r'
    by (rule install_closed[where R = "set (dp_backends d)"])
      (use ok cl nb deployment_new_spec[OF new] in \<open>auto simp: reg_ok_def index_ok_def closed_backend_def others_def\<close>)
next
  case (Some old)
  show ?thesis
  proof (cases "frozen old")
    case True
    with Some up cl show ?thesis by (simp add: upsert_def)
  next
    case False
    let ?ups = "spec_upstreams (rescoped (Some old) spec)"
    obtain r1 d0 a0 a where w: "withdrawn (spec_id spec) old ?ups r r1"
      and r1: "r1 = (if spec_discovery (dp_spec old) \<noteq> None then fence_discovery_removals old ?ups r else r)"
      and new: "deployment_new P (fst rvs) now (rescoped (Some old) spec) (reg_arena r1) = Some (d0, a0)"
      and inh: "inherit (snd rvs) old d0 a0 = (d, a)"
      and r': "r' = install (Some d) (spec_id spec) (r1\<lparr>reg_arena := a\<rparr>)"
      by (rule upsert_replace[OF ok Some False up])
    have pool: "\<forall>b \<in> set (dp_backends old). b < ar_next (reg_arena r1)"
      using reg_ok_get(3)[OF ok Some] w by (simp add: pool_ok_def withdrawn_def)
    note i = inherit_spec[OF new inh pool] and n = deployment_new_spec[OF new]
    have nold: "b \<notin> set (dp_backends old)" using cl reg_ok_get(1)[OF ok Some] by (auto simp: closed_backend_def)
    have c1: "retired_ok (reg_arena r1) b"
      using cl nold unfolding r1 by (simp add: closed_backend_def retired_ok_def fence_cell)
    have nb: "b \<notin> set (dp_backends d0)" "b \<notin> set (dp_backends d)"
      using c1 n i nold by (auto simp: retired_ok_def)
    show ?thesis unfolding r'
      by (rule install_closed[where R = "set (dp_backends d0) \<union> set (dp_backends d)"])
        (use ok w i c1 nb cl in \<open>auto simp: withdrawn_def reg_ok_def index_ok_def closed_backend_def others_def\<close>)
  qed
qed

lemma update_keeps_closed:
  assumes ok: "reg_ok r" and up: "update_spec P rvs now spec r = Some (res, r')" and cl: "closed_backend b r"
  shows "closed_backend b r'"
proof (cases "\<exists>old. get r (spec_id spec) = Some old \<and> \<not> frozen old")
  case True
  then obtain old where old: "get r (spec_id spec) = Some old" "\<not> frozen old" by blast
  obtain d a F where r': "r' = install (Some d) (spec_id spec) (r\<lparr>reg_arena := a\<rparr>)"
    and d: "dp_backends d = dp_backends old"
    and t: "touches (F \<union> set (dp_backends old)) (reg_arena r) a" "\<forall>b \<in> F. ar_next (reg_arena r) \<le> b"
    by (rule update_replace[OF old up])
  have nb: "b \<notin> set (dp_backends old)" "b \<notin> F"
    using cl t(2) reg_ok_get(1)[OF ok old(1)] by (auto simp: closed_backend_def retired_ok_def)
  show ?thesis unfolding r'
    by (rule install_closed[OF _ t(1)])
      (use ok cl nb d in \<open>auto simp: reg_ok_def index_ok_def closed_backend_def others_def\<close>)
next
  case False
  then have "r' = r" using up by (auto simp: update_spec_def split: option.splits)
  with cl show ?thesis by simp
qed

lemma remove_keeps_closed:
  assumes ok: "reg_ok r" and cl: "closed_backend b r"
  shows "closed_backend b (snd (remove i r))"
proof (cases "\<exists>d. get r i = Some d \<and> \<not> frozen d \<and> \<not> list_ex ca_allocation (ds_create_attempts (dp_state d))")
  case True
  then obtain d where d: "get r i = Some d" "\<not> frozen d" "\<not> list_ex ca_allocation (ds_create_attempts (dp_state d))" by blast
  let ?r1 = "if spec_discovery (dp_spec d) \<noteq> None then fence_discovery_removals d [] r else r"
  have rm: "snd (remove i r) = install None i (?r1\<lparr>reg_arena := reg_arena ?r1\<rparr>)" using d by (simp add: remove_def Let_def)
  have nb: "b \<notin> set (dp_backends d)" using cl reg_ok_get(1)[OF ok d(1)] by (auto simp: closed_backend_def)
  have c: "retired_ok (reg_arena ?r1) b" "reg_deployments ?r1 = reg_deployments r"
    using cl nb by (simp_all add: closed_backend_def retired_ok_def fence_cell)
  show ?thesis unfolding rm
    by (rule install_closed[where R = "{}"])
      (use ok cl c in \<open>auto simp: reg_ok_def index_ok_def closed_backend_def others_def\<close>)
next
  case False
  then have "snd (remove i r) = r" by (auto simp: remove_def split: option.splits)
  with cl show ?thesis by simp
qed

lemma reg_set_state_keeps_closed:
  assumes ok: "reg_ok r" and cl: "closed_backend b r"
  shows "closed_backend b (reg_set_state i st r)"
proof (cases "get r i")
  case None
  with cl show ?thesis by (simp add: reg_set_state_def)
next
  case (Some d)
  obtain d' a where s: "set_state st d (reg_arena r) = (d', a)" by force
  have nb: "b \<notin> set (dp_backends d)" using cl reg_ok_get(1)[OF ok Some] by (auto simp: closed_backend_def)
  have "retired_ok a b" using set_state_spec[OF s] cl nb by (auto simp: closed_backend_def intro: retired_ok_touches)
  moreover have "distinct (map fst (reg_deployments r))" using ok by (simp add: reg_ok_def index_ok_def)
  ultimately show ?thesis using Some s cl nb set_state_spec[OF s]
    by (auto simp: reg_set_state_def closed_backend_def set_put)
qed

lemma reg_step_keeps_closed: "reg_step P r r' \<Longrightarrow> reg_ok r \<Longrightarrow> closed_backend b r \<Longrightarrow> closed_backend b r'"
proof (induction rule: reg_step.induct)
  case (step_backend op r b')
  obtain x y where x: "run_op op (ar_cell (reg_arena r) b') = (x, y)" by force
  show ?case
    using step_backend run_op_keeps[OF step_backend(1), of "ar_cell (reg_arena r) b'"] x
    by (auto simp: closed_backend_def retired_ok_def reg_backend_op_def arena_update_def)
next
  case (step_discovery r i)
  then show ?case by (auto simp: closed_backend_def discovery_backends_def Let_def split: option.splits)
qed (auto intro: upsert_keeps_closed update_keeps_closed remove_keeps_closed reg_set_state_keeps_closed)

lemma reg_steps_keep_closed:
  "(reg_step P)\<^sup>*\<^sup>* r r' \<Longrightarrow> reg_ok r \<Longrightarrow> closed_backend b r \<Longrightarrow> reg_ok r' \<and> closed_backend b r'"
  by (induction rule: rtranclp_induct) (auto intro: reg_step_ok reg_step_keeps_closed)

section \<open>What a replacement keeps\<close>

lemma carried_drains_kept:
  assumes "is_static (dp_spec old)" "is_static spec" "u \<in> set (spec_upstreams spec)" "u \<in> drained_peers (dp_state old)"
  shows "u \<in> ud_upstream ` set (carried_drains old spec)"
  using assms by (auto simp: carried_drains_def carried_state_def drained_peers_def Let_def)

text \<open>Every operator drain marks a backend, none changes its load.\<close>

definition same_load :: "arena \<Rightarrow> arena \<Rightarrow> bool" where
  "same_load a a' \<longleftrightarrow> (\<forall>b < ar_next a. vb_in_flight (ar_cell a' b) = vb_in_flight (ar_cell a b))"

lemma mark_drains_load: "vb_in_flight (ar_cell (mark_drains st refs a) b) = vb_in_flight (ar_cell a b)"
  by (simp add: mark_drains_cell)

lemma inherit_load:
  assumes "inherit rv old d0 a0 = (d, a)"
  shows "vb_in_flight (ar_cell a b) = vb_in_flight (ar_cell a0 b)"
  using assms
  by (auto simp: inherit_def carry_regional_def router_fence_def carry_history_def mutate_state_def Let_def
      set_state_def keep_backends_def set_backends_def mark_drains_load split: prod.splits option.splits if_splits)

lemma reuse_keeps:
  "distinct (map (peer \<circ> fst) old) \<Longrightarrow> (b, False) \<in> set old \<Longrightarrow> peer b \<in> fst ` set us \<Longrightarrow>
     b \<in> set (reuse peer old us)"
proof (induction peer old us rule: reuse.induct)
  case (1 peer old)
  then show ?case by simp
next
  case (2 peer old u fresh us)
  obtain n where n: "n < length old" "old ! n = (b, False)" using 2(4) by (auto simp: in_set_conv_nth)
  show ?case
  proof (cases "position (\<lambda>(b, used). \<not> used \<and> peer b = u) old")
    case None
    have "peer b \<noteq> u" using None 2(4) by (auto simp: position_None)
    with None 2 show ?thesis by auto
  next
    case (Some k)
    then have k: "k < length old" "case old ! k of (b, used) \<Rightarrow> \<not> used \<and> peer b = u" by (auto dest: position_Some)
    let ?old = "old[k := (fst (old ! k), True)]"
    show ?thesis
    proof (cases "peer b = u")
      case True
      then have "map (peer \<circ> fst) old ! n = map (peer \<circ> fst) old ! k" using n k by (auto split: prod.splits)
      then have "n = k" using nth_eq_iff_index_eq[OF 2(3), of n k] n(1) k(1) by simp
      with n Some show ?thesis by simp
    next
      case False
      then have "n \<noteq> k" using n k by (auto split: prod.splits)
      then have "?old ! n = (b, False)" using n by simp
      then have mem: "(b, False) \<in> set ?old" using n(1) by (metis length_list_update nth_mem)
      have "map (peer \<circ> fst) ?old = map (peer \<circ> fst) old"
        using k(1) by (auto simp: list_eq_iff_nth_eq nth_list_update)
      then have "distinct (map (peer \<circ> fst) ?old)" using 2(3) by (simp only:)
      from 2(2)[OF Some this mem] 2(5) False Some show ?thesis by auto
    qed
  qed
qed

lemma keep_backends_pool:
  assumes "keep_backends old d a = (d', a')" "is_static (dp_spec d)" "is_static (dp_spec old)"
  shows "dp_backends d' = reuse (\<lambda>b. vb_peer (ar_cell a b)) (map (\<lambda>b. (b, False)) (dp_backends old))
           (zip (spec_upstreams (dp_spec d)) (dp_backends d))"
  using assms by (auto simp: keep_backends_def set_backends_def)

lemma inherit_pool:
  assumes new: "deployment_new P rv now spec a = Some (d0, a0)" and inh: "inherit rv' old d0 a0 = (d, a')"
    and old: "\<forall>b \<in> set (dp_backends old). b < ar_next a" and st: "is_static spec" "is_static (dp_spec old)"
    and dist: "distinct (map (\<lambda>b. vb_peer (ar_cell a b)) (dp_backends old))"
    and b: "b \<in> set (dp_backends old)" "vb_peer (ar_cell a b) \<in> set (spec_upstreams spec)"
  shows "b \<in> set (dp_backends d)"
proof -
  obtain d1 a1 where s1: "carry_regional old d0 a0 = (d1, a1)" by force
  obtain d2 a2 where s2: "(case carried_state old (dp_spec d0) of Some st \<Rightarrow> set_state st d1 a1 | None \<Rightarrow> (d1, a1)) = (d2, a2)"
    by (metis surj_pair)
  obtain d3 a3 where s3: "carry_history rv' old d2 a2 = (d3, a3)" by force
  have s4: "keep_backends old d3 a3 = (d, a')" using inh by (simp add: inherit_def s1 s2 s3)
  note n = deployment_new_spec[OF new] and p1 = carry_regional_spec[OF s1] and p3 = carry_history_spec[OF s3]
  have p2: "dp_spec d2 = spec \<and> dp_backends d2 = dp_backends d0 \<and> touches (set (dp_backends d0)) a1 a2"
    using s2 n p1 set_state_spec[of _ d1 a1 d2 a2] by (auto split: option.splits)
  have peer: "vb_peer (ar_cell a3 x) = vb_peer (ar_cell a x)" if "x \<in> set (dp_backends old)" for x
    using that old n p1 p2 p3 by (auto simp: touches_def)
  have pool: "dp_backends d = reuse (\<lambda>b. vb_peer (ar_cell a3 b)) (map (\<lambda>b. (b, False)) (dp_backends old))
      (zip (spec_upstreams spec) (dp_backends d0))"
    using keep_backends_pool[OF s4] st p2 p3 by simp
  have len: "length (dp_backends d0) = length (spec_upstreams spec)" using n by simp
  show ?thesis unfolding pool
  proof (rule reuse_keeps)
    show "distinct (map ((\<lambda>b. vb_peer (ar_cell a3 b)) \<circ> fst) (map (\<lambda>b. (b, False)) (dp_backends old)))"
      using dist peer by (simp add: comp_def cong: map_cong)
    show "vb_peer (ar_cell a3 b) \<in> fst ` set (zip (spec_upstreams spec) (dp_backends d0))"
      using b peer[OF b(1)] len map_fst_zip[of "spec_upstreams spec" "dp_backends d0"] by (metis set_map)
  qed (use b(1) in simp)
qed

lemma mark_drains_peer: "vb_peer (ar_cell (mark_drains st refs a) b) = vb_peer (ar_cell a b)"
  by (simp add: mark_drains_cell)

lemma inherit_peer:
  assumes "inherit rv old d0 a0 = (d, a)"
  shows "vb_peer (ar_cell a b) = vb_peer (ar_cell a0 b)"
  using assms
  by (auto simp: inherit_def carry_regional_def router_fence_def carry_history_def mutate_state_def Let_def
      set_state_def keep_backends_def set_backends_def mark_drains_peer split: prod.splits option.splits if_splits)

lemma upsert_retains:
  assumes ok: "reg_ok r" and old: "get r (spec_id spec) = Some old" "\<not> frozen old"
    and st: "is_static (dp_spec old)" "is_static spec" and up: "upsert P rvs now spec r = Some (d, r')"
    and dist: "distinct (map (peer_of r) (dp_backends old))" and b: "b \<in> set (dp_backends old)"
  shows "(peer_of r b \<in> set (spec_upstreams (rescoped (Some old) spec)) \<longrightarrow> b \<in> set (dp_backends d)) \<and>
    peer_of r' b = peer_of r b \<and>
    vb_in_flight (ar_cell (reg_arena r') b) = vb_in_flight (ar_cell (reg_arena r) b)"
proof -
  let ?ups = "spec_upstreams (rescoped (Some old) spec)"
  obtain r1 d0 a0 a where w: "withdrawn (spec_id spec) old ?ups r r1"
    and r1: "r1 = (if spec_discovery (dp_spec old) \<noteq> None then fence_discovery_removals old ?ups r else r)"
    and new: "deployment_new P (fst rvs) now (rescoped (Some old) spec) (reg_arena r1) = Some (d0, a0)"
    and inh: "inherit (snd rvs) old d0 a0 = (d, a)"
    and r': "r' = install (Some d) (spec_id spec) (r1\<lparr>reg_arena := a\<rparr>)"
    by (rule upsert_replace[OF ok old up])
  have pool: "\<forall>b \<in> set (dp_backends old). b < ar_next (reg_arena r1)"
    using reg_ok_get(3)[OF ok old(1)] w by (simp add: pool_ok_def withdrawn_def)
  have peer: "vb_peer (ar_cell (reg_arena r1) x) = peer_of r x" for x
    using fence_spec[OF ok old(1) refl, of ?ups] by (simp add: r1 peer_of_def)
  have "ar_cell a0 b = ar_cell (reg_arena r1) b"
    using deployment_new_spec[OF new] pool b by (auto simp: touches_def)
  moreover have "reg_arena r' = a" by (simp add: r' install_def)
  ultimately have "peer_of r' b = peer_of r b"
    "vb_in_flight (ar_cell (reg_arena r') b) = vb_in_flight (ar_cell (reg_arena r) b)"
    using inherit_peer[OF inh, of b] inherit_load[OF inh, of b] peer
    by (auto simp: peer_of_def r1 fence_cell)
  moreover have "b \<in> set (dp_backends d)" if "peer_of r b \<in> set ?ups"
    using inherit_pool[OF new inh pool] st dist b that by (simp add: peer rescoped_spec)
  ultimately show ?thesis by blast
qed

section \<open>File names\<close>

lemma hex_upper_eq: "m < 16 \<Longrightarrow> n < 16 \<Longrightarrow> hex_upper m = hex_upper n \<longleftrightarrow> m = n"
  unfolding hex_upper_def by (subst nth_eq_iff_index_eq) auto

lemma escape_byte_append: "escape_byte c @ x = escape_byte c' @ y \<longleftrightarrow> c = c' \<and> x = y"
proof -
  have "byte c = byte c'" if "byte c div 16 = byte c' div 16" "byte c mod 16 = byte c' mod 16"
    using that by (metis div_mult_mod_eq)
  moreover have "byte c div 16 < 16" "byte c' div 16 < 16" using byte_less by (simp_all add: less_mult_imp_div_less)
  moreover have "\<not> plain_byte CHR ''%''" by (simp add: plain_byte_def ascii_defs byte_def)
  ultimately show ?thesis by (auto simp: escape_byte_def hex_upper_eq)
qed

lemma escape_bytes_inj: "concat (map escape_byte i) = concat (map escape_byte j) \<longleftrightarrow> i = j"
proof (induction i arbitrary: j)
  case Nil
  then show ?case by (cases j) (auto simp: escape_byte_def)
next
  case (Cons c i)
  then show ?case by (cases j) (simp_all add: escape_byte_append, simp add: escape_byte_def)
qed

section \<open>Properties\<close>

definition declared_routes :: "registry \<Rightarrow> declared" where
  "declared_routes r = map (\<lambda>(i, d). (i, routes_of d)) (reg_deployments r)"

lemma those_defined: "those xs = None \<longleftrightarrow> None \<in> set xs"
  by (induction xs) (auto split: option.splits)

lemma deployment_new_defined:
  "deployment_new P rv now spec a = None \<longleftrightarrow> (\<exists>u \<in> set (spec_upstreams spec). upstream_parse P u = None)"
proof -
  have "deployment_new P rv now spec a = None \<longleftrightarrow>
      those (map (\<lambda>u. backend_for_upstream P u now) (spec_upstreams spec)) = None"
    by (auto simp: deployment_new_def split: option.splits prod.splits)
  also have "\<dots> \<longleftrightarrow> (\<exists>u \<in> set (spec_upstreams spec). backend_for_upstream P u now = None)"
    unfolding those_defined by (simp add: image_iff eq_commute)
  finally show ?thesis by (simp add: backend_for_upstream_def)
qed

lemma upsert_defined:
  assumes "\<forall>u \<in> set (spec_upstreams spec). upstream_parse P u \<noteq> None"
  shows "upsert P rvs now spec r \<noteq> None"
proof -
  have "spec_upstreams (rescoped p spec) = spec_upstreams spec \<or> spec_upstreams (rescoped p spec) = []" for p
    by (auto simp: rescoped_def split: option.splits)
  then have re: "\<exists>d a'. deployment_new P rv now (rescoped p spec) a = Some (d, a')" for rv p a
    using assms deployment_new_defined[of P rv now "rescoped p spec" a] by (metis empty_iff list.set(1) option.exhaust surj_pair)
  show ?thesis
  proof (cases "get r (spec_id spec)")
    case None
    with re[of "fst rvs" None "reg_arena r"] show ?thesis by (auto simp: upsert_def rescoped_def)
  next
    case (Some old)
    let ?r1 = "if spec_discovery (dp_spec old) \<noteq> None
      then fence_discovery_removals old (spec_upstreams (rescoped (Some old) spec)) r else r"
    from re[of "fst rvs" "Some old" "reg_arena ?r1"] Some show ?thesis
      by (auto simp: upsert_def Let_def split: prod.splits)
  qed
qed

lemma route_declared: "(r', i) \<in> set (all_entries (declared_routes r)) \<longleftrightarrow>
    (\<exists>d. (i, d) \<in> set (reg_deployments r) \<and> r' \<in> set (routes_of d))"
  by (force simp: all_entries_def declared_routes_def)

text \<open>A small registry for the witnesses: a discovery deployment with two upstreams.\<close>

definition demo_spec :: "string list \<Rightarrow> deployment_spec" where
  "demo_spec ups =
     \<lparr>spec_id = ''api'', spec_namespace = ''default'',
      spec_routes = [\<lparr>rr_host = Some ''api.test'', rr_host_suffix = None, rr_path_prefix = None, rr_strip_prefix = False\<rparr>],
      spec_upstreams = ups,
      spec_discovery = Some \<lparr>dc_service_id = ''svc'', dc_region = None, dc_regional = None, dc_source = None\<rparr>,
      spec_gateway = None, spec_auth = False, spec_site = False, spec_maintenance = False, spec_scaling = scaling_policy_default\<rparr>"

definition demo_arena :: arena where
  "demo_arena = \<lparr>ar_next = 0, ar_cell = (\<lambda>_. backend_new [] [] 0), ar_next_router = 0, ar_router = (\<lambda>_. router_init []), ar_entropy = (\<lambda>_. []), ar_next_deployment = 0\<rparr>"

definition demo_upsert :: "string list \<Rightarrow> registry \<Rightarrow> (deployment \<times> registry) option" where
  "demo_upsert ups = upsert (\<lambda>_. None) (''r1'', ''r2'') 100 (demo_spec ups)"

definition demo_reg :: registry where
  "demo_reg = snd (the (demo_upsert [''h1:80'', ''h2:80''] (registry_new demo_arena)))"

lemma demo_parse:
  "upstream_parse (\<lambda>_. None) ''h1:80'' = Some \<lparr>su_address = ''h1:80'', su_tls = False, su_sni = []\<rparr>"
  "upstream_parse (\<lambda>_. None) ''h2:80'' = Some \<lparr>su_address = ''h2:80'', su_tls = False, su_sni = []\<rparr>"
  by (simp_all add: upstream_parse_def is_valid_host_port_def rsplit_colon_def strip_prefix_def strip_suffix_def
      parse_unsigned_def Let_def byte_def ascii_defs)

lemma demo_upsert_defined:
  assumes "set ups \<subseteq> {''h1:80'', ''h2:80''}"
  shows "demo_upsert ups r = Some (fst (the (demo_upsert ups r)), snd (the (demo_upsert ups r)))"
proof -
  have "demo_upsert ups r \<noteq> None" unfolding demo_upsert_def
    using assms by (intro upsert_defined) (auto simp: demo_spec_def demo_parse)
  then show ?thesis by auto
qed

definition demo_new :: "deployment \<times> arena" where
  "demo_new = the (deployment_new (\<lambda>_. None) ''r1'' 100 (demo_spec [''h1:80'', ''h2:80'']) demo_arena)"

lemma demo_new_spec:
  "deployment_new (\<lambda>_. None) ''r1'' 100 (demo_spec [''h1:80'', ''h2:80'']) demo_arena = Some (fst demo_new, snd demo_new)"
  using deployment_new_defined[of "\<lambda>_. None" "''r1''" 100 "demo_spec [''h1:80'', ''h2:80'']" demo_arena]
  by (auto simp: demo_new_def demo_spec_def demo_parse)

lemma demo_reg_eq: "demo_reg = install (Some (fst demo_new)) ''api'' ((registry_new demo_arena)\<lparr>reg_arena := snd demo_new\<rparr>)"
proof -
  have i: "spec_id (demo_spec ups) = ''api''" for ups by (simp add: demo_spec_def)
  show ?thesis unfolding demo_reg_def demo_upsert_def upsert_def
    by (simp add: demo_new_spec i registry_new_def get_def case_prod_beta)
qed

lemma demo_reachable: "reg_reachable (\<lambda>_. None) demo_reg"
proof (rule reach_step[OF reach_new])
  have "demo_upsert [''h1:80'', ''h2:80''] (registry_new demo_arena) =
      Some (fst (the (demo_upsert [''h1:80'', ''h2:80''] (registry_new demo_arena))), demo_reg)"
    unfolding demo_reg_def by (rule demo_upsert_defined) simp
  then show "reg_step (\<lambda>_. None) (registry_new demo_arena) demo_reg"
    unfolding demo_upsert_def by (rule step_upsert)
qed

lemma demo_get:
  "get demo_reg ''api'' = Some (fst demo_new)" "\<not> frozen (fst demo_new)"
  "dp_spec (fst demo_new) = demo_spec [''h1:80'', ''h2:80'']" "dp_backends (fst demo_new) = [0, 1]"
  "peer_of demo_reg 0 = ''h1:80''" "peer_of demo_reg 1 = ''h2:80''"
  using deployment_new_spec[OF demo_new_spec]
  by (auto simp: demo_reg_eq install_def get_def registry_new_def frozen_def deployment_state_new_def
      peer_of_def demo_spec_def demo_arena_def)

text \<open>
  C1. Every registry reachable by upserts, updates, removals, state changes, discovery reads and
  requests keeps its invariant: the route index is the one a rebuild from the registered deployments
  gives, every static pool drains exactly the peers an operator drained, no two deployments share a
  backend, and every withdrawn backend is closed and outside every pool.
\<close>

theorem registry_invariant: "reg_reachable P r \<Longrightarrow> index_ok r \<and> pools_ok {} r"
  using reg_reachable_ok[of P r] by (simp add: reg_ok_def)

theorem registry_invariant_witness: "reg_deployments demo_reg \<noteq> [] \<and> index_ok demo_reg \<and> pools_ok {} demo_reg"
  using registry_invariant[OF demo_reachable] demo_get(1) by (auto simp: get_def)

text \<open>
  C13. Routing is right: when no rule of any registered deployment matches, \<open>route\<close> finds nothing;
  otherwise it returns a registered deployment with a matching rule, and no matching rule of any
  deployment is more specific. The hypothesis is that path prefixes are too short to lift a rule
  without an exact host above one with it.
\<close>

theorem route_best:
  assumes reach: "reg_reachable P r" and tiers: "tiers_apart (declared_routes r)"
  shows "case route r host path of
      None \<Rightarrow> \<forall>(i, d) \<in> set (reg_deployments r). \<forall>rule \<in> set (routes_of d). \<not> rule_matches rule host path
    | Some d \<Rightarrow> get r (spec_id (dp_spec d)) = Some d \<and>
        (\<exists>rule \<in> set (routes_of d). rule_matches rule host path \<and>
           (\<forall>(i, e) \<in> set (reg_deployments r). \<forall>rule' \<in> set (routes_of e).
              rule_matches rule' host path \<longrightarrow> specificity rule' \<le> specificity rule))"
proof -
  have ok: "reg_ok r" using reach by (rule reg_reachable_ok)
  let ?ds = "declared_routes r"
  have res: "resolve (reg_routes r) host path = flat_resolve ?ds host path"
    using resolve_build[OF tiers] ok by (simp add: reg_ok_def index_ok_def declared_routes_def)
  show ?thesis
  proof (cases "flat_resolve ?ds host path")
    case None
    then have "route r host path = None" by (simp add: route_def res)
    moreover have "\<not> rule_matches rule host path" if "(i, d) \<in> set (reg_deployments r)" "rule \<in> set (routes_of d)" for i d rule
      using None that route_declared[of rule i r] by (auto simp: flat_resolve_None)
    ultimately show ?thesis by auto
  next
    case (Some i)
    obtain rule where rule: "(rule, i) \<in> set (all_entries ?ds)" "rule_matches rule host path"
      and best: "\<forall>(r', i') \<in> set (all_entries ?ds). rule_matches r' host path \<longrightarrow> specificity r' \<le> specificity rule"
      using flat_resolve_best[OF Some] by blast
    obtain d where d: "(i, d) \<in> set (reg_deployments r)" "rule \<in> set (routes_of d)" using rule(1) route_declared by blast
    have get: "get r i = Some d" using d(1) ok by (simp add: get_def reg_ok_def index_ok_def)
    then have route: "route r host path = Some d" "spec_id (dp_spec d) = i"
      using Some reg_ok_get(2)[OF ok get] by (simp_all add: route_def res)
    have "specificity rule' \<le> specificity rule"
      if "(j, e) \<in> set (reg_deployments r)" "rule' \<in> set (routes_of e)" "rule_matches rule' host path" for j e rule'
      using that best route_declared[of rule' j r] by blast
    with get route d(2) rule(2) show ?thesis by auto
  qed
qed

lemma demo_routes: "reg_deployments demo_reg = [(''api'', fst demo_new)]"
  "routes_of (fst demo_new) = [\<lparr>rr_host = Some ''api.test'', rr_host_suffix = None, rr_path_prefix = None, rr_strip_prefix = False\<rparr>]"
  using demo_get(3) by (simp_all add: demo_reg_eq install_def registry_new_def put_def routes_of_def demo_spec_def)

theorem route_best_witness:
  "tiers_apart (declared_routes demo_reg) \<and> route demo_reg (Some ''api.test'') ''/x'' = Some (fst demo_new)"
proof -
  have t: "tiers_apart (declared_routes demo_reg)"
    by (simp add: tiers_apart_def declared_routes_def demo_routes)
  have m: "rule_matches \<lparr>rr_host = Some ''api.test'', rr_host_suffix = None, rr_path_prefix = None, rr_strip_prefix = False\<rparr>
      (Some ''api.test'') ''/x''"
    by (simp add: rule_matches_def rule_is_empty_def eq_ignore_ascii_case_def to_ascii_lowercase_def ascii_defs byte_def)
  show ?thesis
    using route_best[OF demo_reachable t, of "Some ''api.test''" "''/x''"] t m
    by (auto simp: demo_routes demo_get split: option.splits) (auto simp: get_def demo_routes split: if_splits)
qed

text \<open>
  A deployment under retirement is frozen: neither upsert, update, removal nor publication
  changes it, or anything else in the registry.
\<close>

theorem frozen_kept:
  assumes "retirement_frozen r i"
  shows "(spec_id spec = i \<longrightarrow> map_option snd (upsert P rvs now spec r) = Some r) \<and>
    (spec_id spec = i \<longrightarrow> update_spec P rvs now spec r = Some (None, r)) \<and>
    remove i r = (None, r) \<and> (spec_id (dp_spec d) = i \<longrightarrow> publish d r = r)"
  using assms
  by (auto simp: retirement_frozen_def upsert_def update_spec_def remove_def publish_def split: option.splits)

lemma get_reg_set_state:
  "get (reg_set_state i st r) i = map_option (\<lambda>d. fst (set_state st d (reg_arena r))) (get r i)"
  by (auto simp: reg_set_state_def get_def split: option.splits prod.splits)

definition demo_frozen :: registry where
  "demo_frozen = reg_set_state ''api''
     ((dp_state (fst demo_new))\<lparr>ds_retirement := Some \<lparr>ret_targets = [], ret_inventory = []\<rparr>\<rparr>) demo_reg"

theorem frozen_kept_witness: "retirement_frozen demo_frozen ''api'' \<and> remove ''api'' demo_frozen = (None, demo_frozen)"
proof -
  have f: "retirement_frozen demo_frozen ''api''"
    by (simp add: demo_frozen_def retirement_frozen_def get_reg_set_state demo_get set_state_def frozen_def)
  show ?thesis using f frozen_kept[OF f, of undefined] by simp
qed

text \<open>
  C2. A discovery update withdraws for good: once a replacement drops the address of a backend, no
  request is ever admitted to that backend again, whatever happens to the registry afterwards. This
  is what lets the update be acknowledged as soon as it is installed.
\<close>

theorem withdrawn_never_admits:
  assumes reach: "reg_reachable P r" and old: "get r (spec_id spec) = Some old" "\<not> frozen old"
    and disc: "spec_discovery (dp_spec old) \<noteq> None"
    and b: "b \<in> set (dp_backends old)" "peer_of r b \<notin> set (spec_upstreams spec)"
    and up: "upsert P rvs now spec r = Some (d, r')" and later: "(reg_step P)\<^sup>*\<^sup>* r' r''"
  shows "\<not> fst (reg_backend_op b (TryAcquire t) r'')"
proof -
  have ok: "reg_ok r" using reach by (rule reg_reachable_ok)
  have "set (spec_upstreams (rescoped (Some old) spec)) \<subseteq> set (spec_upstreams spec)"
    by (simp add: rescoped_def)
  then have "peer_of r b \<notin> set (spec_upstreams (rescoped (Some old) spec))" using b(2) by blast
  with ok up old disc b(1) have "closed_backend b r'" by (rule upsert_closes)
  with later upsert_ok[OF ok up] have "closed_backend b r''" by (blast dest: reg_steps_keep_closed)
  then show ?thesis by (rule closed_refused)
qed

theorem withdrawn_never_admits_witness:
  "\<not> fst (reg_backend_op 1 (TryAcquire 200) (snd (the (demo_upsert [''h1:80''] demo_reg))))"
proof -
  have up: "upsert (\<lambda>_. None) (''r1'', ''r2'') 100 (demo_spec [''h1:80'']) demo_reg =
      Some (fst (the (demo_upsert [''h1:80''] demo_reg)), snd (the (demo_upsert [''h1:80''] demo_reg)))"
    using demo_upsert_defined[of "[''h1:80'']" demo_reg] by (simp add: demo_upsert_def)
  have i: "spec_id (demo_spec [''h1:80'']) = ''api''" "spec_upstreams (demo_spec [''h1:80'']) = [''h1:80'']"
    "spec_discovery (demo_spec ups) \<noteq> None" for ups
    by (simp_all add: demo_spec_def)
  show ?thesis
    by (rule withdrawn_never_admits[OF demo_reachable _ demo_get(2) _ _ _ up rtranclp.rtrancl_refl])
      (simp_all add: i demo_get demo_get(6)[simplified])
qed

text \<open>
  C35. Replacing a static deployment never reopens a drained upstream: every backend of the new pool
  whose peer the operator had drained, and whose address the new spec still lists, is draining.
\<close>

theorem upsert_keeps_drains:
  assumes reach: "reg_reachable P r" and old: "get r (spec_id spec) = Some old" "\<not> frozen old"
    and st: "is_static (dp_spec old)" "is_static spec"
    and up: "upsert P rvs now spec r = Some (d, r')"
    and b: "b \<in> set (dp_backends d)" "peer_of r' b \<in> set (spec_upstreams (rescoped (Some old) spec))"
      "peer_of r' b \<in> drained_peers (dp_state old)"
  shows "vb_draining (ar_cell (reg_arena r') b)"
proof -
  have ok: "reg_ok r" using reach by (rule reg_reachable_ok)
  obtain r1 d0 a0 a where w: "withdrawn (spec_id spec) old (spec_upstreams (rescoped (Some old) spec)) r r1"
    and new: "deployment_new P (fst rvs) now (rescoped (Some old) spec) (reg_arena r1) = Some (d0, a0)"
    and inh: "inherit (snd rvs) old d0 a0 = (d, a)"
    and r': "r' = install (Some d) (spec_id spec) (r1\<lparr>reg_arena := a\<rparr>)"
    by (rule upsert_replace[OF ok old up])
  have "\<forall>b \<in> set (dp_backends old). b < ar_next (reg_arena r1)"
    using reg_ok_get(3)[OF ok old(1)] w by (simp add: pool_ok_def withdrawn_def)
  note i = inherit_spec[OF new inh this]
  have "peer_of r' b \<in> drained_peers (dp_state d)"
    using carried_drains_kept[OF st(1) _ b(2,3)] st(2) i by (simp add: drained_peers_def rescoped_spec)
  moreover have "reg_arena r' = a" by (simp add: r' install_def)
  ultimately show ?thesis using i b(1) st(2) by (simp add: drains_applied_def rescoped_spec peer_of_def)
qed

definition demo_drained :: registry where
  "demo_drained = reg_set_state ''api''
     ((dp_state (fst demo_new))\<lparr>ds_upstream_drains := [\<lparr>ud_upstream = ''h1:80'', ud_reason = None, ud_started_at = 1\<rparr>]\<rparr>) demo_reg"

lemma demo_drained_facts:
  "reg_reachable (\<lambda>_. None) demo_drained" "\<exists>d. get demo_drained ''api'' = Some d \<and> \<not> frozen d \<and>
     dp_spec d = demo_spec [''h1:80'', ''h2:80''] \<and> dp_backends d = [0, 1] \<and> ''h1:80'' \<in> drained_peers (dp_state d)"
  "map (peer_of demo_drained) [0, 1] = [''h1:80'', ''h2:80'']"
proof -
  show "reg_reachable (\<lambda>_. None) demo_drained"
    unfolding demo_drained_def by (rule reach_step[OF demo_reachable step_state])
  show "\<exists>d. get demo_drained ''api'' = Some d \<and> \<not> frozen d \<and>
     dp_spec d = demo_spec [''h1:80'', ''h2:80''] \<and> dp_backends d = [0, 1] \<and> ''h1:80'' \<in> drained_peers (dp_state d)"
    using demo_get by (simp add: demo_drained_def get_reg_set_state set_state_def frozen_def drained_peers_def)
  have "peer_of (reg_set_state i st r) b = peer_of r b" for i st r b
    by (auto simp: reg_set_state_def set_state_def peer_of_def mark_drains_peer split: option.splits)
  then show "map (peer_of demo_drained) [0, 1] = [''h1:80'', ''h2:80'']"
    using demo_get(5,6) by (simp add: demo_drained_def)
qed

lemma demo_drained_upsert:
  "upsert (\<lambda>_. None) (''r1'', ''r2'') 100 (demo_spec [''h1:80'']) demo_drained =
      Some (fst (the (demo_upsert [''h1:80''] demo_drained)), snd (the (demo_upsert [''h1:80''] demo_drained)))"
  using demo_upsert_defined[of "[''h1:80'']" demo_drained] by (simp add: demo_upsert_def)

lemma demo_spec_facts: "spec_id (demo_spec ups) = ''api''" "is_static (demo_spec ups)"
  "spec_upstreams (rescoped (Some d) (demo_spec ups)) = (if region_of (dp_spec d) = None then ups else [])"
  by (auto simp: demo_spec_def is_static_def spec_backend_def rescoped_def region_of_def)

theorem upsert_keeps_drains_witness:
  "vb_draining (ar_cell (reg_arena (snd (the (demo_upsert [''h1:80''] demo_drained)))) 0)"
proof -
  obtain old where old: "get demo_drained (spec_id (demo_spec [''h1:80''])) = Some old" "\<not> frozen old"
    "dp_spec old = demo_spec [''h1:80'', ''h2:80'']" "dp_backends old = [0, 1]" "''h1:80'' \<in> drained_peers (dp_state old)"
    using demo_drained_facts(2) by (auto simp: demo_spec_facts)
  have ups: "spec_upstreams (rescoped (Some old) (demo_spec [''h1:80''])) = [''h1:80'']"
    by (simp add: demo_spec_facts old, simp add: region_of_def demo_spec_def)
  have st: "is_static (dp_spec old)" "is_static (demo_spec [''h1:80''])" by (simp_all add: old demo_spec_facts)
  note ret = upsert_retains[OF reg_reachable_ok[OF demo_drained_facts(1)] old(1,2) st demo_drained_upsert, of 0]
  show ?thesis
    by (rule upsert_keeps_drains[OF demo_drained_facts(1) old(1,2) st demo_drained_upsert])
      (use ret ups old demo_drained_facts(3) in auto)
qed

text \<open>
  A replacement keeps the load it cannot see end: every old backend keeps its in-flight count,
  and a backend whose address the new spec still lists stays in the pool as the same object, so the
  requests admitted before the replacement release the slot they took.
\<close>

theorem upsert_keeps_load:
  assumes "reg_reachable P r" "get r (spec_id spec) = Some old" "\<not> frozen old"
    and "is_static (dp_spec old)" "is_static spec" "upsert P rvs now spec r = Some (d, r')"
    and "distinct (map (peer_of r) (dp_backends old))" "b \<in> set (dp_backends old)"
  shows "vb_in_flight (ar_cell (reg_arena r') b) = vb_in_flight (ar_cell (reg_arena r) b) \<and>
    (peer_of r b \<in> set (spec_upstreams (rescoped (Some old) spec)) \<longrightarrow> b \<in> set (dp_backends d))"
  using upsert_retains[OF reg_reachable_ok[OF assms(1)] assms(2-8)] by blast

theorem upsert_keeps_load_witness: "0 \<in> set (dp_backends (fst (the (demo_upsert [''h1:80''] demo_drained))))"
proof -
  obtain old where old: "get demo_drained (spec_id (demo_spec [''h1:80''])) = Some old" "\<not> frozen old"
    "dp_spec old = demo_spec [''h1:80'', ''h2:80'']" "dp_backends old = [0, 1]"
    using demo_drained_facts(2) by (auto simp: demo_spec_facts)
  have ups: "spec_upstreams (rescoped (Some old) (demo_spec [''h1:80''])) = [''h1:80'']"
    by (simp add: demo_spec_facts old, simp add: region_of_def demo_spec_def)
  have st: "is_static (dp_spec old)" "is_static (demo_spec [''h1:80''])" by (simp_all add: old demo_spec_facts)
  show ?thesis
    using upsert_keeps_load[OF demo_drained_facts(1) old(1,2) st demo_drained_upsert, of 0] ups old demo_drained_facts(3)
    by auto
qed

text \<open>
  Two deployments never share a state file: the escaping of ids into file names is injective.
\<close>

theorem state_file_name_inj: "state_file_name i = state_file_name j \<longleftrightarrow> i = j"
  by (simp add: state_file_name_def escape_bytes_inj)

end
