(* ===== verification/Request.thy ===== *)
theory Request
  imports Registry
begin

text \<open>
  The life of a request (\<open>app-lb/src/request_control.rs\<close>): admission, selection and reservation of a
  backend with retries, release, completion, and the headers of the forwarded request. Selection
  awaits several times, so it is split into the steps between the awaits.
\<close>

section \<open>The state of a request\<close>

definition MAX_ATTEMPTS :: nat where "MAX_ATTEMPTS = 3"

record identity =
  id_subject :: string
  id_email :: string
  id_name :: "string option"
  id_session_token :: "string option"

record request =
  rq_deployment :: "deployment option"
  rq_backend :: "assigned_backend option"
  rq_failed :: "string list"
  rq_attempts :: nat
  rq_assignment :: "(router_ref \<times> assignment) option"
  rq_identity :: "identity option"
  rq_route_prefix :: "string option"
  rq_gateway_token :: "string option"
  rq_forward_identity :: bool

definition request_default :: request where
  "request_default =
     \<lparr>rq_deployment = None, rq_backend = None, rq_failed = [], rq_attempts = 0, rq_assignment = None,
      rq_identity = None, rq_route_prefix = None, rq_gateway_token = None, rq_forward_identity = False\<rparr>"

section \<open>Admission\<close>

definition with_router :: "router_ref \<Rightarrow> router \<Rightarrow> arena \<Rightarrow> arena" where
  "with_router ref r a = a\<lparr>ar_router := (ar_router a)(ref := r)\<rparr>"

text \<open>\<open>None\<close> is a panic: a router without its discovery, its regional spec or its region, or one of its own.\<close>

definition request_admit :: "'h admission \<Rightarrow> 64 word option \<Rightarrow> deployment \<Rightarrow> 'h \<Rightarrow> request \<Rightarrow> arena \<Rightarrow>
    ((nat + string option) \<times> request \<times> arena) option" where
  "request_admit env random d headers q a =
     (case dp_regional d of
        Some ref \<Rightarrow>
          Option.bind (spec_discovery (dp_spec d)) (\<lambda>discovery.
          Option.bind (dc_regional discovery) (\<lambda>regional.
          Option.bind (dc_region discovery) (\<lambda>region.
          Option.bind (router_admit (env\<lparr>ad_cells := ar_cell a\<rparr>) random regional (dc_service_id discovery) region headers
            (ar_router a ref)) (\<lambda>(res, r').
          Some (case res of
                  Inl e \<Rightarrow> (Inl e, q, a)
                | Inr x \<Rightarrow> (Inr None, q\<lparr>rq_assignment := Some (ref, x)\<rparr>, with_router ref r' a))))))
      | None \<Rightarrow>
          Some (if list_ex (contains_key (ad_headers env) headers) [GENERATION, ENVIRONMENT] then (Inl 403, q, a)
                else (gateway_admit (ad_headers env) (spec_gateway (dp_spec d)) headers (ad_secrets env), q, a)))"

section \<open>Reservation\<close>

definition request_release :: "nat \<Rightarrow> request \<Rightarrow> arena \<Rightarrow> request \<times> arena" where
  "request_release now q a =
     (q\<lparr>rq_backend := None\<rparr>,
      case rq_backend q of Some (Pooled b) \<Rightarrow> arena_update b (\<lambda>x. release x now) a | _ \<Rightarrow> a)"

text \<open>Dropping the assignment gives its counters back; \<open>None\<close> is the panic of the drop.\<close>

definition request_complete :: "nat \<Rightarrow> request \<Rightarrow> arena \<Rightarrow> (request \<times> arena) option" where
  "request_complete now q a =
     (case request_release now q a of (q1, a1) \<Rightarrow>
        case rq_assignment q1 of
          None \<Rightarrow> Some (q1, a1)
        | Some (ref, x) \<Rightarrow>
            map_option (\<lambda>r. (q1\<lparr>rq_assignment := None\<rparr>, with_router ref r a1)) (assignment_drop x (ar_router a1 ref)))"

definition held_peer :: "assigned_backend \<Rightarrow> arena \<Rightarrow> string" where
  "held_peer h a = (case h of Pooled b \<Rightarrow> vb_peer (ar_cell a b) | Private x \<Rightarrow> vb_peer x)"

definition mark_unhealthy :: "assigned_backend \<Rightarrow> arena \<Rightarrow> arena" where
  "mark_unhealthy h a = (case h of Pooled b \<Rightarrow> arena_update b (\<lambda>x. set_healthy x False) a | Private _ \<Rightarrow> a)"

definition connection_failed :: "nat \<Rightarrow> request \<Rightarrow> arena \<Rightarrow> request \<times> arena" where
  "connection_failed now q a =
     (case rq_backend q of
        None \<Rightarrow> request_release now q a
      | Some h \<Rightarrow> request_release now (q\<lparr>rq_failed := rq_failed q @ [held_peer h a]\<rparr>) (mark_unhealthy h a))"

definition retry_allowed :: "request \<Rightarrow> bool" where
  "retry_allowed q \<longleftrightarrow> rq_assignment q = None \<and> rq_attempts q < MAX_ATTEMPTS"

datatype peer_error = NoDeployment | RetriesExhausted | ReplayForbidden | AssignmentUnresolved
  | NoHealthyBackend | PolicyChanged

text \<open>Where a request is: between calls, at an await of the selection, or done with it.\<close>

datatype progress = Idle | Choosing | Chosen backend_ref | AwaitingCapacity | Resolving | Ready | Refused peer_error

definition hold :: "nat \<Rightarrow> assigned_backend \<Rightarrow> arena \<Rightarrow> (assigned_backend \<times> arena) option" where
  "hold now h a =
     (case h of
        Pooled b \<Rightarrow>
          (case try_acquire (ar_cell a b) now of (ok, x) \<Rightarrow>
             if ok then Some (Pooled b, arena_update b (\<lambda>_. x) a) else None)
      | Private y \<Rightarrow>
          (case try_acquire y now of (ok, x) \<Rightarrow> if ok then Some (Private x, a) else None))"

definition begin_attempt :: "nat \<Rightarrow> request \<Rightarrow> arena \<Rightarrow> progress \<times> request \<times> arena" where
  "begin_attempt now q a =
     (if rq_deployment q = None then (Refused NoDeployment, q, a)
      else
        (let q1 = q\<lparr>rq_attempts := rq_attempts q + 1\<rparr> in
         if rq_attempts q1 > MAX_ATTEMPTS then (Refused RetriesExhausted, q1, a)
         else case request_release now q1 a of (q2, a2) \<Rightarrow>
           case rq_assignment q2 of
             None \<Rightarrow> (Choosing, q2, a2)
           | Some (_, x) \<Rightarrow>
               if rq_attempts q2 \<noteq> 1 then (Refused ReplayForbidden, q2, a2)
               else case hold now (as_backend x) a2 of
                 None \<Rightarrow> (Refused ReplayForbidden, q2, a2)
               | Some (h, a3) \<Rightarrow> (Resolving, q2\<lparr>rq_backend := Some h\<rparr>, a3)))"

definition check_flat_admission_refresh :: "deployment \<Rightarrow> deployment \<Rightarrow> bool" where
  "check_flat_admission_refresh previous current \<longleftrightarrow>
     spec_gateway (dp_spec current) = spec_gateway (dp_spec previous) \<and> dp_regional current = None \<and> dp_regional previous = None"

text \<open>
  One round of the selection, up to the reservation. The deployment is shared: while it is registered
  its pool is the registered one; once another has taken its place the request follows it, and once it
  is gone the request keeps what it has.
\<close>

definition choose_in :: "deployment \<Rightarrow> request \<Rightarrow> arena \<Rightarrow> progress" where
  "choose_in d q a =
     (case select d (rq_failed q) a of
        Some b \<Rightarrow> Chosen b
      | None \<Rightarrow> if can_grow d then AwaitingCapacity else Refused NoHealthyBackend)"

definition choose_round :: "registry \<Rightarrow> request \<Rightarrow> progress \<times> request" where
  "choose_round r q =
     (case rq_deployment q of
        None \<Rightarrow> (Refused NoDeployment, q)
      | Some d \<Rightarrow>
          (case get r (spec_id (dp_spec d)) of
             None \<Rightarrow> (choose_in d q (reg_arena r), q)
           | Some current \<Rightarrow>
               if dp_serial current = dp_serial d
               then (choose_in current q (reg_arena r), q\<lparr>rq_deployment := Some current\<rparr>)
               else if check_flat_admission_refresh d current
               then (Choosing, q\<lparr>rq_deployment := Some current\<rparr>)
               else (Refused PolicyChanged, q)))"

text \<open>A request that waits for capacity: woken, its pool replaced, or at its deadline.\<close>

datatype wakeup = Notified | PoolReplaced | TimedOut

definition wait_for_capacity :: "wakeup \<Rightarrow> registry \<Rightarrow> request \<Rightarrow> progress" where
  "wait_for_capacity w r q =
     (case w of
        PoolReplaced \<Rightarrow> Choosing
      | TimedOut \<Rightarrow> Refused NoHealthyBackend
      | Notified \<Rightarrow>
          (case rq_deployment q of
             None \<Rightarrow> AwaitingCapacity
           | Some d \<Rightarrow>
               (let held = (case get r (spec_id (dp_spec d)) of
                              Some current \<Rightarrow> if dp_serial current = dp_serial d then current else d
                            | None \<Rightarrow> d)
                in case select held (rq_failed q) (reg_arena r) of Some b \<Rightarrow> Chosen b | None \<Rightarrow> AwaitingCapacity)))"

definition reserve_chosen :: "nat \<Rightarrow> backend_ref \<Rightarrow> request \<Rightarrow> arena \<Rightarrow> progress \<times> request \<times> arena" where
  "reserve_chosen now b q a =
     (case hold now (Pooled b) a of
        None \<Rightarrow> (Choosing, q\<lparr>rq_failed := rq_failed q @ [vb_peer (ar_cell a b)]\<rparr>, a)
      | Some (h, a') \<Rightarrow> (Resolving, q\<lparr>rq_backend := Some h\<rparr>, a'))"

text \<open>The name of the backend was looked up, with or without an address.\<close>

definition resolved :: "nat \<Rightarrow> bool \<Rightarrow> request \<Rightarrow> arena \<Rightarrow> progress \<times> request \<times> arena" where
  "resolved now found q a =
     (if found then (Ready, q, a)
      else if rq_assignment q \<noteq> None then (Refused AssignmentUnresolved, q, a)
      else case connection_failed now q a of (q', a') \<Rightarrow> (Choosing, q', a'))"

section \<open>Forwarding\<close>

datatype header_modification = RemoveHeader string | SetHeader string string | RewriteUri string

record uri =
  uri_path :: string
  uri_query :: "string option"

definition strip_uri_prefix :: "uri \<Rightarrow> string \<Rightarrow> string" where
  "strip_uri_prefix u p =
     (let suffix = (case strip_prefix p (uri_path u) of Some x \<Rightarrow> x | None \<Rightarrow> uri_path u);
          path = (if suffix = [] then ''/'' else if prefix ''/'' suffix then suffix else ''/'' @ suffix)
      in path @ (case uri_query u of Some query \<Rightarrow> ''?'' @ query | None \<Rightarrow> []))"

definition matched_strip_prefix :: "deployment \<Rightarrow> string option \<Rightarrow> string \<Rightarrow> string option" where
  "matched_strip_prefix d host path =
     Option.bind (max_by_key specificity (filter (\<lambda>rule. rr_strip_prefix rule \<and> rule_matches rule host path) (spec_routes (dp_spec d))))
       rr_path_prefix"

text \<open>
  Printable ASCII, at most 256 characters (\<open>auth.rs\<close>); no byte of another character is printable, so
  bytes can be filtered one by one.
\<close>

definition header_safe :: "string \<Rightarrow> string" where
  "header_safe v = take 256 (filter (\<lambda>c. 32 \<le> byte c \<and> byte c < 127) v)"

definition IDENTITY_HEADERS :: "string list" where
  "IDENTITY_HEADERS = [''x-auth-request-email'', ''x-auth-request-user'', ''x-auth-request-name'']"

text \<open>A header value, or the description of what was not one.\<close>

definition header_value :: "'h header_map \<Rightarrow> string \<Rightarrow> string \<Rightarrow> string \<Rightarrow> string + header_modification list" where
  "header_value hm name v description = (if hm_value_ok hm v then Inr [SetHeader name v] else Inl description)"

definition peer_modifications :: "'h header_map \<Rightarrow> gateway_spec \<Rightarrow> string \<Rightarrow> string + header_modification list" where
  "peer_modifications hm g token =
     (case write_forward_headers hm g token (hm_empty hm) of (h, ok) \<Rightarrow>
        if ok then Inr (map (\<lambda>n. SetHeader n (hd (hm_get_all hm h n))) (filter (contains_key hm h) HEADERS))
        else Inl ''peer'')"

definition regional_modifications :: "'h header_map \<Rightarrow> request \<Rightarrow> string + header_modification list" where
  "regional_modifications hm q =
     (case Option.bind (rq_assignment q) (\<lambda>(_, x). map_option (Pair x) (as_forward x)) of
        None \<Rightarrow> Inr []
      | Some (x, g, token, environment) \<Rightarrow>
          and_then (peer_modifications hm g token) (\<lambda>peer.
          and_then (header_value hm GENERATION (int_str (as_generation x)) ''generation'') (\<lambda>gen.
          and_then (header_value hm ENVIRONMENT environment ''environment'') (\<lambda>envm.
          Inr (peer @ gen @ envm)))))"

definition identity_modifications :: "'h header_map \<Rightarrow> request \<Rightarrow> string + header_modification list" where
  "identity_modifications hm q =
     and_then (case Option.bind (rq_identity q) id_session_token of
                 Some token \<Rightarrow> header_value hm ''authorization'' (''Bearer '' @ token) ''authorization''
               | None \<Rightarrow> Inr []) (\<lambda>auth.
     and_then (case (if rq_forward_identity q then rq_identity q else None) of
                 None \<Rightarrow> Inr []
               | Some i \<Rightarrow>
                   (let email = header_safe (id_email i);
                        name = (case id_name i of Some n \<Rightarrow> header_safe n | None \<Rightarrow> [])
                    in and_then (header_value hm ''x-auth-request-user'' (header_safe (id_subject i)) ''identity subject'') (\<lambda>u.
                       and_then (if email = [] then Inr [] else header_value hm ''x-auth-request-email'' email ''identity email'') (\<lambda>e.
                       and_then (if name = [] then Inr [] else header_value hm ''x-auth-request-name'' name ''identity name'') (\<lambda>n.
                       Inr (u @ e @ n)))))) (\<lambda>forwarded.
     Inr (map RemoveHeader IDENTITY_HEADERS @ auth @ forwarded)))"

definition forwarding_modifications :: "'h header_map \<Rightarrow> request \<Rightarrow> uri \<Rightarrow> string + header_modification list" where
  "forwarding_modifications hm q u =
     and_then (regional_modifications hm q) (\<lambda>regional.
     and_then (case (Option.bind (rq_deployment q) (\<lambda>d. spec_gateway (dp_spec d)), rq_gateway_token q) of
                 (Some g, Some token) \<Rightarrow> peer_modifications hm g token
               | _ \<Rightarrow> Inr []) (\<lambda>gateway.
     and_then (if (case rq_deployment q of Some d \<Rightarrow> spec_auth (dp_spec d) | None \<Rightarrow> False)
               then identity_modifications hm q else Inr []) (\<lambda>identity.
     Inr (regional @ gateway @
          (case rq_route_prefix q of Some p \<Rightarrow> [RewriteUri (strip_uri_prefix u p)] | None \<Rightarrow> []) @ identity))))"

text \<open>
  The adapter applies them to the request in order (\<open>proxy.rs\<close>); the parser of a path with its query
  is the \<open>http\<close> crate's.
\<close>

fun apply_modifications :: "'h header_map \<Rightarrow> (string \<Rightarrow> uri option) \<Rightarrow> header_modification list \<Rightarrow> 'h \<times> uri \<Rightarrow> ('h \<times> uri) option" where
  "apply_modifications hm parse [] x = Some x"
| "apply_modifications hm parse (RemoveHeader n # ms) (h, u) = apply_modifications hm parse ms (hm_remove hm n h, u)"
| "apply_modifications hm parse (SetHeader n v # ms) (h, u) = apply_modifications hm parse ms (hm_insert hm n v h, u)"
| "apply_modifications hm parse (RewriteUri p # ms) (h, u) = Option.bind (parse p) (\<lambda>u'. apply_modifications hm parse ms (h, u'))"

end
