(* ===== verification/Regional_Laws.thy ===== *)
theory Regional_Laws
  imports Regional
begin

text \<open>
  What holds of the regional router (\<open>Regional\<close>): the histories of a router, the accounting of
  assignments as a ledger, the order of snapshots, the weighted choice, the admission of requests, and
  what panics and poisons a router's lock.
\<close>

section \<open>Histories\<close>

datatype 'h router_op =
    ApplySnapshot "string \<Rightarrow> parsed_url option" nat snapshot regional_spec string string "backend_ref list"
  | AdmitRequest "'h admission" "64 word option" regional_spec string string 'h
  | ReserveActiveProbe "'h admission" regional_spec active_probe_request bool
  | ReserveProbe "'h admission" regional_spec probe_request bool
  | ReportStatus "backend_ref \<Rightarrow> vm_backend" nat bool
  | FenceRouter
  | RevalidateProbe "'h admission" regional_spec active_probe_request bool

text \<open>An operation's assignment, if it makes one, and the router after it; \<open>None\<close> is a panic.\<close>

definition granted :: "((nat + assignment) \<times> router) option \<Rightarrow> (assignment option \<times> router) option" where
  "granted = map_option (\<lambda>(res, r). (case res of Inr a \<Rightarrow> Some a | Inl _ \<Rightarrow> None, r))"

fun run_router_op :: "'h router_op \<Rightarrow> router \<Rightarrow> (assignment option \<times> router) option" where
  "run_router_op (ApplySnapshot url_parse now s spec service region local) r =
     Some (None, snd (router_apply url_parse now s spec service region local r))"
| "run_router_op (AdmitRequest env random spec service region headers) r =
     granted (router_admit env random spec service region headers r)"
| "run_router_op (ReserveActiveProbe env spec q destination) r = granted (active_probe_assignment env spec q destination r)"
| "run_router_op (ReserveProbe env spec q destination) r = granted (probe_assignment env spec q destination r)"
| "run_router_op (ReportStatus cells now enabled) r = Some (None, snd (router_status cells now enabled r))"
| "run_router_op FenceRouter r = Some (None, fence r)"
| "run_router_op (RevalidateProbe env spec q destination) r =
     map_option (\<lambda>_. (None, r)) (active_probe_backend env spec q destination r)"

text \<open>A history is a sequence of operations and of drops of live assignments, chosen by position.\<close>

datatype 'h router_event = Op "'h router_op" | Drop nat

fun run_router_event :: "'h router_event \<Rightarrow> router \<times> assignment list \<Rightarrow> (router \<times> assignment list) option" where
  "run_router_event (Op op) (r, live) =
     map_option (\<lambda>(a, r'). (r', case a of Some x \<Rightarrow> x # live | None \<Rightarrow> live)) (run_router_op op r)"
| "run_router_event (Drop i) (r, live) =
     (if i < length live then map_option (\<lambda>r'. (r', take i live @ drop (i + 1) live)) (assignment_drop (live ! i) r)
      else Some (r, live))"

fun router_run :: "'h router_event list \<Rightarrow> router \<times> assignment list \<Rightarrow> (router \<times> assignment list) option" where
  "router_run [] st = Some st"
| "router_run (e # es) st = Option.bind (run_router_event e st) (router_run es)"

text \<open>
  These histories end at the first panic. The same operations with the lock of the router go on after
  it: a panic with the lock held leaves the router as it was and poisons the lock. An assignment is
  gone after its drop, also after one that panicked.
\<close>

fun run_locked_op :: "bool \<Rightarrow> 'h router_op \<Rightarrow> router \<Rightarrow> (assignment option \<times> router) option" where
  "run_locked_op poisoned (ApplySnapshot url_parse now s spec service region local) r =
     map_option (\<lambda>(_, r'). (None, r')) (locked_apply poisoned url_parse now s spec service region local r)"
| "run_locked_op poisoned (AdmitRequest env random spec service region headers) r =
     granted (locked_admit poisoned env random spec service region headers r)"
| "run_locked_op poisoned (ReserveActiveProbe env spec q destination) r =
     granted (locked_active_probe poisoned env spec q destination r)"
| "run_locked_op poisoned (ReserveProbe env spec q destination) r = granted (locked_probe poisoned env spec q destination r)"
| "run_locked_op poisoned (ReportStatus cells now enabled) r =
     map_option (\<lambda>(_, r'). (None, r')) (locked_status poisoned cells now enabled r)"
| "run_locked_op poisoned FenceRouter r = map_option (\<lambda>r'. (None, r')) (locked_fence poisoned r)"
| "run_locked_op poisoned (RevalidateProbe env spec q destination) r =
     map_option (\<lambda>_. (None, r)) (locked_revalidate poisoned env spec q destination r)"

fun run_locked_event :: "'h router_event \<Rightarrow> bool \<times> router \<times> assignment list \<Rightarrow> bool \<times> router \<times> assignment list" where
  "run_locked_event (Op op) (poisoned, r, live) =
     (case run_locked_op poisoned op r of
        None \<Rightarrow> (True, r, live)
      | Some (a, r') \<Rightarrow> (poisoned, r', case a of Some x \<Rightarrow> x # live | None \<Rightarrow> live))"
| "run_locked_event (Drop i) (poisoned, r, live) =
     (if i < length live
      then case locked_drop poisoned (live ! i) r of
             None \<Rightarrow> (True, r, take i live @ drop (i + 1) live)
           | Some r' \<Rightarrow> (poisoned, r', take i live @ drop (i + 1) live)
      else (poisoned, r, live))"

definition locked_run :: "'h router_event list \<Rightarrow> bool \<times> router \<times> assignment list \<Rightarrow> bool \<times> router \<times> assignment list" where
  "locked_run = fold run_locked_event"

text \<open>The parser of URLs an event uses; in the program there is one.\<close>

fun event_parses :: "(string \<Rightarrow> parsed_url option) \<Rightarrow> 'h router_event \<Rightarrow> bool" where
  "event_parses url_parse (Op (ApplySnapshot parse now s spec service region local)) = (parse = url_parse)"
| "event_parses url_parse (Op (AdmitRequest env random spec service region headers)) = (ad_url_parse env = url_parse)"
| "event_parses url_parse (Op (ReserveActiveProbe env spec q destination)) = (ad_url_parse env = url_parse)"
| "event_parses url_parse (Op (ReserveProbe env spec q destination)) = (ad_url_parse env = url_parse)"
| "event_parses url_parse (Op (RevalidateProbe env spec q destination)) = (ad_url_parse env = url_parse)"
| "event_parses url_parse _ = True"

section \<open>A ledger of shares\<close>

text \<open>
  An account per key with two sides. Issuing an item adds its share to the account of its key,
  retiring one takes it back; \<open>ok\<close> is the invariant of the books. What clients rely on is that the
  books balance: each account is the sum of the shares of the items still out, and an item that is
  out can be retired.
\<close>

locale ledger =
  fixes ok :: "'st \<Rightarrow> bool"
    and account :: "'st \<Rightarrow> 'k \<Rightarrow> bool \<Rightarrow> nat"
    and key :: "'a \<Rightarrow> 'k"
    and share :: "'a \<Rightarrow> bool \<Rightarrow> nat"
    and valid :: "'a \<Rightarrow> bool"
    and issue :: "'a \<Rightarrow> 'st \<Rightarrow> 'st"
    and retire :: "'a \<Rightarrow> 'st \<Rightarrow> 'st option"
  assumes issue_ok: "ok st \<Longrightarrow> valid a \<Longrightarrow> ok (issue a st)"
    and issue_account: "ok st \<Longrightarrow> valid a \<Longrightarrow>
      account (issue a st) k side = account st k side + (if k = key a then share a side else 0)"
    and retire_some: "ok st \<Longrightarrow> valid a \<Longrightarrow> \<forall>side. share a side \<le> account st (key a) side \<Longrightarrow>
      \<exists>st'. retire a st = Some st' \<and> ok st' \<and>
        (\<forall>k side. account st' k side = account st k side - (if k = key a then share a side else 0))"
begin

definition balanced :: "'st \<Rightarrow> 'a list \<Rightarrow> bool" where
  "balanced st live \<longleftrightarrow> ok st \<and> list_all valid live \<and>
     (\<forall>k side. account st k side = sum_list (map (\<lambda>a. share a side) (filter (\<lambda>a. key a = k) live)))"

lemma balanced_issue: "balanced st live \<Longrightarrow> valid a \<Longrightarrow> balanced (issue a st) (a # live)"
  by (auto simp: balanced_def issue_ok issue_account)

lemma balanced_mset: "mset live = mset live' \<Longrightarrow> balanced st live \<Longrightarrow> balanced st live'"
proof -
  assume m: "mset live = mset live'"
  have "sum_list (map f (filter P live)) = sum_list (map f (filter P live'))" for f :: "'a \<Rightarrow> nat" and P
    using m by (metis mset_filter mset_map sum_mset_sum_list)
  moreover have "set live = set live'" using m by (rule mset_eq_setD)
  ultimately show "balanced st live \<Longrightarrow> balanced st live'" by (simp add: balanced_def list_all_iff)
qed

lemma balanced_retire:
  assumes "balanced st live" "i < length live"
  shows "\<exists>st'. retire (live ! i) st = Some st' \<and> balanced st' (take i live @ drop (i + 1) live)"
proof -
  let ?a = "live ! i" and ?rest = "take i live @ drop (i + 1) live"
  have split: "sum_list (map f (filter P live)) = (if P ?a then f ?a else 0) + sum_list (map f (filter P ?rest))" for f :: "'a \<Rightarrow> nat" and P
  proof -
    have "live = take i live @ ?a # drop (i + 1) live" using assms(2) by (simp add: id_take_nth_drop)
    then have "sum_list (map f (filter P live)) = sum_list (map f (filter P (take i live @ ?a # drop (i + 1) live)))" by simp
    then show ?thesis by simp
  qed
  have valid: "valid ?a" "list_all valid ?rest"
    using assms by (auto simp: balanced_def list_all_iff dest: in_set_takeD in_set_dropD)
  have account: "account st k side = (if key ?a = k then share ?a side else 0)
      + sum_list (map (\<lambda>a. share a side) (filter (\<lambda>a. key a = k) ?rest))" for k side
    using assms(1) split[of "\<lambda>a. share a side" "\<lambda>a. key a = k"] by (simp add: balanced_def)
  have "\<forall>side. share ?a side \<le> account st (key ?a) side" by (simp add: account)
  then obtain st' where "retire ?a st = Some st'" "ok st'"
    "\<forall>k side. account st' k side = account st k side - (if k = key ?a then share ?a side else 0)"
    using retire_some[of st ?a] assms(1) valid(1) by (auto simp: balanced_def)
  then show ?thesis using valid(2) by (auto simp: balanced_def account)
qed

lemma balanced_retire_member:
  assumes "balanced st live" "mset live = add_mset a (mset rest)"
  shows "\<exists>st'. retire a st = Some st' \<and> balanced st' rest"
  using balanced_retire[OF balanced_mset[OF _ assms(1), of "a # rest"], of 0] assms(2) by simp

end

section \<open>The router's counters are a ledger\<close>

definition counters_ok :: "router \<Rightarrow> bool" where
  "counters_ok r \<longleftrightarrow> btree_ok (rt_counters r) \<and> list_all (\<lambda>(_, c). c \<noteq> (0, 0)) (rt_counters r)"

definition counter :: "router \<Rightarrow> int \<times> string \<Rightarrow> nat \<times> nat" where
  "counter r k = (case map_of (rt_counters r) k of Some c \<Rightarrow> c | None \<Rightarrow> (0, 0))"

definition account :: "router \<Rightarrow> int \<times> string \<Rightarrow> bool \<Rightarrow> nat" where
  "account r k outgoing = (if outgoing then fst (counter r k) else snd (counter r k))"

definition share :: "assignment \<Rightarrow> bool \<Rightarrow> nat" where
  "share a outgoing = of_bool (if outgoing then as_source a else as_local a)"

definition counted :: "assignment \<Rightarrow> bool" where
  "counted a \<longleftrightarrow> as_source a \<or> as_local a"

lemma charge_counters:
  "rt_counters (charge a r) = btree_insert (as_key a)
     (fst (counter r (as_key a)) + of_bool (as_source a), snd (counter r (as_key a)) + of_bool (as_local a)) (rt_counters r)"
  by (simp add: charge_def counter_def Let_def case_prod_unfold)

lemma counters_ok_insert:
  assumes "counters_ok r" "c \<noteq> (0, 0)"
  shows "counters_ok (r\<lparr>rt_counters := btree_insert k c (rt_counters r)\<rparr>)"
proof -
  have "list_all (\<lambda>(_, c). c \<noteq> (0, 0)) (btree_insert k c (rt_counters r))"
    using assms btree_insert_set[of k c "rt_counters r"] by (fastforce simp: counters_ok_def list_all_iff)
  with assms(1) show ?thesis by (simp add: counters_ok_def)
qed

lemma map_of_filter_key: "map_of (filter (\<lambda>(k, _). k \<noteq> j) m) k = (if k = j then None else map_of m k)"
  by (induction m) auto

interpretation books: ledger counters_ok account as_key share counted charge assignment_drop
proof
  fix r :: router and a assume ok: "counters_ok r" and a: "counted a"
  have charge: "charge a r = r\<lparr>rt_counters := btree_insert (as_key a)
      (fst (counter r (as_key a)) + of_bool (as_source a), snd (counter r (as_key a)) + of_bool (as_local a)) (rt_counters r)\<rparr>"
    by (simp add: charge_def counter_def Let_def case_prod_unfold)
  show "counters_ok (charge a r)" unfolding charge using a by (intro counters_ok_insert[OF ok]) (auto simp: counted_def)
  fix k side
  show "account (charge a r) k side = account r k side + (if k = as_key a then share a side else 0)"
    using ok by (auto simp: charge account_def counter_def share_def counters_ok_def)
next
  fix r :: router and a assume ok: "counters_ok r" and a: "counted a"
    and le: "\<forall>side. share a side \<le> account r (as_key a) side"
  obtain out inn where c: "counter r (as_key a) = (out, inn)" by force
  have sides: "of_bool (as_source a) \<le> out" "of_bool (as_local a) \<le> inn"
    using le[rule_format, of True] le[rule_format, of False] c by (auto simp: account_def share_def)
  then have entry: "map_of (rt_counters r) (as_key a) = Some (out, inn)"
    using a c by (auto simp: counter_def counted_def split: option.splits)
  let ?c = "(out - of_bool (as_source a), inn - of_bool (as_local a)) :: nat \<times> nat"
  let ?m = "if ?c = (0, 0) then filter (\<lambda>(k, _). k \<noteq> as_key a) (rt_counters r) else btree_insert (as_key a) ?c (rt_counters r)"
  have drop: "assignment_drop a r = Some (r\<lparr>rt_counters := ?m\<rparr>)"
    using entry sides by (auto simp: assignment_drop_def Let_def not_less)
  have "counters_ok (r\<lparr>rt_counters := ?m\<rparr>)"
  proof (cases "?c = (0, 0)")
    case True
    then show ?thesis using ok by (simp add: counters_ok_def list_all_iff)
  next
    case False
    from counters_ok_insert[OF ok False] show ?thesis unfolding if_not_P[OF False] .
  qed
  moreover have "counter (r\<lparr>rt_counters := ?m\<rparr>) k = (if k = as_key a then ?c else counter r k)" for k
    using ok by (auto simp: counter_def counters_ok_def map_of_filter_key)
  then have "account (r\<lparr>rt_counters := ?m\<rparr>) k side = account r k side - (if k = as_key a then share a side else 0)" for k side
    using c by (auto simp: account_def share_def)
  ultimately show "\<exists>r'. assignment_drop a r = Some r' \<and> counters_ok r' \<and>
      (\<forall>k side. account r' k side = account r k side - (if k = as_key a then share a side else 0))"
    using drop by blast
qed

section \<open>What an operation does to the books\<close>

definition same_books :: "router \<Rightarrow> router \<Rightarrow> bool" where
  "same_books r r' \<longleftrightarrow> rt_counters r' = rt_counters r \<and> rt_boot_id r' = rt_boot_id r"

lemma books_only_counters:
  assumes "rt_counters r' = rt_counters r"
  shows "counters_ok r' = counters_ok r" "account r' = account r"
  using assms by (simp_all add: counters_ok_def account_def counter_def fun_eq_iff)

lemma granted_Some:
  assumes "granted x = Some (a, r')"
  obtains res where "x = Some (res, r')" "a = (case res of Inr a \<Rightarrow> Some a | Inl _ \<Rightarrow> None)"
  using assms by (auto simp: granted_def)

lemma lift_result_Inr: "lift_result res k = Some (Inr b) \<longleftrightarrow> (\<exists>a. res = Inr a \<and> k a = Some (Inr b))"
  by (cases res) (auto simp: lift_result_def)

lemma reserve_cases:
  assumes "reserve r res = Some (x, r')"
  obtains e where "x = Inl e" "r' = r" | a where "x = Inr a" "res = Some (Inr a)" "r' = charge a r"
  using assms by (cases res; cases "the res") (auto simp: reserve_def)

lemma assign_counted:
  assumes "assign env spec service region headers peer s g destination r = Some (Inr a)"
  shows "as_generation a = g" "as_region a = rg_region destination" "as_source a = (\<not> peer)"
    "as_local a = (rg_region destination = region)"
  using assms by (auto simp: assign_def Let_def split: if_splits)

lemma for_upstream_peer: "backend_for_upstream url_parse x now = Some b \<Longrightarrow> vb_peer b = x"
  by (auto simp: backend_for_upstream_def backend_with_peer_def)

lemma assign_cases:
  assumes "assign env spec service region headers peer s g d r = Some (Inr a)"
  obtains b where "rg_region d = region" "sn_closed_through_generation s < g" "local_backend (ad_cells env) r = Some b"
      "a = \<lparr>as_generation = g, as_region = region, as_source = \<not> peer, as_local = True, as_backend = Pooled b, as_forward = None\<rparr>"
  | b gw gws token where "rg_region d \<noteq> region" "rg_gateways d = gw # gws" "vb_peer b = gw_url gw"
      "gateway_admit (ad_headers env) (Some (own_gateway spec service (rg_region d) Forward)) headers (ad_secrets env) = Inr (Some token)"
      "a = \<lparr>as_generation = g, as_region = rg_region d, as_source = \<not> peer, as_local = False, as_backend = Private b,
         as_forward = Some (own_gateway spec service (rg_region d) Forward, token, rsp_environment spec)\<rparr>"
  using assms
  by (auto simp: assign_def Let_def remote_backend_def not_le split: if_splits list.splits dest: for_upstream_peer)

lemma router_admit_cases:
  assumes "router_admit env random spec service region headers r = Some (res, r')"
  obtains e where "res = Inl e" "r' = r"
  | s g p destination a where "res = Inr a" "r' = charge a r" "open_snapshot r = Inr s" "generation_policy s g = Some p"
      "\<not> contains_key (ad_headers env) headers PROBE" "\<not> contains_key (ad_headers env) headers ACTIVE_PROBE"
      "if has_peer (ad_headers env) headers then peer_generation env spec service region headers s = Inr g
       else sn_active_generation s = Some g"
      "choose_region random (has_peer (ad_headers env) headers) region p = Some (Inr destination)"
      "assign env spec service region headers (has_peer (ad_headers env) headers) s g destination r = Some (Inr a)"
proof (cases res)
  case (Inl e)
  then have "r' = r" using assms by (auto simp: router_admit_def Let_def split: sum.splits prod.splits option.splits)
  with Inl that(1) show ?thesis by blast
next
  case (Inr a)
  with assms that(2) show ?thesis
    by (auto simp: router_admit_def Let_def split: sum.splits prod.splits option.splits if_splits)
qed

lemma pick_region_in: "pick_region t rs = Some r \<Longrightarrow> r \<in> set rs \<and> rg_weight r > 0"
  by (induction t rs rule: pick_region.induct) (auto split: if_splits)

lemma choose_region_in:
  assumes "choose_region random peer region p = Some (Inr d)"
  shows "d \<in> set (pl_regions p)" "rg_weight d > 0" "peer \<Longrightarrow> rg_region d = region"
  using assms pick_region_in
  by (auto simp: choose_region_def ok_or_def find_Some_iff split: if_splits option.splits)

lemma router_admit_counted:
  assumes "router_admit env random spec service region headers r = Some (Inr a, r')"
  shows "counted a \<and> r' = charge a r"
proof (cases rule: router_admit_cases[OF assms])
  case (2 s g p destination a')
  with assign_counted[OF 2(9)] choose_region_in[OF 2(8)] show ?thesis by (auto simp: counted_def)
qed simp

lemma admission_pooled:
  assumes "router_admit env random spec service region headers r = Some (Inr a, r')" "as_backend a = Pooled b"
  shows "b \<in> set (rt_local r)"
proof (cases rule: router_admit_cases[OF assms(1)])
  case (2 s g p destination a')
  from 2(9) show ?thesis
  proof (cases rule: assign_cases)
    case (1 c)
    with assms(2) 2(1) min_by_key_Some[OF 1(3)[unfolded local_backend_def]] show ?thesis by simp
  qed (use assms(2) 2(1) in simp)
qed simp

lemma run_router_op_books:
  assumes "run_router_op op r = Some (a, r')"
  shows "case a of None \<Rightarrow> rt_counters r' = rt_counters r | Some x \<Rightarrow> counted x \<and> r' = charge x r"
proof (cases "(op, r)" rule: run_router_op.cases)
  case (1 url_parse now s spec service region local r)
  with assms show ?thesis by (auto simp: router_apply_def Let_def split: sum.splits option.splits if_splits)
next
  case (2 env random spec service region headers r)
  with assms obtain res where res: "router_admit env random spec service region headers r = Some (res, r')"
    and a: "a = (case res of Inr a \<Rightarrow> Some a | Inl _ \<Rightarrow> None)" by (auto elim: granted_Some)
  show ?thesis
  proof (cases res)
    case (Inl e)
    with res 2 a show ?thesis by (auto elim: router_admit_cases)
  next
    case (Inr x)
    with router_admit_counted[OF res[unfolded Inr]] a 2 show ?thesis by simp
  qed
next
  case (3 env spec q destination r)
  with assms show ?thesis
    by (auto elim!: granted_Some reserve_cases simp: active_probe_assignment_def probe_reservation_def counted_def)
next
  case (4 env spec q destination r)
  with assms show ?thesis
    by (auto elim!: granted_Some reserve_cases simp: probe_assignment_def probe_reservation_def counted_def lift_result_Inr)
qed (use assms in \<open>auto simp: router_status_def fence_def Let_def\<close>)

lemma run_router_event_balanced:
  assumes "books.balanced r live" "run_router_event e (r, live) = Some (r', live')"
  shows "books.balanced r' live'"
proof (cases e)
  case (Op op)
  with assms(2) obtain a where a: "run_router_op op r = Some (a, r')" "live' = (case a of Some x \<Rightarrow> x # live | None \<Rightarrow> live)"
    by auto
  show ?thesis
  proof (cases a)
    case None
    then have "rt_counters r' = rt_counters r" using run_router_op_books[OF a(1)] by simp
    from books_only_counters[OF this] show ?thesis using None assms(1) a(2) by (simp add: books.balanced_def)
  next
    case (Some x)
    with run_router_op_books[OF a(1)] books.balanced_issue[OF assms(1)] a(2) show ?thesis by simp
  qed
next
  case (Drop i)
  show ?thesis
  proof (cases "i < length live")
    case True
    from books.balanced_retire[OF assms(1) True] show ?thesis using assms(2) Drop True by auto
  next
    case False
    with assms Drop show ?thesis by simp
  qed
qed

lemma router_run_balanced:
  "books.balanced r live \<Longrightarrow> router_run es (r, live) = Some (r', live') \<Longrightarrow> books.balanced r' live'"
proof (induction es arbitrary: r live)
  case (Cons e es)
  then obtain st where st: "run_router_event e (r, live) = Some st" "router_run es st = Some (r', live')"
    by (auto split: bind_splits)
  with Cons run_router_event_balanced[of r live e "fst st" "snd st"] show ?case by simp
qed simp

lemma router_init_balanced: "books.balanced (router_init bytes) []"
  by (simp add: books.balanced_def counters_ok_def account_def counter_def router_init_def)

lemma sum_of_bool: "sum_list (map (\<lambda>a. of_bool (P a)) xs) = length (filter P xs)" for P :: "'b \<Rightarrow> bool"
  by (induction xs) auto

lemma balanced_counter:
  assumes "books.balanced r live"
  shows "counter r k = (length (filter (\<lambda>a. as_key a = k \<and> as_source a) live), length (filter (\<lambda>a. as_key a = k \<and> as_local a) live))"
proof -
  have "account r k True = length (filter (\<lambda>a. as_key a = k \<and> as_source a) live)"
    "account r k False = length (filter (\<lambda>a. as_key a = k \<and> as_local a) live)"
    using assms by (cases k; simp add: books.balanced_def share_def sum_of_bool conj_commute)+
  then show ?thesis by (simp add: account_def prod_eq_iff)
qed

lemma balanced_lookup:
  assumes "books.balanced r live"
  shows "map_of (rt_counters r) k = (if counter r k = (0, 0) then None else Some (counter r k))"
proof (cases "map_of (rt_counters r) k")
  case (Some c)
  then have "c \<noteq> (0, 0)" using assms map_of_SomeD[OF Some] by (auto simp: books.balanced_def counters_ok_def list_all_iff)
  with Some show ?thesis by (simp add: counter_def)
qed (simp add: counter_def)

lemma balanced_empty:
  assumes "books.balanced r live"
  shows "counter r k = (0, 0) \<longleftrightarrow> \<not> list_ex (\<lambda>a. as_key a = k) live"
  using assms unfolding balanced_counter[OF assms]
  by (auto simp: filter_empty_conv list_ex_iff books.balanced_def list_all_iff counted_def)

lemma held_key:
  assumes "books.balanced r live" "a \<in> set live"
  shows "as_key a \<in> set (map fst (rt_counters r))"
proof -
  have "map_of (rt_counters r) (as_key a) \<noteq> None"
    using balanced_lookup[OF assms(1)] balanced_empty[OF assms(1)] assms(2) by (auto simp: list_ex_iff)
  then show ?thesis by (simp add: map_of_eq_None_iff)
qed

lemma sum_by_key:
  assumes "distinct ks"
  shows "list_all (\<lambda>a. P a \<longrightarrow> f a \<in> set ks) xs \<Longrightarrow>
    sum_list (map (\<lambda>k. length (filter (\<lambda>a. f a = k \<and> P a) xs)) (filter Q ks)) = length (filter (\<lambda>a. Q (f a) \<and> P a) xs)"
proof (induction xs)
  case (Cons x xs)
  have one: "sum_list (map (\<lambda>k. of_bool (f x = k)) (filter Q ks)) = (of_bool (Q (f x) \<and> f x \<in> set ks) :: nat)"
    using assms by (induction ks) auto
  have "length (filter (\<lambda>a. f a = k \<and> P a) (x # xs)) = of_bool (f x = k) * of_bool (P x) + length (filter (\<lambda>a. f a = k \<and> P a) xs)" for k
    by simp
  then have "sum_list (map (\<lambda>k. length (filter (\<lambda>a. f a = k \<and> P a) (x # xs))) (filter Q ks)) =
      of_bool (Q (f x) \<and> f x \<in> set ks) * of_bool (P x) + length (filter (\<lambda>a. Q (f a) \<and> P a) xs)"
    using Cons by (simp only: sum_list_addf sum_list_mult_const one) simp
  then show ?case using Cons.prems by simp
qed simp

lemma fold_pairs:
  "fold (\<lambda>(_, b) a. (fst a + fst b, snd a + snd b)) kvs (x, y) =
     (x + sum_list (map (fst \<circ> snd) kvs), y + sum_list (map (snd \<circ> snd) kvs))" for x y :: nat
  by (induction kvs arbitrary: x y) auto

lemma target_counts_live:
  assumes bal: "books.balanced r live"
  shows "target_counts (Some region) r =
    (length (filter (\<lambda>a. as_region a = region \<and> as_source a) live), length (filter (\<lambda>a. as_region a = region \<and> as_local a) live))"
proof -
  let ?kvs = "filter (\<lambda>((_, rg), _). Some rg = Some region) (rt_counters r)"
  let ?ks = "map fst (rt_counters r)"
  have d: "distinct ?ks" using bal btree_ok_distinct by (auto simp: books.balanced_def counters_ok_def)
  have entry: "c = counter r k" if "(k, c) \<in> set (rt_counters r)" for k c
    using that d by (simp add: counter_def)
  have keys: "map fst ?kvs = filter (\<lambda>k. snd k = region) ?ks" by (simp add: filter_map comp_def case_prod_unfold)
  have counts: "?kvs = map (\<lambda>k. (k, counter r k)) (filter (\<lambda>k. snd k = region) ?ks)"
    unfolding keys[symmetric] map_map by (rule map_idI[symmetric]) (auto simp: entry[symmetric])
  have out: "list_all (\<lambda>a. as_source a \<longrightarrow> as_key a \<in> set ?ks) live" and inn: "list_all (\<lambda>a. as_local a \<longrightarrow> as_key a \<in> set ?ks) live"
    using held_key[OF bal] by (auto simp: list_all_iff)
  have key: "as_region a = snd (as_key a)" for a by (simp add: as_key_def)
  show ?thesis
    unfolding target_counts_def fold_pairs counts
    using sum_by_key[OF d out, of "\<lambda>k. snd k = region"] sum_by_key[OF d inn, of "\<lambda>k. snd k = region"]
    by (simp add: comp_def balanced_counter[OF bal] key)
qed

section \<open>The order of snapshots\<close>

definition snapshot_le :: "snapshot \<Rightarrow> snapshot \<Rightarrow> bool" where
  "snapshot_le old s \<longleftrightarrow> sn_version old \<le> sn_version s \<and> \<not> option_less (sn_active_generation s) (sn_active_generation old) \<and>
     sn_closed_through_generation old \<le> sn_closed_through_generation s \<and> set (sn_policies old) \<subseteq> set (sn_policies s)"

definition snapshot_grows :: "snapshot option \<Rightarrow> snapshot option \<Rightarrow> bool" where
  "snapshot_grows x y = (case x of None \<Rightarrow> True | Some old \<Rightarrow> (case y of None \<Rightarrow> False | Some s \<Rightarrow> snapshot_le old s))"

lemma option_less_trans: "\<not> option_less b a \<Longrightarrow> \<not> option_less c b \<Longrightarrow> \<not> option_less c a"
  by (cases a; cases b; cases c) auto

lemma snapshot_grows_refl [simp]: "snapshot_grows x x"
  by (cases x) (auto simp: snapshot_grows_def snapshot_le_def elim: option_less.elims)

lemma snapshot_grows_trans: "snapshot_grows x y \<Longrightarrow> snapshot_grows y z \<Longrightarrow> snapshot_grows x z"
  using option_less_trans by (fastforce simp: snapshot_grows_def snapshot_le_def split: option.splits)

lemma charge_snapshot [simp]: "rt_snapshot (charge a r) = rt_snapshot r" "rt_fenced (charge a r) = rt_fenced r"
  "rt_boot_id (charge a r) = rt_boot_id r" "rt_local (charge a r) = rt_local r"
  by (simp_all add: charge_def Let_def split: prod.splits)

lemma drop_snapshot: "assignment_drop a r = Some r' \<Longrightarrow> rt_snapshot r' = rt_snapshot r \<and> rt_fenced r' = rt_fenced r"
  by (auto simp: assignment_drop_def Let_def split: option.splits prod.splits if_splits)

text \<open>An application is the only operation that replaces the snapshot, and only by a checked, later one.\<close>

lemma router_apply_snapshot:
  assumes "router_apply url_parse now s spec service region local r = (res, r')"
  shows "rt_fenced r' = rt_fenced r \<and> (r' = r \<or>
    rt_snapshot r' = Some s \<and> rt_local r' = local \<and> \<not> rt_fenced r \<and> snapshot_grows (rt_snapshot r) (Some s) \<and>
      check_snapshot url_parse s spec service region (rt_boot_id r) = Inr ())"
proof -
  have eq: "gn_generation p = gn_generation q \<and> gn_policy p = gn_policy q \<longleftrightarrow> p = q" for p q :: generation by auto
  show ?thesis
    using assms
    by (auto simp: router_apply_def Let_def snapshot_grows_def snapshot_le_def eq list_ex_iff split: sum.splits option.splits if_splits)
qed

lemma open_snapshot_iff: "open_snapshot r = Inr s \<longleftrightarrow> \<not> rt_fenced r \<and> rt_snapshot r = Some s"
  by (auto simp: open_snapshot_def)

lemma active_probe_open:
  "active_probe_assignment env spec q destination r = Some (Inr a, r') \<Longrightarrow> \<not> rt_fenced r"
  by (auto elim!: reserve_cases simp: active_probe_assignment_def active_probe_backend_def lift_result_Inr open_snapshot_iff)

lemma probe_open:
  "probe_assignment env spec q destination r = Some (Inr a, r') \<Longrightarrow> \<not> rt_fenced r"
  by (auto elim!: reserve_cases simp: probe_assignment_def lift_result_Inr open_snapshot_iff)

lemma admit_open: "router_admit env random spec service region headers r = Some (Inr a, r') \<Longrightarrow> \<not> rt_fenced r"
  by (auto elim!: router_admit_cases simp: open_snapshot_iff)

lemma run_router_op_snapshot:
  assumes "run_router_op op r = Some (a, r')"
  shows "snapshot_grows (rt_snapshot r) (rt_snapshot r') \<and>
    (rt_fenced r \<longrightarrow> rt_fenced r' \<and> rt_snapshot r' = rt_snapshot r \<and> a = None)"
proof (cases a)
  case (Some x)
  with run_router_op_books[OF assms] have "r' = charge x r" by simp
  moreover have "\<not> rt_fenced r"
    using assms Some
    by (cases "(op, r)" rule: run_router_op.cases)
      (auto elim!: granted_Some split: sum.splits dest: admit_open active_probe_open probe_open)
  ultimately show ?thesis by simp
next
  case None
  show ?thesis
  proof (cases "(op, r)" rule: run_router_op.cases)
    case (1 url_parse now s spec service region local r)
    with assms None router_apply_snapshot[of url_parse now s spec service region local r] show ?thesis
      by (cases "router_apply url_parse now s spec service region local r") auto
  qed (use assms None in \<open>auto elim!: granted_Some router_admit_cases reserve_cases
      simp: router_status_def fence_def Let_def active_probe_assignment_def probe_assignment_def\<close>)
qed

lemma run_router_event_snapshot:
  assumes "run_router_event e (r, live) = Some (r', live')"
  shows "snapshot_grows (rt_snapshot r) (rt_snapshot r') \<and>
    (rt_fenced r \<longrightarrow> rt_fenced r' \<and> rt_snapshot r' = rt_snapshot r \<and> set live' \<subseteq> set live)"
proof (cases e)
  case (Op op)
  with assms show ?thesis using run_router_op_snapshot[of op r] by fastforce
next
  case (Drop i)
  with assms show ?thesis by (auto dest: drop_snapshot in_set_takeD in_set_dropD split: if_splits)
qed

lemma router_run_snapshot:
  "router_run es (r, live) = Some (r', live') \<Longrightarrow> snapshot_grows (rt_snapshot r) (rt_snapshot r') \<and>
     (rt_fenced r \<longrightarrow> rt_fenced r' \<and> rt_snapshot r' = rt_snapshot r \<and> set live' \<subseteq> set live)"
proof (induction es arbitrary: r live)
  case (Cons e es)
  then obtain st where st: "run_router_event e (r, live) = Some st" "router_run es st = Some (r', live')"
    by (auto split: bind_splits)
  with Cons.IH[of "fst st" "snd st"] run_router_event_snapshot[of e r live "fst st" "snd st"]
  show ?case by (auto intro: snapshot_grows_trans)
qed simp

section \<open>Sound snapshots\<close>

definition policy_sound :: "policy \<Rightarrow> bool" where
  "policy_sound p \<longleftrightarrow> weight_sum p > 0 \<and> distinct (map rg_region (pl_regions p)) \<and>
     list_all (\<lambda>r. rg_region r \<noteq> [] \<and> rg_gateways r \<noteq> []) (pl_regions p)"

definition snapshot_sound :: "snapshot \<Rightarrow> bool" where
  "snapshot_sound s \<longleftrightarrow> list_all (\<lambda>g. gn_generation g > 0 \<and> policy_sound (gn_policy g)) (sn_policies s) \<and>
     distinct (map gn_generation (sn_policies s)) \<and> generation_policy s (sn_proposal_generation s) \<noteq> None \<and>
     (case sn_active_generation s of Some g \<Rightarrow> generation_policy s g \<noteq> None | None \<Rightarrow> True) \<and>
     0 \<le> sn_closed_through_generation s \<and> sn_closed_through_generation s \<le> sn_proposal_generation s"

lemma check_regions_sound:
  "check_regions url_parse rs regions seen w = Inr w' \<Longrightarrow>
     w' = w + sum_list (map rg_weight rs) \<and> distinct (map rg_region rs) \<and> rg_region ` set rs \<inter> regions = {} \<and>
     list_all (\<lambda>r. rg_region r \<noteq> [] \<and> rg_gateways r \<noteq> []) rs"
  by (induction rs arbitrary: regions seen w) (fastforce split: if_splits)+

lemma check_generations_sound:
  "check_generations url_parse gs generations = Inr u \<Longrightarrow>
     list_all (\<lambda>g. gn_generation g > 0 \<and> policy_sound (gn_policy g)) gs \<and> distinct (map gn_generation gs) \<and>
     gn_generation ` set gs \<inter> generations = {}"
proof (induction gs arbitrary: generations)
  case (Cons g gs)
  then obtain w where w: "check_regions url_parse (pl_regions (gn_policy g)) {} ({}, {}) 0 = Inr w" "w \<noteq> 0"
    and rest: "check_generations url_parse gs (insert (gn_generation g) generations) = Inr u"
    and g: "gn_generation g > 0" "gn_generation g \<notin> generations"
    by (auto split: if_splits)
  have "weight_sum (gn_policy g) = w" using check_regions_sound[OF w(1)] by (simp add: weight_sum_def)
  then have "weight_sum (gn_policy g) > 0" using w(2) by (metis gr0I)
  then have "policy_sound (gn_policy g)" using check_regions_sound[OF w(1)] unfolding policy_sound_def by blast
  with Cons.IH[OF rest] g show ?case by auto
qed simp

lemma generation_policy_known: "generation_policy s g = None \<longleftrightarrow> g \<notin> gn_generation ` set (sn_policies s)"
  by (auto simp: generation_policy_def find_None_iff)

lemma check_snapshot_sound: "check_snapshot url_parse s spec service region boot = Inr u \<Longrightarrow> snapshot_sound s"
  using check_generations_sound[of url_parse "sn_policies s" "{}" "()"]
  by (simp add: check_snapshot_def snapshot_sound_def generation_policy_known Let_def not_less split: option.splits)

definition router_sound :: "router \<Rightarrow> bool" where
  "router_sound r = (case rt_snapshot r of Some s \<Rightarrow> snapshot_sound s | None \<Rightarrow> True)"

lemma run_router_op_sound:
  assumes "run_router_op op r = Some (a, r')" "router_sound r"
  shows "router_sound r'"
proof (cases a)
  case (Some x)
  with run_router_op_books[OF assms(1)] assms(2) show ?thesis by (simp add: router_sound_def)
next
  case None
  show ?thesis
  proof (cases "(op, r)" rule: run_router_op.cases)
    case (1 url_parse now s spec service region local r)
    with assms router_apply_snapshot[of url_parse now s spec service region local r] check_snapshot_sound show ?thesis
      by (cases "router_apply url_parse now s spec service region local r") (auto simp: router_sound_def)
  qed (use assms None in \<open>auto elim!: granted_Some router_admit_cases reserve_cases
      simp: router_status_def fence_def Let_def active_probe_assignment_def probe_assignment_def router_sound_def\<close>)
qed

lemma run_router_event_sound: "run_router_event e st = Some st' \<Longrightarrow> router_sound (fst st) \<Longrightarrow> router_sound (fst st')"
  by (cases "(e, st)" rule: run_router_event.cases)
    (auto simp: router_sound_def dest: run_router_op_sound drop_snapshot split: if_splits)

lemma router_run_sound: "router_run es st = Some st' \<Longrightarrow> router_sound (fst st) \<Longrightarrow> router_sound (fst st')"
  by (induction es arbitrary: st) (auto split: bind_splits dest: run_router_event_sound)

lemma router_init_sound [simp]: "router_sound (router_init bytes)"
  by (simp add: router_sound_def router_init_def)

section \<open>The weighted choice\<close>

lemma pick_region_total: "t < sum_list (map rg_weight rs) \<Longrightarrow> pick_region t rs \<noteq> None"
  by (induction t rs rule: pick_region.induct) auto

lemma pick_region_tickets:
  "distinct rs \<Longrightarrow> d \<in> set rs \<Longrightarrow> card {t. t < sum_list (map rg_weight rs) \<and> pick_region t rs = Some d} = rg_weight d"
proof (induction rs)
  case (Cons r rs)
  let ?w = "rg_weight r" and ?T = "\<lambda>rs. {t. t < sum_list (map rg_weight rs) \<and> pick_region t rs = Some d}"
  show ?case
  proof (cases "d = r")
    case True
    then have "pick_region t rs \<noteq> Some d" for t using Cons.prems(1) pick_region_in by fastforce
    then have "?T (r # rs) = {t. t < ?w}" using True by auto
    then show ?thesis using True by simp
  next
    case False
    have "?T (r # rs) = (\<lambda>t. t + ?w) ` ?T rs"
    proof (rule set_eqI)
      fix t show "t \<in> ?T (r # rs) \<longleftrightarrow> t \<in> (\<lambda>t. t + ?w) ` ?T rs"
        using False by (cases "t < ?w") (auto simp: image_iff intro: exI[of _ "t - ?w"])
    qed
    then have "card (?T (r # rs)) = card (?T rs)" by (simp add: card_image)
    with Cons False show ?thesis by simp
  qed
qed simp

text \<open>The numbers below \<open>N\<close> spread over the remainders by \<open>W\<close> as evenly as the division allows.\<close>

lemma card_remainders:
  fixes W N :: nat
  assumes "A \<subseteq> {..<W}"
  shows "N div W * card A \<le> card {k. k < N \<and> k mod W \<in> A} \<and> card {k. k < N \<and> k mod W \<in> A} \<le> (N div W + 1) * card A"
proof -
  let ?f = "\<lambda>(q, a). q * W + a" and ?K = "{k. k < N \<and> k mod W \<in> A}"
  have a: "a < W" "(q * W + a) div W = q" "(q * W + a) mod W = a" if "a \<in> A" for q a using assms that by auto
  have inj: "inj_on ?f (Q \<times> A)" for Q
    by (rule inj_on_inverseI[where g = "\<lambda>k. (k div W, k mod W)"]) (auto simp: a)
  have fin: "finite A" "finite ?K" using assms finite_subset by auto
  have "q * W + x \<in> ?K" if q: "q < N div W" and x: "x \<in> A" for q x
  proof -
    have "q * W + x < Suc q * W" using a[OF x] by simp
    also have "\<dots> \<le> N div W * W" using q by (intro mult_le_mono1) simp
    also have "\<dots> \<le> N" by simp
    finally show ?thesis using a[OF x] x by simp
  qed
  then have "?f ` ({..<N div W} \<times> A) \<subseteq> ?K" by auto
  from card_mono[OF fin(2) this] have low: "N div W * card A \<le> card ?K"
    by (simp add: card_image[OF inj] card_cartesian_product)
  have "k \<in> ?f ` ({..N div W} \<times> A)" if "k \<in> ?K" for k
    using that div_le_mono[of k N W] by (intro image_eqI[of _ _ "(k div W, k mod W)"]) auto
  then have "?K \<subseteq> ?f ` ({..N div W} \<times> A)" by blast
  from card_mono[OF _ this] fin(1) have "card ?K \<le> (N div W + 1) * card A"
    by (simp add: card_image[OF inj] card_cartesian_product)
  with low show ?thesis by simp
qed

lemma card_words: "card {n :: 64 word. P (unat n)} = card {k. k < 2 ^ 64 \<and> P k}"
proof -
  have "unat ` {n :: 64 word. P (unat n)} = {k. k < 2 ^ 64 \<and> P k}"
  proof (intro set_eqI iffI)
    fix k assume "k \<in> unat ` {n :: 64 word. P (unat n)}"
    then show "k \<in> {k. k < 2 ^ 64 \<and> P k}" using unsigned_less[where ?'b = 64 and ?'a = nat] by auto
  next
    fix k assume "k \<in> {k. k < 2 ^ 64 \<and> P k}"
    moreover from this have "unat (of_nat k :: 64 word) = k" by (simp add: unat_of_nat take_bit_nat_eq_self)
    ultimately show "k \<in> unat ` {n :: 64 word. P (unat n)}" by (intro image_eqI[of _ _ "of_nat k"]) simp_all
  qed
  moreover have "inj_on unat {n :: 64 word. P (unat n)}" by (intro inj_onI unsigned_word_eqI)
  ultimately show ?thesis using card_image by fastforce
qed

lemma choose_region_picks:
  "weight_sum p > 0 \<Longrightarrow> choose_region (Some n) False region p = Some (Inr d) \<longleftrightarrow>
     pick_region (unat n mod weight_sum p) (pl_regions p) = Some d"
  by (auto simp: choose_region_def)

lemma choose_region_total:
  assumes "weight_sum p > 0"
  shows "\<exists>d. choose_region (Some n) False region p = Some (Inr d) \<and> d \<in> set (pl_regions p)"
proof -
  have "unat n mod weight_sum p < sum_list (map rg_weight (pl_regions p))" using assms by (simp add: weight_sum_def)
  from pick_region_total[OF this] obtain d where "pick_region (unat n mod weight_sum p) (pl_regions p) = Some d" by auto
  then show ?thesis using assms pick_region_in by (auto simp: choose_region_picks)
qed

lemma choose_region_spread:
  assumes "policy_sound p" "d \<in> set (pl_regions p)"
  shows "2 ^ 64 div weight_sum p * rg_weight d \<le> card {n. choose_region (Some n) False region p = Some (Inr d)} \<and>
    card {n. choose_region (Some n) False region p = Some (Inr d)} \<le> (2 ^ 64 div weight_sum p + 1) * rg_weight d"
proof -
  let ?A = "{t. t < weight_sum p \<and> pick_region t (pl_regions p) = Some d}"
  have w: "weight_sum p > 0" and "distinct (pl_regions p)" using assms(1) by (auto simp: policy_sound_def distinct_map)
  then have A: "card ?A = rg_weight d" using pick_region_tickets[OF _ assms(2)] by (simp add: weight_sum_def)
  have "{n. choose_region (Some n) False region p = Some (Inr d)} = {n. unat n mod weight_sum p \<in> ?A}"
    using w by (simp add: choose_region_picks)
  then have "card {n. choose_region (Some n) False region p = Some (Inr d)} = card {k. k < 2 ^ 64 \<and> k mod weight_sum p \<in> ?A}"
    using card_words[of "\<lambda>k. k mod weight_sum p \<in> ?A"] by simp
  with card_remainders[of ?A "weight_sum p" "2 ^ 64"] A show ?thesis by auto
qed

section \<open>Panics and the lock\<close>

text \<open>
  An address of a snapshot that panics whoever builds a backend for it: a gateway's URL that the
  parser of static upstreams refuses, or an endpoint's URL whose address does.
\<close>

definition bad_endpoint :: "(string \<Rightarrow> parsed_url option) \<Rightarrow> string \<Rightarrow> bool" where
  "bad_endpoint url_parse url =
     (case upstream_from_url url_parse url of
        None \<Rightarrow> True | Some (Inl _) \<Rightarrow> False | Some (Inr peer) \<Rightarrow> upstream_parse url_parse peer = None)"

definition bad_address :: "(string \<Rightarrow> parsed_url option) \<Rightarrow> snapshot \<Rightarrow> bool" where
  "bad_address url_parse s \<longleftrightarrow>
     list_ex (\<lambda>p. list_ex (\<lambda>d. list_ex (\<lambda>g. upstream_parse url_parse (gw_url g) = None) (rg_gateways d)) (pl_regions p))
       (map gn_policy (sn_policies s)) \<or>
     list_ex (\<lambda>e. bad_endpoint url_parse (ep_url e)) (sn_endpoints s)"

definition remote_gateway_refused :: "(string \<Rightarrow> parsed_url option) \<Rightarrow> string \<Rightarrow> snapshot \<Rightarrow> bool" where
  "remote_gateway_refused url_parse region s \<longleftrightarrow>
     list_ex (\<lambda>p. list_ex (\<lambda>d. rg_region d \<noteq> region \<and> rg_gateways d \<noteq> [] \<and>
       upstream_parse url_parse (gw_url (hd (rg_gateways d))) = None) (pl_regions p)) (map gn_policy (sn_policies s))"

lemma generation_policy_in: "generation_policy s g = Some p \<Longrightarrow> p \<in> set (map gn_policy (sn_policies s))"
  by (auto simp: generation_policy_def find_Some_iff)

lemma remote_gateway_bad: "remote_gateway_refused url_parse region s \<Longrightarrow> bad_address url_parse s"
  unfolding remote_gateway_refused_def bad_address_def list_ex_iff using hd_in_set by blast

lemma find_in: "find P xs = Some x \<Longrightarrow> x \<in> set xs"
  by (auto simp: find_Some_iff)

lemma gateway_bad:
  assumes "generation_policy s g = Some p" "find P (pl_regions p) = Some d" "find Q (rg_gateways d) = Some gw"
    "upstream_parse url_parse (gw_url gw) = None"
  shows "bad_address url_parse s"
  using generation_policy_in[OF assms(1)] find_in[OF assms(2)] find_in[OF assms(3)] assms(4)
  unfolding bad_address_def list_ex_iff by blast

lemma only_one_in: "only_one xs = Some x \<Longrightarrow> x \<in> set xs"
  by (auto simp: only_one_def split: list.splits)

lemma endpoint_bad:
  assumes "only_one (filter P (sn_endpoints s)) = Some e" "bad_endpoint url_parse (ep_url e)"
  shows "bad_address url_parse s"
  using only_one_in[OF assms(1)] assms(2) by (auto simp: bad_address_def list_ex_iff)

lemma loopback_peer_panics:
  "loopback_peer url_parse url = None \<Longrightarrow> bad_endpoint url_parse url"
  "loopback_peer url_parse url = Some (Inr peer) \<Longrightarrow> upstream_parse url_parse peer = None \<Longrightarrow> bad_endpoint url_parse url"
  by (auto simp: loopback_peer_def bad_endpoint_def)

lemma for_upstream_None: "backend_for_upstream url_parse v now = None \<longleftrightarrow> upstream_parse url_parse v = None"
  by (auto simp: backend_for_upstream_def)

lemma lift_result_None: "lift_result res k = None \<longleftrightarrow> (\<exists>a. res = Inr a \<and> k a = None)"
  by (cases res) (auto simp: lift_result_def)

lemma reserve_None: "reserve r res = None \<longleftrightarrow> res = None"
  by (auto simp: reserve_def)

text \<open>In a sound router an admission panics only on the first gateway of a remote region.\<close>

lemma router_admit_panics:
  assumes "router_admit env random spec service region headers r = None" "router_sound r"
  obtains s where "rt_snapshot r = Some s" "remote_gateway_refused (ad_url_parse env) region s"
proof -
  let ?peer = "has_peer (ad_headers env) headers"
  obtain s g p where p: "rt_snapshot r = Some s" "generation_policy s g = Some p"
    and c: "choose_region random ?peer region p = None \<or>
      (\<exists>d. choose_region random ?peer region p = Some (Inr d) \<and> assign env spec service region headers ?peer s g d r = None)"
    using assms(1) by (auto simp: router_admit_def Let_def open_snapshot_iff split: sum.splits prod.splits option.splits)
  have known: "policy_sound p" "p \<in> set (map gn_policy (sn_policies s))"
    using p assms(2) by (auto simp: router_sound_def snapshot_sound_def generation_policy_def list_all_iff find_Some_iff)
  have "choose_region random ?peer region p \<noteq> None"
    using known(1) by (auto simp: choose_region_def policy_sound_def split: option.splits)
  with c obtain d where d: "choose_region random ?peer region p = Some (Inr d)"
    "assign env spec service region headers ?peer s g d r = None" by blast
  from d(2) have "rg_region d \<noteq> region \<and> rg_gateways d \<noteq> [] \<and>
      upstream_parse (ad_url_parse env) (gw_url (hd (rg_gateways d))) = None"
    by (auto simp: assign_def Let_def remote_backend_def backend_for_upstream_def split: if_splits list.splits)
  with known(2) choose_region_in(1)[OF d(1)] have "remote_gateway_refused (ad_url_parse env) region s"
    by (fastforce simp: remote_gateway_refused_def list_ex_iff)
  with p(1) show thesis by (rule that)
qed

lemma router_admit_bad:
  assumes "router_admit env random spec service region headers r = None" "router_sound r"
  obtains s where "rt_snapshot r = Some s" "bad_address (ad_url_parse env) s"
  using router_admit_panics[OF assms] remote_gateway_bad by metis

lemma active_probe_panics:
  assumes "active_probe_backend env spec q destination r = None"
  obtains s where "rt_snapshot r = Some s" "bad_address (ad_url_parse env) s"
  using assms
  by (auto simp: active_probe_backend_def lift_result_None open_snapshot_iff probe_member_def for_upstream_None
      split: if_splits intro: gateway_bad endpoint_bad loopback_peer_panics(1))

lemma endpoint_backend_panics:
  assumes "Option.bind (loopback_peer url_parse url) (\<lambda>res.
    lift_result res (\<lambda>peer. map_option Inr (backend_for_upstream url_parse peer now))) = None"
  shows "bad_endpoint url_parse url"
  using assms loopback_peer_panics[of url_parse url]
  by (cases "loopback_peer url_parse url") (auto simp: lift_result_None for_upstream_None)

lemma probe_endpoint_panics:
  assumes "probe_endpoint env spec q s r = None"
  shows "bad_address (ad_url_parse env) s"
proof -
  from assms[unfolded probe_endpoint_def lift_result_None[of "and_then _ _"]] obtain e where
    "only_one (filter (\<lambda>e. ep_deployment_id e = pq_deployment_id q) (sn_endpoints s)) = Some e"
    "Option.bind (loopback_peer (ad_url_parse env) (ep_url e)) (\<lambda>res. lift_result res (\<lambda>peer.
       map_option Inr (backend_for_upstream (ad_url_parse env) peer (ad_now env)))) = (None :: (nat + vm_backend) option)"
    by auto
  with endpoint_bad endpoint_backend_panics show ?thesis by metis
qed

lemma probe_panics:
  assumes "probe_assignment env spec q destination r = None"
  obtains s where "rt_snapshot r = Some s" "bad_address (ad_url_parse env) s"
  using assms
  by (auto simp: probe_assignment_def reserve_None lift_result_None open_snapshot_iff for_upstream_None bind_eq_Some_conv
      split: if_splits intro: gateway_bad probe_endpoint_panics)

lemma run_router_op_panics:
  assumes "run_router_op op r = None" "router_sound r" "event_parses url_parse (Op op)"
  obtains s where "rt_snapshot r = Some s" "bad_address url_parse s"
  using assms
  by (cases "(op, r)" rule: run_router_op.cases)
    (auto simp: granted_def active_probe_assignment_def reserve_None
      elim: router_admit_bad active_probe_panics probe_panics)

lemma locked_apply_sane:
  "locked_apply False url_parse now s spec service region local r = Some (router_apply url_parse now s spec service region local r)"
  by (auto simp: locked_apply_def router_apply_def split: sum.splits)

lemma run_locked_op_sane: "run_locked_op False op r = run_router_op op r"
  by (cases "(op, r)" rule: run_router_op.cases)
    (auto simp: locked_apply_sane locked_admit_def router_admit_def locked_active_probe_def locked_probe_def
      probe_assignment_def locked_revalidate_def locked_status_def locked_fence_def granted_def reserve_def lift_result_def
      fail_if_def case_prod_unfold split: sum.splits)

lemma run_locked_op_poisoned: "run_locked_op True op r = None \<or> run_locked_op True op r = Some (None, r)"
  by (cases "(op, r)" rule: run_router_op.cases)
    (auto simp: locked_apply_def locked_admit_def locked_active_probe_def locked_probe_def
      locked_revalidate_def locked_status_def locked_fence_def granted_def split: sum.splits)

text \<open>Of a router behind its lock: sound, and balanced until a bad address poisoned the lock.\<close>

definition locked_ok :: "(string \<Rightarrow> parsed_url option) \<Rightarrow> bool \<times> router \<times> assignment list \<Rightarrow> bool" where
  "locked_ok url_parse st = (case st of (poisoned, r, live) \<Rightarrow> router_sound r \<and>
     (if poisoned then (case rt_snapshot r of Some s \<Rightarrow> bad_address url_parse s | None \<Rightarrow> False) else books.balanced r live))"

lemma run_locked_event_ok:
  assumes "locked_ok url_parse (poisoned, r, live)" "event_parses url_parse e"
  shows "locked_ok url_parse (run_locked_event e (poisoned, r, live))"
proof (cases poisoned)
  case True
  show ?thesis
  proof (cases e)
    case (Op op)
    from run_locked_op_poisoned[of op r] show ?thesis
    proof
      assume "run_locked_op True op r = None"
      with assms True Op show ?thesis by (simp add: locked_ok_def)
    next
      assume "run_locked_op True op r = Some (None, r)"
      with assms True Op show ?thesis by (simp add: locked_ok_def)
    qed
  qed (use assms True in \<open>auto simp: locked_ok_def locked_drop_def\<close>)
next
  case False
  with assms have ok: "router_sound r" "books.balanced r live" by (simp_all add: locked_ok_def)
  show ?thesis
  proof (cases e)
    case (Op op)
    show ?thesis
    proof (cases "run_router_op op r")
      case None
      from run_router_op_panics[OF None ok(1)] assms(2) Op obtain s where "rt_snapshot r = Some s" "bad_address url_parse s" by auto
      with ok None Op False show ?thesis by (simp add: locked_ok_def run_locked_op_sane)
    next
      case (Some x)
      then have "run_router_event e (r, live) = Some (snd x, case fst x of Some y \<Rightarrow> y # live | None \<Rightarrow> live)"
        using Op by (simp add: case_prod_unfold)
      from run_router_event_balanced[OF ok(2) this] run_router_event_sound[OF this] ok(1) Op False Some show ?thesis
        by (simp add: locked_ok_def run_locked_op_sane case_prod_unfold)
    qed
  next
    case (Drop i)
    show ?thesis
    proof (cases "i < length live")
      case True
      from books.balanced_retire[OF ok(2) True] show ?thesis
        using True Drop False ok(1) drop_snapshot[of "live ! i" r] by (auto simp: locked_ok_def locked_drop_def router_sound_def)
    qed (use Drop assms in simp)
  qed
qed

lemma locked_run_ok:
  "locked_ok url_parse st \<Longrightarrow> list_all (event_parses url_parse) es \<Longrightarrow> locked_ok url_parse (locked_run es st)"
proof (induction es arbitrary: st)
  case (Cons e es)
  from run_locked_event_ok[of url_parse "fst st" "fst (snd st)" "snd (snd st)" e] Cons show ?case
    by (simp add: locked_run_def)
qed (simp add: locked_run_def)

lemma locked_init_ok: "locked_ok url_parse (False, router_init bytes, [])"
  by (simp add: locked_ok_def router_init_balanced)

section \<open>Properties\<close>

text \<open>
  C29. In every history of a router up to its first panic, its counters count exactly the assignments that are still held,
  per generation and region and by side; the totals its status reports of a region are the numbers of
  outgoing and local assignments held there; and dropping a held assignment never panics.
\<close>

theorem assignments_counted:
  "case router_run es (router_init bytes, []) of
     None \<Rightarrow> True
   | Some (r, live) \<Rightarrow>
       list_all (\<lambda>a. assignment_drop a r \<noteq> None) live \<and>
       map_of (rt_counters r) k =
         (if list_ex (\<lambda>a. as_key a = k) live
          then Some (length (filter (\<lambda>a. as_key a = k \<and> as_source a) live), length (filter (\<lambda>a. as_key a = k \<and> as_local a) live))
          else None) \<and>
       target_counts (Some region) r =
         (length (filter (\<lambda>a. as_region a = region \<and> as_source a) live), length (filter (\<lambda>a. as_region a = region \<and> as_local a) live))"
proof (cases "router_run es (router_init bytes, [])")
  case (Some p)
  obtain r live where p: "p = (r, live)" by force
  have bal: "books.balanced r live" using router_run_balanced[OF router_init_balanced Some[unfolded p]] .
  have "assignment_drop a r \<noteq> None" if "a \<in> set live" for a
    using books.balanced_retire[OF bal] that by (metis in_set_conv_nth option.distinct(1))
  then show ?thesis
    using Some p balanced_lookup[OF bal, of k] balanced_empty[OF bal, of k] balanced_counter[OF bal, of k]
      target_counts_live[OF bal, of region]
    by (simp add: list_all_iff)
qed simp

text \<open>
  C30. Nothing a router learnt is taken back: in every history versions, the active generation and the
  closed generations only grow, and every policy of a generation stays as it was. A fenced router
  stays fenced, keeps its snapshot and grants nothing any more.
\<close>

theorem snapshots_never_regress:
  "case router_run es (r, live) of
     None \<Rightarrow> True
   | Some (r', live') \<Rightarrow>
       (case rt_snapshot r of
          None \<Rightarrow> True
        | Some old \<Rightarrow>
            (case rt_snapshot r' of
               None \<Rightarrow> False
             | Some s \<Rightarrow> sn_version old \<le> sn_version s \<and> \<not> option_less (sn_active_generation s) (sn_active_generation old) \<and>
                 sn_closed_through_generation old \<le> sn_closed_through_generation s \<and> set (sn_policies old) \<subseteq> set (sn_policies s))) \<and>
       (if rt_fenced r then rt_fenced r' \<and> rt_snapshot r' = rt_snapshot r \<and> set live' \<subseteq> set live else True)"
proof (cases "router_run es (r, live)")
  case (Some p)
  obtain r' live' where p: "p = (r', live')" by force
  from router_run_snapshot[OF Some[unfolded p]] show ?thesis
    using Some p by (auto simp: snapshot_grows_def snapshot_le_def split: option.splits)
qed simp

text \<open>
  C31. Requests are spread by weight: in every reachable router each policy of its snapshot has a
  positive sum of weights, every 64-bit random number chooses a region, and of the two to the 64
  numbers a region of weight w gets between w times the quotient of two to the 64 by the sum of the
  weights, rounded down, and w times one more. The difference is the bias of the remainder.
\<close>

theorem weighted_choice:
  "case router_run es (router_init bytes, []) of
     None \<Rightarrow> True
   | Some (r, _) \<Rightarrow>
       (case rt_snapshot r of
          None \<Rightarrow> True
        | Some s \<Rightarrow>
            list_all (\<lambda>p. weight_sum p > 0 \<and>
              (\<forall>n. \<exists>d. choose_region (Some n) False region p = Some (Inr d) \<and> d \<in> set (pl_regions p)) \<and>
              list_all (\<lambda>d. 2 ^ 64 div weight_sum p * rg_weight d
                  \<le> card {n. choose_region (Some n) False region p = Some (Inr d)} \<and>
                card {n. choose_region (Some n) False region p = Some (Inr d)}
                  \<le> (2 ^ 64 div weight_sum p + 1) * rg_weight d)
                (pl_regions p)) (map gn_policy (sn_policies s)))"
proof (cases "router_run es (router_init bytes, [])")
  case (Some q)
  have sound: "router_sound (fst q)" using router_run_sound[OF Some] by simp
  show ?thesis
    using Some sound choose_region_total choose_region_spread
    by (auto simp: router_sound_def snapshot_sound_def list_all_iff policy_sound_def[of "gn_policy _"] split: option.splits)
qed simp

text \<open>
  C32. What an admission grants: it is of the current snapshot of an open router, for a region with a
  positive weight in the policy of its generation. A request of its own client is pinned to the active
  generation. In its own region a request never enters a closed generation and gets a least loaded
  available backend; elsewhere it is one of the router's own clients and is forwarded to the region's
  first gateway.
\<close>

theorem admission_grants:
  assumes "router_admit env random spec service region headers r = Some (Inr a, r')"
  shows "\<exists>s p d. rt_snapshot r = Some s \<and> \<not> rt_fenced r \<and> generation_policy s (as_generation a) = Some p \<and>
    d \<in> set (pl_regions p) \<and> rg_region d = as_region a \<and> rg_weight d > 0 \<and> as_local a = (as_region a = region) \<and>
    as_source a = (\<not> has_peer (ad_headers env) headers) \<and>
    (if as_source a then sn_active_generation s = Some (as_generation a) else as_local a) \<and>
    (if as_local a
     then sn_closed_through_generation s < as_generation a \<and> as_forward a = None \<and>
       (\<exists>b \<in> set (rt_local r). as_backend a = Pooled b \<and> is_available (ad_cells env b) \<and>
          list_all (\<lambda>b'. vb_in_flight (ad_cells env b) \<le> vb_in_flight (ad_cells env b'))
            (filter (\<lambda>b'. is_available (ad_cells env b')) (rt_local r)))
     else \<exists>b token. as_backend a = Private b \<and> vb_peer b = gw_url (hd (rg_gateways d)) \<and>
       as_forward a = Some (own_gateway spec service (as_region a) Forward, token, rsp_environment spec))"
proof (cases rule: router_admit_cases[OF assms])
  case (2 s g p destination a')
  note a = assign_counted[OF 2(9)] and d = choose_region_in[OF 2(8)]
  have open_s: "rt_snapshot r = Some s" "\<not> rt_fenced r" using 2(3) by (simp_all add: open_snapshot_iff)
  have dest: "if as_local a
     then sn_closed_through_generation s < as_generation a \<and> as_forward a = None \<and>
       (\<exists>b. local_backend (ad_cells env) r = Some b \<and> as_backend a = Pooled b)
     else \<exists>b token. as_backend a = Private b \<and> vb_peer b = gw_url (hd (rg_gateways destination)) \<and>
       as_forward a = Some (own_gateway spec service (as_region a) Forward, token, rsp_environment spec)"
    using 2(1) by (cases rule: assign_cases[OF 2(9)]) auto
  have least: "b \<in> set (rt_local r) \<and> is_available (ad_cells env b) \<and>
      list_all (\<lambda>b'. vb_in_flight (ad_cells env b) \<le> vb_in_flight (ad_cells env b'))
        (filter (\<lambda>b'. is_available (ad_cells env b')) (rt_local r))" if "local_backend (ad_cells env) r = Some b" for b
    using min_by_key_Some[OF that[unfolded local_backend_def]] by (auto simp: list_all_iff)
  show ?thesis
    using 2(1,4,7) a d open_s dest least by (intro exI[of _ s] exI[of _ p] exI[of _ destination]) (auto split: if_splits)
qed simp

definition demo_url :: "string \<Rightarrow> nat \<Rightarrow> parsed_url" where
  "demo_url host port = \<lparr>url_scheme = ''https'', url_username = [], url_password = None, url_path = ''/'', url_query = None,
     url_fragment = None, url_port_or_default = Some port, url_domain = Some host, url_host_str = Some host, url_text = host\<rparr>"

text \<open>Two gateways; the second one's URL has port 0, which the URL parser takes.\<close>

definition demo_parse :: "string \<Rightarrow> parsed_url option" where
  "demo_parse v = map_of [(''https://a:1'', demo_url ''a'' 1), (''https://b:0'', demo_url ''b'' 0)] v"

definition demo_regional :: regional_spec where
  "demo_regional = \<lparr>rsp_gateway_id = ''a'', rsp_backend_server_id = ''h'', rsp_environment = ''e'',
     rsp_auth = gs_auth (demo_gateway Local)\<rparr>"

definition demo_policy :: policy where
  "demo_policy = \<lparr>pl_version = 1, pl_regions =
     [\<lparr>rg_region = ''ra'', rg_weight = 1, rg_gateways = [\<lparr>gw_id = ''a'', gw_backend_server_id = ''h'', gw_url = ''https://a:1''\<rparr>]\<rparr>,
      \<lparr>rg_region = ''rb'', rg_weight = 1, rg_gateways = [\<lparr>gw_id = ''b'', gw_backend_server_id = ''h'', gw_url = ''https://b:0''\<rparr>]\<rparr>]\<rparr>"

definition demo_snapshot :: "string \<Rightarrow> snapshot" where
  "demo_snapshot boot = \<lparr>sn_protocol_version = 1, sn_service_id = ''s'', sn_environment = ''e'', sn_region = ''ra'',
     sn_gateway_id = ''a'', sn_boot_id = boot, sn_version = 1, sn_operation_id = ''o'', sn_phase = ''bake'',
     sn_proposal_generation = 1, sn_active_generation = Some 1, sn_drain_target = None, sn_closed_through_generation = 0,
     sn_policies = [\<lparr>gn_generation = 1, gn_policy = demo_policy\<rparr>], sn_endpoints = []\<rparr>"

definition demo_router :: router where
  "demo_router = snd (router_apply demo_parse 0 (demo_snapshot (boot_id_of ''x'')) demo_regional ''s'' ''ra'' [0] (router_init ''x''))"

definition demo_env :: "(string \<Rightarrow> string list) admission" where
  "demo_env = \<lparr>ad_headers = fun_headers, ad_url_parse = demo_parse, ad_secrets = demo_peer_store,
     ad_cells = (\<lambda>_. backend_new ''v'' ''127.0.0.1:80'' 0), ad_now = 0\<rparr>"

lemma demo_apply:
  "router_apply demo_parse 0 (demo_snapshot (boot_id_of ''x'')) demo_regional ''s'' ''ra'' [0] (router_init ''x'') =
     (Inr True, (router_init ''x'')\<lparr>rt_local := [0], rt_snapshot := Some (demo_snapshot (boot_id_of ''x'')), rt_observed_at := Some 0\<rparr>)"
  by (simp add: router_apply_def check_snapshot_def demo_snapshot_def demo_regional_def demo_policy_def demo_parse_def demo_url_def
      transport_ok_def ok_or_def fail_if_def bound_to_host_def generation_policy_def find_region_def router_init_def)

lemmas demo_router = demo_router_def[unfolded demo_apply snd_conv]

lemmas demo_admission = demo_router router_admit_def demo_env_def has_peer_def contains_key_def fun_headers_def open_snapshot_def
  router_init_def demo_snapshot_def generation_policy_def demo_policy_def choose_region_def weight_sum_def assign_def
  remote_backend_def backend_for_upstream_def local_backend_def is_available_def backend_new_def backend_with_peer_def
  ok_or_def fail_if_def HEADERS_def Let_def

theorem admission_grants_witness:
  "\<exists>a r'. router_admit demo_env (Some 0) demo_regional ''s'' ''ra'' (\<lambda>_. []) demo_router = Some (Inr a, r') \<and>
     (\<exists>s. rt_snapshot demo_router = Some s \<and> sn_active_generation s = Some (as_generation a)) \<and> as_local a"
proof -
  have "\<exists>a r'. router_admit demo_env (Some 0) demo_regional ''s'' ''ra'' (\<lambda>_. []) demo_router = Some (Inr a, r') \<and> as_source a \<and> as_local a"
    by (simp add: demo_admission)
  then obtain a r' where a: "router_admit demo_env (Some 0) demo_regional ''s'' ''ra'' (\<lambda>_. []) demo_router = Some (Inr a, r')"
    "as_source a" "as_local a" by blast
  from admission_grants[OF a(1)] a show ?thesis by auto
qed

text \<open>
  C33. What makes an admission panic, over histories that go on after a panic and with the lock that a
  panic poisons: a router whose lock is sound panics only on the first gateway of a remote region,
  whose URL the snapshot's validation accepted and the parser of static upstreams refuses; a poisoned
  lock, which panics every admission, is the work of such a URL, or of an endpoint's address, in the
  snapshot the router still has. The parser of URLs is the same throughout.
\<close>

theorem admission_panics_only_on_addresses:
  assumes "list_all (event_parses url_parse) es" "ad_url_parse env = url_parse"
  shows "case locked_run es (False, router_init bytes, []) of (poisoned, r, live) \<Rightarrow>
    (case locked_admit poisoned env random spec service region headers r of
       Some _ \<Rightarrow> True
     | None \<Rightarrow>
         (case rt_snapshot r of
            None \<Rightarrow> False
          | Some s \<Rightarrow> if poisoned then bad_address url_parse s else remote_gateway_refused url_parse region s))"
proof -
  obtain poisoned r live where run: "locked_run es (False, router_init bytes, []) = (poisoned, r, live)" by (metis surj_pair)
  have ok: "locked_ok url_parse (poisoned, r, live)" using locked_run_ok[OF locked_init_ok assms(1), of bytes] run by simp
  show ?thesis
  proof (cases "locked_admit poisoned env random spec service region headers r")
    case None
    show ?thesis
    proof (cases poisoned)
      case True
      with ok None run show ?thesis by (auto simp: locked_ok_def split: option.splits)
    next
      case False
      with None have "router_admit env random spec service region headers r = None" by (auto simp: locked_admit_def split: if_splits)
      from router_admit_panics[OF this] ok obtain s where "rt_snapshot r = Some s" "remote_gateway_refused url_parse region s"
        using assms(2) by (auto simp: locked_ok_def)
      with None run False show ?thesis by simp
    qed
  qed (simp add: run)
qed

lemma upstream_port_zero:
  "str_find ''://'' v = Some i \<Longrightarrow> url_parse v = Some u \<Longrightarrow> url_port_or_default u = Some 0 \<Longrightarrow> upstream_parse url_parse v = None"
  by (auto simp: upstream_parse_def Let_def)

text \<open>
  The reason is real: a gateway URL with port 0 passes the validation and panics the admission whose
  ticket falls on it. That poisons the lock, and the next admission panics although its own ticket
  falls on the router's own region.
\<close>

definition demo_poisoning :: "(string \<Rightarrow> string list) router_event list" where
  "demo_poisoning =
     [Op (ApplySnapshot demo_parse 0 (demo_snapshot (boot_id_of ''x'')) demo_regional ''s'' ''ra'' [0]),
      Op (AdmitRequest demo_env (Some 1) demo_regional ''s'' ''ra'' (\<lambda>_. []))]"

lemma accepted_url_panics: "router_admit demo_env (Some 1) demo_regional ''s'' ''ra'' (\<lambda>_. []) demo_router = None"
proof -
  have "upstream_parse demo_parse ''https://b:0'' = None"
    by (rule upstream_port_zero[of _ 5 _ "demo_url ''b'' 0"]) (simp_all add: demo_parse_def demo_url_def)
  then show ?thesis by (simp add: demo_admission)
qed

lemma demo_poisoned: "locked_run demo_poisoning (False, router_init ''x'', []) = (True, demo_router, [])"
proof -
  have "run_locked_event (demo_poisoning ! 0) (False, router_init ''x'', []) = (False, demo_router, [])"
    unfolding demo_poisoning_def nth_Cons_0 run_locked_event.simps run_locked_op_sane run_router_op.simps
    by (simp add: demo_router_def)
  moreover have "run_locked_event (demo_poisoning ! 1) (False, demo_router, []) = (True, demo_router, [])"
    by (simp add: demo_poisoning_def run_locked_op_sane accepted_url_panics granted_def del: run_locked_op.simps)
  ultimately show ?thesis by (simp add: locked_run_def demo_poisoning_def)
qed

theorem admission_panics_only_on_addresses_witness:
  "locked_run demo_poisoning (False, router_init ''x'', []) = (True, demo_router, []) \<and>
   locked_admit True demo_env (Some 0) demo_regional ''s'' ''ra'' (\<lambda>_. []) demo_router = None \<and>
   router_admit demo_env (Some 0) demo_regional ''s'' ''ra'' (\<lambda>_. []) demo_router \<noteq> None \<and>
   bad_address demo_parse (demo_snapshot (boot_id_of ''x''))"
proof -
  have "list_all (event_parses demo_parse) demo_poisoning" "ad_url_parse demo_env = demo_parse"
    by (simp_all add: demo_poisoning_def demo_env_def)
  note panics = admission_panics_only_on_addresses
    [OF this, where bytes = "''x''" and random = "Some 0" and spec = demo_regional and service = "''s''" and region = "''ra''"
      and headers = "\<lambda>_. []"]
  have none: "locked_admit True demo_env (Some 0) demo_regional ''s'' ''ra'' (\<lambda>_. []) demo_router = None"
    by (simp add: locked_admit_def demo_env_def contains_key_def fun_headers_def)
  have "rt_snapshot demo_router = Some (demo_snapshot (boot_id_of ''x''))" by (simp add: demo_router)
  with panics none have "bad_address demo_parse (demo_snapshot (boot_id_of ''x''))" by (simp add: demo_poisoned)
  moreover have "router_admit demo_env (Some 0) demo_regional ''s'' ''ra'' (\<lambda>_. []) demo_router \<noteq> None"
    by (simp add: demo_admission)
  ultimately show ?thesis using none demo_poisoned by simp
qed

end
