(* ===== verification/Request_Laws.thy ===== *)
theory Request_Laws
  imports Request Regional_Laws
begin

text \<open>
  Many requests over one registry (\<open>app-lb/src/request_control.rs\<close>): a system interleaves the steps of
  the requests with the changes to the registry and to the regional routers. The theory shows that
  slots and assignments are accounted exactly and that a selection ends.
\<close>

section \<open>The system\<close>

record system =
  sy_registry :: registry
  sy_requests :: "(progress \<times> request) list"

abbreviation sy_arena :: "system \<Rightarrow> arena" where
  "sy_arena s \<equiv> reg_arena (sy_registry s)"

definition with_request :: "nat \<Rightarrow> progress \<times> request \<times> arena \<Rightarrow> system \<Rightarrow> system" where
  "with_request i x s =
     (case x of (p, q, a) \<Rightarrow>
        s\<lparr>sy_registry := (sy_registry s)\<lparr>reg_arena := a\<rparr>, sy_requests := (sy_requests s)[i := (p, q)]\<rparr>)"

text \<open>
  The changes to the registry that are not made by a request: they neither take nor give back a slot
  of a backend.
\<close>

inductive quiet_step :: "(string \<Rightarrow> parsed_url option) \<Rightarrow> registry \<Rightarrow> registry \<Rightarrow> bool" for P where
  quiet_upsert: "upsert P rvs now spec r = Some (d, r') \<Longrightarrow> quiet_step P r r'"
| quiet_update: "update_spec P rvs now spec r = Some (res, r') \<Longrightarrow> quiet_step P r r'"
| quiet_remove: "quiet_step P r (snd (remove i r))"
| quiet_state: "quiet_step P r (reg_set_state i st r)"
| quiet_health: "quiet_step P r (snd (reg_backend_op b (SetHealthy h) r))"
| quiet_usage: "quiet_step P r (snd (reg_backend_op b (SetUsage cpu mem) r))"
| quiet_discovery: "quiet_step P r (snd (discovery_backends i r))"

definition may_begin :: "progress \<Rightarrow> bool" where
  "may_begin p = (case p of Idle \<Rightarrow> True | Ready \<Rightarrow> True | Refused _ \<Rightarrow> True | _ \<Rightarrow> False)"

inductive sys_step :: "(string \<Rightarrow> parsed_url option) \<Rightarrow> 'h header_map \<Rightarrow> system \<Rightarrow> system \<Rightarrow> bool" for P and hm :: "'h header_map" where
  sys_registry: "quiet_step P (sy_registry s) r' \<Longrightarrow> sys_step P hm s (s\<lparr>sy_registry := r'\<rparr>)"
| sys_router: "run_router_op (op :: 'h router_op) (ar_router (sy_arena s) ref) = Some (None, r') \<Longrightarrow>
    list_all (\<lambda>b. b < ar_next (sy_arena s)) (rt_local r') \<Longrightarrow>
    sys_step P hm s (s\<lparr>sy_registry := (sy_registry s)\<lparr>reg_arena := with_router ref r' (sy_arena s)\<rparr>\<rparr>)"
| sys_arrive: "sys_step P hm s (s\<lparr>sy_requests := sy_requests s @ [(Idle, request_default)]\<rparr>)"
| sys_admit: "i < length (sy_requests s) \<Longrightarrow> sy_requests s ! i = (Idle, q) \<Longrightarrow> rq_assignment q = None \<Longrightarrow>
    get (sy_registry s) (spec_id (dp_spec d)) = Some d \<Longrightarrow> ad_headers env = hm \<Longrightarrow>
    request_admit env random d headers q (sy_arena s) = Some (res, q', a') \<Longrightarrow>
    sys_step P hm s (with_request i (Idle, q'\<lparr>rq_deployment := Some d\<rparr>, a') s)"
| sys_begin: "i < length (sy_requests s) \<Longrightarrow> sy_requests s ! i = (p, q) \<Longrightarrow> may_begin p \<Longrightarrow>
    sys_step P hm s (with_request i (begin_attempt now q (sy_arena s)) s)"
| sys_choose: "i < length (sy_requests s) \<Longrightarrow> sy_requests s ! i = (Choosing, q) \<Longrightarrow> choose_round (sy_registry s) q = (p', q') \<Longrightarrow>
    sys_step P hm s (with_request i (p', q', sy_arena s) s)"
| sys_wait: "i < length (sy_requests s) \<Longrightarrow> sy_requests s ! i = (AwaitingCapacity, q) \<Longrightarrow>
    sys_step P hm s (with_request i (wait_for_capacity w (sy_registry s) q, q, sy_arena s) s)"
| sys_reserve: "i < length (sy_requests s) \<Longrightarrow> sy_requests s ! i = (Chosen b, q) \<Longrightarrow>
    sys_step P hm s (with_request i (reserve_chosen now b q (sy_arena s)) s)"
| sys_resolve: "i < length (sy_requests s) \<Longrightarrow> sy_requests s ! i = (Resolving, q) \<Longrightarrow>
    sys_step P hm s (with_request i (resolved now found q (sy_arena s)) s)"
| sys_fail: "i < length (sy_requests s) \<Longrightarrow> sy_requests s ! i = (Ready, q) \<Longrightarrow> connection_failed now q (sy_arena s) = (q', a') \<Longrightarrow>
    sys_step P hm s (with_request i (Idle, q', a') s)"
| sys_complete: "i < length (sy_requests s) \<Longrightarrow> sy_requests s ! i = (p, q) \<Longrightarrow> request_complete now q (sy_arena s) = Some (q', a') \<Longrightarrow>
    sys_step P hm s (s\<lparr>sy_registry := (sy_registry s)\<lparr>reg_arena := a'\<rparr>,
      sy_requests := take i (sy_requests s) @ drop (i + 1) (sy_requests s)\<rparr>)"

section \<open>How the arena evolves\<close>

text \<open>
  A change that is no request's: what exists keeps its load and its accounting, what is new starts
  without either.
\<close>

definition evolves :: "arena \<Rightarrow> arena \<Rightarrow> bool" where
  "evolves a a' \<longleftrightarrow> ar_next a \<le> ar_next a' \<and> ar_next_router a \<le> ar_next_router a' \<and>
     (\<forall>b. b < ar_next a' \<longrightarrow> vb_in_flight (ar_cell a' b) = (if b < ar_next a then vb_in_flight (ar_cell a b) else 0)) \<and>
     (\<forall>ref < ar_next_router a'. rt_counters (ar_router a' ref) = (if ref < ar_next_router a then rt_counters (ar_router a ref) else []) \<and>
        rt_local (ar_router a' ref) = (if ref < ar_next_router a then rt_local (ar_router a ref) else []))"

lemma evolves_refl [simp]: "evolves a a"
  by (simp add: evolves_def)

lemma evolves_trans [trans]: "evolves a b \<Longrightarrow> evolves b c \<Longrightarrow> evolves a c"
  by (fastforce simp: evolves_def)

lemma evolves_cells:
  "ar_next a' = ar_next a \<Longrightarrow> ar_next_router a' = ar_next_router a \<Longrightarrow> ar_router a' = ar_router a \<Longrightarrow>
     (\<And>b. vb_in_flight (ar_cell a' b) = vb_in_flight (ar_cell a b)) \<Longrightarrow> evolves a a'"
  by (simp add: evolves_def)

lemma evolves_mark_drains [simp]: "evolves a (mark_drains st refs a)"
proof (rule evolves_cells)
  show "ar_next_router (mark_drains st refs a) = ar_next_router a" "ar_router (mark_drains st refs a) = ar_router a"
    "ar_next (mark_drains st refs a) = ar_next a"
    unfolding mark_drains_def by (induction refs arbitrary: a) (simp_all add: arena_update_def)
qed (rule mark_drains_load)

lemma evolves_drain_all [simp]: "evolves a (drain_all bs a)"
  unfolding drain_all_def
proof (induction bs arbitrary: a)
  case (Cons b bs)
  have "evolves a (arena_update b (\<lambda>x. set_draining x True) a)"
    by (rule evolves_cells) (simp_all add: arena_update_def set_draining_def)
  with Cons show ?case by (auto intro: evolves_trans)
qed simp

lemma evolves_router_fence [simp]: "evolves a (router_fence ref a)"
  by (auto simp: evolves_def router_fence_def fence_def)

lemma evolves_set_state: "set_state st d a = (d', a') \<Longrightarrow> evolves a a' \<and> dp_regional d' = dp_regional d"
  by (auto simp: set_state_def)

lemma evolves_mutate_state: "snd (mutate_state f d a) = (d', a') \<Longrightarrow> evolves a a' \<and> dp_regional d' = dp_regional d"
  by (auto simp: mutate_state_def Let_def dest: evolves_set_state split: if_splits)

lemma evolves_set_backends: "set_backends refs d a = (d', a') \<Longrightarrow> evolves a a' \<and> dp_regional d' = dp_regional d"
  by (auto simp: set_backends_def)

lemma evolves_keep_backends: "keep_backends old d a = (d', a') \<Longrightarrow> evolves a a' \<and> dp_regional d' = dp_regional d"
  by (auto simp: keep_backends_def dest: evolves_set_backends split: if_splits)

lemma evolves_fence: "evolves (reg_arena r) (reg_arena (fence_discovery_removals d ups r))"
  by (simp add: fence_discovery_removals_def Let_def)

lemma evolves_deployment_new:
  assumes "deployment_new P rv now spec a = Some (d, a')"
  shows "evolves a a' \<and> (\<forall>ref. dp_regional d = Some ref \<longrightarrow> ref < ar_next_router a')"
proof -
  have "evolves a (snd (arena_alloc_all a bs))" if "\<forall>x \<in> set bs. vb_in_flight x = 0" for bs
    using that
  proof (induction bs arbitrary: a)
    case (Cons b bs)
    have "evolves a (snd (arena_alloc a b))" using Cons.prems by (auto simp: evolves_def arena_alloc_def less_Suc_eq)
    with Cons show ?case by (auto simp: split_beta intro: evolves_trans)
  qed simp
  moreover have "\<forall>x \<in> set bs. vb_in_flight x = 0" if "those (map (\<lambda>u. backend_for_upstream P u now) (spec_upstreams spec)) = Some bs" for bs
    using those_nth[OF that] backend_for_upstream_Some by (fastforce simp: in_set_conv_nth)
  moreover have "evolves x (snd (deployment_router spec x)) \<and>
      (\<forall>ref. fst (deployment_router spec x) = Some ref \<longrightarrow> ref < ar_next_router (snd (deployment_router spec x)))" for x
    by (auto simp: deployment_router_def router_new_def evolves_def less_Suc_eq router_init_def split: option.splits)
  moreover have "evolves x (x\<lparr>ar_next_deployment := n\<rparr>)" for x n by (simp add: evolves_def)
  ultimately show ?thesis
    using assms by (auto simp: deployment_new_def split_beta split: option.splits) (meson evolves_trans)+
qed

lemma evolves_carry_regional:
  "carry_regional old d a = (d', a') \<Longrightarrow> evolves a a' \<and> dp_regional d' \<in> {dp_regional old, dp_regional d}"
  by (auto simp: carry_regional_def split: if_splits option.splits)

lemma evolves_inherit:
  assumes "inherit rv old d0 a0 = (d, a)"
  shows "evolves a0 a \<and> dp_regional d \<in> {dp_regional old, dp_regional d0}"
proof -
  obtain d1 a1 where s1: "carry_regional old d0 a0 = (d1, a1)" by force
  obtain d2 a2 where s2: "(case carried_state old (dp_spec d0) of Some st \<Rightarrow> set_state st d1 a1 | None \<Rightarrow> (d1, a1)) = (d2, a2)"
    by (metis surj_pair)
  obtain d3 a3 where s3: "snd (mutate_state (\<lambda>s. s\<lparr>ds_rollouts := ds_rollouts (dp_state old),
      ds_create_attempts := ds_create_attempts (dp_state old),
      ds_allocation_history_complete := ds_allocation_history_complete (dp_state old), ds_rollout_revision := rv\<rparr>) d2 a2) = (d3, a3)"
    by (metis surj_pair)
  have s4: "keep_backends old d3 a3 = (d, a)" using assms by (simp add: inherit_def s1 s2 carry_history_def s3)
  have e2: "evolves a1 a2 \<and> dp_regional d2 = dp_regional d1" using s2 by (auto dest: evolves_set_state split: option.splits)
  show ?thesis
    using evolves_carry_regional[OF s1] e2 evolves_mutate_state[OF s3] evolves_keep_backends[OF s4]
    by (auto intro: evolves_trans[OF _ evolves_trans[OF _ evolves_trans]])
qed

text \<open>The routers of the registered deployments are allocated, and their backends too.\<close>

definition routers_known :: "registry \<Rightarrow> bool" where
  "routers_known r \<longleftrightarrow> (\<forall>i d ref. get r i = Some d \<and> dp_regional d = Some ref \<longrightarrow> ref < ar_next_router (reg_arena r)) \<and>
     (\<forall>ref < ar_next_router (reg_arena r). list_all (\<lambda>b. b < ar_next (reg_arena r)) (rt_local (ar_router (reg_arena r) ref)))"

definition quiet :: "registry \<Rightarrow> registry \<Rightarrow> bool" where
  "quiet r r' \<longleftrightarrow> evolves (reg_arena r) (reg_arena r') \<and> (routers_known r \<longrightarrow> routers_known r')"

lemma routers_known_evolves:
  assumes "routers_known r" "evolves (reg_arena r) (reg_arena r')"
    and "\<And>i d ref. get r' i = Some d \<Longrightarrow> dp_regional d = Some ref \<Longrightarrow>
      ref < ar_next_router (reg_arena r') \<or> (\<exists>j e. get r j = Some e \<and> dp_regional e = Some ref)"
  shows "routers_known r'"
  unfolding routers_known_def
proof (intro conjI allI impI)
  fix i d ref assume "get r' i = Some d \<and> dp_regional d = Some ref"
  with assms(3)[of i d ref] assms(1,2) show "ref < ar_next_router (reg_arena r')"
    unfolding evolves_def routers_known_def by fastforce
next
  fix ref assume "ref < ar_next_router (reg_arena r')"
  with assms(1,2) show "list_all (\<lambda>b. b < ar_next (reg_arena r')) (rt_local (ar_router (reg_arena r') ref))"
    by (fastforce simp: routers_known_def evolves_def list_all_iff)
qed

lemma quiet_install:
  assumes "evolves (reg_arena r) a" "case dep of None \<Rightarrow> True | Some d \<Rightarrow> (\<forall>ref. dp_regional d = Some ref \<longrightarrow>
      ref < ar_next_router a \<or> (\<exists>j e. get r j = Some e \<and> dp_regional e = Some ref))"
  shows "quiet r (install dep i (r\<lparr>reg_arena := a\<rparr>))"
proof -
  have arena: "reg_arena (install dep i (r\<lparr>reg_arena := a\<rparr>)) = a" by (simp add: install_def)
  have "get (install dep i (r\<lparr>reg_arena := a\<rparr>)) j = (if j = i then dep else get r j)" for j
    by (simp add: install_def get_def)
  then have "ref < ar_next_router a \<or> (\<exists>j e. get r j = Some e \<and> dp_regional e = Some ref)"
    if "get (install dep i (r\<lparr>reg_arena := a\<rparr>)) j = Some d" "dp_regional d = Some ref" for j d ref
    using that assms(2) by (auto split: if_splits)
  then show ?thesis using assms(1) routers_known_evolves arena by (simp add: quiet_def)
qed

lemma quiet_same:
  assumes "evolves (reg_arena r) (reg_arena r')" "reg_deployments r' = reg_deployments r"
  shows "quiet r r'"
  using assms routers_known_evolves[of r r'] by (auto simp: quiet_def get_def)

lemma quiet_trans: "quiet r r' \<Longrightarrow> quiet r' r'' \<Longrightarrow> quiet r r''"
  by (auto simp: quiet_def intro: evolves_trans)

lemma fence_quiet: "quiet r (fence_discovery_removals d ups r)"
  by (rule quiet_same[OF evolves_fence]) (simp add: fence_discovery_removals_def Let_def)

lemma upsert_quiet:
  assumes "upsert P rvs now spec r = Some (d, r')"
  shows "quiet r r'"
proof (cases "get r (spec_id spec)")
  case None
  then obtain a where "deployment_new P (fst rvs) now spec (reg_arena r) = Some (d, a)"
    "r' = install (Some d) (spec_id spec) (r\<lparr>reg_arena := a\<rparr>)"
    using assms by (auto simp: upsert_def split: option.splits)
  with evolves_deployment_new show ?thesis by (auto intro!: quiet_install)
next
  case (Some old)
  show ?thesis
  proof (cases "frozen old")
    case True
    with Some assms show ?thesis by (auto simp: upsert_def quiet_def)
  next
    case False
    let ?spec = "rescoped (Some old) spec"
    let ?r1 = "if spec_discovery (dp_spec old) \<noteq> None then fence_discovery_removals old (spec_upstreams ?spec) r else r"
    obtain d0 a0 a where new: "deployment_new P (fst rvs) now ?spec (reg_arena ?r1) = Some (d0, a0)"
      and inh: "inherit (snd rvs) old d0 a0 = (d, a)" and r': "r' = install (Some d) (spec_id ?spec) (?r1\<lparr>reg_arena := a\<rparr>)"
      using assms Some False by (auto simp: upsert_def Let_def split: option.splits prod.splits)
    have old: "get ?r1 (spec_id spec) = Some old" using Some by (simp add: get_def fence_discovery_removals_def Let_def)
    note n = evolves_deployment_new[OF new] and e = evolves_inherit[OF inh]
    have "ref < ar_next_router a \<or> (\<exists>j e. get ?r1 j = Some e \<and> dp_regional e = Some ref)" if "dp_regional d = Some ref" for ref
    proof (cases "dp_regional d = dp_regional old")
      case True
      with that old show ?thesis by (metis (no_types))
    next
      case False
      then have "ref < ar_next_router a0" using that n e by auto
      then show ?thesis using e by (auto simp: evolves_def)
    qed
    then have "quiet ?r1 r'" unfolding r' using n e by (intro quiet_install) (auto intro: evolves_trans)
    moreover have "quiet r ?r1" by (simp add: fence_quiet quiet_same)
    ultimately show ?thesis by (rule quiet_trans[rotated])
  qed
qed

lemma update_quiet:
  assumes "update_spec P rvs now spec r = Some (res, r')"
  shows "quiet r r'"
proof (cases "\<exists>old. get r (spec_id spec) = Some old \<and> \<not> frozen old")
  case False
  with assms show ?thesis by (auto simp: update_spec_def quiet_def split: option.splits if_splits)
next
  case True
  then obtain old where old: "get r (spec_id spec) = Some old" "\<not> frozen old" by blast
  obtain d0 a0 d1 a1 d2 a2 d3 a3 where s: "deployment_new P (fst rvs) now spec (reg_arena r) = Some (d0, a0)"
    "set_state (dp_state old) d0 a0 = (d1, a1)"
    "snd (mutate_state (\<lambda>s. s\<lparr>ds_rollout_revision := snd rvs\<rparr>) d1 a1) = (d2, a2)"
    "set_backends (dp_backends old) d2 a2 = (d3, a3)"
    "r' = install (Some (set_pending (dp_pending old) d3)) (spec_id spec) (r\<lparr>reg_arena := a3\<rparr>)"
    using assms old by (auto simp: update_spec_def Let_def split: option.splits prod.splits)
  note e = evolves_deployment_new[OF s(1)] evolves_set_state[OF s(2)] evolves_mutate_state[OF s(3)] evolves_set_backends[OF s(4)]
  have "evolves a0 a3" using e by (auto intro: evolves_trans)
  moreover have "ref < ar_next_router a3" if "dp_regional d3 = Some ref" for ref
    using that e \<open>evolves a0 a3\<close> by (auto simp: evolves_def)
  ultimately show ?thesis unfolding s(5) using e by (intro quiet_install) (auto simp: set_pending_def intro: evolves_trans)
qed

lemma set_state_quiet: "quiet r (reg_set_state i st r)"
proof (cases "get r i")
  case (Some d)
  obtain d' a where s: "set_state st d (reg_arena r) = (d', a)" by force
  note e = evolves_set_state[OF s]
  let ?r = "r\<lparr>reg_deployments := put i (Some d') (reg_deployments r), reg_arena := a\<rparr>"
  have get: "get ?r j = (if j = i then Some d' else get r j)" for j by (simp add: get_def)
  have "routers_known ?r" if "routers_known r"
    by (rule routers_known_evolves[OF that]) (use e Some get in \<open>auto split: if_splits\<close>)
  then show ?thesis using Some s e by (simp add: reg_set_state_def quiet_def)
qed (simp add: reg_set_state_def quiet_def)

lemma remove_quiet: "quiet r (snd (remove i r))"
proof -
  have "quiet x (install None i x)" for x using quiet_install[of x "reg_arena x" None i] by simp
  moreover from this have "quiet r (install None i (fence_discovery_removals d [] r))" for d
    using fence_quiet quiet_trans by blast
  ultimately show ?thesis by (auto simp: remove_def quiet_def[of r r] Let_def split: option.splits)
qed

lemma quiet_step_quiet: "quiet_step P r r' \<Longrightarrow> quiet r r'"
proof (induction rule: quiet_step.induct)
  case (quiet_health b h r)
  show ?case by (rule quiet_same) (auto simp: reg_backend_op_def split_beta arena_update_def set_healthy_def intro!: evolves_cells)
next
  case (quiet_usage b cpu mem r)
  show ?case by (rule quiet_same) (auto simp: reg_backend_op_def split_beta arena_update_def set_usage_def intro!: evolves_cells)
next
  case (quiet_discovery r i)
  show ?case by (rule quiet_same) (auto simp: discovery_backends_def Let_def split: option.splits)
qed (auto intro: upsert_quiet update_quiet remove_quiet set_state_quiet)

lemma quiet_step_reg_step: "quiet_step P r r' \<Longrightarrow> reg_step P r r'"
  by (induction rule: quiet_step.induct) (auto simp: is_drain_op_def intro: reg_step.intros)

section \<open>The invariant of the system\<close>

definition holds :: "backend_ref \<Rightarrow> progress \<times> request \<Rightarrow> bool" where
  "holds b x \<longleftrightarrow> rq_backend (snd x) = Some (Pooled b)"

definition slots :: "(progress \<times> request) list \<Rightarrow> backend_ref \<Rightarrow> nat" where
  "slots reqs b = length (filter (holds b) reqs)"

definition pinned :: "router_ref \<Rightarrow> progress \<times> request \<Rightarrow> assignment list" where
  "pinned ref x = (case rq_assignment (snd x) of Some (ref', y) \<Rightarrow> if ref' = ref then [y] else [] | None \<Rightarrow> [])"

definition assigned :: "(progress \<times> request) list \<Rightarrow> router_ref \<Rightarrow> assignment list" where
  "assigned reqs ref = concat (map (pinned ref) reqs)"

definition free_phase :: "progress \<Rightarrow> bool" where
  "free_phase p = (case p of Choosing \<Rightarrow> True | Chosen _ \<Rightarrow> True | AwaitingCapacity \<Rightarrow> True | _ \<Rightarrow> False)"

definition request_ok :: "arena \<Rightarrow> progress \<times> request \<Rightarrow> bool" where
  "request_ok a x \<longleftrightarrow>
     (case x of (p, q) \<Rightarrow>
        (\<forall>b. rq_backend q = Some (Pooled b) \<longrightarrow> b < ar_next a) \<and>
        (\<forall>d. rq_deployment q = Some d \<longrightarrow> (\<forall>b \<in> set (dp_backends d). b < ar_next a)) \<and>
        (\<forall>b. p = Chosen b \<longrightarrow> b < ar_next a) \<and> (free_phase p \<longrightarrow> rq_backend q = None) \<and>
        (\<forall>ref y. rq_assignment q = Some (ref, y) \<longrightarrow> ref < ar_next_router a \<and> (\<forall>b. as_backend y = Pooled b \<longrightarrow> b < ar_next a)))"

definition sys_ok :: "system \<Rightarrow> bool" where
  "sys_ok s \<longleftrightarrow> reg_ok (sy_registry s) \<and> routers_known (sy_registry s) \<and>
     (\<forall>b < ar_next (sy_arena s). vb_in_flight (ar_cell (sy_arena s) b) = slots (sy_requests s) b) \<and>
     list_all (request_ok (sy_arena s)) (sy_requests s) \<and>
     (\<forall>ref < ar_next_router (sy_arena s). books.balanced (ar_router (sy_arena s) ref) (assigned (sy_requests s) ref))"

text \<open>A request changes neither addresses nor drains, and allocates nothing.\<close>

definition steady :: "arena \<Rightarrow> arena \<Rightarrow> bool" where
  "steady a a' \<longleftrightarrow> ar_next a' = ar_next a \<and> ar_next_router a' = ar_next_router a \<and>
     (\<forall>b. vb_peer (ar_cell a' b) = vb_peer (ar_cell a b) \<and> vb_draining (ar_cell a' b) = vb_draining (ar_cell a b))"

lemma steady_refl [simp]: "steady a a"
  by (simp add: steady_def)

lemma steady_trans: "steady a b \<Longrightarrow> steady b c \<Longrightarrow> steady a c"
  by (simp add: steady_def)

lemma reg_ok_steady: "steady (reg_arena r) a \<Longrightarrow> reg_ok r \<Longrightarrow> reg_ok (r\<lparr>reg_arena := a\<rparr>)"
  by (simp add: reg_ok_def index_ok_def pools_ok_def others_def retired_refs_def pool_ok_def retired_ok_def
      drains_applied_def steady_def)

lemma request_ok_steady: "steady a a' \<Longrightarrow> request_ok a x \<Longrightarrow> request_ok a' x"
  by (simp add: request_ok_def steady_def split: prod.splits)

lemma length_filter_update:
  "i < length xs \<Longrightarrow> length (filter P (xs[i := y])) + of_bool (P (xs ! i)) = length (filter P xs) + of_bool (P y)"
proof (induction xs arbitrary: i)
  case (Cons x xs)
  then show ?case by (cases i) auto
qed simp

lemma map_update_same: "i < length xs \<Longrightarrow> f y = f (xs ! i) \<Longrightarrow> map f (xs[i := y]) = map f xs"
  by (metis length_map list_update_id map_update nth_map)

lemma with_request_ok:
  assumes ok: "sys_ok s" and i: "i < length (sy_requests s)" "sy_requests s ! i = (p, q)"
    and st: "steady (sy_arena s) a" "ar_router a = ar_router (sy_arena s)" "rq_assignment q' = rq_assignment q"
    and q': "request_ok a (p', q')"
    and load: "\<And>b. b < ar_next a \<Longrightarrow> vb_in_flight (ar_cell a b) + of_bool (holds b (p, q)) =
      vb_in_flight (ar_cell (sy_arena s) b) + of_bool (holds b (p', q'))"
  shows "sys_ok (with_request i (p', q', a) s)"
proof -
  let ?reqs = "(sy_requests s)[i := (p', q')]"
  have "vb_in_flight (ar_cell a b) = slots ?reqs b" if "b < ar_next a" for b
    using load[OF that] length_filter_update[OF i(1), of "holds b" "(p', q')"] ok st(1) that i(2)
    by (simp add: sys_ok_def slots_def steady_def)
  moreover have "pinned ref (p', q') = pinned ref (sy_requests s ! i)" for ref using st(3) i(2) by (simp add: pinned_def)
  then have "assigned ?reqs ref = assigned (sy_requests s) ref" for ref
    unfolding assigned_def by (metis i(1) map_update_same)
  moreover have "list_all (request_ok a) ?reqs"
    using ok q' request_ok_steady[OF st(1)] by (auto simp: sys_ok_def list_all_iff dest!: set_update_subset_insert[THEN subsetD])
  moreover have "routers_known ((sy_registry s)\<lparr>reg_arena := a\<rparr>)"
    using ok st by (simp add: sys_ok_def routers_known_def steady_def get_def)
  ultimately show ?thesis
    using ok st reg_ok_steady[OF st(1)] by (simp add: sys_ok_def with_request_def steady_def)
qed

subsection \<open>What a step of a request does\<close>

lemma release_spec:
  assumes "request_release now q a = (q', a')"
  shows "steady a a'" "ar_router a' = ar_router a" "q' = q\<lparr>rq_backend := None\<rparr>"
    "vb_in_flight (ar_cell a' b) = vb_in_flight (ar_cell a b) - of_bool (rq_backend q = Some (Pooled b))"
  using assms
  by (auto simp: request_release_def steady_def arena_update_def release_def
      split: option.splits assigned_backend.splits if_splits)

lemma hold_spec:
  assumes "hold now h a = Some (h', a')"
  shows "steady a a'" "ar_router a' = ar_router a" "h' = Pooled b \<longleftrightarrow> h = Pooled b"
    "vb_in_flight (ar_cell a' b) = vb_in_flight (ar_cell a b) + of_bool (h = Pooled b)"
  using assms
  by (auto simp: hold_def steady_def arena_update_def try_acquire_def acquire_def split: if_splits assigned_backend.splits)

lemma unhealthy_spec:
  "steady a (mark_unhealthy h a)" "ar_router (mark_unhealthy h a) = ar_router a"
  "vb_in_flight (ar_cell (mark_unhealthy h a) b) = vb_in_flight (ar_cell a b)"
  by (auto simp: mark_unhealthy_def steady_def arena_update_def set_healthy_def split: assigned_backend.splits)

lemma failed_spec:
  assumes "connection_failed now q a = (q', a')"
  shows "steady a a'" "ar_router a' = ar_router a" "rq_backend q' = None" "rq_deployment q' = rq_deployment q"
    "rq_assignment q' = rq_assignment q"
    "vb_in_flight (ar_cell a' b) = vb_in_flight (ar_cell a b) - of_bool (rq_backend q = Some (Pooled b))"
proof -
  let ?q = "case rq_backend q of None \<Rightarrow> q | Some h \<Rightarrow> q\<lparr>rq_failed := rq_failed q @ [held_peer h a]\<rparr>"
  let ?a = "case rq_backend q of None \<Rightarrow> a | Some h \<Rightarrow> mark_unhealthy h a"
  have rel: "request_release now ?q ?a = (q', a')" using assms by (simp add: connection_failed_def split: option.splits)
  note r = release_spec[OF rel]
  have "steady a ?a" using unhealthy_spec by (simp split: option.splits)
  with r(1) show "steady a a'" by (rule steady_trans[rotated])
  show "ar_router a' = ar_router a" using r(2) unhealthy_spec by (simp split: option.splits)
  show "rq_backend q' = None" "rq_deployment q' = rq_deployment q" "rq_assignment q' = rq_assignment q"
    using r(3) by (simp_all split: option.splits)
  show "vb_in_flight (ar_cell a' b) = vb_in_flight (ar_cell a b) - of_bool (rq_backend q = Some (Pooled b))"
    using r(4)[of b] unhealthy_spec(3) by (simp split: option.splits)
qed

lemma select_pool: "select d ex a = Some b \<Longrightarrow> b \<in> set (dp_backends d)"
  unfolding select_def by (drule min_by_key_Some) simp

lemma holds_positive:
  assumes "sys_ok s" "i < length (sy_requests s)" "sy_requests s ! i = (p, q)" "rq_backend q = Some (Pooled b)"
  shows "vb_in_flight (ar_cell (sy_arena s) b) \<ge> 1"
proof -
  have "request_ok (sy_arena s) (p, q)" using assms by (auto simp: sys_ok_def list_all_iff) (metis nth_mem)
  then have "b < ar_next (sy_arena s)" using assms(4) by (simp add: request_ok_def)
  moreover have "slots (sy_requests s) b \<ge> 1"
  proof -
    have "holds b (sy_requests s ! i)" using assms(3,4) by (simp add: holds_def)
    then have "filter (holds b) (sy_requests s) \<noteq> []" using assms(2) by (metis filter_empty_conv nth_mem)
    then show ?thesis by (simp add: slots_def Suc_le_eq)
  qed
  ultimately show ?thesis using assms(1) by (simp add: sys_ok_def)
qed

lemma sys_ok_request: "sys_ok s \<Longrightarrow> i < length (sy_requests s) \<Longrightarrow> sy_requests s ! i = (p, q) \<Longrightarrow> request_ok (sy_arena s) (p, q)"
  by (metis list_all_iff nth_mem sys_ok_def)

lemma fail_ok:
  assumes "sys_ok s" "i < length (sy_requests s)" "sy_requests s ! i = (p, q)" "connection_failed now q (sy_arena s) = (q', a')"
    "\<And>b. p' \<noteq> Chosen b"
  shows "sys_ok (with_request i (p', q', a') s)"
proof (rule with_request_ok[OF assms(1-3)])
  note f = failed_spec[OF assms(4)]
  show "steady (sy_arena s) a'" "ar_router a' = ar_router (sy_arena s)" "rq_assignment q' = rq_assignment q" using f by simp_all
  show "request_ok a' (p', q')"
    using request_ok_steady[OF f(1) sys_ok_request[OF assms(1-3)]] f(3-5) assms(5) by (simp add: request_ok_def)
  fix b show "vb_in_flight (ar_cell a' b) + of_bool (holds b (p, q)) = vb_in_flight (ar_cell (sy_arena s) b) + of_bool (holds b (p', q'))"
    using f(3,6) holds_positive[OF assms(1-3)] by (auto simp: holds_def)
qed

lemma reserve_ok:
  assumes "sys_ok s" "i < length (sy_requests s)" "sy_requests s ! i = (Chosen b, q)"
  shows "sys_ok (with_request i (reserve_chosen now b q (sy_arena s)) s)"
proof -
  note r = sys_ok_request[OF assms]
  show ?thesis
  proof (cases "hold now (Pooled b) (sy_arena s)")
    case None
    then show ?thesis
      using with_request_ok[OF assms, of "sy_arena s"] r by (simp add: reserve_chosen_def request_ok_def free_phase_def holds_def)
  next
    case (Some x)
    obtain h a where x: "x = (h, a)" by force
    note hold = hold_spec[OF Some[unfolded x]]
    have "sys_ok (with_request i (Resolving, q\<lparr>rq_backend := Some h\<rparr>, a) s)"
    proof (rule with_request_ok[OF assms hold(1,2)])
      show "request_ok a (Resolving, q\<lparr>rq_backend := Some h\<rparr>)"
        using request_ok_steady[OF hold(1) r] hold(3) by (auto simp: request_ok_def free_phase_def)
      fix c show "vb_in_flight (ar_cell a c) + of_bool (holds c (Chosen b, q)) =
          vb_in_flight (ar_cell (sy_arena s) c) + of_bool (holds c (Resolving, q\<lparr>rq_backend := Some h\<rparr>))"
        using hold(3,4) r by (auto simp: holds_def request_ok_def free_phase_def)
    qed simp
    then show ?thesis using Some x by (simp add: reserve_chosen_def)
  qed
qed

lemma begin_ok:
  assumes "sys_ok s" "i < length (sy_requests s)" "sy_requests s ! i = (p, q)"
  shows "sys_ok (with_request i (begin_attempt now q (sy_arena s)) s)"
proof -
  note r = sys_ok_request[OF assms]
  let ?q1 = "q\<lparr>rq_attempts := rq_attempts q + 1\<rparr>"
  obtain q2 a2 where rel: "request_release now ?q1 (sy_arena s) = (q2, a2)" by force
  note f = release_spec[OF rel]
  have plain: "sys_ok (with_request i (p', q', sy_arena s) s)" if "q' = q \<or> q' = ?q1" "p' = Refused e" for p' q' e
    using with_request_ok[OF assms, of "sy_arena s" q' p'] r that by (auto simp: request_ok_def holds_def free_phase_def)
  have released: "sys_ok (with_request i (p', q2, a2) s)" if "\<And>b. p' \<noteq> Chosen b" for p'
  proof (rule with_request_ok[OF assms f(1,2)])
    show "request_ok a2 (p', q2)" using request_ok_steady[OF f(1) r] that by (simp add: request_ok_def f(3))
    fix b show "vb_in_flight (ar_cell a2 b) + of_bool (holds b (p, q)) = vb_in_flight (ar_cell (sy_arena s) b) + of_bool (holds b (p', q2))"
      using f(4) holds_positive[OF assms] by (auto simp: holds_def f(3))
  qed (simp add: f(3))
  have held: "sys_ok (with_request i (Resolving, q2\<lparr>rq_backend := Some h\<rparr>, a3) s)"
    if y: "rq_assignment q2 = Some (ref, y)" and hold: "hold now (as_backend y) a2 = Some (h, a3)" for ref y h a3
  proof (rule with_request_ok[OF assms])
    note h = hold_spec[OF hold]
    show "steady (sy_arena s) a3" using f(1) h(1) by (rule steady_trans)
    show "ar_router a3 = ar_router (sy_arena s)" using f(2) h(2) by simp
    show "request_ok a3 (Resolving, q2\<lparr>rq_backend := Some h\<rparr>)"
      using request_ok_steady[OF steady_trans[OF f(1) h(1)] r] y h(3) by (auto simp: request_ok_def f(3) free_phase_def)
    fix b show "vb_in_flight (ar_cell a3 b) + of_bool (holds b (p, q)) =
        vb_in_flight (ar_cell (sy_arena s) b) + of_bool (holds b (Resolving, q2\<lparr>rq_backend := Some h\<rparr>))"
      using f(4) h(3,4) holds_positive[OF assms] by (auto simp: holds_def)
  qed (simp add: f(3))
  show ?thesis
    using rel plain released held
    by (auto simp: begin_attempt_def Let_def split: option.splits prod.splits)
qed

lemma idle_step_ok:
  assumes "sys_ok s" "i < length (sy_requests s)" "sy_requests s ! i = (p, q)"
    and "rq_backend q' = rq_backend q" "rq_assignment q' = rq_assignment q" "request_ok (sy_arena s) (p', q')"
  shows "sys_ok (with_request i (p', q', sy_arena s) s)"
  using with_request_ok[OF assms(1-3) steady_refl refl assms(5,6)] assms(4) by (simp add: holds_def)

lemma registered_pool: "sys_ok s \<Longrightarrow> get (sy_registry s) j = Some d \<Longrightarrow> b \<in> set (dp_backends d) \<Longrightarrow> b < ar_next (sy_arena s)"
  using reg_ok_get(3) by (fastforce simp: sys_ok_def pool_ok_def)

lemma choose_ok:
  assumes "sys_ok s" "i < length (sy_requests s)" "sy_requests s ! i = (Choosing, q)" "choose_round (sy_registry s) q = (p', q')"
  shows "sys_ok (with_request i (p', q', sy_arena s) s)"
proof -
  note r = sys_ok_request[OF assms(1-3)]
  have in_pool: "choose_in d q a = Chosen b \<Longrightarrow> b \<in> set (dp_backends d)" for d a b
    by (auto simp: choose_in_def dest: select_pool split: option.splits if_splits)
  have "rq_backend q' = rq_backend q \<and> rq_assignment q' = rq_assignment q \<and> request_ok (sy_arena s) (p', q')"
    using assms(4) r in_pool registered_pool[OF assms(1)]
    by (auto simp: choose_round_def request_ok_def free_phase_def split: option.splits if_splits)
  then show ?thesis using idle_step_ok[OF assms(1-3)] by blast
qed

lemma wait_ok:
  assumes "sys_ok s" "i < length (sy_requests s)" "sy_requests s ! i = (AwaitingCapacity, q)"
  shows "sys_ok (with_request i (wait_for_capacity w (sy_registry s) q, q, sy_arena s) s)"
proof -
  note r = sys_ok_request[OF assms]
  have "b < ar_next (sy_arena s)" if "wait_for_capacity w (sy_registry s) q = Chosen b" for b
    using that r registered_pool[OF assms(1)]
    by (auto simp: wait_for_capacity_def Let_def request_ok_def dest!: select_pool split: wakeup.splits option.splits if_splits)
  then show ?thesis using idle_step_ok[OF assms] r by (simp add: request_ok_def free_phase_def)
qed

lemma resolve_ok:
  assumes "sys_ok s" "i < length (sy_requests s)" "sy_requests s ! i = (Resolving, q)"
  shows "sys_ok (with_request i (resolved now found q (sy_arena s)) s)"
proof -
  note r = sys_ok_request[OF assms]
  obtain q' a' where f: "connection_failed now q (sy_arena s) = (q', a')" by force
  have "sys_ok (with_request i (p', q, sy_arena s) s)" if "\<And>b. p' \<noteq> Chosen b" "\<not> free_phase p'" for p'
    using idle_step_ok[OF assms, of q p'] r that by (simp add: request_ok_def)
  then show ?thesis using fail_ok[OF assms f, of Choosing] f by (simp add: resolved_def free_phase_def)
qed

lemma concat_update:
  "i < length xs \<Longrightarrow> mset (concat (map f (xs[i := y]))) + mset (f (xs ! i)) = mset (concat (map f xs)) + mset (f y)"
proof (induction xs arbitrary: i)
  case (Cons x xs)
  then show ?case by (cases i) (auto simp: union_ac)
qed simp

lemma concat_remove:
  "i < length xs \<Longrightarrow> mset (concat (map f (take i xs @ drop (i + 1) xs))) + mset (f (xs ! i)) = mset (concat (map f xs))"
proof (induction xs arbitrary: i)
  case (Cons x xs)
  then show ?case by (cases i) (auto simp: union_ac)
qed simp

lemma length_filter_remove:
  "i < length xs \<Longrightarrow> length (filter P (take i xs @ drop (i + 1) xs)) + of_bool (P (xs ! i)) = length (filter P xs)"
proof (induction xs arbitrary: i)
  case (Cons x xs)
  then show ?case by (cases i) auto
qed simp

lemma steady_with_router [simp]: "steady a (with_router ref r a)"
  by (simp add: steady_def with_router_def)

lemma request_admit_cases:
  assumes "request_admit env random d headers q a = Some (res, q', a')"
  obtains "q' = q" "a' = a"
  | ref x where "dp_regional d = Some ref" "counted x" "q' = q\<lparr>rq_assignment := Some (ref, x)\<rparr>"
      "a' = with_router ref (charge x (ar_router a ref)) a" "\<And>b. as_backend x = Pooled b \<Longrightarrow> b \<in> set (rt_local (ar_router a ref))"
proof (cases "dp_regional d")
  case None
  with assms that(1) show ?thesis by (auto simp: request_admit_def split: if_splits)
next
  case (Some ref)
  with assms obtain spec service region r' res' where
    adm: "router_admit (env\<lparr>ad_cells := ar_cell a\<rparr>) random spec service region headers (ar_router a ref) = Some (res', r')"
    and out: "(res, q', a') = (case res' of Inl e \<Rightarrow> (Inl e, q, a)
        | Inr x \<Rightarrow> (Inr None, q\<lparr>rq_assignment := Some (ref, x)\<rparr>, with_router ref r' a))"
    by (auto simp: request_admit_def split: bind_splits)
  show ?thesis
  proof (cases res')
    case (Inl e)
    with out that(1) show ?thesis by simp
  next
    case (Inr x)
    have "b \<in> set (rt_local (ar_router a ref))" if b: "as_backend x = Pooled b" for b
      using b admission_pooled[OF adm[unfolded Inr]] by blast
    then show ?thesis
      using router_admit_counted[OF adm[unfolded Inr]] out Inr Some by (intro that(2)[of ref x]) simp_all
  qed
qed

lemma sys_ok_request_irrelevant: "sys_ok s \<Longrightarrow> sys_ok (s\<lparr>sy_requests := sy_requests s @ [(Idle, request_default)]\<rparr>)"
  by (simp add: sys_ok_def slots_def assigned_def request_default_def holds_def pinned_def request_ok_def free_phase_def)

lemma admit_ok:
  assumes ok: "sys_ok s" and i: "i < length (sy_requests s)" "sy_requests s ! i = (Idle, q)" and q: "rq_assignment q = None"
    and d: "get (sy_registry s) (spec_id (dp_spec d)) = Some d"
    and adm: "request_admit env random d headers q (sy_arena s) = Some (res, q', a')"
  shows "sys_ok (with_request i (Idle, q'\<lparr>rq_deployment := Some d\<rparr>, a') s)"
proof (cases rule: request_admit_cases[OF adm])
  case 1
  have "request_ok (sy_arena s) (Idle, q\<lparr>rq_deployment := Some d\<rparr>)"
    using sys_ok_request[OF ok i] registered_pool[OF ok d] by (simp add: request_ok_def)
  with 1 show ?thesis using idle_step_ok[OF ok i, of "q\<lparr>rq_deployment := Some d\<rparr>" Idle] by simp
next
  case (2 ref x)
  let ?q = "q\<lparr>rq_assignment := Some (ref, x), rq_deployment := Some d\<rparr>" and ?a = "sy_arena s"
  let ?reqs = "(sy_requests s)[i := (Idle, ?q)]"
  have ref: "ref < ar_next_router ?a" using ok d 2(1) by (auto simp: sys_ok_def routers_known_def)
  have "list_all (\<lambda>b. b < ar_next ?a) (rt_local (ar_router ?a ref))" using ok ref by (simp add: sys_ok_def routers_known_def)
  then have x: "b < ar_next ?a" if "as_backend x = Pooled b" for b using 2(5)[OF that] by (simp add: list_all_iff)
  have st: "steady ?a a'" using 2(4) by simp
  have "request_ok a' (Idle, ?q)"
    using request_ok_steady[OF st sys_ok_request[OF ok i]] registered_pool[OF ok d] ref x st by (auto simp: request_ok_def steady_def)
  then have "list_all (request_ok a') ?reqs"
    using ok request_ok_steady[OF st] by (auto simp: sys_ok_def list_all_iff dest!: set_update_subset_insert[THEN subsetD])
  moreover have "slots ?reqs b = slots (sy_requests s) b" for b
    using length_filter_update[OF i(1), of "holds b" "(Idle, ?q)"] i(2) by (simp add: slots_def holds_def)
  moreover have "books.balanced (ar_router a' ref') (assigned ?reqs ref')" if "ref' < ar_next_router a'" for ref'
  proof -
    have m: "mset (assigned ?reqs ref') = mset (assigned (sy_requests s) ref') + mset (pinned ref' (Idle, ?q))"
      using concat_update[OF i(1), of "pinned ref'" "(Idle, ?q)"] i(2) q by (simp add: assigned_def pinned_def)
    have bal: "books.balanced (ar_router ?a ref') (assigned (sy_requests s) ref')" using ok that st by (simp add: sys_ok_def steady_def)
    show ?thesis
    proof (cases "ref' = ref")
      case True
      have "books.balanced (ar_router a' ref') (x # assigned (sy_requests s) ref')"
        using books.balanced_issue[OF bal 2(2)] True 2(4) by (simp add: with_router_def)
      then show ?thesis by (rule books.balanced_mset[rotated]) (use m True in \<open>simp add: pinned_def\<close>)
    next
      case False
      with bal 2(4) have "books.balanced (ar_router a' ref') (assigned (sy_requests s) ref')" by (simp add: with_router_def)
      then show ?thesis by (rule books.balanced_mset[rotated]) (use m False in \<open>simp add: pinned_def\<close>)
    qed
  qed
  moreover have "ar_cell a' = ar_cell ?a" using 2(4) by (simp add: with_router_def)
  moreover have "routers_known ((sy_registry s)\<lparr>reg_arena := a'\<rparr>)"
    using ok 2(4) by (simp add: sys_ok_def routers_known_def with_router_def get_def)
  ultimately show ?thesis
    using ok 2(3) st reg_ok_steady[OF st] by (simp add: sys_ok_def with_request_def steady_def)
qed

lemma complete_ok:
  assumes ok: "sys_ok s" and i: "i < length (sy_requests s)" "sy_requests s ! i = (p, q)"
  shows "\<exists>q' a'. request_complete now q (sy_arena s) = Some (q', a') \<and>
    sys_ok (s\<lparr>sy_registry := (sy_registry s)\<lparr>reg_arena := a'\<rparr>, sy_requests := take i (sy_requests s) @ drop (i + 1) (sy_requests s)\<rparr>)"
proof -
  let ?a = "sy_arena s" and ?reqs = "take i (sy_requests s) @ drop (i + 1) (sy_requests s)"
  obtain q1 a1 where rel: "request_release now q ?a = (q1, a1)" by force
  note f = release_spec[OF rel]
  have bal: "books.balanced (ar_router a1 ref) (assigned (sy_requests s) ref)" if "ref < ar_next_router a1" for ref
    using ok that f(1,2) by (simp add: sys_ok_def steady_def)
  have m: "mset (assigned ?reqs ref) + mset (pinned ref (p, q)) = mset (assigned (sy_requests s) ref)" for ref
    using concat_remove[OF i(1), of "pinned ref"] i(2) by (simp add: assigned_def)
  obtain q' a' where c: "request_complete now q ?a = Some (q', a')" and st: "steady a1 a'" "ar_cell a' = ar_cell a1"
    and loc: "\<And>ref. rt_local (ar_router a' ref) = rt_local (ar_router a1 ref)"
    and bal': "\<And>ref. ref < ar_next_router a1 \<Longrightarrow> books.balanced (ar_router a' ref) (assigned ?reqs ref)"
  proof (cases "rq_assignment q")
    case None
    show ?thesis
    proof (rule that[of q1 a1])
      show "request_complete now q ?a = Some (q1, a1)" using None f(3) by (simp add: request_complete_def rel)
      fix ref assume "ref < ar_next_router a1"
      from bal[OF this] show "books.balanced (ar_router a1 ref) (assigned ?reqs ref)"
        by (rule books.balanced_mset[rotated]) (use m[of ref] None in \<open>simp add: pinned_def\<close>)
    qed simp_all
  next
    case (Some y)
    obtain ref x where y: "y = (ref, x)" by force
    have ref: "ref < ar_next_router a1"
      using sys_ok_request[OF ok i] Some y f(1) by (simp add: request_ok_def steady_def)
    have "mset (assigned (sy_requests s) ref) = add_mset x (mset (assigned ?reqs ref))"
      using m[of ref] Some y by (simp add: pinned_def)
    from books.balanced_retire_member[OF bal[OF ref] this] obtain r'
      where drop: "assignment_drop x (ar_router a1 ref) = Some r'" and br: "books.balanced r' (assigned ?reqs ref)" by blast
    show ?thesis
    proof (rule that[of "q1\<lparr>rq_assignment := None\<rparr>" "with_router ref r' a1"])
      show "request_complete now q ?a = Some (q1\<lparr>rq_assignment := None\<rparr>, with_router ref r' a1)"
        using Some y drop f(3) by (simp add: request_complete_def rel)
      fix ref' show "rt_local (ar_router (with_router ref r' a1) ref') = rt_local (ar_router a1 ref')"
        using drop by (auto simp: with_router_def assignment_drop_def Let_def split: option.splits prod.splits if_splits)
      assume "ref' < ar_next_router a1"
      then show "books.balanced (ar_router (with_router ref r' a1) ref') (assigned ?reqs ref')"
        using br bal[of ref'] m[of ref'] Some y
        by (cases "ref' = ref") (auto simp: with_router_def pinned_def intro: books.balanced_mset[rotated])
    qed (simp_all add: with_router_def steady_def)
  qed
  have st': "steady ?a a'" using f(1) st(1) by (rule steady_trans)
  have "vb_in_flight (ar_cell a' b) = slots ?reqs b" if "b < ar_next a'" for b
  proof -
    have "vb_in_flight (ar_cell ?a b) = slots (sy_requests s) b" using ok that st' by (simp add: sys_ok_def steady_def)
    then show ?thesis
      using length_filter_remove[OF i(1), of "holds b"] f(4)[of b] st(2) i(2) by (simp add: slots_def holds_def)
  qed
  moreover have "list_all (request_ok a') ?reqs"
    using ok request_ok_steady[OF st'] by (auto simp: sys_ok_def list_all_iff dest: in_set_takeD in_set_dropD)
  moreover have "routers_known ((sy_registry s)\<lparr>reg_arena := a'\<rparr>)"
    using ok st' loc f(2) by (simp add: sys_ok_def routers_known_def steady_def get_def)
  moreover have "ar_next_router a1 = ar_next_router a'" using st(1) by (simp add: steady_def)
  ultimately have "sys_ok (s\<lparr>sy_registry := (sy_registry s)\<lparr>reg_arena := a'\<rparr>, sy_requests := ?reqs\<rparr>)"
    using ok reg_ok_steady[OF st'] bal' by (simp add: sys_ok_def)
  with c show ?thesis by blast
qed

lemma assigned_unknown:
  assumes "list_all (request_ok a) reqs" "ar_next_router a \<le> ref"
  shows "assigned reqs ref = []"
  using assms by (fastforce simp: assigned_def pinned_def list_all_iff request_ok_def split: option.splits)

lemma slots_unknown:
  assumes "list_all (request_ok a) reqs" "ar_next a \<le> b"
  shows "slots reqs b = 0"
  using assms by (fastforce simp: slots_def holds_def list_all_iff request_ok_def filter_empty_conv)

lemma request_ok_evolves: "evolves a a' \<Longrightarrow> request_ok a x \<Longrightarrow> request_ok a' x"
  by (cases x) (auto simp: request_ok_def evolves_def; meson less_le_trans)

lemma registry_ok:
  assumes ok: "sys_ok s" and step: "quiet_step P (sy_registry s) r'"
  shows "sys_ok (s\<lparr>sy_registry := r'\<rparr>)"
proof -
  have q: "quiet (sy_registry s) r'" by (rule quiet_step_quiet[OF step])
  then have e: "evolves (sy_arena s) (reg_arena r')" by (simp add: quiet_def)
  have reqs: "list_all (request_ok (sy_arena s)) (sy_requests s)" using ok by (simp add: sys_ok_def)
  have "vb_in_flight (ar_cell (reg_arena r') b) = slots (sy_requests s) b" if "b < ar_next (reg_arena r')" for b
    using that e ok slots_unknown[OF reqs, of b] by (auto simp: evolves_def sys_ok_def)
  moreover have "books.balanced (ar_router (reg_arena r') ref) (assigned (sy_requests s) ref)" if "ref < ar_next_router (reg_arena r')" for ref
  proof (cases "ref < ar_next_router (sy_arena s)")
    case True
    then have "rt_counters (ar_router (reg_arena r') ref) = rt_counters (ar_router (sy_arena s) ref)"
      using e that by (simp add: evolves_def)
    from books_only_counters[OF this] ok True show ?thesis by (simp add: sys_ok_def books.balanced_def)
  next
    case False
    then have "rt_counters (ar_router (reg_arena r') ref) = []" using e that by (simp add: evolves_def)
    then show ?thesis using assigned_unknown[OF reqs] False by (simp add: books.balanced_def counters_ok_def account_def counter_def)
  qed
  moreover have "list_all (request_ok (reg_arena r')) (sy_requests s)"
    using reqs request_ok_evolves[OF e] by (auto simp: list_all_iff)
  ultimately show ?thesis
    using ok q reg_step_ok[OF quiet_step_reg_step[OF step]] by (simp add: sys_ok_def quiet_def)
qed

lemma router_ok:
  assumes ok: "sys_ok s" and op: "run_router_op op (ar_router (sy_arena s) ref) = Some (None, r')"
    and local: "list_all (\<lambda>b. b < ar_next (sy_arena s)) (rt_local r')"
  shows "sys_ok (s\<lparr>sy_registry := (sy_registry s)\<lparr>reg_arena := with_router ref r' (sy_arena s)\<rparr>\<rparr>)"
proof -
  let ?a = "with_router ref r' (sy_arena s)"
  have "rt_counters r' = rt_counters (ar_router (sy_arena s) ref)" using run_router_op_books[OF op] by simp
  note b = books_only_counters[OF this]
  have "books.balanced (ar_router ?a x) (assigned (sy_requests s) x)" if "x < ar_next_router ?a" for x
    using ok that b by (simp add: sys_ok_def with_router_def books.balanced_def)
  moreover have "routers_known ((sy_registry s)\<lparr>reg_arena := ?a\<rparr>)"
    using ok local by (auto simp: sys_ok_def routers_known_def with_router_def get_def)
  moreover have "list_all (request_ok ?a) (sy_requests s)"
    using ok request_ok_steady[OF steady_with_router] by (auto simp: sys_ok_def list_all_iff)
  ultimately show ?thesis
    using ok reg_ok_steady[OF steady_with_router] by (simp add: sys_ok_def with_router_def)
qed

lemma sys_step_ok: "sys_step P hm s s' \<Longrightarrow> sys_ok s \<Longrightarrow> sys_ok s'"
proof (induction rule: sys_step.induct)
  case (sys_complete i s p q now q' a')
  with complete_ok[of s i p q now] show ?case by auto
qed (auto intro: registry_ok router_ok sys_ok_request_irrelevant admit_ok begin_ok choose_ok wait_ok reserve_ok resolve_ok fail_ok)

section \<open>Reachable systems\<close>

inductive sys_reachable :: "(string \<Rightarrow> parsed_url option) \<Rightarrow> 'h header_map \<Rightarrow> system \<Rightarrow> bool" for P and hm :: "'h header_map" where
  sys_start: "ar_next a = 0 \<Longrightarrow> ar_next_router a = 0 \<Longrightarrow> sys_reachable P hm \<lparr>sy_registry = registry_new a, sy_requests = []\<rparr>"
| sys_next: "sys_reachable P hm s \<Longrightarrow> sys_step P hm s s' \<Longrightarrow> sys_reachable P hm s'"

lemma sys_reachable_ok: "sys_reachable P hm s \<Longrightarrow> sys_ok s"
proof (induction rule: sys_reachable.induct)
  case (sys_start a)
  then show ?case
    using registry_new_ok[of a] by (simp add: sys_ok_def routers_known_def registry_new_def get_def)
qed (rule sys_step_ok)

section \<open>A selection ends\<close>

text \<open>
  The rounds of one selection while nobody else changes the registry, with fuel; \<open>resolves\<close> is
  whether an address has a host.
\<close>

definition held_address :: "assigned_backend \<Rightarrow> arena \<Rightarrow> string" where
  "held_address h a = (case h of Pooled b \<Rightarrow> vb_address (ar_cell a b) | Private x \<Rightarrow> vb_address x)"

fun selection :: "nat \<Rightarrow> nat \<Rightarrow> (string \<Rightarrow> bool) \<Rightarrow> progress \<times> request \<times> registry \<Rightarrow> (progress \<times> request \<times> registry) option" where
  "selection 0 now resolves st = None"
| "selection (Suc fuel) now resolves (p, q, r) =
     (case p of
        Choosing \<Rightarrow> (case choose_round r q of (p', q') \<Rightarrow> selection fuel now resolves (p', q', r))
      | Chosen b \<Rightarrow>
          (case reserve_chosen now b q (reg_arena r) of (p', q', a) \<Rightarrow> selection fuel now resolves (p', q', r\<lparr>reg_arena := a\<rparr>))
      | Resolving \<Rightarrow>
          (case resolved now (case rq_backend q of Some h \<Rightarrow> resolves (held_address h (reg_arena r)) | None \<Rightarrow> False) q (reg_arena r)
           of (p', q', a) \<Rightarrow> selection fuel now resolves (p', q', r\<lparr>reg_arena := a\<rparr>))
      | _ \<Rightarrow> Some (p, q, r))"

text \<open>The whole call: the beginning of the attempt, then the rounds.\<close>

definition next_peer :: "nat \<Rightarrow> nat \<Rightarrow> (string \<Rightarrow> bool) \<Rightarrow> request \<Rightarrow> registry \<Rightarrow> (progress \<times> request \<times> registry) option" where
  "next_peer fuel now resolves q r =
     (case begin_attempt now q (reg_arena r) of (p, q', a) \<Rightarrow> selection fuel now resolves (p, q', r\<lparr>reg_arena := a\<rparr>))"

definition current :: "registry \<Rightarrow> deployment \<Rightarrow> deployment" where
  "current r d = (case get r (spec_id (dp_spec d)) of Some x \<Rightarrow> x | None \<Rightarrow> d)"

definition settled :: "registry \<Rightarrow> request \<Rightarrow> deployment \<Rightarrow> bool" where
  "settled r q d \<longleftrightarrow> (\<exists>e. rq_deployment q = Some e \<and> current r e = d \<and> dp_serial d = dp_serial e) \<and> current r d = d \<and>
     rq_backend q = None \<and> rq_assignment q = None"

definition candidate :: "string list \<Rightarrow> arena \<Rightarrow> backend_ref \<Rightarrow> bool" where
  "candidate failed a b \<longleftrightarrow> is_available (ar_cell a b) \<and> vb_peer (ar_cell a b) \<notin> set failed"

text \<open>A backend that was reserved, did not resolve and was given back.\<close>

definition rejected :: "nat \<Rightarrow> backend_ref \<Rightarrow> arena \<Rightarrow> arena" where
  "rejected now b a =
     arena_update b (\<lambda>x. release x now) (arena_update b (\<lambda>x. set_healthy x False) (arena_update b (\<lambda>_. acquire (ar_cell a b) now) a))"

lemma rejected_cell:
  "vb_peer (ar_cell (rejected now b a) c) = vb_peer (ar_cell a c)" "vb_address (ar_cell (rejected now b a) c) = vb_address (ar_cell a c)"
  "is_available (ar_cell (rejected now b a) c) = (c \<noteq> b \<and> is_available (ar_cell a c))"
  by (auto simp: rejected_def arena_update_def release_def set_healthy_def acquire_def is_available_def)

lemma choose_settled:
  assumes "settled r q d"
  obtains q' where "choose_round r q = (choose_in d q (reg_arena r), q')" "settled r q' d" "rq_failed q' = rq_failed q"
proof -
  obtain e where e: "rq_deployment q = Some e" "current r e = d" "dp_serial d = dp_serial e" "rq_backend q = None" "rq_assignment q = None"
    "current r d = d"
    using assms by (auto simp: settled_def)
  show ?thesis
  proof (cases "get r (spec_id (dp_spec e))")
    case None
    with e that[of q] assms show ?thesis by (simp add: choose_round_def current_def)
  next
    case (Some x)
    then have x: "x = d" using e(2) by (simp add: current_def)
    show ?thesis
    proof (rule that)
      show "choose_round r q = (choose_in d q (reg_arena r), q\<lparr>rq_deployment := Some d\<rparr>)" using e Some x by (simp add: choose_round_def)
      show "settled r (q\<lparr>rq_deployment := Some d\<rparr>) d" using e by (simp add: settled_def)
    qed simp
  qed
qed

lemma choose_in_cases:
  obtains b where "choose_in d q a = Chosen b" "b \<in> set (dp_backends d)" "candidate (rq_failed q) a b"
  | "choose_in d q a = (if can_grow d then AwaitingCapacity else Refused NoHealthyBackend)" "filter (candidate (rq_failed q) a) (dp_backends d) = []"
proof (cases "select d (rq_failed q) a")
  case None
  then have "filter (candidate (rq_failed q) a) (dp_backends d) = []" by (auto simp: select_def candidate_def filter_empty_conv)
  with None that(2) show ?thesis by (simp add: choose_in_def)
next
  case (Some b)
  from min_by_key_Some[OF Some[unfolded select_def]] have "b \<in> set (dp_backends d)" "candidate (rq_failed q) a b"
    by (auto simp: candidate_def)
  with Some that(1) show ?thesis by (simp add: choose_in_def)
qed

lemma reserve_resolve:
  assumes q: "settled r q d" and b: "candidate (rq_failed q) (reg_arena r) b"
  shows "selection (Suc (Suc (Suc fuel))) now resolves (Chosen b, q, r) =
    (if resolves (vb_address (ar_cell (reg_arena r) b))
     then Some (Ready, q\<lparr>rq_backend := Some (Pooled b)\<rparr>, r\<lparr>reg_arena := arena_update b (\<lambda>_. acquire (ar_cell (reg_arena r) b) now) (reg_arena r)\<rparr>)
     else selection (Suc fuel) now resolves (Choosing, q\<lparr>rq_failed := rq_failed q @ [vb_peer (ar_cell (reg_arena r) b)]\<rparr>,
       r\<lparr>reg_arena := rejected now b (reg_arena r)\<rparr>))"
proof -
  let ?a = "reg_arena r" and ?x = "acquire (ar_cell (reg_arena r) b) now"
  have res: "reserve_chosen now b q ?a = (Resolving, q\<lparr>rq_backend := Some (Pooled b)\<rparr>, arena_update b (\<lambda>_. ?x) ?a)"
    using b by (simp add: reserve_chosen_def hold_def try_acquire_def candidate_def)
  have addr: "held_address (Pooled b) (arena_update b (\<lambda>_. ?x) ?a) = vb_address (ar_cell ?a b)"
    by (simp add: held_address_def arena_update_def acquire_def)
  have peer: "held_peer (Pooled b) (arena_update b (\<lambda>_. ?x) ?a) = vb_peer (ar_cell ?a b)"
    by (simp add: held_peer_def arena_update_def acquire_def)
  have none: "q\<lparr>rq_failed := x, rq_backend := None\<rparr> = q\<lparr>rq_failed := x\<rparr>" for x using q by (cases q) (simp add: settled_def)
  have flat: "rq_assignment q = None" using q by (simp add: settled_def)
  have lost: "resolved now False (q\<lparr>rq_backend := Some (Pooled b)\<rparr>) (arena_update b (\<lambda>_. ?x) ?a) =
      (Choosing, q\<lparr>rq_failed := rq_failed q @ [vb_peer (ar_cell ?a b)]\<rparr>, rejected now b ?a)"
    using flat peer by (simp add: resolved_def connection_failed_def request_release_def mark_unhealthy_def rejected_def none)
  show ?thesis using lost by (simp add: res addr resolved_def)
qed

text \<open>What a selection comes to, by what its pool offered when it began.\<close>

definition selection_result :: "(string \<Rightarrow> bool) \<Rightarrow> deployment \<Rightarrow> string list \<Rightarrow> arena \<Rightarrow> progress \<times> request \<times> registry \<Rightarrow> bool" where
  "selection_result resolves d failed a x =
     (case x of (p, q, r) \<Rightarrow>
        if p = Ready
        then (\<exists>b \<in> set (dp_backends d). rq_backend q = Some (Pooled b) \<and> candidate failed a b \<and> resolves (vb_address (ar_cell a b)))
        else p = (if can_grow d then AwaitingCapacity else Refused NoHealthyBackend) \<and> rq_backend q = None \<and>
          (\<forall>b \<in> set (dp_backends d). candidate failed a b \<longrightarrow>
             (\<exists>c \<in> set (dp_backends d). vb_peer (ar_cell a c) = vb_peer (ar_cell a b) \<and> \<not> resolves (vb_address (ar_cell a c)))))"

lemma selection_settled:
  assumes "settled r q d" "length (filter (candidate (rq_failed q) (reg_arena r)) (dp_backends d)) \<le> k" "3 * k + 2 \<le> fuel"
  shows "\<exists>x. selection fuel now resolves (Choosing, q, r) = Some x \<and> selection_result resolves d (rq_failed q) (reg_arena r) x"
  using assms
proof (induction k arbitrary: fuel q r)
  case 0
  obtain q' where q': "choose_round r q = (choose_in d q (reg_arena r), q')" "settled r q' d" by (rule choose_settled[OF 0(1)])
  obtain n where n: "fuel = Suc (Suc n)" using 0(3) by (metis add_2_eq_Suc le_Suc_ex mult_0_right add_0)
  show ?case
  proof (cases rule: choose_in_cases[of d q "reg_arena r"])
    case (1 b)
    with 0(2) show ?thesis by (auto simp: filter_empty_conv)
  next
    case 2
    then show ?thesis using q' n by (auto simp: selection_result_def settled_def filter_empty_conv)
  qed
next
  case (Suc k)
  obtain q' where q': "choose_round r q = (choose_in d q (reg_arena r), q')" "settled r q' d" "rq_failed q' = rq_failed q"
    by (rule choose_settled[OF Suc.prems(1)])
  obtain n where n: "fuel = Suc (Suc (Suc (Suc (Suc n))))" "3 * k \<le> n"
    using Suc.prems(3) by (intro that[of "fuel - 5"]) simp_all
  show ?case
  proof (cases rule: choose_in_cases[of d q "reg_arena r"])
    case 2
    then show ?thesis using q' n by (auto simp: selection_result_def settled_def filter_empty_conv)
  next
    case (1 b)
    let ?a = "reg_arena r" let ?f = "rq_failed q @ [vb_peer (ar_cell ?a b)]"
    let ?q = "q'\<lparr>rq_failed := ?f\<rparr>" and ?r = "r\<lparr>reg_arena := rejected now b ?a\<rparr>"
    have step: "selection fuel now resolves (Choosing, q, r) = selection (Suc (Suc (Suc (Suc n)))) now resolves (Chosen b, q', r)"
      using q'(1) 1(1) n by simp
    have cand: "candidate (rq_failed q') ?a b" using 1(3) q'(3) by simp
    note go = step[unfolded reserve_resolve[OF q'(2) cand]]
    show ?thesis
    proof (cases "resolves (vb_address (ar_cell ?a b))")
      case True
      with 1 show ?thesis unfolding go by (auto simp: selection_result_def)
    next
      case False
      have weaker: "candidate ?f (rejected now b ?a) c \<longleftrightarrow> candidate (rq_failed q) ?a c \<and> vb_peer (ar_cell ?a c) \<noteq> vb_peer (ar_cell ?a b)" for c
        by (auto simp: candidate_def rejected_cell)
      have "length (filter (candidate ?f (rejected now b ?a)) (dp_backends d)) < length (filter (candidate (rq_failed q) ?a) (dp_backends d))"
      proof -
        have "filter (candidate ?f (rejected now b ?a)) (dp_backends d) =
            filter (candidate ?f (rejected now b ?a)) (filter (candidate (rq_failed q) ?a) (dp_backends d))"
          using weaker by (auto intro: filter_cong)
        moreover have "length \<dots> < length (filter (candidate (rq_failed q) ?a) (dp_backends d))"
          by (rule length_filter_less[of b]) (use 1 weaker in auto)
        ultimately show ?thesis by simp
      qed
      then have "length (filter (candidate (rq_failed ?q) (reg_arena ?r)) (dp_backends d)) \<le> k" using Suc.prems(2) by simp
      moreover have "settled ?r ?q d" using q'(2) by (auto simp: settled_def current_def get_def)
      ultimately obtain x where x: "selection (Suc (Suc n)) now resolves (Choosing, ?q, ?r) = Some x"
        "selection_result resolves d (rq_failed ?q) (reg_arena ?r) x"
        using Suc.IH[of ?r ?q "Suc (Suc n)"] n(2) by auto
      have "selection_result resolves d (rq_failed q) ?a x"
        using x(2) 1(2) False weaker by (auto simp: selection_result_def rejected_cell split: prod.splits if_splits)
      with x(1) go False q'(3) show ?thesis by simp
    qed
  qed
qed

lemma current_current: "reg_ok r \<Longrightarrow> current r (current r e) = current r e"
  by (cases "get r (spec_id (dp_spec e))") (auto simp: current_def dest: reg_ok_get(2))

lemma selection_flat:
  assumes "reg_ok r" "rq_deployment q = Some e" "rq_backend q = None" "rq_assignment q = None"
    and "3 * length (dp_backends (current r e)) + 3 \<le> fuel" "reg_arena r = a"
  shows "\<exists>x. selection fuel now resolves (Choosing, q, r) = Some x \<and>
    (if dp_serial (current r e) = dp_serial e \<or> check_flat_admission_refresh e (current r e)
     then selection_result resolves (current r e) (rq_failed q) a x
     else fst x = Refused PolicyChanged)"
proof -
  let ?d = "current r e"
  obtain n where n: "fuel = Suc (Suc n)" "3 * length (dp_backends ?d) + 2 \<le> Suc n" using assms(5) by (intro that[of "fuel - 2"]) simp_all
  show ?thesis
  proof (cases "dp_serial ?d = dp_serial e")
    case True
    then have "settled r q ?d" using assms current_current[OF assms(1)] by (simp add: settled_def)
    from selection_settled[OF this length_filter_le, of fuel now resolves] assms(5,6) True show ?thesis by auto
  next
    case False
    then have get: "get r (spec_id (dp_spec e)) = Some ?d" by (auto simp: current_def split: option.splits)
    show ?thesis
    proof (cases "check_flat_admission_refresh e ?d")
      case True
      let ?q = "q\<lparr>rq_deployment := Some ?d\<rparr>"
      have "settled r ?q ?d" using assms current_current[OF assms(1)] by (simp add: settled_def)
      from selection_settled[OF this length_filter_le, of "Suc n" now resolves] n(2)
      show ?thesis using n(1) assms(2,6) get False True by (simp add: choose_round_def)
    next
      case F: False
      then show ?thesis using n(1) assms(2) get False by (simp add: choose_round_def)
    qed
  qed
qed

text \<open>Giving a held slot back changes neither what is available nor any address.\<close>

lemma request_release_cell:
  assumes "request_release now q a = (q', a')"
  shows "is_available (ar_cell a' b) = is_available (ar_cell a b)" "vb_peer (ar_cell a' b) = vb_peer (ar_cell a b)"
    "vb_address (ar_cell a' b) = vb_address (ar_cell a b)"
  using assms
  by (auto simp: request_release_def arena_update_def release_def is_available_def
      split: option.splits assigned_backend.splits if_splits)

lemma selection_result_cell:
  assumes "\<And>b. is_available (ar_cell a' b) = is_available (ar_cell a b)" "\<And>b. vb_peer (ar_cell a' b) = vb_peer (ar_cell a b)"
    "\<And>b. vb_address (ar_cell a' b) = vb_address (ar_cell a b)"
  shows "selection_result resolves d failed a' x = selection_result resolves d failed a x"
proof -
  have "candidate failed a' = candidate failed a" by (simp add: candidate_def fun_eq_iff assms)
  then show ?thesis by (cases x) (simp add: selection_result_def assms)
qed

lemma current_arena [simp]: "current (r\<lparr>reg_arena := a\<rparr>) e = current r e"
  by (simp add: current_def get_def)

text \<open>The backend of a regional assignment: whether it takes a request, and what is held of it.\<close>

definition assigned_available :: "assigned_backend \<Rightarrow> arena \<Rightarrow> bool" where
  "assigned_available h a = (case h of Pooled b \<Rightarrow> is_available (ar_cell a b) | Private x \<Rightarrow> is_available x)"

definition assigned_hold :: "nat \<Rightarrow> assigned_backend \<Rightarrow> assigned_backend" where
  "assigned_hold now h = (case h of Pooled b \<Rightarrow> Pooled b | Private x \<Rightarrow> Private (acquire x now))"

lemma hold_assigned:
  "hold now h a = None \<longleftrightarrow> \<not> assigned_available h a"
  "hold now h a = Some (h', a') \<Longrightarrow> h' = assigned_hold now h \<and> held_address h' a' = held_address h a"
  by (auto simp: hold_def assigned_available_def assigned_hold_def held_address_def try_acquire_def arena_update_def acquire_def
      split: assigned_backend.splits if_splits)

text \<open>What a call with a regional assignment comes to, by the arena it began with.\<close>

definition assigned_result :: "nat \<Rightarrow> (string \<Rightarrow> bool) \<Rightarrow> nat \<Rightarrow> assigned_backend \<Rightarrow> arena \<Rightarrow> progress \<times> request \<times> registry \<Rightarrow> bool" where
  "assigned_result now resolves attempts h a x =
     (if attempts \<noteq> 0 \<or> \<not> assigned_available h a then fst x = Refused ReplayForbidden
      else fst x = (if resolves (held_address h a) then Ready else Refused AssignmentUnresolved) \<and>
        rq_backend (fst (snd x)) = Some (assigned_hold now h))"

lemma next_peer_assigned:
  assumes "rq_deployment q = Some e" "rq_attempts q < MAX_ATTEMPTS" "rq_assignment q = Some (ref, y)" "2 \<le> fuel"
  shows "\<exists>x. next_peer fuel now resolves q r = Some x \<and> assigned_result now resolves (rq_attempts q) (as_backend y) (reg_arena r) x"
proof -
  obtain n where n: "fuel = Suc (Suc n)" using assms(4) by (metis add_2_eq_Suc le_Suc_ex)
  let ?q = "q\<lparr>rq_attempts := rq_attempts q + 1\<rparr>"
  obtain q2 a2 where rel: "request_release now ?q (reg_arena r) = (q2, a2)" by force
  have q2: "q2 = ?q\<lparr>rq_backend := None\<rparr>" using rel by (simp add: request_release_def)
  note cell = request_release_cell[OF rel]
  have same: "assigned_available (as_backend y) a2 = assigned_available (as_backend y) (reg_arena r)"
    "held_address (as_backend y) a2 = held_address (as_backend y) (reg_arena r)"
    by (simp_all add: assigned_available_def held_address_def cell split: assigned_backend.splits)
  show ?thesis
  proof (cases "hold now (as_backend y) a2")
    case None
    then have "begin_attempt now q (reg_arena r) = (Refused ReplayForbidden, q2, a2)"
      using assms rel q2 by (simp add: begin_attempt_def Let_def)
    moreover have "\<not> assigned_available (as_backend y) (reg_arena r)" using None hold_assigned(1) same(1) by blast
    ultimately show ?thesis using n by (simp add: next_peer_def assigned_result_def)
  next
    case (Some z)
    obtain h3 a3 where z: "z = (h3, a3)" by force
    note held = hold_assigned(2)[OF Some[unfolded z]]
    have av: "assigned_available (as_backend y) (reg_arena r)" using Some hold_assigned(1)[of now "as_backend y" a2] same(1) by simp
    show ?thesis
    proof (cases "rq_attempts q = 0")
      case True
      then have "begin_attempt now q (reg_arena r) = (Resolving, q2\<lparr>rq_backend := Some h3\<rparr>, a3)"
        using assms rel q2 Some z by (simp add: begin_attempt_def Let_def)
      then show ?thesis
        using n True av conjunct1[OF held] conjunct2[OF held, unfolded conjunct1[OF held]] same(2) q2 assms(3)
        by (cases "resolves (held_address (as_backend y) (reg_arena r))")
          (simp_all add: next_peer_def assigned_result_def resolved_def)
    next
      case False
      then have "begin_attempt now q (reg_arena r) = (Refused ReplayForbidden, q2, a2)"
        using assms rel q2 by (simp add: begin_attempt_def Let_def)
      then show ?thesis using n False by (simp add: next_peer_def assigned_result_def)
    qed
  qed
qed

lemma next_peer_flat:
  assumes "reg_ok r" "rq_deployment q = Some e" "rq_attempts q < MAX_ATTEMPTS" "rq_assignment q = None"
    and "3 * length (dp_backends (current r e)) + 3 \<le> fuel"
  shows "\<exists>x. next_peer fuel now resolves q r = Some x \<and>
    (if dp_serial (current r e) = dp_serial e \<or> check_flat_admission_refresh e (current r e)
     then selection_result resolves (current r e) (rq_failed q) (reg_arena r) x
     else fst x = Refused PolicyChanged)"
proof -
  let ?q = "q\<lparr>rq_attempts := rq_attempts q + 1\<rparr>"
  obtain q2 a2 where rel: "request_release now ?q (reg_arena r) = (q2, a2)" by force
  have q2: "q2 = ?q\<lparr>rq_backend := None\<rparr>" using rel by (simp add: request_release_def)
  have "begin_attempt now q (reg_arena r) = (Choosing, q2, a2)"
    using assms rel q2 by (simp add: begin_attempt_def Let_def)
  then have "next_peer fuel now resolves q r = selection fuel now resolves (Choosing, q2, r\<lparr>reg_arena := a2\<rparr>)"
    by (simp add: next_peer_def)
  moreover have "reg_ok (r\<lparr>reg_arena := a2\<rparr>)"
    using rel by (intro reg_ok_steady[OF _ assms(1)]) (auto simp: steady_def request_release_def arena_update_def release_def
      split: option.splits assigned_backend.splits if_splits)
  from selection_flat[OF this, of q2 e fuel a2 now resolves] assms(2,4,5) q2 obtain x where
    "selection fuel now resolves (Choosing, q2, r\<lparr>reg_arena := a2\<rparr>) = Some x"
    "if dp_serial (current r e) = dp_serial e \<or> check_flat_admission_refresh e (current r e)
     then selection_result resolves (current r e) (rq_failed q2) a2 x else fst x = Refused PolicyChanged"
    unfolding current_arena by auto
  ultimately show ?thesis
    using selection_result_cell[OF request_release_cell[OF rel], of resolves "current r e" "rq_failed q2" x] q2
    by (intro exI[of _ x]) (auto split: if_splits)
qed

section \<open>Properties\<close>

text \<open>
  C3. However requests, retries, drains, replacements, health checks and router snapshots interleave,
  every backend's in-flight count is the number of requests that hold a slot of it, every router's
  counters count the assignments that requests hold of it, and completing any request succeeds.
\<close>

theorem request_accounting:
  assumes "sys_reachable P hm s"
  shows "(\<forall>b < ar_next (sy_arena s). vb_in_flight (ar_cell (sy_arena s) b) =
       length (filter (\<lambda>(_, q). rq_backend q = Some (Pooled b)) (sy_requests s))) \<and>
    (\<forall>ref < ar_next_router (sy_arena s). \<forall>k.
       map_of (rt_counters (ar_router (sy_arena s) ref)) k =
         (let held = filter (\<lambda>x. as_key x = k) (assigned (sy_requests s) ref)
          in if held = [] then None else Some (length (filter as_source held), length (filter as_local held)))) \<and>
    list_all (\<lambda>(_, q). request_complete now q (sy_arena s) \<noteq> None) (sy_requests s)"
proof -
  have ok: "sys_ok s" by (rule sys_reachable_ok[OF assms])
  have slots: "slots (sy_requests s) b = length (filter (\<lambda>(_, q). rq_backend q = Some (Pooled b)) (sy_requests s))" for b
    unfolding slots_def by (rule arg_cong[of _ _ length], rule filter_cong) (auto simp: holds_def)
  have "map_of (rt_counters (ar_router (sy_arena s) ref)) k =
      (let held = filter (\<lambda>x. as_key x = k) (assigned (sy_requests s) ref)
       in if held = [] then None else Some (length (filter as_source held), length (filter as_local held)))"
    if "ref < ar_next_router (sy_arena s)" for ref k
  proof -
    have bal: "books.balanced (ar_router (sy_arena s) ref) (assigned (sy_requests s) ref)" using ok that by (simp add: sys_ok_def)
    show ?thesis
      using balanced_lookup[OF bal, of k] balanced_empty[OF bal, of k] balanced_counter[OF bal, of k]
      by (auto simp: Let_def list_ex_iff filter_empty_conv conj_commute)
  qed
  moreover have "request_complete now q (sy_arena s) \<noteq> None" if "(p, q) \<in> set (sy_requests s)" for p q
    using that complete_ok[OF ok] by (metis in_set_conv_nth option.distinct(1))
  ultimately show ?thesis using ok slots by (auto simp: sys_ok_def list_all_iff)
qed

definition empty_system :: system where
  "empty_system = \<lparr>sy_registry = registry_new demo_arena, sy_requests = []\<rparr>"

theorem request_accounting_witness:
  "\<exists>s. length (sy_requests s) = 1 \<and> sys_reachable (\<lambda>_. None) fun_headers s \<and>
     list_all (\<lambda>(_, q). request_complete 0 q (sy_arena s) \<noteq> None) (sy_requests s)"
proof -
  let ?s = "empty_system\<lparr>sy_requests := sy_requests empty_system @ [(Idle, request_default)]\<rparr>"
  have "sys_reachable (\<lambda>_. None) fun_headers empty_system"
    unfolding empty_system_def by (rule sys_start) (simp_all add: demo_arena_def)
  then have r: "sys_reachable (\<lambda>_. None) fun_headers ?s" by (rule sys_next) (rule sys_arrive)
  with request_accounting[OF r, of 0] show ?thesis by (intro exI[of _ ?s]) (simp add: empty_system_def)
qed

text \<open>
  C21. While nothing else changes the registry a call for the next peer ends, within three rounds per
  backend of the pool and three more, and how it ends is settled by what it began with. Without a
  deployment or an attempt left it is refused. A request with a regional assignment gets the assigned
  backend on its first attempt if that is available and resolves, and is refused otherwise. Any other
  request is refused when its deployment was replaced by one with another gateway or with regional
  routing on either side. Else it ends with a reserved backend of the current pool that was available,
  had not failed before and resolves; or without one, and then every address the pool offered has a
  backend that does not resolve, and the request waits for capacity if the pool can grow and is refused
  if it cannot.
\<close>

theorem selection_ends:
  assumes "reg_ok r" "3 * length (case rq_deployment q of Some e \<Rightarrow> dp_backends (current r e) | None \<Rightarrow> []) + 3 \<le> fuel"
  shows "\<exists>x. next_peer fuel now resolves q r = Some x \<and>
    (case rq_deployment q of
       None \<Rightarrow> fst x = Refused NoDeployment
     | Some e \<Rightarrow>
         if rq_attempts q \<ge> MAX_ATTEMPTS then fst x = Refused RetriesExhausted
         else case rq_assignment q of
           Some (_, y) \<Rightarrow> assigned_result now resolves (rq_attempts q) (as_backend y) (reg_arena r) x
         | None \<Rightarrow>
             if dp_serial (current r e) = dp_serial e \<or> check_flat_admission_refresh e (current r e)
             then selection_result resolves (current r e) (rq_failed q) (reg_arena r) x
             else fst x = Refused PolicyChanged)"
proof (cases "rq_deployment q")
  case None
  obtain n where "fuel = Suc n" using assms(2) by (cases fuel) auto
  with None show ?thesis by (simp add: next_peer_def begin_attempt_def)
next
  case (Some e)
  show ?thesis
  proof (cases "rq_attempts q \<ge> MAX_ATTEMPTS")
    case True
    obtain n where "fuel = Suc n" using assms(2) by (cases fuel) auto
    with Some True show ?thesis by (simp add: next_peer_def begin_attempt_def Let_def)
  next
    case False
    show ?thesis
    proof (cases "rq_assignment q")
      case None
      with next_peer_flat[OF assms(1) Some] Some False assms(2) show ?thesis by simp
    next
      case A: (Some z)
      obtain ref y where z: "z = (ref, y)" by force
      from next_peer_assigned[OF Some _ A[unfolded z]] False A z Some assms(2) show ?thesis by simp
    qed
  qed
qed

text \<open>
  Two calls on a pool of two backends: a new request, which gets a backend of it when names resolve, and
  one that has used its attempts.
\<close>

lemma demo_available: "is_available (ar_cell (snd demo_new) 0)"
proof -
  let ?f = "\<lambda>u. backend_for_upstream (\<lambda>_. None) u 100"
  obtain x y where xy: "?f ''h1:80'' = Some x" "?f ''h2:80'' = Some y"
    using demo_new_spec by (auto simp: deployment_new_def demo_spec_def split: option.splits)
  have "is_available x" using xy(1) by (auto simp: backend_for_upstream_def backend_with_peer_def is_available_def)
  then show ?thesis
    using xy by (simp add: demo_new_def deployment_new_def demo_spec_def deployment_router_def demo_arena_def arena_alloc_def)
qed

theorem selection_ends_witness:
  "\<exists>x y. next_peer 9 0 (\<lambda>_. True) (request_default\<lparr>rq_deployment := Some (fst demo_new)\<rparr>)
     ((registry_new demo_arena)\<lparr>reg_arena := snd demo_new\<rparr>) = Some x \<and>
   fst x = Ready \<and> selection_result (\<lambda>_. True) (fst demo_new) [] (snd demo_new) x \<and>
   next_peer 9 0 (\<lambda>_. True) (request_default\<lparr>rq_deployment := Some (fst demo_new), rq_attempts := 3\<rparr>)
     ((registry_new demo_arena)\<lparr>reg_arena := snd demo_new\<rparr>) = Some y \<and> fst y = Refused RetriesExhausted"
proof -
  let ?r = "(registry_new demo_arena)\<lparr>reg_arena := snd demo_new\<rparr>"
  let ?q = "request_default\<lparr>rq_deployment := Some (fst demo_new)\<rparr>"
  have ok: "reg_ok ?r"
    by (simp add: registry_new_def reg_ok_def index_ok_def pools_ok_def others_def retired_refs_def table.empty_build)
  have cur: "current (registry_new demo_arena) (fst demo_new) = fst demo_new" by (simp add: current_def get_def registry_new_def)
  have pool: "length (dp_backends (fst demo_new)) = 2"
    using deployment_new_spec[OF demo_new_spec] by (simp add: demo_spec_def)
  have "\<exists>x. next_peer 9 0 (\<lambda>_. True) ?q ?r = Some x \<and> selection_result (\<lambda>_. True) (fst demo_new) [] (snd demo_new) x"
    using selection_ends[OF ok, of ?q 9 0 "\<lambda>_. True"] by (simp add: request_default_def cur pool MAX_ATTEMPTS_def)
  then obtain x where x: "next_peer 9 0 (\<lambda>_. True) ?q ?r = Some x" "selection_result (\<lambda>_. True) (fst demo_new) [] (snd demo_new) x"
    by blast
  have "\<exists>y. next_peer 9 0 (\<lambda>_. True) (?q\<lparr>rq_attempts := 3\<rparr>) ?r = Some y \<and> fst y = Refused RetriesExhausted"
    using selection_ends[OF ok, of "?q\<lparr>rq_attempts := 3\<rparr>" 9 0 "\<lambda>_. True"]
    by (simp add: request_default_def cur pool MAX_ATTEMPTS_def)
  then obtain y where "next_peer 9 0 (\<lambda>_. True) (?q\<lparr>rq_attempts := 3\<rparr>) ?r = Some y" "fst y = Refused RetriesExhausted"
    by blast
  moreover have "candidate [] (snd demo_new) 0" by (simp add: candidate_def demo_available)
  then have "fst x = Ready" using x(2) demo_get(4) by (auto simp: selection_result_def split: prod.splits if_splits)
  ultimately show ?thesis using x by (intro exI[of _ x] exI[of _ y]) simp
qed

end
