(* ===== verification/Forwarding.thy ===== *)
theory Forwarding
  imports Request Regional_Laws
begin

text \<open>
  What a proxied request carries to its upstream: the modifications \<open>request_control.rs\<close> computes, as
  the adapter applies them, and what the regional router of the next gateway makes of the result.
\<close>

section \<open>What is forwarded\<close>

fun modifies :: "string \<Rightarrow> header_modification \<Rightarrow> bool" where
  "modifies n (RemoveHeader m) = (m = n)"
| "modifies n (SetHeader m _) = (m = n)"
| "modifies n (RewriteUri _) = False"

lemma apply_modifications_get:
  assumes "header_laws hm"
  shows "apply_modifications hm parse ms (h, u) = Some (h', u') \<Longrightarrow> list_all (\<lambda>m. modifies n m \<longrightarrow> m = SetHeader n v) ms \<Longrightarrow>
    hm_get_all hm h' n = (if list_ex (modifies n) ms then [v] else hm_get_all hm h n)"
proof (induction ms arbitrary: h u)
  case (Cons m ms)
  then show ?case using assms by (cases m) (auto simp: header_laws_def split: bind_splits if_splits)
qed simp

lemma peer_modifications_values:
  assumes "header_laws hm" "peer_modifications hm g token = Inr ms"
  shows "ms = map (\<lambda>(n, v). SetHeader n v) (peer_values g token)"
proof -
  obtain h where w: "write_forward_headers hm g token (hm_empty hm) = (h, True)"
    and ms: "ms = map (\<lambda>n. SetHeader n (hd (hm_get_all hm h n))) (filter (contains_key hm h) HEADERS)"
    using assms(2) by (auto simp: peer_modifications_def split: prod.splits if_splits)
  have get: "hm_get_all hm h n = [v]" if "(n, v) \<in> set (peer_values g token)" for n v
    using forward_headers_get[OF assms(1) w, of n] that distinct_HEADERS map_of_is_SomeI[of "peer_values g token" n v] by simp
  then have vals: "list_all (\<lambda>(n, v). hm_get_all hm h n = [v]) (peer_values g token)" by (auto simp: list_all_iff)
  then have "filter (contains_key hm h) HEADERS = HEADERS" by (simp add: contains_key_def peer_values_def HEADERS_def)
  then show ?thesis unfolding ms using vals by (simp add: peer_values_def HEADERS_def)
qed

lemma header_value_Inr: "header_value hm n v e = Inr ms \<longleftrightarrow> hm_value_ok hm v \<and> ms = [SetHeader n v]"
  by (auto simp: header_value_def)

definition peer_header_names :: "string list" where
  "peer_header_names = HEADERS @ [GENERATION, ENVIRONMENT, PROBE, ACTIVE_PROBE]"

lemma peer_header_names_distinct: "distinct peer_header_names"
  by (simp add: peer_header_names_def HEADERS_def header_names GENERATION_def ENVIRONMENT_def PROBE_def ACTIVE_PROBE_def)

lemma identity_apart:
  assumes "identity_modifications hm q = Inr ms" "n \<in> set peer_header_names"
  shows "\<not> list_ex (modifies n) ms"
  using assms
  by (auto simp: identity_modifications_def header_value_Inr Let_def IDENTITY_HEADERS_def peer_header_names_def HEADERS_def header_names
      GENERATION_def ENVIRONMENT_def PROBE_def ACTIVE_PROBE_def split: option.splits if_splits)

lemma forwarded_headers:
  assumes laws: "header_laws hm" and fwd: "forwarding_modifications hm q u = Inr ms" "apply_modifications hm parse ms (h, u) = Some (h', u')"
    and q: "rq_assignment q = Some (ref, x)" "as_forward x = Some (g, token, environment)" "rq_gateway_token q = None"
    and n: "n \<in> set peer_header_names"
  shows "hm_get_all hm h' n =
    (case map_of (peer_values g token @ [(GENERATION, int_str (as_generation x)), (ENVIRONMENT, environment)]) n of
       Some v \<Rightarrow> [v] | None \<Rightarrow> hm_get_all hm h n)"
proof -
  let ?nvs = "peer_values g token @ [(GENERATION, int_str (as_generation x)), (ENVIRONMENT, environment)]"
  have regional: "rs = map (\<lambda>(n, v). SetHeader n v) ?nvs" if "regional_modifications hm q = Inr rs" for rs
    using that q by (auto simp: regional_modifications_def header_value_Inr dest!: peer_modifications_values[OF laws])
  obtain rs ids where rs: "regional_modifications hm q = Inr rs"
    and ids: "identity_modifications hm q = Inr ids \<or> ids = []"
    and ms: "ms = rs @ (case rq_route_prefix q of Some p \<Rightarrow> [RewriteUri (strip_uri_prefix u p)] | None \<Rightarrow> []) @ ids"
  proof -
    have "(case (Option.bind (rq_deployment q) (\<lambda>d. spec_gateway (dp_spec d)), rq_gateway_token q) of
        (Some g, Some token) \<Rightarrow> peer_modifications hm g token | _ \<Rightarrow> Inr []) = Inr []"
      using q(3) by (simp split: option.splits)
    then show ?thesis using fwd(1) that by (auto simp: forwarding_modifications_def split: if_splits)
  qed
  obtain rest where ms: "ms = map (\<lambda>(n, v). SetHeader n v) ?nvs @ rest" and rest: "\<not> list_ex (modifies n) rest"
    using ids identity_apart[of hm q ids n] n unfolding ms regional[OF rs] by (auto split: option.splits)
  have d: "distinct (map fst ?nvs)"
    using peer_header_names_distinct by (simp add: peer_header_names_def)
  have set: "list_ex (modifies n) ms \<longleftrightarrow> map_of ?nvs n \<noteq> None"
  proof -
    have "list_ex (modifies n) ms \<longleftrightarrow> n \<in> fst ` set ?nvs" using rest unfolding ms by (force simp: list_ex_iff)
    then show ?thesis using map_of_eq_None_iff by metis
  qed
  have all: "list_all (\<lambda>m. modifies n m \<longrightarrow> m = SetHeader n v) ms" if v: "map_of ?nvs n = Some v" for v
  proof -
    have "w = v" if "(n, w) \<in> set ?nvs" for w using map_of_is_SomeI[OF d that] v by simp
    then show ?thesis using rest unfolding ms by (fastforce simp: list_all_iff list_ex_iff)
  qed
  show ?thesis
  proof (cases "map_of ?nvs n")
    case None
    then have "list_all (\<lambda>m. modifies n m \<longrightarrow> m = SetHeader n []) ms" using set by (auto simp: list_all_iff list_ex_iff)
    from apply_modifications_get[OF laws fwd(2) this] show ?thesis using set unfolding None by simp
  next
    case (Some v)
    from apply_modifications_get[OF laws fwd(2) all[OF Some]] show ?thesis using set unfolding Some by simp
  qed
qed

section \<open>The next gateway\<close>

lemma remote_assignment:
  assumes "router_admit env random spec service region h r = Some (Inr x, r')" "\<not> as_local x"
  obtains token where "as_forward x = Some (own_gateway spec service (as_region x) Forward, token, rsp_environment spec)"
    "token \<noteq> []" "hm_value_ok (ad_headers env) token"
    "\<not> contains_key (ad_headers env) h PROBE" "\<not> contains_key (ad_headers env) h ACTIVE_PROBE"
proof (cases rule: router_admit_cases[OF assms(1)])
  case (2 s g p destination a)
  from 2(9) show ?thesis
  proof (cases rule: assign_cases)
    case (1 b)
    with assms(2) 2(1) show ?thesis by simp
  next
    case remote: (2 b gw gws token)
    from remote(4) have "token \<noteq> [] \<and> hm_value_ok (ad_headers env) token"
      by (auto simp: gateway_admit_iff own_gateway_def)
    with remote 2(1,5,6) that show ?thesis by simp
  qed
qed simp

lemma peer_headers_pinned:
  assumes "secret_resolve (ad_secrets env) (rsp_auth spec) = Inr token" "token \<noteq> []" "hm_value_ok (ad_headers env) token"
    and "list_all (\<lambda>(n, v). hm_get_all (ad_headers env) h n = [v]) (peer_values (own_gateway spec service region Local) token)"
    and "hm_get_all (ad_headers env) h GENERATION = [int_str g]" "hm_get_all (ad_headers env) h ENVIRONMENT = [rsp_environment spec]"
    and "hm_visible (ad_headers env) (int_str g)" "hm_visible (ad_headers env) (rsp_environment spec)"
    and "- (2 ^ 63) \<le> g" "g < 2 ^ 63"
  shows "peer_generation env spec service region h s = (if sn_closed_through_generation s < g then Inr g else Inl 503)"
proof -
  have "gateway_admit (ad_headers env) (Some (own_gateway spec service region Local)) h (ad_secrets env) = Inr None"
    using assms(1-4) unfolding gateway_admit_iff by (simp add: own_gateway_def)
  with assms(5-) show ?thesis
    by (simp add: peer_generation_def header_text_def header_get_def parse_i64_int_str fail_if_def ok_or_def)
qed

section \<open>Properties\<close>

text \<open>A region takes requests of a generation when the generation's policy gives it a positive weight.\<close>

definition serves_region :: "snapshot \<Rightarrow> int \<Rightarrow> string \<Rightarrow> bool" where
  "serves_region s g region =
     (case generation_policy s g of
        Some p \<Rightarrow> list_ex (\<lambda>d. rg_region d = region \<and> rg_weight d > 0) (pl_regions p)
      | None \<Rightarrow> False)"

lemma serves_region_find:
  assumes "generation_policy s g = Some p"
  shows "serves_region s g region \<longleftrightarrow> find (\<lambda>d. rg_region d = region \<and> rg_weight d > 0) (pl_regions p) \<noteq> None"
  using assms by (auto simp: serves_region_def find_None_iff list_ex_iff)

text \<open>What a router does with a peer's request for its own region once the headers are believed.\<close>

lemma router_admit_peer:
  assumes "has_peer (ad_headers env) h" "\<not> contains_key (ad_headers env) h PROBE" "\<not> contains_key (ad_headers env) h ACTIVE_PROBE"
    and "\<And>s. peer_generation env spec service region h s = (if sn_closed_through_generation s < g then Inr g else Inl 503)"
  shows "case (open_snapshot r, local_backend (ad_cells env) r) of
      (Inr s, Some b) \<Rightarrow>
        if sn_closed_through_generation s < g \<and> serves_region s g region
        then \<exists>y. router_admit env random spec service region h r = Some (Inr y, charge y r) \<and> as_generation y = g \<and>
          as_region y = region \<and> as_local y \<and> \<not> as_source y \<and> as_backend y = Pooled b
        else router_admit env random spec service region h r = Some (Inl 503, r)
    | _ \<Rightarrow> router_admit env random spec service region h r = Some (Inl 503, r)"
proof (cases "open_snapshot r")
  case (Inl e)
  then have "e = 503" by (auto simp: open_snapshot_def ok_or_def split: option.splits if_splits)
  with Inl assms(2,3) show ?thesis by (simp add: router_admit_def fail_if_def)
next
  case (Inr s)
  show ?thesis
  proof (cases "sn_closed_through_generation s < g \<and> serves_region s g region")
    case True
    then obtain p where p: "generation_policy s g = Some p" by (auto simp: serves_region_def split: option.splits)
    with True obtain d where d: "find (\<lambda>d. rg_region d = region \<and> rg_weight d > 0) (pl_regions p) = Some d"
      by (auto simp: serves_region_find)
    then have "rg_region d = region" by (auto simp: find_Some_iff)
    with Inr True p d assms show ?thesis
      by (auto simp: router_admit_def assign_def choose_region_def ok_or_def fail_if_def split: option.splits)
  next
    case False
    have "router_admit env random spec service region h r = Some (Inl 503, r)"
    proof (cases "sn_closed_through_generation s < g")
      case open_g: True
      with False show ?thesis using Inr assms
        by (cases "generation_policy s g")
          (simp_all add: router_admit_def choose_region_def ok_or_def fail_if_def serves_region_find)
    qed (use Inr assms in \<open>simp add: router_admit_def fail_if_def\<close>)
    with Inr False show ?thesis by (auto split: option.splits)
  qed
qed

text \<open>
  C8. A request that a router assigns to another region, once the forwarding modifications are applied,
  is believed by every router of that region which has the same environment and credential, and is
  judged there by the generation the first router pinned it to, whatever generation is active there and
  without a new choice of region. It is admitted to that generation, as a local assignment on the least
  loaded backend, exactly when that router is open, has the generation, has not closed it, gives its own
  region a weight in it and has an available backend; otherwise the answer is 503 and nothing changes.
\<close>

theorem regional_hop:
  assumes "router_admit env random spec service region h r = Some (Inr x, r')" "\<not> as_local x"
    and "rq_assignment q = Some (ref, x)" "rq_gateway_token q = None"
    and "header_laws (ad_headers env)" "forwarding_modifications (ad_headers env) q u = Inr ms"
    and "apply_modifications (ad_headers env) parse ms (h, u) = Some (h', u')"
    and "ad_headers dst = ad_headers env" "hm_visible (ad_headers env) (int_str (as_generation x))"
    and "hm_visible (ad_headers env) (rsp_environment spec)" "- (2 ^ 63) \<le> as_generation x" "as_generation x < 2 ^ 63"
    and "rsp_environment spec' = rsp_environment spec" "ref_namespace (rsp_auth spec') = ref_namespace (rsp_auth spec)"
    and "map_option (\<lambda>(_, token, _). Inr token) (as_forward x) = Some (secret_resolve (ad_secrets dst) (rsp_auth spec'))"
  shows "case (open_snapshot r2, local_backend (ad_cells dst) r2) of
      (Inr s, Some b) \<Rightarrow>
        if sn_closed_through_generation s < as_generation x \<and> serves_region s (as_generation x) (as_region x)
        then \<exists>y. router_admit dst random' spec' service (as_region x) h' r2 = Some (Inr y, charge y r2) \<and>
          as_generation y = as_generation x \<and> as_region y = as_region x \<and> as_local y \<and> \<not> as_source y \<and> as_backend y = Pooled b
        else router_admit dst random' spec' service (as_region x) h' r2 = Some (Inl 503, r2)
    | _ \<Rightarrow> router_admit dst random' spec' service (as_region x) h' r2 = Some (Inl 503, r2)"
proof -
  let ?hm = "ad_headers env" and ?g = "own_gateway spec service (as_region x) Forward"
  obtain token where fwd: "as_forward x = Some (?g, token, rsp_environment spec)" and token: "token \<noteq> []" "hm_value_ok ?hm token"
    and probe: "\<not> contains_key ?hm h PROBE" "\<not> contains_key ?hm h ACTIVE_PROBE"
    by (rule remote_assignment[OF assms(1,2)])
  note got = forwarded_headers[OF assms(5-7,3) fwd assms(4)]
  have names: "set HEADERS \<subseteq> set peer_header_names" "set [GENERATION, ENVIRONMENT, PROBE, ACTIVE_PROBE] \<subseteq> set peer_header_names"
    by (auto simp: peer_header_names_def)
  have d: "distinct (map fst (peer_values ?g token @ [(GENERATION, int_str (as_generation x)), (ENVIRONMENT, rsp_environment spec)]))"
    using peer_header_names_distinct by (simp add: peer_header_names_def)
  have vals: "hm_get_all ?hm h' n = [v]"
    if "(n, v) \<in> set (peer_values ?g token @ [(GENERATION, int_str (as_generation x)), (ENVIRONMENT, rsp_environment spec)])" for n v
  proof -
    have "n \<in> set peer_header_names" using that names by (auto simp: peer_header_names_def peer_values_def HEADERS_def)
    from got[OF this] map_of_is_SomeI[OF d that] show ?thesis by simp
  qed
  have same: "peer_values (own_gateway spec' service (as_region x) Local) token = peer_values ?g token"
    using assms(14) by (simp add: peer_values_def own_gateway_def)
  have gen: "hm_get_all ?hm h' GENERATION = [int_str (as_generation x)]" and envh: "hm_get_all ?hm h' ENVIRONMENT = [rsp_environment spec]"
    by (rule vals, simp)+
  have all: "list_all (\<lambda>(n, v). hm_get_all ?hm h' n = [v]) (peer_values ?g token)"
    unfolding list_all_iff by (rule ballI, clarify, rule vals, simp)
  have key: "secret_resolve (ad_secrets dst) (rsp_auth spec') = Inr token" using assms(15) fwd by simp
  note pinned = peer_headers_pinned[of dst spec' token h' service "as_region x" "as_generation x",
      unfolded assms(8,13) same, OF key token all gen envh assms(9-12)]
  have quiet: "hm_get_all ?hm h' n = hm_get_all ?hm h n" if "n \<in> {PROBE, ACTIVE_PROBE}" for n
  proof -
    have "n \<notin> fst ` set (peer_values ?g token @ [(GENERATION, int_str (as_generation x)), (ENVIRONMENT, rsp_environment spec)])"
      using that peer_header_names_distinct by (auto simp: peer_header_names_def peer_values_def HEADERS_def)
    then have none: "map_of (peer_values ?g token @ [(GENERATION, int_str (as_generation x)), (ENVIRONMENT, rsp_environment spec)]) n = None"
      unfolding map_of_eq_None_iff by simp
    have "n \<in> set peer_header_names" using that names(2) by auto
    from got[OF this] show ?thesis unfolding none by simp
  qed
  have silent: "\<not> contains_key ?hm h' PROBE" "\<not> contains_key ?hm h' ACTIVE_PROBE"
    using probe quiet by (simp_all add: contains_key_def)
  have peer: "has_peer ?hm h'" using gen by (simp add: has_peer_def contains_key_def)
  show ?thesis by (rule router_admit_peer) (use pinned silent peer in \<open>simp_all add: assms(8)\<close>)
qed

text \<open>Two regions, each with one gateway; the source's ticket 1 falls to the other region.\<close>

definition hop_parse :: "string \<Rightarrow> parsed_url option" where
  "hop_parse v = map_of [(''https://a:1'', demo_url ''a'' 1), (''https://b:2'', demo_url ''b'' 2)] v"

definition hop_policy :: policy where
  "hop_policy = \<lparr>pl_version = 1, pl_regions =
     [\<lparr>rg_region = ''ra'', rg_weight = 1, rg_gateways = [\<lparr>gw_id = ''a'', gw_backend_server_id = ''h'', gw_url = ''https://a:1''\<rparr>]\<rparr>,
      \<lparr>rg_region = ''rb'', rg_weight = 1, rg_gateways = [\<lparr>gw_id = ''b'', gw_backend_server_id = ''h'', gw_url = ''https://b:2''\<rparr>]\<rparr>]\<rparr>"

definition hop_snapshot :: snapshot where
  "hop_snapshot = (demo_snapshot [])\<lparr>sn_policies := [\<lparr>gn_generation = 1, gn_policy = hop_policy\<rparr>]\<rparr>"

definition hop_router :: router where
  "hop_router = (router_init ''x'')\<lparr>rt_local := [0], rt_snapshot := Some hop_snapshot\<rparr>"

definition hop_env :: "(string \<Rightarrow> string list) admission" where
  "hop_env = demo_env\<lparr>ad_url_parse := hop_parse\<rparr>"

definition hop_uri :: uri where "hop_uri = \<lparr>uri_path = ''/'', uri_query = None\<rparr>"

lemma hop_env_simps [simp]:
  "ad_headers hop_env = fun_headers" "ad_secrets hop_env = demo_peer_store" "ad_url_parse hop_env = hop_parse" "ad_now hop_env = 0"
  by (simp_all add: hop_env_def demo_env_def)

lemma hop_open [simp]: "open_snapshot hop_router = Inr hop_snapshot"
  by (simp add: open_snapshot_def hop_router_def router_init_def ok_or_def)

lemma hop_pinned [simp]:
  "generation_policy hop_snapshot 1 = Some hop_policy" "sn_active_generation hop_snapshot = Some 1" "sn_closed_through_generation hop_snapshot = 0"
  by (simp_all add: generation_policy_def hop_snapshot_def demo_snapshot_def)

lemma no_headers [simp]: "\<not> contains_key fun_headers (\<lambda>_. []) n"
  by (simp add: contains_key_def fun_headers_def)

lemma hop_source:
  "\<exists>b r'. router_admit hop_env (Some 1) demo_regional ''s'' ''ra'' (\<lambda>_. []) hop_router =
     Some (Inr \<lparr>as_generation = 1, as_region = ''rb'', as_source = True, as_local = False, as_backend = Private b,
       as_forward = Some (own_gateway demo_regional ''s'' ''rb'' Forward, ''t'', ''e'')\<rparr>, r')"
proof -
  have sent: "gateway_admit fun_headers (Some (own_gateway demo_regional ''s'' ''rb'' Forward)) (\<lambda>_. []) demo_peer_store = Inr (Some ''t'')"
    using demo_peer_token[of Local] unfolding gateway_admit_iff
    by (simp add: own_gateway_def demo_regional_def fun_headers_def HEADERS_def)
  have "upstream_parse hop_parse ''https://b:2'' \<noteq> None" by code_simp
  then obtain b where b: "backend_for_upstream hop_parse ''https://b:2'' 0 = Some b" by (auto simp: backend_for_upstream_def)
  have "\<not> has_peer fun_headers (\<lambda>_. [])" by (simp add: has_peer_def HEADERS_def)
  moreover have "choose_region (Some 1) False ''ra'' hop_policy = Some (Inr (pl_regions hop_policy ! 1))"
    by (simp add: choose_region_def hop_policy_def weight_sum_def ok_or_def)
  moreover have "assign hop_env demo_regional ''s'' ''ra'' (\<lambda>_. []) False hop_snapshot 1 (pl_regions hop_policy ! 1) hop_router =
     Some (Inr \<lparr>as_generation = 1, as_region = ''rb'', as_source = True, as_local = False, as_backend = Private b,
       as_forward = Some (own_gateway demo_regional ''s'' ''rb'' Forward, ''t'', ''e'')\<rparr>)"
    using b sent by (simp add: assign_def remote_backend_def hop_policy_def ok_or_def demo_regional_def)
  ultimately show ?thesis by (simp add: router_admit_def fail_if_def ok_or_def)
qed

lemma apply_no_rewrite: "list_all (\<lambda>m. \<forall>p. m \<noteq> RewriteUri p) ms \<Longrightarrow> \<exists>h'. apply_modifications hm parse ms (h, u) = Some (h', u)"
proof (induction ms arbitrary: h)
  case (Cons m ms)
  then show ?case by (cases m) simp_all
qed simp

lemma fun_headers_visible: "hm_visible fun_headers v" "hm_value_ok fun_headers v"
  by (simp_all add: fun_headers_def)

lemma peer_modifications_taken: "\<exists>ms. peer_modifications fun_headers g token = Inr ms"
  using fun_headers_written[of g token "hm_empty fun_headers"] by (auto simp: peer_modifications_def split: prod.splits)

theorem regional_hop_witness:
  "\<exists>x r' ms h' u' y. router_admit hop_env (Some 1) demo_regional ''s'' ''ra'' (\<lambda>_. []) hop_router = Some (Inr x, r') \<and>
     forwarding_modifications fun_headers (request_default\<lparr>rq_assignment := Some (0, x)\<rparr>) hop_uri = Inr ms \<and>
     apply_modifications fun_headers (\<lambda>_. None) ms (\<lambda>_. [], hop_uri) = Some (h', u') \<and>
     router_admit hop_env None demo_regional ''s'' ''rb'' h' hop_router = Some (Inr y, charge y hop_router) \<and>
     as_generation y = 1 \<and> as_local y \<and>
     router_admit hop_env None demo_regional ''s'' ''rb'' h' (fence hop_router) = Some (Inl 503, fence hop_router)"
proof -
  obtain b r' where r': "router_admit hop_env (Some 1) demo_regional ''s'' ''ra'' (\<lambda>_. []) hop_router =
     Some (Inr \<lparr>as_generation = 1, as_region = ''rb'', as_source = True, as_local = False, as_backend = Private b,
       as_forward = Some (own_gateway demo_regional ''s'' ''rb'' Forward, ''t'', ''e'')\<rparr>, r')" (is "_ = Some (Inr ?x, _)")
    using hop_source by blast
  let ?q = "request_default\<lparr>rq_assignment := Some (0, ?x)\<rparr>"
  obtain ms where ms: "forwarding_modifications fun_headers ?q hop_uri = Inr ms"
    using peer_modifications_taken[of "own_gateway demo_regional ''s'' ''rb'' Forward" "''t''"]
    by (auto simp: forwarding_modifications_def regional_modifications_def header_value_def request_default_def fun_headers_visible)
  then have plain: "list_all (\<lambda>m. \<forall>p. m \<noteq> RewriteUri p) ms"
    by (auto simp: forwarding_modifications_def regional_modifications_def header_value_Inr
        request_default_def dest!: peer_modifications_values[OF fun_headers_laws] simp: peer_values_def)
  obtain h' where h': "apply_modifications fun_headers (\<lambda>_. None) ms (\<lambda>_. [], hop_uri) = Some (h', hop_uri)"
    using apply_no_rewrite[OF plain, of fun_headers "\<lambda>_. None" "\<lambda>_. []" hop_uri] by blast
  have least: "local_backend (ad_cells hop_env) hop_router = Some 0"
    by (simp add: local_backend_def hop_env_def demo_env_def hop_router_def is_available_def backend_new_def backend_with_peer_def)
  have found: "find (\<lambda>d. rg_region d = ''rb'' \<and> rg_weight d > 0) (pl_regions hop_policy) = Some (pl_regions hop_policy ! 1)"
    by (simp add: hop_policy_def)
  have key: "secret_resolve demo_peer_store (rsp_auth demo_regional) = Inr ''t''" "rsp_environment demo_regional = ''e''"
    using demo_peer_token[of Local] by (simp_all add: demo_regional_def)
  have serves: "serves_region hop_snapshot 1 ''rb''" using found by (simp add: serves_region_find[OF hop_pinned(1)])
  note hop = regional_hop[OF r', of ?q 0 hop_uri ms "\<lambda>_. None" h' hop_uri hop_env demo_regional, where random' = None]
  have shut: "open_snapshot (fence hop_router) = Inl 503" by (simp add: open_snapshot_def fence_def ok_or_def)
  have refused: "router_admit hop_env None demo_regional ''s'' ''rb'' h' (fence hop_router) = Some (Inl 503, fence hop_router)"
    using hop[where ?r2.0 = "fence hop_router"] shut ms h' key fun_headers_laws
    by (auto simp: request_default_def fun_headers_visible)
  from hop[where ?r2.0 = hop_router] obtain y where "router_admit hop_env None demo_regional ''s'' ''rb'' h' hop_router = Some (Inr y, charge y hop_router)"
      "as_generation y = 1" "as_local y"
    using ms h' least serves key fun_headers_laws by (auto simp: request_default_def fun_headers_visible)
  with r' ms h' refused show ?thesis by blast
qed

end
