(* ===== verification/Sparse_File.thy ===== *)
theory Sparse_File
  imports Prelude
begin

text \<open>
  Sparse copies of the artifact store (\<open>artifacts/src/sys/sparse.rs\<close>). A file is a list of allocated
  bytes and holes. The kernel's part is a script of answers, one for each system call: a call may move
  less than it was asked to, be interrupted, or fail. A loop whose script runs out has not returned.
\<close>

section \<open>Files and the kernel\<close>

type_synonym file_bytes = "char option list"

definition content :: "file_bytes \<Rightarrow> string" where
  "content f = map (\<lambda>b. case b of None \<Rightarrow> CHR 0x00 | Some c \<Rightarrow> c) f"

datatype errno = EINTR | EXDEV | EINVAL | ENOSYS | EOPNOTSUPP | EPERM | EBADF | EMLINK | EEXIST | EOTHER nat

datatype answer = Moved nat | Errno errno

datatype io_error = Os errno | UnexpectedEof | NoSpace nat nat nat

type_synonym io_state = "answer list \<times> file_bytes"

type_synonym 'a io_result = "((io_error + 'a) \<times> io_state) option"

text \<open>A call that moves bytes moves at least one, and at most those there are.\<close>

definition moved :: "nat \<Rightarrow> nat \<Rightarrow> nat" where
  "moved n avail = min (max 1 n) avail"

definition put_bytes :: "nat \<Rightarrow> string \<Rightarrow> file_bytes \<Rightarrow> file_bytes" where
  "put_bytes off bs f = take off (f @ replicate (off - length f) None) @ map Some bs @ drop (off + length bs) f"

definition resize :: "nat \<Rightarrow> file_bytes \<Rightarrow> file_bytes" where
  "resize n f = take n (f @ replicate (n - length f) None)"

definition io_then :: "(('e + 'a) \<times> 's) option \<Rightarrow> ('a \<Rightarrow> 's \<Rightarrow> (('e + 'b) \<times> 's) option) \<Rightarrow> (('e + 'b) \<times> 's) option" where
  "io_then r k =
     (case r of None \<Rightarrow> None | Some (Inl e, s) \<Rightarrow> Some (Inl e, s) | Some (Inr a, s) \<Rightarrow> k a s)"

lemma io_then_cong [fundef_cong]:
  "r = r' \<Longrightarrow> (\<And>a s. r' = Some (Inr a, s) \<Longrightarrow> k a s = k' a s) \<Longrightarrow> io_then r k = io_then r' k'"
  by (auto simp: io_then_def split: option.splits sum.splits)

section \<open>System calls\<close>

fun ftruncate :: "nat \<Rightarrow> io_state \<Rightarrow> unit io_result" where
  "ftruncate n ([], dst) = None"
| "ftruncate n (Errno e # ks, dst) = Some (Inl (Os e), ks, dst)"
| "ftruncate n (Moved _ # ks, dst) = Some (Inr (), ks, resize n dst)"

fun pread :: "file_bytes \<Rightarrow> nat \<Rightarrow> nat \<Rightarrow> io_state \<Rightarrow> string io_result" where
  "pread src want off ([], dst) = None"
| "pread src want off (Errno e # ks, dst) = Some (Inl (Os e), ks, dst)"
| "pread src want off (Moved n # ks, dst) = Some (Inr (take (max 1 n) (take want (drop off (content src)))), ks, dst)"

fun pread_full :: "file_bytes \<Rightarrow> nat \<Rightarrow> nat \<Rightarrow> string \<Rightarrow> answer list \<Rightarrow> file_bytes \<Rightarrow> string io_result" where
  "pread_full src want off got [] dst = (if length got < want then None else Some (Inr got, [], dst))"
| "pread_full src want off got (k # ks) dst =
     (if length got < want
      then case pread src (want - length got) (off + length got) (k # ks, dst) of
          None \<Rightarrow> None
        | Some (Inl (Os EINTR), _) \<Rightarrow> pread_full src want off got ks dst
        | Some (Inl e, s) \<Rightarrow> Some (Inl e, s)
        | Some (Inr bs, s) \<Rightarrow> if bs = [] then Some (Inr got, s) else pread_full src want off (got @ bs) ks dst
      else Some (Inr got, k # ks, dst))"

fun pwrite_all :: "string \<Rightarrow> nat \<Rightarrow> answer list \<Rightarrow> file_bytes \<Rightarrow> unit io_result" where
  "pwrite_all bs off [] dst = (if bs = [] then Some (Inr (), [], dst) else None)"
| "pwrite_all bs off (k # ks) dst =
     (if bs = [] then Some (Inr (), k # ks, dst)
      else case k of
          Errno e \<Rightarrow> if e = EINTR then pwrite_all bs off ks dst else Some (Inl (Os e), ks, dst)
        | Moved n \<Rightarrow>
            (let m = moved n (length bs)
             in pwrite_all (drop m bs) (off + m) ks (put_bytes off (take m bs) dst)))"

section \<open>Which regions to touch\<close>

datatype shape = Dense | HoleAware | ZeroSquash nat

fun shape_grain :: "shape \<Rightarrow> nat option" where
  "shape_grain (ZeroSquash g) = Some g"
| "shape_grain Dense = None"
| "shape_grain HoleAware = None"

definition seek_data :: "file_bytes \<Rightarrow> nat \<Rightarrow> nat option" where
  "seek_data f off = find (\<lambda>i. f ! i \<noteq> None) [off..<length f]"

definition seek_hole :: "file_bytes \<Rightarrow> nat \<Rightarrow> nat" where
  "seek_hole f off = (case find (\<lambda>i. f ! i = None) [off..<length f] of Some i \<Rightarrow> i | None \<Rightarrow> length f)"

lemma find_upt_Some: "find P [a..<b] = Some i \<Longrightarrow> a \<le> i \<and> i < b \<and> P i \<and> (\<forall>j. a \<le> j \<and> j < i \<longrightarrow> \<not> P j)"
  by (auto simp: find_Some_iff nth_upt) (metis add_diff_inverse_nat add_less_cancel_left less_trans not_less)

lemma seek_data_Some: "seek_data f off = Some d \<Longrightarrow> off \<le> d \<and> d < length f \<and> f ! d \<noteq> None \<and> (\<forall>j. off \<le> j \<and> j < d \<longrightarrow> f ! j = None)"
  unfolding seek_data_def by (drule find_upt_Some) auto

lemma seek_hole_after: "f ! d \<noteq> None \<Longrightarrow> d < length f \<Longrightarrow> d < seek_hole f d"
  by (auto simp: seek_hole_def split: option.split dest!: find_upt_Some intro: le_neq_implies_less)

text \<open>
  The extents of the source, each as its offset and length, collected in \<open>out\<close>. The kernel's \<open>ENXIO\<close>
  is its answer when no data is left, which is \<open>None\<close> of \<open>seek_data\<close>.
\<close>

function data_segments :: "file_bytes \<Rightarrow> nat \<Rightarrow> nat \<Rightarrow> (nat \<times> nat) list \<Rightarrow> io_state \<Rightarrow> (nat \<times> nat) list io_result" where
  "data_segments src len off out (ks, dst) =
     (if off < len
      then case ks of
          [] \<Rightarrow> None
        | Errno e # ks1 \<Rightarrow>
            if e = EINVAL \<or> e = EOPNOTSUPP then Some (Inr (out @ [(off, len - off)]), ks1, dst)
            else Some (Inl (Os e), ks1, dst)
        | Moved _ # ks1 \<Rightarrow>
            (case seek_data src off of
               None \<Rightarrow> Some (Inr out, ks1, dst)
             | Some d \<Rightarrow>
                 if len \<le> d then Some (Inr out, ks1, dst)
                 else case ks1 of
                     [] \<Rightarrow> None
                   | Errno e # ks2 \<Rightarrow> Some (Inl (Os e), ks2, dst)
                   | Moved _ # ks2 \<Rightarrow>
                       (let fin = min (seek_hole src d) len
                        in data_segments src len fin (if d < fin then out @ [(d, fin - d)] else out) (ks2, dst)))
      else Some (Inr out, ks, dst))"
  by pat_completeness auto
termination
proof (relation "measure (\<lambda>(src, len, off, out, s). len - off)")
  show "((src, len, fin, out', ks2, dst), src, len, off, out, ks, dst) \<in> measure (\<lambda>(src, len, off, out, s). len - off)"
    if "off < len" "seek_data src off = Some d" "\<not> len \<le> d" "fin = min (seek_hole src d) len" for src len off out out' ks2 dst ks d fin
    using that seek_data_Some[of src off d] seek_hole_after[of src d] by auto
qed auto

declare data_segments.simps [simp del]

definition segments :: "file_bytes \<Rightarrow> nat \<Rightarrow> shape \<Rightarrow> io_state \<Rightarrow> (nat \<times> nat) list io_result" where
  "segments src len sh s =
     (if sh = Dense then Some (Inr (if len = 0 then [] else [(0, len)]), s)
      else data_segments src len 0 [] s)"

section \<open>Copies\<close>

definition BUF_LEN :: nat where "BUF_LEN = 4 * 1024 * 1024"

definition MAX_CFR :: nat where "MAX_CFR = 1024 * 1024 * 1024"

definition is_zero :: "string \<Rightarrow> bool" where
  "is_zero bs = list_all (\<lambda>b. b = CHR 0x00) bs"

definition byte_range :: "string \<Rightarrow> nat \<Rightarrow> nat \<Rightarrow> string" where
  "byte_range bs i j = take (j - i) (drop i bs)"

text \<open>Where the run of grains that are not all zero ends.\<close>

function run_end :: "string \<Rightarrow> nat \<Rightarrow> nat \<Rightarrow> nat" where
  "run_end chunk grain i =
     (if i < length chunk \<and> grain \<noteq> 0
      then let e = min (i + grain) (length chunk)
           in if is_zero (byte_range chunk i e) then i else run_end chunk grain e
      else i)"
  by pat_completeness auto
termination by (relation "measure (\<lambda>(chunk, grain, i). length chunk - i)") auto

declare run_end.simps [simp del]

lemma run_end_bounds: "i \<le> length chunk \<Longrightarrow> i \<le> run_end chunk grain i \<and> run_end chunk grain i \<le> length chunk"
proof (induction chunk grain i rule: run_end.induct)
  case (1 chunk grain i)
  show ?case
  proof (cases "i < length chunk \<and> grain \<noteq> 0 \<and> \<not> is_zero (byte_range chunk i (min (i + grain) (length chunk)))")
    case True
    with 1 show ?thesis by (subst (1 2) run_end.simps) (force simp: Let_def)
  next
    case False
    with 1 show ?thesis by (subst (1 2) run_end.simps) (auto simp: Let_def)
  qed
qed

text \<open>With a grain of zero the loop does not advance and never returns.\<close>

function write_nonzero_grains :: "string \<Rightarrow> nat \<Rightarrow> nat \<Rightarrow> nat \<Rightarrow> nat \<Rightarrow> io_state \<Rightarrow> nat io_result" where
  "write_nonzero_grains chunk base grain i written (ks, dst) =
     (if i < length chunk
      then if grain = 0 then None
           else let e = min (i + grain) (length chunk)
                in if is_zero (byte_range chunk i e) then write_nonzero_grains chunk base grain e written (ks, dst)
                   else let j = run_end chunk grain e
                        in io_then (pwrite_all (byte_range chunk i j) (base + i) ks dst)
                             (\<lambda>_ s. write_nonzero_grains chunk base grain j (written + (j - i)) s)
      else Some (Inr written, ks, dst))"
  by pat_completeness auto
termination
proof (relation "measure (\<lambda>(chunk, base, grain, i, _). length chunk - i)")
  show "((chunk, base, grain, j, w, s), chunk, base, grain, i, written, ks, dst) \<in> measure (\<lambda>(chunk, base, grain, i, _). length chunk - i)"
    if "i < length chunk" "grain \<noteq> 0" "e = min (i + grain) (length chunk)" "j = run_end chunk grain e" for chunk base grain i j e written w ks dst s
    using that run_end_bounds[of e chunk grain] by auto
qed auto

declare write_nonzero_grains.simps [simp del]

definition ZEROS_LEN :: nat where "ZEROS_LEN = 65536"

text \<open>What the observer has seen so far is the list of bytes it was fed.\<close>

function feed_zeros :: "string \<Rightarrow> nat \<Rightarrow> string" where
  "feed_zeros seen n =
     (if 0 < n then let k = min n ZEROS_LEN in feed_zeros (seen @ replicate k (CHR 0x00)) (n - k) else seen)"
  by pat_completeness auto
termination by (relation "measure snd") (auto simp: ZEROS_LEN_def)

declare feed_zeros.simps [simp del]

function copy_segment :: "file_bytes \<Rightarrow> nat option \<Rightarrow> (nat \<Rightarrow> 'g \<Rightarrow> io_error + 'g) \<Rightarrow> nat \<Rightarrow> nat \<Rightarrow>
    string \<times> nat \<times> 'g \<Rightarrow> io_state \<Rightarrow> (string \<times> nat \<times> 'g) io_result" where
  "copy_segment src grain check fin cursor (seen, written, g) (ks, dst) =
     (if cursor < fin
      then io_then (pread_full src (min (fin - cursor) BUF_LEN) cursor [] ks dst) (\<lambda>chunk s.
             if chunk = [] then Some (Inl UnexpectedEof, s)
             else io_then (case grain of
                 Some gr \<Rightarrow> write_nonzero_grains chunk cursor gr 0 0 s
               | None \<Rightarrow> io_then (pwrite_all chunk cursor (fst s) (snd s)) (\<lambda>_ s'. Some (Inr (length chunk), s'))) (\<lambda>n s'.
             case check (written + n) g of
               Inl e \<Rightarrow> Some (Inl e, s')
             | Inr g' \<Rightarrow> copy_segment src grain check fin (cursor + length chunk) (seen @ chunk, written + n, g') s'))
      else Some (Inr (seen, written, g), ks, dst))"
  by pat_completeness auto
termination by (relation "measure (\<lambda>(src, grain, check, fin, cursor, _). fin - cursor)") (auto intro!: diff_less_mono2)

declare copy_segment.simps [simp del]

fun copy_segments :: "file_bytes \<Rightarrow> nat option \<Rightarrow> (nat \<Rightarrow> 'g \<Rightarrow> io_error + 'g) \<Rightarrow> (nat \<times> nat) list \<Rightarrow> nat \<Rightarrow>
    string \<times> nat \<times> 'g \<Rightarrow> io_state \<Rightarrow> (nat \<times> string \<times> nat \<times> 'g) io_result" where
  "copy_segments src grain check [] cursor x s = Some (Inr (cursor, x), s)"
| "copy_segments src grain check ((off, n) # segs) cursor (seen, x) s =
     io_then (copy_segment src grain check (off + n) off (feed_zeros seen (off - cursor), x) s)
       (\<lambda>x' s'. copy_segments src grain check segs (off + n) x' s')"

definition copy_observing_guarded :: "file_bytes \<Rightarrow> nat \<Rightarrow> shape \<Rightarrow> (nat \<Rightarrow> 'g \<Rightarrow> io_error + 'g) \<Rightarrow> 'g \<Rightarrow> io_state \<Rightarrow>
    (string \<times> nat) io_result" where
  "copy_observing_guarded src len sh check g s =
     io_then (ftruncate len s) (\<lambda>_ s1.
     io_then (segments src len sh s1) (\<lambda>segs s2.
     io_then (copy_segments src (shape_grain sh) check segs 0 ([], 0, g) s2) (\<lambda>(cursor, seen, written, _) s3.
     Some (Inr (feed_zeros seen (len - cursor), written), s3))))"

definition copy_observing :: "file_bytes \<Rightarrow> nat \<Rightarrow> shape \<Rightarrow> io_state \<Rightarrow> (string \<times> nat) io_result" where
  "copy_observing src len sh s = copy_observing_guarded src len sh (\<lambda>_ g. Inr g) () s"

function copy_range_rw :: "file_bytes \<Rightarrow> nat \<Rightarrow> nat \<Rightarrow> nat \<Rightarrow> io_state \<Rightarrow> nat io_result" where
  "copy_range_rw src off n finished s =
     (if finished < n
      then io_then (pread src (min (n - finished) BUF_LEN) (off + finished) s) (\<lambda>bs s1.
             if bs = [] then Some (Inl UnexpectedEof, s1)
             else io_then (pwrite_all bs (off + finished) (fst s1) (snd s1)) (\<lambda>_ s2.
                  copy_range_rw src off n (finished + length bs) s2))
      else Some (Inr finished, s))"
  by pat_completeness auto
termination by (relation "measure (\<lambda>(src, off, n, finished, s). n - finished)") (auto intro!: diff_less_mono2)

declare copy_range_rw.simps [simp del]

definition falls_back :: "errno \<Rightarrow> bool" where
  "falls_back e \<longleftrightarrow> e \<in> set [EXDEV, EINVAL, ENOSYS, EOPNOTSUPP, EPERM, EBADF]"

text \<open>The kernel advances both offsets by what it copied, so they stay equal.\<close>

fun copy_range :: "file_bytes \<Rightarrow> nat \<Rightarrow> nat \<Rightarrow> nat \<Rightarrow> answer list \<Rightarrow> file_bytes \<Rightarrow> nat io_result" where
  "copy_range src off remaining copied [] dst = (if 0 < remaining then None else Some (Inr copied, [], dst))"
| "copy_range src off remaining copied (k # ks) dst =
     (if 0 < remaining
      then case k of
          Moved n \<Rightarrow>
            (let avail = min (min remaining MAX_CFR) (length src - off); m = moved n avail
             in if avail = 0 then Some (Inl UnexpectedEof, ks, dst)
                else copy_range src (off + m) (remaining - m) (copied + m) ks
                       (put_bytes off (take m (drop off (content src))) dst))
        | Errno e \<Rightarrow>
            if e = EINTR then copy_range src off remaining copied ks dst
            else if falls_back e
            then io_then (copy_range_rw src off remaining 0 (ks, dst)) (\<lambda>n s. Some (Inr (copied + n), s))
            else Some (Inl (Os e), ks, dst)
      else Some (Inr copied, k # ks, dst))"

fun copy_ranges :: "file_bytes \<Rightarrow> (nat \<times> nat) list \<Rightarrow> nat \<Rightarrow> io_state \<Rightarrow> nat io_result" where
  "copy_ranges src [] written s = Some (Inr written, s)"
| "copy_ranges src ((off, n) # segs) written s =
     io_then (copy_range src off n 0 (fst s) (snd s)) (\<lambda>m s'. copy_ranges src segs (written + m) s')"

definition copy_shaped :: "file_bytes \<Rightarrow> nat \<Rightarrow> shape \<Rightarrow> io_state \<Rightarrow> nat io_result" where
  "copy_shaped src len sh s =
     (if shape_grain sh \<noteq> None then io_then (copy_observing src len sh s) (\<lambda>(_, written) s'. Some (Inr written, s'))
      else io_then (ftruncate len s) (\<lambda>_ s1.
           io_then (segments src len sh s1) (\<lambda>segs s2. copy_ranges src segs 0 s2)))"

section \<open>A logic of calls\<close>

text \<open>
  What a call may come to: it has not returned, and the script had fewer moving answers than it needs;
  it failed with an error the script holds or \<open>E\<close> allows; or it returned, used at most the answers it
  needs, and \<open>Q\<close> holds of its value and the destination.
\<close>

definition moves :: "answer list \<Rightarrow> nat" where
  "moves ks = length (filter (\<lambda>k. \<exists>n. k = Moved n) ks)"

definition blames :: "answer list \<Rightarrow> io_error \<Rightarrow> bool" where
  "blames ks e \<longleftrightarrow> (\<exists>x. e = Os x \<and> Errno x \<in> set ks)"

definition io_spec :: "answer list \<Rightarrow> nat \<Rightarrow> (io_error \<Rightarrow> bool) \<Rightarrow> ('a \<Rightarrow> file_bytes \<Rightarrow> bool) \<Rightarrow> 'a io_result \<Rightarrow> bool" where
  "io_spec ks need E Q r \<longleftrightarrow>
     (case r of
        None \<Rightarrow> moves ks < need
      | Some (Inl e, _) \<Rightarrow> blames ks e \<or> E e
      | Some (Inr a, ks', dst') \<Rightarrow> moves ks \<le> moves ks' + need \<and> set ks' \<subseteq> set ks \<and> Q a dst')"

lemma moves_simps [simp]: "moves [] = 0" "moves (Moved n # ks) = Suc (moves ks)" "moves (Errno e # ks) = moves ks"
  by (simp_all add: moves_def)

lemma blames_mono: "set ks' \<subseteq> set ks \<Longrightarrow> blames ks' e \<Longrightarrow> blames ks e"
  by (auto simp: blames_def)

lemma io_spec_return: "Q a dst \<Longrightarrow> io_spec ks need E Q (Some (Inr a, ks, dst))"
  by (simp add: io_spec_def)

lemma io_spec_weaken:
  assumes "io_spec ks need E Q r" "need \<le> need'" "\<And>a dst. Q a dst \<Longrightarrow> Q' a dst"
  shows "io_spec ks need' E Q' r"
  using assms by (force simp: io_spec_def split: option.splits sum.splits)

lemma io_spec_step:
  assumes "io_spec ks need E Q r"
  shows "io_spec (Moved n # ks) (Suc need) E Q r" "io_spec (Errno e # ks) need E Q r"
  using assms by (auto simp: io_spec_def blames_def split: option.splits sum.splits)

lemma io_spec_then:
  assumes "io_spec ks n E Q r"
    and "\<And>a ks' dst'. r = Some (Inr a, ks', dst') \<Longrightarrow> Q a dst' \<Longrightarrow> set ks' \<subseteq> set ks \<Longrightarrow> io_spec ks' m E R (k a (ks', dst'))"
  shows "io_spec ks (n + m) E R (io_then r k)"
proof (cases r)
  case None
  with assms(1) show ?thesis by (simp add: io_spec_def io_then_def)
next
  case (Some x)
  obtain v ks' dst' where x: "x = (v, ks', dst')" by (cases x) auto
  show ?thesis
  proof (cases v)
    case (Inl e)
    with assms(1) Some x show ?thesis by (simp add: io_spec_def io_then_def)
  next
    case (Inr a)
    with assms(1) Some x have q: "Q a dst'" "set ks' \<subseteq> set ks" "moves ks \<le> moves ks' + n" by (simp_all add: io_spec_def)
    from assms(2)[OF Some[unfolded x Inr] q(1,2)] show ?thesis
      using q(2,3) Some x Inr
      by (auto simp: io_spec_def io_then_def dest: blames_mono[OF q(2)] split: option.splits sum.splits)
  qed
qed

section \<open>What each call does\<close>

lemma content_simps [simp]:
  "content [] = []" "content (f @ g) = content f @ content g" "length (content f) = length f"
  "content (map Some bs) = bs" "content (replicate n None) = replicate n (CHR 0x00)"
  by (simp_all add: content_def comp_def)

lemma content_take_drop: "content (take n f) = take n (content f)" "content (drop n f) = drop n (content f)"
  by (simp_all add: content_def take_map drop_map)

lemma put_bytes_inside:
  assumes "off + length bs \<le> length f"
  shows "content (put_bytes off bs f) = take off (content f) @ bs @ drop (off + length bs) (content f)"
    "length (put_bytes off bs f) = length f"
  using assms by (simp_all add: put_bytes_def content_take_drop)

lemma put_bytes_split:
  assumes "off + length (xs @ ys) \<le> length f"
  shows "content (put_bytes (off + length xs) ys (put_bytes off xs f)) = content (put_bytes off (xs @ ys) f)"
  using assms by (simp add: put_bytes_inside) (simp add: drop_take take_drop add.commute add.left_commute)

lemma put_bytes_nil [simp]: "off \<le> length f \<Longrightarrow> content (put_bytes off [] f) = content f"
  by (simp add: put_bytes_inside)

lemma resize_nil: "content (resize n []) = replicate n (CHR 0x00)"
  by (simp add: resize_def)

lemma ftruncate_spec: "io_spec ks 1 E (\<lambda>_ dst'. dst' = resize n dst) (ftruncate n (ks, dst))"
  by (cases "(n, ks, dst)" rule: ftruncate.cases) (auto simp: io_spec_def blames_def)

lemma pwrite_all_spec:
  assumes "off + length bs \<le> length dst"
  shows "io_spec ks (length bs) E (\<lambda>_ dst'. content dst' = content (put_bytes off bs dst) \<and> length dst' = length dst)
    (pwrite_all bs off ks dst)"
  using assms
proof (induction ks arbitrary: bs off dst)
  case Nil
  then show ?case by (auto simp: io_spec_def)
next
  case (Cons k ks)
  show ?case
  proof (cases "bs = []")
    case True
    with Cons.prems show ?thesis by (simp add: io_spec_def)
  next
    case False
    show ?thesis
    proof (cases k)
      case (Errno e)
      show ?thesis
      proof (cases "e = EINTR")
        case True
        with Cons.IH[OF Cons.prems] Errno False show ?thesis by (simp add: io_spec_step)
      next
        case F: False
        with Errno False show ?thesis by (simp add: io_spec_def blames_def)
      qed
    next
      case (Moved n)
      let ?m = "moved n (length bs)" and ?dst = "put_bytes off (take (moved n (length bs)) bs) dst"
      have m: "0 < ?m" "?m \<le> length bs" using False by (auto simp: moved_def)
      have len: "length ?dst = length dst" using Cons.prems m by (simp add: put_bytes_inside)
      have "io_spec ks (length (drop ?m bs)) E
          (\<lambda>_ dst'. content dst' = content (put_bytes (off + ?m) (drop ?m bs) ?dst) \<and> length dst' = length ?dst)
          (pwrite_all (drop ?m bs) (off + ?m) ks ?dst)"
        using Cons.prems m len by (intro Cons.IH) simp
      moreover have "content (put_bytes (off + ?m) (drop ?m bs) ?dst) = content (put_bytes off bs dst)"
        using put_bytes_split[of off "take ?m bs" "drop ?m bs" dst] Cons.prems m by simp
      ultimately have "io_spec ks (length bs - ?m) E (\<lambda>_ dst'. content dst' = content (put_bytes off bs dst) \<and> length dst' = length dst)
          (pwrite_all (drop ?m bs) (off + ?m) ks ?dst)"
        using len by simp
      from io_spec_weaken[OF io_spec_step(1)[OF this]] show ?thesis
        using m Moved False by (auto simp: Let_def)
    qed
  qed
qed

lemma pwrite_all_at:
  assumes "content dst = A @ X @ B" "length A = off" "length X = length bs"
  shows "io_spec ks (length bs) E (\<lambda>_ dst'. content dst' = A @ bs @ B) (pwrite_all bs off ks dst)"
proof -
  have len: "off + length bs \<le> length dst" using assms(2,3) arg_cong[OF assms(1), of length] by simp
  have "content (put_bytes off bs dst) = A @ bs @ B" using assms by (simp add: put_bytes_inside(1)[OF len])
  with io_spec_weaken[OF pwrite_all_spec[OF len]] show ?thesis by simp
qed

lemma pread_spec:
  assumes "0 < want" "off + want \<le> length src"
  shows "io_spec ks 1 E (\<lambda>bs dst'. dst' = dst \<and> bs \<noteq> [] \<and> (\<exists>m \<le> want. bs = take m (drop off (content src))))
    (pread src want off (ks, dst))"
proof (cases ks)
  case Nil
  then show ?thesis by (simp add: io_spec_def)
next
  case (Cons k ks')
  show ?thesis
  proof (cases k)
    case (Moved n)
    have "take (max 1 n) (take want (drop off (content src))) = take (min (max 1 n) want) (drop off (content src))" by simp
    moreover have "\<dots> \<noteq> []" using assms by simp
    ultimately show ?thesis using Cons Moved by (auto simp: io_spec_def intro!: exI[of _ "min (max 1 n) want"])
  qed (use Cons in \<open>simp add: io_spec_def blames_def\<close>)
qed

lemma take_drop_rest: "take m xs @ drop (length (take m xs)) xs = xs"
  by (cases "m \<le> length xs") simp_all

lemma pread_full_spec:
  assumes "length got \<le> want" "off + want \<le> length src"
  shows "io_spec ks (want - length got) E
    (\<lambda>bs dst'. bs = got @ take (want - length got) (drop (off + length got) (content src)) \<and> dst' = dst)
    (pread_full src want off got ks dst)"
  using assms
proof (induction ks arbitrary: got)
  case Nil
  then show ?case by (auto simp: io_spec_def)
next
  case (Cons k ks)
  show ?case
  proof (cases "length got < want")
    case False
    with Cons.prems show ?thesis by (simp add: io_spec_def)
  next
    case True
    show ?thesis
    proof (cases k)
      case (Errno e)
      show ?thesis
      proof (cases "e = EINTR")
        case True
        with Cons.IH[OF Cons.prems] Errno \<open>length got < want\<close> show ?thesis by (simp add: io_spec_step)
      next
        case False
        with Errno True show ?thesis by (cases e) (simp_all add: io_spec_def blames_def)
      qed
    next
      case (Moved n)
      let ?rest = "take (want - length got) (drop (off + length got) (content src))"
      let ?bs = "take (max 1 n) ?rest"
      have len: "length ?rest = want - length got" using Cons.prems by simp
      then have ne: "?bs \<noteq> []" using True by (metis length_greater_0_conv length_take max.strict_coboundedI1 min_less_iff_conj zero_less_diff zero_less_one)
      have fits: "length (got @ ?bs) \<le> want" using True len by simp
      have rec: "io_spec ks (want - length (got @ ?bs)) E (\<lambda>bs dst'. bs = got @ ?rest \<and> dst' = dst) (pread_full src want off (got @ ?bs) ks dst)"
      proof -
        have "take (want - length (got @ bs)) (drop (off + length (got @ bs)) (content src)) = drop (length bs) ?rest" for bs
          by (simp add: drop_take ac_simps)
        then have "(got @ ?bs) @ take (want - length (got @ ?bs)) (drop (off + length (got @ ?bs)) (content src)) = got @ ?rest"
          by (simp only: append_assoc take_drop_rest)
        with Cons.IH[OF fits Cons.prems(2)] show ?thesis by simp
      qed
      have "Suc (want - length (got @ bs)) \<le> want - length got" if "bs \<noteq> []" for bs :: string
        using True that by (cases bs) simp_all
      then have less: "io_spec (Moved n # ks) (want - length got) E (\<lambda>bs dst'. bs = got @ ?rest \<and> dst' = dst) (pread_full src want off (got @ ?bs) ks dst)"
        by (rule io_spec_weaken[OF io_spec_step(1)[OF rec, of n]]) (rule ne)
      have "pread_full src want off got (k # ks) dst = pread_full src want off (got @ ?bs) ks dst"
        using Moved True ne by (simp del: take_take)
      with less Moved show ?thesis by simp
    qed
  qed
qed

lemma is_zero_replicate: "is_zero bs \<Longrightarrow> bs = replicate (length bs) (CHR 0x00)"
  by (auto simp: is_zero_def list_all_iff intro: replicate_eqI)

lemma byte_range_split: "i \<le> j \<Longrightarrow> drop i bs = byte_range bs i j @ drop j bs"
  by (simp add: byte_range_def) (metis append_take_drop_id drop_drop le_add_diff_inverse2)

lemma byte_range_append: "i \<le> j \<Longrightarrow> j \<le> k \<Longrightarrow> byte_range bs i k = byte_range bs i j @ byte_range bs j k"
  using take_add[of "j - i" "k - j" "drop i bs"] by (simp add: byte_range_def)

lemma length_byte_range: "j \<le> length bs \<Longrightarrow> length (byte_range bs i j) = j - i"
  by (simp add: byte_range_def)

lemma write_nonzero_grains_spec:
  assumes "grain \<noteq> 0" "content dst = A @ replicate (length chunk - i) (CHR 0x00) @ B" "length A = base + i" "i \<le> length chunk"
  shows "io_spec ks (length chunk - i) E (\<lambda>n dst'. content dst' = A @ drop i chunk @ B \<and> n \<le> written + (length chunk - i))
    (write_nonzero_grains chunk base grain i written (ks, dst))"
  using assms
proof (induction chunk base grain i written "(ks, dst)" arbitrary: A ks dst rule: write_nonzero_grains.induct)
  case (1 chunk base grain i written ks dst)
  show ?case
  proof (cases "i < length chunk")
    case False
    with 1 show ?thesis by (simp add: io_spec_def write_nonzero_grains.simps)
  next
    case True
    define e where "e = min (i + grain) (length chunk)"
    let ?Q = "\<lambda>n dst'. content dst' = A @ drop i chunk @ B \<and> n \<le> written + (length chunk - i)"
    have e: "i < e" "e \<le> length chunk" using True 1(3) by (auto simp: e_def)
    have zeros: "replicate (length chunk - i) z = replicate (j - i) z @ replicate (length chunk - j) z" if "i \<le> j" "j \<le> length chunk" for j and z :: char
      using that by (simp flip: replicate_add)
    note unroll = write_nonzero_grains.simps[of chunk base grain i written ks dst, folded e_def, unfolded Let_def]
    show ?thesis
    proof (cases "is_zero (byte_range chunk i e)")
      case z: True
      have blank: "byte_range chunk i e = replicate (e - i) (CHR 0x00)"
        using is_zero_replicate[OF z] length_byte_range[OF e(2), of i] by simp
      have "content dst = (A @ replicate (e - i) (CHR 0x00)) @ replicate (length chunk - e) (CHR 0x00) @ B"
        using 1(4) zeros[of e] e by simp
      from 1(1)[OF True 1(3) e_def z 1(3) this _ e(2)] 1(5) e(1)
      have "io_spec ks (length chunk - e) E
          (\<lambda>n dst'. content dst' = (A @ replicate (e - i) (CHR 0x00)) @ drop e chunk @ B \<and> n \<le> written + (length chunk - e))
          (write_nonzero_grains chunk base grain e written (ks, dst))" by simp
      then have "io_spec ks (length chunk - i) E ?Q (write_nonzero_grains chunk base grain e written (ks, dst))"
        by (rule io_spec_weaken) (use e byte_range_split[of i e chunk] blank in auto)
      with True z 1(3) show ?thesis by (simp add: unroll)
    next
      case nz: False
      define j where "j = run_end chunk grain e"
      let ?bs = "byte_range chunk i j"
      have j: "e \<le> j" "j \<le> length chunk" using run_end_bounds[OF e(2), of grain] by (auto simp: j_def)
      have "content dst = A @ replicate (j - i) (CHR 0x00) @ replicate (length chunk - j) (CHR 0x00) @ B"
        using 1(4) zeros[of j] e j by simp
      from pwrite_all_at[OF this 1(5), of ?bs]
      have w: "io_spec ks (length ?bs) E (\<lambda>_ dst'. content dst' = A @ ?bs @ replicate (length chunk - j) (CHR 0x00) @ B)
          (pwrite_all ?bs (base + i) ks dst)"
        using j by (simp add: length_byte_range)
      have "io_spec ks (length ?bs + (length chunk - j)) E ?Q
          (io_then (pwrite_all ?bs (base + i) ks dst) (\<lambda>_ s. write_nonzero_grains chunk base grain j (written + (j - i)) s))"
      proof (rule io_spec_then[OF w])
        fix a ks' dst'
        assume p: "pwrite_all ?bs (base + i) ks dst = Some (Inr a, ks', dst')" and d: "content dst' = A @ ?bs @ replicate (length chunk - j) (CHR 0x00) @ B"
        have "io_spec ks' (length chunk - j) E
            (\<lambda>n dst'. content dst' = (A @ ?bs) @ drop j chunk @ B \<and> n \<le> written + (j - i) + (length chunk - j))
            (write_nonzero_grains chunk base grain j (written + (j - i)) (ks', dst'))"
          by (rule 1(2)[OF True 1(3) e_def nz j_def p 1(3)]) (use d 1(5) e j in \<open>simp_all add: length_byte_range\<close>)
        then show "io_spec ks' (length chunk - j) E ?Q (write_nonzero_grains chunk base grain j (written + (j - i)) (ks', dst'))"
          by (rule io_spec_weaken) (use e j byte_range_split[of i j chunk] in auto)
      qed
      then show ?thesis using True nz 1(3) e j by (simp add: unroll j_def[symmetric] length_byte_range)
    qed
  qed
qed

section \<open>Segments\<close>

text \<open>Segments in order, with nothing but zeros between them and after the last.\<close>

fun covers :: "string \<Rightarrow> nat \<Rightarrow> (nat \<times> nat) list \<Rightarrow> bool" where
  "covers S from [] \<longleftrightarrow> from \<le> length S \<and> drop from S = replicate (length S - from) (CHR 0x00)"
| "covers S from ((off, n) # segs) \<longleftrightarrow>
     from \<le> off \<and> off + n \<le> length S \<and> byte_range S from off = replicate (off - from) (CHR 0x00) \<and> covers S (off + n) segs"

lemma hole_zeros:
  assumes "a \<le> b" "b \<le> length f" "\<forall>j. a \<le> j \<and> j < b \<longrightarrow> f ! j = None"
  shows "byte_range (content f) a b = replicate (b - a) (CHR 0x00)"
  using assms by (intro nth_equalityI) (auto simp: byte_range_def content_def)

lemma byte_range_end: "byte_range S i (length S) = drop i S"
  by (simp add: byte_range_def)

lemma seek_data_None: "seek_data f off = None \<Longrightarrow> \<forall>j. off \<le> j \<and> j < length f \<longrightarrow> f ! j = None"
  by (auto simp: seek_data_def find_None_iff)

lemma data_segments_spec:
  assumes "off \<le> length src"
  shows "io_spec ks (2 * (length src - off)) E (\<lambda>segs dst'. dst' = dst \<and> (\<exists>more. segs = out @ more \<and> covers (content src) off more))
    (data_segments src (length src) off out (ks, dst))"
  using assms
proof (induction src "length src" off out "(ks, dst)" arbitrary: ks rule: data_segments.induct)
  case (1 src off out ks)
  let ?Q = "\<lambda>segs dst'. dst' = dst \<and> (\<exists>more. segs = out @ more \<and> covers (content src) off more)"
  show ?case
  proof (cases "off < length src")
    case False
    with 1 show ?thesis by (simp add: io_spec_def data_segments.simps)
  next
    case True
    show ?thesis
    proof (cases ks)
      case Nil
      with True show ?thesis by (simp add: io_spec_def data_segments.simps)
    next
      case (Cons k ks1)
      show ?thesis
      proof (cases k)
        case (Errno e)
        have "covers (content src) off [(off, length src - off)]" using True by (simp add: byte_range_def)
        with Errno Cons True show ?thesis by (auto simp: io_spec_def blames_def data_segments.simps)
      next
        case (Moved n)
        show ?thesis
        proof (cases "seek_data src off")
          case None
          then have "covers (content src) off []"
            using hole_zeros[of off "length src" src] seek_data_None[OF None] True byte_range_end[of "content src" off] by simp
          with None Moved Cons True show ?thesis by (auto simp: io_spec_def data_segments.simps)
        next
          case (Some d)
          note d = seek_data_Some[OF Some]
          define fin where "fin = min (seek_hole src d) (length src)"
          have fin: "d < fin" "fin \<le> length src" using d seek_hole_after[of src d] by (auto simp: fin_def)
          have gap: "byte_range (content src) off d = replicate (d - off) (CHR 0x00)" using d by (intro hole_zeros) auto
          show ?thesis
          proof (cases ks1)
            case Nil
            moreover have "Suc 0 < 2 * (length src - off)" using True by simp
            ultimately show ?thesis using Some Moved Cons True d by (simp add: io_spec_def data_segments.simps)
          next
            case c2: (Cons k2 ks2)
            show ?thesis
            proof (cases k2)
              case (Errno e)
              with Some Moved Cons c2 True d show ?thesis by (simp add: io_spec_def blames_def data_segments.simps)
            next
              case m2: (Moved n2)
              have rec: "io_spec ks2 (2 * (length src - fin)) E
                  (\<lambda>segs dst'. dst' = dst \<and> (\<exists>more. segs = (out @ [(d, fin - d)]) @ more \<and> covers (content src) fin more))
                  (data_segments src (length src) fin (out @ [(d, fin - d)]) (ks2, dst))"
                using 1(1)[OF True Cons Moved Some _ c2 m2 fin_def] d fin by auto
              have "io_spec ks2 (2 * (length src - fin)) E ?Q (data_segments src (length src) fin (out @ [(d, fin - d)]) (ks2, dst))"
              proof (rule io_spec_weaken[OF rec order_refl])
                fix segs dst'
                assume "dst' = dst \<and> (\<exists>more. segs = (out @ [(d, fin - d)]) @ more \<and> covers (content src) fin more)"
                then obtain more where "dst' = dst" "segs = out @ (d, fin - d) # more" "covers (content src) fin more" by auto
                moreover have "covers (content src) off ((d, fin - d) # more)" if "covers (content src) fin more"
                  using that d fin gap by simp
                ultimately show "?Q segs dst'" by blast
              qed
              moreover have "Suc (Suc (2 * (length src - fin))) \<le> 2 * (length src - off)" using d fin by arith
              ultimately have "io_spec ks (2 * (length src - off)) E ?Q (data_segments src (length src) fin (out @ [(d, fin - d)]) (ks2, dst))"
                unfolding Cons Moved c2 m2 by (intro io_spec_weaken[OF io_spec_step(1)[OF io_spec_step(1)]])
              then show ?thesis
                using Some Moved Cons c2 m2 True d fin by (simp add: data_segments.simps[of src "length src" off] fin_def[symmetric])
            qed
          qed
        qed
      qed
    qed
  qed
qed

lemma segments_spec:
  "io_spec ks (2 * length src) E (\<lambda>segs dst'. dst' = dst \<and> covers (content src) 0 segs) (segments src (length src) sh (ks, dst))"
proof (cases "sh = Dense")
  case True
  then show ?thesis by (auto simp: segments_def io_spec_def byte_range_def)
next
  case False
  with io_spec_weaken[OF data_segments_spec[of 0 src ks E dst "[]"]] show ?thesis by (auto simp: segments_def)
qed

section \<open>Copies are exact\<close>

lemma feed_zeros_replicate: "feed_zeros seen n = seen @ replicate n (CHR 0x00)"
proof (induction seen n rule: feed_zeros.induct)
  case (1 seen n)
  show ?case
  proof (cases "0 < n")
    case True
    then show ?thesis using 1[OF True refl] by (subst feed_zeros.simps) (simp add: Let_def flip: replicate_add)
  qed (simp add: feed_zeros.simps)
qed

text \<open>The destination is the source up to the cursor, and blank from there.\<close>

definition copied_to :: "string \<Rightarrow> nat \<Rightarrow> file_bytes \<Rightarrow> bool" where
  "copied_to S c dst \<longleftrightarrow> content dst = take c S @ replicate (length S - c) (CHR 0x00)"

lemma copied_to_zeros:
  assumes "copied_to S c dst" "c \<le> d" "d \<le> length S" "byte_range S c d = replicate (d - c) (CHR 0x00)"
  shows "copied_to S d dst" "take d S = take c S @ replicate (d - c) (CHR 0x00)"
proof -
  have "take d S = take c S @ byte_range S c d" using assms(2) by (simp add: byte_range_def) (metis le_add_diff_inverse take_add)
  then show t: "take d S = take c S @ replicate (d - c) (CHR 0x00)" using assms(4) by simp
  have "replicate (length S - c) (CHR 0x00) = replicate (d - c) (CHR 0x00) @ replicate (length S - d) (CHR 0x00)"
    using assms(2,3) by (simp flip: replicate_add)
  then show "copied_to S d dst" using assms(1) t by (simp add: copied_to_def)
qed

lemma write_chunk_spec:
  assumes "copied_to S c dst" "c + n \<le> length S" "chunk = take n (drop c S)" "grain \<noteq> Some 0"
  shows "io_spec ks n E (\<lambda>w dst'. copied_to S (c + n) dst' \<and> w \<le> n)
    (case grain of Some gr \<Rightarrow> write_nonzero_grains chunk c gr 0 0 (ks, dst)
     | None \<Rightarrow> io_then (pwrite_all chunk c ks dst) (\<lambda>_ s'. Some (Inr (length chunk), s')))"
proof -
  let ?B = "replicate (length S - (c + n)) (CHR 0x00)"
  have n: "length chunk = n" using assms(2,3) by simp
  have "replicate (length S - c) (CHR 0x00) = replicate n (CHR 0x00) @ ?B" using assms(2) by (simp flip: replicate_add)
  then have dst: "content dst = take c S @ replicate n (CHR 0x00) @ ?B" using assms(1) by (simp add: copied_to_def)
  have len: "length (take c S) = c" using assms(2) by simp
  have fin: "copied_to S (c + n) dst' \<longleftrightarrow> content dst' = take c S @ chunk @ ?B" for dst'
    using assms(3) by (simp add: copied_to_def take_add)
  show ?thesis
  proof (cases grain)
    case None
    have "io_spec ks (length chunk) E (\<lambda>_ dst'. copied_to S (c + n) dst') (pwrite_all chunk c ks dst)"
      unfolding fin by (rule pwrite_all_at[OF dst len]) (simp add: n)
    from io_spec_then[OF this, of 0 "\<lambda>w dst'. copied_to S (c + n) dst' \<and> w \<le> n" "\<lambda>_ s'. Some (Inr (length chunk), s')"]
    show ?thesis using None n by (simp add: io_spec_def)
  next
    case (Some gr)
    from write_nonzero_grains_spec[of gr dst "take c S" chunk 0 ?B c ks E 0] dst len assms(4) n Some
    show ?thesis unfolding fin by simp
  qed
qed

lemma copy_segment_spec:
  assumes "copied_to (content src) cursor dst" "cursor \<le> fin" "fin \<le> length src" "grain \<noteq> Some 0"
  shows "io_spec ks (2 * (fin - cursor)) (\<lambda>e. \<exists>n g. check n g = Inl e)
    (\<lambda>(seen', written', _) dst'. copied_to (content src) fin dst' \<and> seen' = seen @ byte_range (content src) cursor fin \<and>
       written' \<le> written + (fin - cursor))
    (copy_segment src grain check fin cursor (seen, written, g) (ks, dst))"
  using assms
proof (induction src grain check fin cursor "(seen, written, g)" "(ks, dst)" arbitrary: seen written g ks dst rule: copy_segment.induct)
  case (1 src grain check fin cursor seen written g ks dst)
  let ?E = "\<lambda>e. \<exists>n g. check n g = Inl e" and ?S = "content src"
  let ?Q = "\<lambda>(seen', written', _) dst'. copied_to ?S fin dst' \<and> seen' = seen @ byte_range ?S cursor fin \<and> written' \<le> written + (fin - cursor)"
  show ?case
  proof (cases "cursor < fin")
    case False
    with 1 show ?thesis by (simp add: io_spec_def copy_segment.simps byte_range_def)
  next
    case True
    define want where "want = min (fin - cursor) BUF_LEN"
    have want: "0 < want" "cursor + want \<le> fin" using True by (auto simp: want_def BUF_LEN_def)
    have read: "io_spec ks want ?E (\<lambda>bs dst'. bs = take want (drop cursor ?S) \<and> dst' = dst) (pread_full src want cursor [] ks dst)"
      using pread_full_spec[of "[]" want cursor src ks ?E dst] want 1(4) by simp
    let ?m = "want + 2 * (fin - (cursor + want))"
    have "io_spec ks (want + ?m) ?E ?Q (copy_segment src grain check fin cursor (seen, written, g) (ks, dst))"
      unfolding copy_segment.simps[of src grain check fin cursor seen written g ks dst, folded want_def] if_P[OF True]
    proof (rule io_spec_then[OF read])
      fix chunk ks1 d1
      assume p: "pread_full src want cursor [] ks dst = Some (Inr chunk, ks1, d1)" and "chunk = take want (drop cursor ?S) \<and> d1 = dst"
      then have c: "chunk = take want (drop cursor ?S)" and d1: "d1 = dst" by auto
      have len: "length chunk = want" using c want 1(4) by simp
      then have ne: "chunk \<noteq> []" using want by auto
      have w: "io_spec ks1 want ?E (\<lambda>w dst'. copied_to ?S (cursor + want) dst' \<and> w \<le> want)
          (case grain of Some gr \<Rightarrow> write_nonzero_grains chunk cursor gr 0 0 (ks1, d1)
           | None \<Rightarrow> io_then (pwrite_all chunk cursor (fst (ks1, d1)) (snd (ks1, d1))) (\<lambda>_ s'. Some (Inr (length chunk), s')))"
        unfolding d1 fst_conv snd_conv by (rule write_chunk_spec[OF 1(2) _ c 1(5)]) (use want 1(4) in simp)
      show "io_spec ks1 ?m ?E ?Q
          (if chunk = [] then Some (Inl UnexpectedEof, ks1, d1)
           else io_then (case grain of Some gr \<Rightarrow> write_nonzero_grains chunk cursor gr 0 0 (ks1, d1)
               | None \<Rightarrow> io_then (pwrite_all chunk cursor (fst (ks1, d1)) (snd (ks1, d1))) (\<lambda>_ s'. Some (Inr (length chunk), s')))
             (\<lambda>n s'. case check (written + n) g of
                 Inl e \<Rightarrow> Some (Inl e, s')
               | Inr g' \<Rightarrow> copy_segment src grain check fin (cursor + length chunk) (seen @ chunk, written + n, g') s'))"
        unfolding if_not_P[OF ne]
      proof (rule io_spec_then[OF w])
        fix n ks2 d2
        assume r: "(case grain of Some gr \<Rightarrow> write_nonzero_grains chunk cursor gr 0 0 (ks1, d1)
           | None \<Rightarrow> io_then (pwrite_all chunk cursor (fst (ks1, d1)) (snd (ks1, d1))) (\<lambda>_ s'. Some (Inr (length chunk), s'))) = Some (Inr n, ks2, d2)"
          and q: "copied_to ?S (cursor + want) d2 \<and> n \<le> want"
        show "io_spec ks2 (2 * (fin - (cursor + want))) ?E ?Q
            (case check (written + n) g of
                 Inl e \<Rightarrow> Some (Inl e, ks2, d2)
               | Inr g' \<Rightarrow> copy_segment src grain check fin (cursor + length chunk) (seen @ chunk, written + n, g') (ks2, d2))"
        proof (cases "check (written + n) g")
          case (Inl e)
          then show ?thesis by (auto simp: io_spec_def)
        next
          case (Inr g')
          have range: "byte_range ?S cursor fin = chunk @ byte_range ?S (cursor + want) fin"
            using byte_range_append[of cursor "cursor + want" fin ?S] c want by (simp add: byte_range_def)
          have "io_spec ks2 (2 * (fin - (cursor + length chunk))) ?E
             (\<lambda>(seen', written', _) dst'. copied_to ?S fin dst' \<and> seen' = (seen @ chunk) @ byte_range ?S (cursor + length chunk) fin \<and>
               written' \<le> (written + n) + (fin - (cursor + length chunk)))
             (copy_segment src grain check fin (cursor + length chunk) (seen @ chunk, written + n, g') (ks2, d2))"
            by (rule 1(1)[OF True p[unfolded want_def] ne r Inr]) (use q want len 1(4,5) in auto)
          then show ?thesis
            unfolding Inr sum.case len by (rule io_spec_weaken) (use q want range in auto)
        qed
      qed
    qed
    then show ?thesis by (rule io_spec_weaken) (use want in auto)
  qed
qed

lemma copy_segments_spec:
  fixes g :: 'g
  assumes "copied_to (content src) cursor dst" "covers (content src) cursor segs" "seen = take cursor (content src)" "grain \<noteq> Some 0"
  shows "io_spec ks (2 * (length src - cursor)) (\<lambda>e. \<exists>n g. check n g = Inl e)
    (\<lambda>(c, seen', written', _) dst'. copied_to (content src) c dst' \<and> covers (content src) c [] \<and> seen' = take c (content src) \<and>
       written' \<le> written + (c - cursor) \<and> cursor \<le> c)
    (copy_segments src grain check segs cursor (seen, written, g) (ks, dst))"
  using assms
proof (induction segs arbitrary: cursor seen written g ks dst)
  case Nil
  then show ?case by (simp add: io_spec_def)
next
  case (Cons seg segs)
  obtain off n where seg: "seg = (off, n)" by force
  let ?E = "\<lambda>e. \<exists>n g. check n g = Inl e" and ?S = "content src"
  let ?Q = "\<lambda>(c, seen', written', _) dst'. copied_to ?S c dst' \<and> covers ?S c [] \<and> seen' = take c ?S \<and> written' \<le> written + (c - cursor) \<and> cursor \<le> c"
  from Cons.prems(2) have cov: "cursor \<le> off" "off + n \<le> length src" "byte_range ?S cursor off = replicate (off - cursor) (CHR 0x00)"
    "covers ?S (off + n) segs" by (auto simp: seg)
  note z = copied_to_zeros[OF Cons.prems(1) cov(1) _ cov(3)]
  have seen: "feed_zeros seen (off - cursor) = take off ?S" using z(2) cov(2) Cons.prems(3) by (simp add: feed_zeros_replicate)
  let ?R = "\<lambda>(seen', written', _) dst'. copied_to ?S (off + n) dst' \<and> seen' = take off ?S @ byte_range ?S off (off + n) \<and> written' \<le> written + (off + n - off)"
  have one: "io_spec ks (2 * (off + n - off)) ?E ?R (copy_segment src grain check (off + n) off (take off ?S, written, g) (ks, dst))"
    by (rule copy_segment_spec) (use z(1) cov Cons.prems(4) in simp_all)
  have "io_spec ks (2 * (off + n - off) + 2 * (length src - (off + n))) ?E ?Q
      (io_then (copy_segment src grain check (off + n) off (take off ?S, written, g) (ks, dst)) (copy_segments src grain check segs (off + n)))"
  proof (rule io_spec_then[OF one])
    fix x :: "string \<times> nat \<times> 'g" and ks' dst'
    assume "?R x dst'"
    then obtain seen' written' g' where x: "x = (seen', written', g')" "copied_to ?S (off + n) dst'"
      "seen' = take (off + n) ?S" "written' \<le> written + n"
      by (cases x) (auto simp: byte_range_def take_add)
    from Cons.IH[OF x(2) cov(4) x(3) Cons.prems(4), of ks' written' g']
    show "io_spec ks' (2 * (length src - (off + n))) ?E ?Q (copy_segments src grain check segs (off + n) x (ks', dst'))"
      unfolding x(1) by (rule io_spec_weaken) (use x(4) cov in auto)
  qed
  then show ?case unfolding seg copy_segments.simps seen by (rule io_spec_weaken) (use cov in auto)
qed

lemma copied_to_end: "covers S c [] \<Longrightarrow> copied_to S c dst \<Longrightarrow> content dst = S"
  by (simp add: copied_to_def) (metis append_take_drop_id)

lemma copy_observing_guarded_spec:
  assumes "shape_grain sh \<noteq> Some 0"
  shows "io_spec ks (1 + 4 * length src) (\<lambda>e. \<exists>n g. check n g = Inl e)
    (\<lambda>(seen, written) dst'. content dst' = content src \<and> seen = content src \<and> written \<le> length src)
    (copy_observing_guarded src (length src) sh check g (ks, []))"
proof -
  let ?E = "\<lambda>e. \<exists>n g. check n g = Inl e" and ?S = "content src" and ?L = "length src"
  let ?Q = "\<lambda>(seen, written) dst'. content dst' = ?S \<and> seen = ?S \<and> written \<le> ?L"
  let ?K = "\<lambda>(cursor, seen, written, _) s3. Some (Inr (feed_zeros seen (?L - cursor), written), s3)"
  have last: "io_spec ks3 0 ?E ?Q (?K x (ks3, dst3))"
    if "case x of (c, seen', written', _) \<Rightarrow> copied_to ?S c dst3 \<and> covers ?S c [] \<and> seen' = take c ?S \<and> written' \<le> 0 + (c - 0) \<and> 0 \<le> c" for x ks3 dst3
    using that copied_to_end[of ?S "fst x" dst3]
    by (cases x) (auto simp: io_spec_def feed_zeros_replicate, metis append_take_drop_id)
  have copying: "io_spec ks2 (2 * (?L - 0) + 0) ?E ?Q (io_then (copy_segments src (shape_grain sh) check segs 0 ([], 0, g) (ks2, dst2)) ?K)"
    if "content dst2 = replicate ?L (CHR 0x00)" "covers ?S 0 segs" for ks2 dst2 segs
    by (rule io_spec_then[OF copy_segments_spec last]) (use that assms in \<open>auto simp: copied_to_def\<close>)
  have segs: "io_spec ks1 (2 * ?L + (2 * (?L - 0) + 0)) ?E ?Q
      (io_then (segments src ?L sh (ks1, dst1)) (\<lambda>segs s2. io_then (copy_segments src (shape_grain sh) check segs 0 ([], 0, g) s2) ?K))"
    if "dst1 = resize ?L []" for ks1 dst1
    by (rule io_spec_then[OF segments_spec]) (use that copying resize_nil in auto)
  have "io_spec ks (1 + (2 * ?L + (2 * (?L - 0) + 0))) ?E ?Q (copy_observing_guarded src ?L sh check g (ks, []))"
    unfolding copy_observing_guarded_def by (rule io_spec_then[OF ftruncate_spec segs])
  then show ?thesis by (rule io_spec_weaken) auto
qed

lemma copied_to_length: "copied_to S c dst \<Longrightarrow> c \<le> length S \<Longrightarrow> length dst = length S"
  unfolding copied_to_def by (drule arg_cong[of _ _ length]) simp

lemma copied_to_put:
  assumes "copied_to S c dst" "c + m \<le> length S"
  shows "copied_to S (c + m) (put_bytes c (take m (drop c S)) dst)"
proof -
  have len: "length dst = length S" using copied_to_length[OF assms(1)] assms(2) by simp
  then have fits: "c + length (take m (drop c S)) \<le> length dst" using assms(2) by simp
  from assms show ?thesis
    by (simp add: copied_to_def put_bytes_inside(1)[OF fits] take_add)
qed

lemma pwrite_chunk:
  assumes "copied_to S c dst" "c + n \<le> length S"
  shows "io_spec ks n E (\<lambda>_ dst'. copied_to S (c + n) dst') (pwrite_all (take n (drop c S)) c ks dst)"
proof -
  have "length dst = length S" using copied_to_length[OF assms(1)] assms(2) by simp
  then have fits: "c + length (take n (drop c S)) \<le> length dst" using assms(2) by simp
  show ?thesis
    by (rule io_spec_weaken[OF pwrite_all_spec[OF fits]]) (use copied_to_put[OF assms] in \<open>auto simp: copied_to_def\<close>)
qed

lemma copy_range_rw_spec:
  assumes "copied_to (content src) (off + finished) dst" "off + n \<le> length src" "finished \<le> n"
  shows "io_spec ks (2 * (n - finished)) E (\<lambda>m dst'. m = n \<and> copied_to (content src) (off + n) dst') (copy_range_rw src off n finished (ks, dst))"
  using assms
proof (induction src off n finished "(ks, dst)" arbitrary: ks dst rule: copy_range_rw.induct)
  case (1 src off n finished ks dst)
  let ?S = "content src" and ?Q = "\<lambda>m dst'. m = n \<and> copied_to (content src) (off + n) dst'"
  show ?case
  proof (cases "finished < n")
    case False
    with 1 show ?thesis by (simp add: io_spec_def copy_range_rw.simps)
  next
    case True
    define want where "want = min (n - finished) BUF_LEN"
    have want: "0 < want" "finished + want \<le> n" using True by (auto simp: want_def BUF_LEN_def)
    let ?R = "\<lambda>bs dst'. dst' = dst \<and> bs \<noteq> [] \<and> (\<exists>m \<le> want. bs = take m (drop (off + finished) ?S))"
    have read: "io_spec ks 1 E ?R (pread src want (off + finished) (ks, dst))"
      by (rule pread_spec) (use want 1(3) in auto)
    have "io_spec ks (1 + (2 * (n - finished) - 1)) E ?Q (copy_range_rw src off n finished (ks, dst))"
      unfolding copy_range_rw.simps[of src off n finished "(ks, dst)", folded want_def] if_P[OF True]
    proof (rule io_spec_then[OF read])
      fix bs ks1 dst1
      assume p: "pread src want (off + finished) (ks, dst) = Some (Inr bs, ks1, dst1)" and "?R bs dst1"
      then obtain m where bs: "dst1 = dst" "bs \<noteq> []" "m \<le> want" "bs = take m (drop (off + finished) ?S)" by blast
      have m: "length bs = m" "0 < m" using bs want 1(3) by auto
      have w: "io_spec ks1 m E (\<lambda>_ dst'. copied_to ?S (off + finished + m) dst') (pwrite_all bs (off + finished) ks1 dst1)"
        unfolding bs(1,4) by (rule pwrite_chunk[OF 1(2)]) (use bs(3) want 1(3) in simp)
      have "io_spec ks1 (m + 2 * (n - (finished + m))) E ?Q
          (io_then (pwrite_all bs (off + finished) ks1 dst1) (\<lambda>_ s2. copy_range_rw src off n (finished + length bs) s2))"
      proof (rule io_spec_then[OF w])
        fix a ks2 dst2
        assume r: "pwrite_all bs (off + finished) ks1 dst1 = Some (Inr a, ks2, dst2)" and c: "copied_to ?S (off + finished + m) dst2"
        have "io_spec ks2 (2 * (n - (finished + length bs))) E ?Q (copy_range_rw src off n (finished + length bs) (ks2, dst2))"
          by (rule 1(1)[OF True p[unfolded want_def] bs(2), of a ks2 dst2]) (use r c m bs(3) want 1(3) in \<open>simp_all add: add.assoc\<close>)
        then show "io_spec ks2 (2 * (n - (finished + m))) E ?Q (copy_range_rw src off n (finished + length bs) (ks2, dst2))" by (simp add: m(1))
      qed
      then have "io_spec ks1 (2 * (n - finished) - 1) E ?Q
          (io_then (pwrite_all bs (off + finished) ks1 dst1) (\<lambda>_ s2. copy_range_rw src off n (finished + length bs) s2))"
        by (rule io_spec_weaken) (use m bs(3) want in auto)
      then show "io_spec ks1 (2 * (n - finished) - 1) E ?Q
          (if bs = [] then Some (Inl UnexpectedEof, ks1, dst1)
           else io_then (pwrite_all bs (off + finished) (fst (ks1, dst1)) (snd (ks1, dst1))) (\<lambda>_ s2. copy_range_rw src off n (finished + length bs) s2))"
        using bs(2) by simp
    qed
    then show ?thesis using True by simp
  qed
qed

lemma copy_range_spec:
  assumes "copied_to (content src) off dst" "off + remaining \<le> length src"
  shows "io_spec ks (2 * remaining) E (\<lambda>m dst'. m = copied + remaining \<and> copied_to (content src) (off + remaining) dst')
    (copy_range src off remaining copied ks dst)"
  using assms
proof (induction ks arbitrary: off remaining copied dst)
  case Nil
  then show ?case by (auto simp: io_spec_def)
next
  case (Cons k ks)
  let ?S = "content src" and ?Q = "\<lambda>m dst'. m = copied + remaining \<and> copied_to (content src) (off + remaining) dst'"
  show ?case
  proof (cases "0 < remaining")
    case False
    with Cons.prems show ?thesis by (simp add: io_spec_def)
  next
    case True
    show ?thesis
    proof (cases k)
      case (Errno e)
      consider "e = EINTR" | "falls_back e" "e \<noteq> EINTR" | "\<not> falls_back e" "e \<noteq> EINTR" by blast
      then show ?thesis
      proof cases
        case 1
        with Cons.IH[OF Cons.prems, of copied] Errno True show ?thesis by (simp add: io_spec_step)
      next
        case 2
        have "io_spec ks (2 * (remaining - 0) + 0) E ?Q (io_then (copy_range_rw src off remaining 0 (ks, dst)) (\<lambda>n s. Some (Inr (copied + n), s)))"
          by (rule io_spec_then[OF copy_range_rw_spec]) (use Cons.prems in \<open>auto simp: io_spec_def\<close>)
        with 2 Errno True show ?thesis by (simp add: io_spec_step)
      next
        case 3
        with Errno True show ?thesis by (simp add: io_spec_def blames_def)
      qed
    next
      case (Moved n)
      define avail where "avail = min (min remaining MAX_CFR) (length src - off)"
      define m where "m = moved n avail"
      have a: "avail \<noteq> 0" "avail \<le> remaining" using True Cons.prems(2) by (auto simp: avail_def MAX_CFR_def)
      then have m: "0 < m" "m \<le> remaining" by (auto simp: m_def moved_def)
      have "io_spec ks (2 * (remaining - m)) E (\<lambda>w dst'. w = (copied + m) + (remaining - m) \<and> copied_to ?S ((off + m) + (remaining - m)) dst')
          (copy_range src (off + m) (remaining - m) (copied + m) ks (put_bytes off (take m (drop off ?S)) dst))"
        by (rule Cons.IH) (use Cons.prems m copied_to_put[OF Cons.prems(1), of m] in auto)
      then have "io_spec (Moved n # ks) (2 * remaining) E ?Q
          (copy_range src (off + m) (remaining - m) (copied + m) ks (put_bytes off (take m (drop off ?S)) dst))"
        by (intro io_spec_weaken[OF io_spec_step(1)]) (use m in auto)
      then show ?thesis using True Moved a by (simp add: Let_def avail_def[symmetric] m_def[symmetric])
    qed
  qed
qed

lemma copy_ranges_spec:
  assumes "copied_to (content src) cursor dst" "covers (content src) cursor segs"
  shows "io_spec ks (2 * (length src - cursor)) E (\<lambda>w dst'. content dst' = content src \<and> w \<le> written + (length src - cursor))
    (copy_ranges src segs written (ks, dst))"
  using assms
proof (induction segs arbitrary: cursor written ks dst)
  case Nil
  then show ?case using copied_to_end[of "content src" cursor dst] by (auto simp: io_spec_def)
next
  case (Cons seg segs)
  obtain off n where seg: "seg = (off, n)" by force
  let ?S = "content src" and ?Q = "\<lambda>w dst'. content dst' = content src \<and> w \<le> written + (length src - cursor)"
  from Cons.prems(2) have cov: "cursor \<le> off" "off + n \<le> length src" "byte_range ?S cursor off = replicate (off - cursor) (CHR 0x00)"
    "covers ?S (off + n) segs" by (auto simp: seg)
  have start: "copied_to ?S off dst" by (rule copied_to_zeros(1)[OF Cons.prems(1) cov(1) _ cov(3)]) (use cov(2) in simp)
  have "io_spec ks (2 * n + 2 * (length src - (off + n))) E ?Q
      (io_then (copy_range src off n 0 ks dst) (\<lambda>m s'. copy_ranges src segs (written + m) s'))"
  proof (rule io_spec_then[OF copy_range_spec[OF start cov(2)]])
    fix m ks' dst'
    assume "m = 0 + n \<and> copied_to ?S (off + n) dst'"
    then show "io_spec ks' (2 * (length src - (off + n))) E ?Q (copy_ranges src segs (written + m) (ks', dst'))"
      by (intro io_spec_weaken[OF Cons.IH[OF _ cov(4)]]) (use cov in auto)
  qed
  then show ?case unfolding seg copy_ranges.simps fst_conv snd_conv by (rule io_spec_weaken) (use cov in auto)
qed

lemma copy_shaped_spec:
  assumes "shape_grain sh \<noteq> Some 0"
  shows "io_spec ks (1 + 4 * length src) (\<lambda>_. False) (\<lambda>w dst'. content dst' = content src \<and> w \<le> length src)
    (copy_shaped src (length src) sh (ks, []))"
proof (cases "shape_grain sh = None")
  case False
  have spec: "io_spec ks (1 + 4 * length src) (\<lambda>_. False) (\<lambda>(seen, written) dst'. content dst' = content src \<and> seen = content src \<and> written \<le> length src)
      (copy_observing src (length src) sh (ks, []))"
    using copy_observing_guarded_spec[OF assms, of ks src "\<lambda>_ g. Inr g" "()"] by (simp add: copy_observing_def)
  have "io_spec ks (1 + 4 * length src + 0) (\<lambda>_. False) (\<lambda>w dst'. content dst' = content src \<and> w \<le> length src)
      (io_then (copy_observing src (length src) sh (ks, [])) (\<lambda>(_, written) s'. Some (Inr written, s')))"
    by (rule io_spec_then[OF spec]) (auto simp: io_spec_def)
  with False show ?thesis by (simp add: copy_shaped_def)
next
  case True
  have segs: "io_spec ks1 (2 * length src + 2 * (length src - 0)) (\<lambda>_. False) (\<lambda>w dst'. content dst' = content src \<and> w \<le> length src)
      (io_then (segments src (length src) sh (ks1, dst1)) (\<lambda>segs s2. copy_ranges src segs 0 s2))"
    if "dst1 = resize (length src) []" for ks1 dst1
    by (rule io_spec_then[OF segments_spec], rule io_spec_weaken[OF copy_ranges_spec])
      (use that resize_nil in \<open>auto simp: copied_to_def\<close>)
  have "io_spec ks (1 + (2 * length src + 2 * (length src - 0))) (\<lambda>_. False) (\<lambda>w dst'. content dst' = content src \<and> w \<le> length src)
      (io_then (ftruncate (length src) (ks, [])) (\<lambda>_ s1. io_then (segments src (length src) sh s1) (\<lambda>segs s2. copy_ranges src segs 0 s2)))"
    by (rule io_spec_then[OF ftruncate_spec segs])
  then have "io_spec ks (1 + (2 * length src + 2 * (length src - 0))) (\<lambda>_. False) (\<lambda>w dst'. content dst' = content src \<and> w \<le> length src)
      (copy_shaped src (length src) sh (ks, []))"
    using True by (simp add: copy_shaped_def)
  then show ?thesis by (rule io_spec_weaken) auto
qed

section \<open>Properties\<close>

text \<open>
  C22. A copy into a new file is exact whatever its shape, however short the kernel's answers are: when
  it returns, the destination reads as the source, the observer was fed every byte of it, holes
  included, and no more was written than the source is long. It fails only with an error of a system
  call or of the check it was given, and it returns once four calls for each byte and one more have
  moved something. The same holds of the copy that hands the bytes to the kernel. A grain of zero, with
  which the scan for zeros would not end, is excluded.
\<close>

theorem sparse_copies_exact:
  assumes "shape_grain sh \<noteq> Some 0"
  shows "(case copy_observing_guarded src (length src) sh check g (ks, []) of
       None \<Rightarrow> moves ks < 1 + 4 * length src
     | Some (Inl e, _) \<Rightarrow> (\<exists>x. e = Os x \<and> Errno x \<in> set ks) \<or> (\<exists>n g. check n g = Inl e)
     | Some (Inr (seen, written), _, dst) \<Rightarrow> content dst = content src \<and> seen = content src \<and> written \<le> length src) \<and>
    (case copy_shaped src (length src) sh (ks, []) of
       None \<Rightarrow> moves ks < 1 + 4 * length src
     | Some (Inl e, _) \<Rightarrow> (\<exists>x. e = Os x \<and> Errno x \<in> set ks)
     | Some (Inr written, _, dst) \<Rightarrow> content dst = content src \<and> written \<le> length src)"
  using copy_observing_guarded_spec[OF assms, of ks src check g] copy_shaped_spec[OF assms, of ks src]
  by (auto simp: io_spec_def blames_def split: option.splits sum.splits)

theorem sparse_copies_exact_witness:
  "let src = [Some CHR ''a'', None, None, Some CHR ''b''] in
   case copy_shaped src (length src) (ZeroSquash 2) (replicate 17 (Moved 1), []) of
     None \<Rightarrow> False
   | Some (Inl e, _) \<Rightarrow> False
   | Some (Inr written, _, dst) \<Rightarrow> content dst = [CHR ''a'', CHR 0x00, CHR 0x00, CHR ''b'']"
proof -
  have "moves (replicate 17 (Moved 1)) = 17" "Errno x \<notin> set (replicate 17 (Moved 1))" for x by (simp_all add: moves_def)
  with sparse_copies_exact[where sh = "ZeroSquash 2" and src = "[Some CHR ''a'', None, None, Some CHR ''b'']" and
      check = "\<lambda>_ g. Inr g" and g = "()" and ks = "replicate 17 (Moved 1)"]
  show ?thesis by (auto simp: content_def Let_def split: option.splits sum.splits)
qed

end
