(* ===== verification/Artifact_Names.thy ===== *)
theory Artifact_Names
  imports Rust_Str
begin

text \<open>
  The names of the artifact store: digests (\<open>artifacts/src/digest.rs\<close>), tags and references
  (\<open>artifacts/src/tags.rs\<close>), manifests (\<open>artifacts/src/manifest.rs\<close>) and labels
  (\<open>artifacts/src/labels.rs\<close>). Serde's JSON is an argument of the definitions that read or write it.
\<close>

section \<open>Digests\<close>

type_synonym digest = string

definition DIGEST_HEX_LEN :: nat where "DIGEST_HEX_LEN = 64"

datatype digest_error = BadLength nat | BadDigestChar

definition hex_byte :: "char \<Rightarrow> bool" where
  "hex_byte b \<longleftrightarrow> is_ascii_digit b \<or> (97 \<le> byte b \<and> byte b \<le> 102)"

definition digest_parse :: "string \<Rightarrow> digest_error + digest" where
  "digest_parse s =
     (if length s \<noteq> DIGEST_HEX_LEN then Inl (BadLength (length s))
      else if \<not> list_all hex_byte s then Inl BadDigestChar
      else Inr s)"

definition shard :: "digest \<Rightarrow> string" where
  "shard d = take 2 d"

section \<open>Tags and references\<close>

definition TAG_MAX_LEN :: nat where "TAG_MAX_LEN = 64"

datatype tag_error = EmptyTag | TagTooLong | BadTagChar | BadTagStart | ReservedTag

definition RESERVED :: "string list" where
  "RESERVED = [''.'', ''..'', ''con'', ''prn'', ''aux'', ''nul'', ''com1'', ''com2'', ''com3'', ''com4'', ''lpt1'', ''lpt2'', ''lpt3'', ''lpt4'']"

definition tag_byte :: "char \<Rightarrow> bool" where
  "tag_byte b \<longleftrightarrow> is_ascii_alphanumeric b \<or> b = CHR ''_'' \<or> b = CHR ''-'' \<or> b = CHR ''.''"

definition tag_parse :: "string \<Rightarrow> tag_error + string" where
  "tag_parse s =
     (case s of
        [] \<Rightarrow> Inl EmptyTag
      | first # _ \<Rightarrow>
          if length s > TAG_MAX_LEN then Inl TagTooLong
          else if first = CHR ''-'' \<or> first = CHR ''.'' then Inl BadTagStart
          else if \<not> list_all tag_byte s then Inl BadTagChar
          else if list_ex (\<lambda>r. eq_ignore_ascii_case r s) RESERVED then Inl ReservedTag
          else Inr s)"

datatype artifact_ref = RefDigest digest | RefTag string

definition ref_parse :: "string \<Rightarrow> tag_error + artifact_ref" where
  "ref_parse s =
     (case digest_parse s of
        Inr d \<Rightarrow> Inr (RefDigest d)
      | Inl _ \<Rightarrow> (case tag_parse s of Inr t \<Rightarrow> Inr (RefTag t) | Inl e \<Rightarrow> Inl e))"

fun ref_display :: "artifact_ref \<Rightarrow> string" where
  "ref_display (RefDigest d) = d"
| "ref_display (RefTag t) = t"

section \<open>Manifests\<close>

definition SCHEMA_VERSION :: nat where "SCHEMA_VERSION = 1"

record manifest_entry =
  me_name :: string
  me_digest :: digest
  me_size :: nat

record manifest =
  mf_schema :: nat
  mf_kind :: string
  mf_entries :: "manifest_entry list"
  mf_annotations :: "(string \<times> string) list"

datatype manifest_error = ParseManifest | ManifestVersion nat

definition manifest_new :: "string \<Rightarrow> manifest" where
  "manifest_new kind = \<lparr>mf_schema = SCHEMA_VERSION, mf_kind = kind, mf_entries = [], mf_annotations = []\<rparr>"

definition with_entry :: "string \<Rightarrow> digest \<Rightarrow> nat \<Rightarrow> manifest \<Rightarrow> manifest" where
  "with_entry name d n m = m\<lparr>mf_entries := mf_entries m @ [\<lparr>me_name = name, me_digest = d, me_size = n\<rparr>]\<rparr>"

text \<open>\<open>serde_json::from_slice\<close> is the argument: a manifest whose digests are all valid, or nothing.\<close>

definition manifest_from_json :: "(string \<Rightarrow> manifest option) \<Rightarrow> string \<Rightarrow> manifest_error + manifest" where
  "manifest_from_json parse bytes =
     (case parse bytes of
        None \<Rightarrow> Inl ParseManifest
      | Some m \<Rightarrow> if mf_schema m > SCHEMA_VERSION then Inl (ManifestVersion (mf_schema m)) else Inr m)"

section \<open>Labels\<close>

definition MAX_NAME :: nat where "MAX_NAME = 80"

definition MAX_DESCRIPTION :: nat where "MAX_DESCRIPTION = 2000"

datatype label_error = NameTooLong | DescriptionTooLong | NameControl | DescriptionControl | EmptyLabel

record label =
  lb_name :: "string option"
  lb_description :: "string option"

text \<open>The category Cc by its UTF-8 encodings: C0, delete and C1.\<close>

definition is_control :: "string \<Rightarrow> bool" where
  "is_control g \<longleftrightarrow>
     (case map byte g of
        [b] \<Rightarrow> b < 32 \<or> b = 127
      | [b, c] \<Rightarrow> b = 194 \<and> 128 \<le> c \<and> c < 160
      | _ \<Rightarrow> False)"

definition label_validate :: "label \<Rightarrow> label_error + unit" where
  "label_validate l =
     and_then (fail_if (lb_name l = None \<and> lb_description l = None) EmptyLabel) (\<lambda>_.
     and_then (case lb_name l of
         None \<Rightarrow> Inr ()
       | Some n \<Rightarrow>
           and_then (fail_if (length (chars n) > MAX_NAME) NameTooLong) (\<lambda>_.
           fail_if (list_ex is_control (chars n)) NameControl)) (\<lambda>_.
     case lb_description l of
         None \<Rightarrow> Inr ()
       | Some d \<Rightarrow>
           and_then (fail_if (length (chars d) > MAX_DESCRIPTION) DescriptionTooLong) (\<lambda>_.
           fail_if (list_ex (\<lambda>c. is_control c \<and> c \<notin> set [[CHR 0x0A], [CHR 0x0D], [CHR 0x09]]) (chars d)) DescriptionControl)))"

definition trim_field :: "string option \<Rightarrow> string option" where
  "trim_field v = Option.bind v (\<lambda>s. if trim s = [] then None else Some (trim s))"

definition label_new :: "string option \<Rightarrow> string option \<Rightarrow> label_error + label" where
  "label_new name description =
     (let l = \<lparr>lb_name = trim_field name, lb_description = trim_field description\<rparr>
      in and_then (label_validate l) (\<lambda>_. Inr l))"

definition display_name :: "label \<Rightarrow> string option" where
  "display_name l =
     (case lb_name l of
        Some n \<Rightarrow> Some n
      | None \<Rightarrow>
          Option.bind (lb_description l) (\<lambda>d.
            case lines d of
              [] \<Rightarrow> None
            | x # _ \<Rightarrow> if trim x = [] then None else Some (trim x)))"

section \<open>What the names promise\<close>

lemma digest_parse_iff: "digest_parse s = Inr d \<longleftrightarrow> d = s \<and> length s = 64 \<and> list_all hex_byte s"
  by (auto simp: digest_parse_def DIGEST_HEX_LEN_def)

lemma tag_parse_same: "tag_parse s = Inr t \<Longrightarrow> t = s"
  by (auto simp: tag_parse_def split: list.splits if_splits)

lemma hex_byte_plain: "hex_byte b \<Longrightarrow> b \<noteq> CHR ''.'' \<and> b \<noteq> CHR ''/''"
  by (auto simp: hex_byte_def is_ascii_digit_def byte_def)

text \<open>No name that parses leaves its directory, whatever it is a name of.\<close>

lemma names_stay_inside:
  "digest_parse s = Inr x \<Longrightarrow> CHR ''/'' \<notin> set s \<and> hd s \<noteq> CHR ''.''"
  "tag_parse s = Inr x \<Longrightarrow> CHR ''/'' \<notin> set s \<and> hd s \<noteq> CHR ''.''"
proof -
  assume "digest_parse s = Inr x"
  then have "length s = 64" "\<forall>b \<in> set s. hex_byte b" by (auto simp: digest_parse_iff list_all_iff)
  moreover from this have "hd s \<in> set s" by (intro hd_in_set) auto
  ultimately show "CHR ''/'' \<notin> set s \<and> hd s \<noteq> CHR ''.''" using hex_byte_plain by blast
next
  assume "tag_parse s = Inr x"
  moreover have "\<not> tag_byte (CHR ''/'')" by (simp add: tag_byte_def is_ascii_alphanumeric_def is_ascii_digit_def is_ascii_upper_def is_ascii_lower_def byte_def)
  ultimately show "CHR ''/'' \<notin> set s \<and> hd s \<noteq> CHR ''.''"
    by (auto simp: tag_parse_def list_all_iff split: list.splits if_splits)
qed

lemma ref_parse_display: "ref_parse s = Inr r \<Longrightarrow> ref_display r = s"
  by (auto simp: ref_parse_def digest_parse_iff dest: tag_parse_same split: sum.splits)

lemma hex_shard: "digest_parse d = Inr d \<Longrightarrow> length (shard d) = 2 \<and> list_all hex_byte (shard d)"
  by (auto simp: digest_parse_iff shard_def list_all_iff dest: in_set_takeD)

end
