(* ===== verification/Artifact_Store.thy ===== *)
theory Artifact_Store
  imports Sparse_File Artifact_Names
begin

text \<open>
  The artifact store (\<open>artifacts/src/store.rs\<close>, with \<open>sys/tmpfile.rs\<close> and \<open>sys/space.rs\<close>): blobs and
  manifests under their digests, labels, public markers and tags. The disk is a table of inodes and a
  list of names, so that a hard link to a blob is a second name of its inode and a link count is a
  number of names. System calls take their answers from a script, as in \<open>Sparse_File\<close>.
\<close>

section \<open>The disk\<close>

datatype store_dir = Blobs | Manifests | Labels | Public

text \<open>A file of the store's directories by shard and name, a tag, or a path outside the store.\<close>

datatype path = InDir store_dir string string | TagFile string | Outside string

record inode =
  in_bytes :: file_bytes
  in_mode :: nat
  in_created :: nat

record disk =
  dk_names :: "(path \<times> nat) list"
  dk_inode :: "nat \<Rightarrow> inode"
  dk_next :: nat

definition BLOB_MODE :: nat where "BLOB_MODE = 292"

definition owner_may_write :: "nat \<Rightarrow> bool" where
  "owner_may_write mode \<longleftrightarrow> (mode div 128) mod 2 = 1"

definition ino_of :: "disk \<Rightarrow> path \<Rightarrow> nat option" where
  "ino_of s p = map_of (dk_names s) p"

definition nlink :: "disk \<Rightarrow> nat \<Rightarrow> nat" where
  "nlink s i = length (filter (\<lambda>(_, j). j = i) (dk_names s))"

definition bytes_at :: "disk \<Rightarrow> path \<Rightarrow> string option" where
  "bytes_at s p = map_option (\<lambda>i. content (in_bytes (dk_inode s i))) (ino_of s p)"

text \<open>A new inode under a name, which it takes over when another had it.\<close>

definition place :: "path \<Rightarrow> inode \<Rightarrow> disk \<Rightarrow> disk" where
  "place p x s =
     s\<lparr>dk_names := put p (Some (dk_next s)) (dk_names s), dk_inode := (dk_inode s)(dk_next s := x), dk_next := dk_next s + 1\<rparr>"

definition add_name :: "path \<Rightarrow> nat \<Rightarrow> disk \<Rightarrow> disk" where
  "add_name p i s = s\<lparr>dk_names := put p (Some i) (dk_names s)\<rparr>"

definition drop_name :: "path \<Rightarrow> disk \<Rightarrow> disk" where
  "drop_name p s = s\<lparr>dk_names := put p None (dk_names s)\<rparr>"

section \<open>Errors and calls\<close>

datatype store_error =
    NotFound digest
  | TagNotFound string
  | BadDigest digest_error
  | BadLabel label_error
  | BadManifest manifest_error
  | DigestMismatch digest digest
  | AmbiguousManifest digest "string list"
  | Io io_error

type_synonym 'a disk_result = "((store_error + 'a) \<times> answer list \<times> disk) option"

fun sys_call :: "(disk \<Rightarrow> disk) \<Rightarrow> answer list \<times> disk \<Rightarrow> unit disk_result" where
  "sys_call f ([], s) = None"
| "sys_call f (Errno e # ks, s) = Some (Inl (Io (Os e)), ks, s)"
| "sys_call f (Moved _ # ks, s) = Some (Inr (), ks, f s)"

definition lift_result :: "store_error + 'a \<Rightarrow> answer list \<times> disk \<Rightarrow> 'a disk_result" where
  "lift_result r x = Some (r, x)"

text \<open>A missing file is not an error.\<close>

fun unlink_if_present :: "path \<Rightarrow> answer list \<times> disk \<Rightarrow> bool disk_result" where
  "unlink_if_present p ([], s) = None"
| "unlink_if_present p (k # ks, s) =
     (if ino_of s p = None then Some (Inr False, ks, s)
      else case k of
          Errno e \<Rightarrow> Some (Inl (Io (Os e)), ks, s)
        | Moved _ \<Rightarrow> Some (Inr True, ks, drop_name p s))"

definition GUARD_INTERVAL :: nat where "GUARD_INTERVAL = 256 * 1024 * 1024"

definition space_guard :: "nat \<Rightarrow> nat \<Rightarrow> nat \<Rightarrow> io_error + unit" where
  "space_guard needed reserve available =
     (if u64_sat_add needed reserve > available then Inl (NoSpace needed available reserve) else Inr ())"

section \<open>Blobs\<close>

record blob_info =
  bi_digest :: digest
  bi_size :: nat
  bi_allocated :: nat
  bi_nlink :: nat
  bi_created :: nat
  bi_deduped :: bool

text \<open>Allocation is counted in bytes, not in blocks.\<close>

definition allocated :: "file_bytes \<Rightarrow> nat" where
  "allocated f = length (filter (\<lambda>b. b \<noteq> None) f)"

definition digest_path :: "store_dir \<Rightarrow> digest \<Rightarrow> path" where
  "digest_path dir d = InDir dir (shard d) d"

definition blob_stat :: "disk \<Rightarrow> digest \<Rightarrow> blob_info option" where
  "blob_stat s d =
     map_option (\<lambda>i. \<lparr>bi_digest = d, bi_size = length (in_bytes (dk_inode s i)), bi_allocated = allocated (in_bytes (dk_inode s i)),
        bi_nlink = nlink s i, bi_created = in_created (dk_inode s i), bi_deduped = False\<rparr>) (ino_of s (digest_path Blobs d))"

definition blob_exists :: "disk \<Rightarrow> digest \<Rightarrow> bool" where
  "blob_exists s d \<longleftrightarrow> ino_of s (digest_path Blobs d) \<noteq> None"

definition manifest_exists :: "disk \<Rightarrow> digest \<Rightarrow> bool" where
  "manifest_exists s d \<longleftrightarrow> ino_of s (digest_path Manifests d) \<noteq> None"

datatype link_outcome = Created | AlreadyExists

text \<open>The staged file gets its name unless the name is taken; linking never replaces.\<close>

fun link_into :: "inode \<Rightarrow> path \<Rightarrow> answer list \<times> disk \<Rightarrow> link_outcome disk_result" where
  "link_into x p ([], s) = None"
| "link_into x p (k # ks, s) =
     (if ino_of s p \<noteq> None then Some (Inr AlreadyExists, ks, s)
      else case k of
          Errno e \<Rightarrow> Some (Inl (Io (Os e)), ks, s)
        | Moved _ \<Rightarrow> Some (Inr Created, ks, place p x s))"

text \<open>Sync and seal the staged file, take the lock, link, and sync the directory of a new name.\<close>

definition seal_and_link :: "nat \<Rightarrow> file_bytes \<Rightarrow> path \<Rightarrow> answer list \<times> disk \<Rightarrow> link_outcome disk_result" where
  "seal_and_link now f p x =
     io_then (sys_call id x) (\<lambda>_ x1.
     io_then (sys_call id x1) (\<lambda>_ x2.
     io_then (sys_call id x2) (\<lambda>_ x3.
     io_then (link_into \<lparr>in_bytes = f, in_mode = BLOB_MODE, in_created = now\<rparr> p x3) (\<lambda>r x4.
     if r = Created then io_then (sys_call id x4) (\<lambda>_ x5. Some (Inr r, x5)) else Some (Inr r, x4)))))"

definition commit_blob :: "nat \<Rightarrow> file_bytes \<Rightarrow> digest \<Rightarrow> answer list \<times> disk \<Rightarrow> blob_info disk_result" where
  "commit_blob now f d x =
     io_then (seal_and_link now f (digest_path Blobs d) x) (\<lambda>r x1.
     lift_result (case blob_stat (snd x1) d of
         None \<Rightarrow> Inl (NotFound d)
       | Some info \<Rightarrow> Inr (info\<lparr>bi_deduped := (r = AlreadyExists)\<rparr>)) x1)"

text \<open>
  Reading from a stream: each read gets some bytes, at least one, or fails; a stream that has ended
  stays ended.
\<close>

datatype read_event = Got char string | ReadFailed errno

fun read_full :: "read_event list \<Rightarrow> nat \<Rightarrow> string \<Rightarrow> (io_error + string) \<times> read_event list" where
  "read_full [] want got = (Inr got, [])"
| "read_full (ev # rs) want got =
     (if length got < want
      then case ev of
          ReadFailed e \<Rightarrow> if e = EINTR then read_full rs want got else (Inl (Os e), rs)
        | Got c cs \<Rightarrow>
            (case drop (want - length got) (c # cs) of
               [] \<Rightarrow> read_full rs want (got @ c # cs)
             | c' # cs' \<Rightarrow> (Inr (got @ take (want - length got) (c # cs)), Got c' cs' # rs))
      else (Inr got, ev # rs))"

fun pending_bytes :: "read_event list \<Rightarrow> string" where
  "pending_bytes [] = []"
| "pending_bytes (Got c cs # rs) = (c # cs) @ pending_bytes rs"
| "pending_bytes (ReadFailed e # rs) = pending_bytes rs"

lemma read_full_bytes: "read_full rs want got = (Inr chunk, rs') \<Longrightarrow> chunk @ pending_bytes rs' = got @ pending_bytes rs"
proof (induction rs want got rule: read_full.induct)
  case (2 ev rs want got)
  show ?case
  proof (cases ev)
    case (Got c cs)
    show ?thesis
    proof (cases "drop (want - length got) (c # cs)")
      case Nil
      with 2 Got show ?thesis by (auto split: if_splits)
    next
      case (Cons c' cs')
      then have "take (want - length got) (c # cs) @ c' # cs' = c # cs" by (metis append_take_drop_id)
      with 2(3) Got Cons show ?thesis by (auto split: if_splits)
    qed
  qed (use 2 in \<open>auto split: if_splits\<close>)
qed simp

lemma read_full_progress:
  assumes "read_full rs want [] = (Inr chunk, rs')" "chunk \<noteq> []"
  shows "length (pending_bytes rs') < length (pending_bytes rs)"
  using arg_cong[OF read_full_bytes[OF assms(1)], of length] assms(2) by (cases chunk) auto

text \<open>
  The loop over the chunks of a stream. The free space when \<open>w\<close> bytes have been written is \<open>free w\<close>;
  it is checked each time another interval is full.
\<close>

function stream_chunks :: "nat option \<Rightarrow> (nat \<Rightarrow> nat) \<Rightarrow> nat \<Rightarrow> read_event list \<Rightarrow> nat \<Rightarrow> nat \<Rightarrow> nat \<Rightarrow> string \<Rightarrow> io_state \<Rightarrow>
    (nat \<times> nat \<times> string) io_result" where
  "stream_chunks grain free reserve rs offset written next_check seen s =
     (case read_full rs BUF_LEN [] of
        (Inl e, _) \<Rightarrow> Some (Inl e, s)
      | (Inr chunk, rs') \<Rightarrow>
          if chunk = [] then Some (Inr (offset, written, seen), s)
          else io_then (case grain of
                 Some gr \<Rightarrow> write_nonzero_grains chunk offset gr 0 0 s
               | None \<Rightarrow> io_then (pwrite_all chunk offset (fst s) (snd s)) (\<lambda>_ s'. Some (Inr (length chunk), s'))) (\<lambda>n s'.
               if next_check \<le> written + n
               then case space_guard 0 reserve (free (written + n)) of
                   Inl e \<Rightarrow> Some (Inl e, s')
                 | Inr _ \<Rightarrow> stream_chunks grain free reserve rs' (offset + length chunk) (written + n) (written + n + GUARD_INTERVAL) (seen @ chunk) s'
               else stream_chunks grain free reserve rs' (offset + length chunk) (written + n) next_check (seen @ chunk) s'))"
  by pat_completeness auto
termination
  by (relation "measure (\<lambda>(grain, free, reserve, rs, _). length (pending_bytes rs))") (auto dest: read_full_progress[OF sym])

declare stream_chunks.simps [simp del]

text \<open>A computation on the staged file, whose errors are the store's.\<close>

definition on_file :: "answer list \<times> disk \<Rightarrow> 'a io_result \<Rightarrow> ('a \<Rightarrow> file_bytes \<Rightarrow> answer list \<times> disk \<Rightarrow> 'b disk_result) \<Rightarrow> 'b disk_result" where
  "on_file x r k =
     (case r of
        None \<Rightarrow> None
      | Some (Inl e, ks, _) \<Rightarrow> Some (Inl (Io e), ks, snd x)
      | Some (Inr a, ks, f) \<Rightarrow> k a f (ks, snd x))"

definition insert_stream :: "(string \<Rightarrow> digest) \<Rightarrow> nat \<Rightarrow> (nat \<Rightarrow> nat) \<Rightarrow> nat \<Rightarrow> read_event list \<Rightarrow> shape \<Rightarrow> answer list \<times> disk \<Rightarrow>
    blob_info disk_result" where
  "insert_stream sha now free reserve rs sh x =
     io_then (sys_call id x) (\<lambda>_ x1.
     on_file x1
       (io_then (stream_chunks (shape_grain sh) free reserve rs 0 0 GUARD_INTERVAL [] (fst x1, [])) (\<lambda>(offset, _, seen) s.
        io_then (ftruncate offset s) (\<lambda>_ s'. Some (Inr seen, s'))))
       (\<lambda>seen f x2. commit_blob now f (sha seen) x2))"

text \<open>The check of a copy from a path: the threshold moves on each time it is passed.\<close>

definition guard_check :: "(nat \<Rightarrow> nat) \<Rightarrow> nat \<Rightarrow> nat \<Rightarrow> nat \<Rightarrow> io_error + nat" where
  "guard_check free reserve written next_check =
     (if next_check \<le> written
      then and_then (space_guard 0 reserve (free written)) (\<lambda>_. Inr (written + GUARD_INTERVAL))
      else Inr next_check)"

definition insert_path :: "(string \<Rightarrow> digest) \<Rightarrow> nat \<Rightarrow> (nat \<Rightarrow> nat) \<Rightarrow> nat \<Rightarrow> file_bytes \<Rightarrow> shape \<Rightarrow> answer list \<times> disk \<Rightarrow>
    blob_info disk_result" where
  "insert_path sha now free reserve src sh x =
     io_then (sys_call id x) (\<lambda>_ x1.
     io_then (sys_call id x1) (\<lambda>_ x2.
     io_then (lift_result (if shape_grain sh = None then map_err Io (space_guard (allocated src) reserve (free 0)) else Inr ()) x2) (\<lambda>_ x3.
     io_then (sys_call id x3) (\<lambda>_ x4.
     on_file x4 (copy_observing_guarded src (length src) sh (guard_check free reserve) GUARD_INTERVAL (fst x4, []))
       (\<lambda>(seen, _) f x5. commit_blob now f (sha seen) x5)))))"

text \<open>
  Reading a blob back, through its holes, up to its size or the end of the file. An interrupted read
  is an error here.
\<close>

fun hash_blob :: "file_bytes \<Rightarrow> nat \<Rightarrow> string \<Rightarrow> answer list \<Rightarrow> disk \<Rightarrow> string disk_result" where
  "hash_blob src off seen [] s = (if off < length src then None else Some (Inr seen, [], s))"
| "hash_blob src off seen (k # ks) s =
     (if off < length src
      then case pread src (min (length src - off) BUF_LEN) off (k # ks, []) of
          None \<Rightarrow> None
        | Some (Inl e, ks', _) \<Rightarrow> Some (Inl (Io e), ks', s)
        | Some (Inr bs, ks', _) \<Rightarrow> if bs = [] then Some (Inr seen, ks', s) else hash_blob src (off + length bs) (seen @ bs) ks s
      else Some (Inr seen, k # ks, s))"

definition verify :: "(string \<Rightarrow> digest) \<Rightarrow> digest \<Rightarrow> answer list \<times> disk \<Rightarrow> unit disk_result" where
  "verify sha d x =
     (case ino_of (snd x) (digest_path Blobs d) of
        None \<Rightarrow> Some (Inl (NotFound d), x)
      | Some i \<Rightarrow>
          io_then (sys_call id x) (\<lambda>_ x1.
          io_then (sys_call id x1) (\<lambda>_ x2.
          io_then (hash_blob (in_bytes (dk_inode (snd x) i)) 0 [] (fst x2) (snd x2)) (\<lambda>seen x3.
          if sha seen \<noteq> d then Some (Inl (DigestMismatch d (sha seen)), x3) else Some (Inr (), x3)))))"

section \<open>Materializations\<close>

datatype materialize_as = ReadOnly | Writable shape nat

datatype copy_method = Hardlink | SparseCopy | DenseCopy

text \<open>A new file that must not exist; a scripted answer of \<open>EEXIST\<close> means that it does.\<close>

definition create_dest :: "nat \<Rightarrow> path \<Rightarrow> nat \<Rightarrow> answer list \<times> disk \<Rightarrow> unit disk_result" where
  "create_dest now p mode x =
     (if ino_of (snd x) p \<noteq> None then Some (Inl (Io (Os EEXIST)), x)
      else sys_call (place p \<lparr>in_bytes = [], in_mode = mode, in_created = now\<rparr>) x)"

text \<open>The copy, which stays where it is when it fails half-way.\<close>

definition fill_dest :: "path \<Rightarrow> file_bytes \<Rightarrow> shape \<Rightarrow> answer list \<times> disk \<Rightarrow> nat disk_result" where
  "fill_dest p src sh x =
     (case copy_shaped src (length src) sh (fst x, []) of
        None \<Rightarrow> None
      | Some (r, ks, f) \<Rightarrow>
          Some (map_err Io r, ks,
            (case ino_of (snd x) p of
               None \<Rightarrow> snd x
             | Some i \<Rightarrow> (snd x)\<lparr>dk_inode := (dk_inode (snd x))(i := (dk_inode (snd x) i)\<lparr>in_bytes := f\<rparr>)\<rparr>)))"

definition copy_out :: "nat \<Rightarrow> nat \<Rightarrow> nat \<Rightarrow> file_bytes \<Rightarrow> path \<Rightarrow> shape \<Rightarrow> nat \<Rightarrow> answer list \<times> disk \<Rightarrow> (copy_method \<times> nat) disk_result" where
  "copy_out now free reserve src p sh mode x =
     io_then (lift_result (map_err Io (space_guard (allocated src) reserve free)) x) (\<lambda>_ x1.
     io_then (sys_call id x1) (\<lambda>_ x2.
     io_then (create_dest now p mode x2) (\<lambda>_ x3.
     io_then (fill_dest p src sh x3) (\<lambda>written x4.
     io_then (sys_call id x4) (\<lambda>_ x5.
     Some (Inr (if written < length src then SparseCopy else DenseCopy, written), x5))))))"

definition materialize :: "nat \<Rightarrow> nat \<Rightarrow> nat \<Rightarrow> bool \<Rightarrow> digest \<Rightarrow> string \<Rightarrow> materialize_as \<Rightarrow> answer list \<times> disk \<Rightarrow>
    (copy_method \<times> nat) disk_result" where
  "materialize now free reserve same_device d dest how x =
     (case ino_of (snd x) (digest_path Blobs d) of
        None \<Rightarrow> Some (Inl (NotFound d), x)
      | Some i \<Rightarrow>
          (let src = in_bytes (dk_inode (snd x) i); p = Outside dest in
           io_then (sys_call id x) (\<lambda>_ x1.
           case how of
             Writable sh mode \<Rightarrow> copy_out now free reserve src p sh mode x1
           | ReadOnly \<Rightarrow>
               io_then (sys_call id x1) (\<lambda>_ x2.
               if \<not> same_device then copy_out now free reserve src p HoleAware BLOB_MODE x2
               else case x2 of
                   ([], s) \<Rightarrow> None
                 | (Errno e # ks, s) \<Rightarrow>
                     if e = EMLINK then copy_out now free reserve src p HoleAware BLOB_MODE (ks, s) else Some (Inl (Io (Os e)), ks, s)
                 | (Moved _ # ks, s) \<Rightarrow>
                     if ino_of s p \<noteq> None then Some (Inl (Io (Os EEXIST)), ks, s)
                     else Some (Inr (Hardlink, 0), ks, add_name p i s)))))"

definition release_materialized :: "string \<Rightarrow> answer list \<times> disk \<Rightarrow> bool disk_result" where
  "release_materialized dest x = unlink_if_present (Outside dest) x"

section \<open>Manifests, tags, labels and markers\<close>

definition put_manifest :: "(string \<Rightarrow> digest) \<Rightarrow> nat \<Rightarrow> string \<Rightarrow> answer list \<times> disk \<Rightarrow> digest disk_result" where
  "put_manifest sha now bytes x =
     io_then (sys_call id x) (\<lambda>_ x1.
     on_file x1 (pwrite_all bytes 0 (fst x1) []) (\<lambda>_ f x2.
     io_then (seal_and_link now f (digest_path Manifests (sha bytes)) x2) (\<lambda>_ x3. Some (Inr (sha bytes), x3))))"

text \<open>
  Whether a file can be read is \<open>rd\<close> of its path. Tags and labels are written beside their place and
  renamed: create, write, sync, rename, sync the directory.
\<close>

definition replace_file :: "nat \<Rightarrow> path \<Rightarrow> string \<Rightarrow> answer list \<times> disk \<Rightarrow> unit disk_result" where
  "replace_file now p body x =
     io_then (sys_call id x) (\<lambda>_ x1.
     on_file x1 (pwrite_all body 0 (fst x1) []) (\<lambda>_ f x2.
     io_then (sys_call id x2) (\<lambda>_ x3.
     io_then (sys_call (place p \<lparr>in_bytes = f, in_mode = 420, in_created = now\<rparr>) x3) (\<lambda>_ x4.
     sys_call id x4))))"

definition read_file :: "(path \<Rightarrow> bool) \<Rightarrow> disk \<Rightarrow> path \<Rightarrow> store_error \<Rightarrow> store_error + string" where
  "read_file rd s p missing =
     (case bytes_at s p of None \<Rightarrow> Inl missing | Some bs \<Rightarrow> if rd p then Inr bs else Inl (Io (Os (EOTHER 5))))"

definition get_manifest :: "(string \<Rightarrow> manifest option) \<Rightarrow> (path \<Rightarrow> bool) \<Rightarrow> disk \<Rightarrow> digest \<Rightarrow> store_error + manifest" where
  "get_manifest parse rd s d =
     and_then (read_file rd s (digest_path Manifests d) (NotFound d)) (\<lambda>bytes. map_err BadManifest (manifest_from_json parse bytes))"

definition set_tag :: "nat \<Rightarrow> string \<Rightarrow> digest \<Rightarrow> answer list \<times> disk \<Rightarrow> unit disk_result" where
  "set_tag now t d x = replace_file now (TagFile t) (d @ [CHR 0x0A]) x"

definition get_tag :: "(path \<Rightarrow> bool) \<Rightarrow> disk \<Rightarrow> string \<Rightarrow> store_error + digest" where
  "get_tag rd s t =
     and_then (read_file rd s (TagFile t) (TagNotFound t)) (\<lambda>body. map_err BadDigest (digest_parse (trim body)))"

definition remove_tag :: "string \<Rightarrow> answer list \<times> disk \<Rightarrow> bool disk_result" where
  "remove_tag t x = unlink_if_present (TagFile t) x"

definition tag_names :: "disk \<Rightarrow> string list" where
  "tag_names s = List.map_filter (\<lambda>(p, _). case p of TagFile t \<Rightarrow> Some t | _ \<Rightarrow> None) (dk_names s)"

definition list_tags :: "(path \<Rightarrow> bool) \<Rightarrow> disk \<Rightarrow> (string \<times> digest) list" where
  "list_tags rd s =
     sort_key fst (List.map_filter (\<lambda>name.
       if prefix ''.'' name then None
       else case tag_parse name of
           Inl _ \<Rightarrow> None
         | Inr t \<Rightarrow> (case get_tag rd s t of Inl _ \<Rightarrow> None | Inr d \<Rightarrow> Some (t, d))) (tag_names s))"

definition resolve :: "(path \<Rightarrow> bool) \<Rightarrow> disk \<Rightarrow> artifact_ref \<Rightarrow> store_error + digest" where
  "resolve rd s r = (case r of RefDigest d \<Rightarrow> Inr d | RefTag t \<Rightarrow> get_tag rd s t)"

definition resolve_blob :: "(string \<Rightarrow> manifest option) \<Rightarrow> (path \<Rightarrow> bool) \<Rightarrow> disk \<Rightarrow> artifact_ref \<Rightarrow> store_error + digest" where
  "resolve_blob parse rd s r =
     and_then (resolve rd s r) (\<lambda>d.
       if blob_exists s d then Inr d
       else case get_manifest parse rd s d of
           Inl (NotFound _) \<Rightarrow> Inl (NotFound d)
         | Inl e \<Rightarrow> Inl e
         | Inr m \<Rightarrow>
             (case mf_entries m of
                [e] \<Rightarrow> Inr (me_digest e)
              | es \<Rightarrow> Inl (AmbiguousManifest d (map me_name es))))"

definition set_label :: "(label \<Rightarrow> string) \<Rightarrow> nat \<Rightarrow> digest \<Rightarrow> label \<Rightarrow> answer list \<times> disk \<Rightarrow> unit disk_result" where
  "set_label to_json now d l x =
     io_then (lift_result (map_err BadLabel (label_validate l)) x) (\<lambda>_ x1.
       if \<not> (blob_exists (snd x1) d \<or> manifest_exists (snd x1) d) then Some (Inl (NotFound d), x1)
       else replace_file now (digest_path Labels d) (to_json l) x1)"

definition remove_label :: "digest \<Rightarrow> answer list \<times> disk \<Rightarrow> bool disk_result" where
  "remove_label d x = unlink_if_present (digest_path Labels d) x"

definition set_public :: "nat \<Rightarrow> digest \<Rightarrow> answer list \<times> disk \<Rightarrow> unit disk_result" where
  "set_public now d x =
     (if \<not> blob_exists (snd x) d then Some (Inl (NotFound d), x)
      else let p = digest_path Public d in
           io_then (sys_call (if ino_of (snd x) p = None then place p \<lparr>in_bytes = [], in_mode = 420, in_created = now\<rparr> else id) x)
             (\<lambda>_ x1. sys_call id x1))"

definition remove_public :: "digest \<Rightarrow> answer list \<times> disk \<Rightarrow> bool disk_result" where
  "remove_public d x = unlink_if_present (digest_path Public d) x"

definition is_public :: "disk \<Rightarrow> digest \<Rightarrow> bool" where
  "is_public s d \<longleftrightarrow> ino_of s (digest_path Public d) \<noteq> None"

section \<open>Listings\<close>

definition shard_entries :: "disk \<Rightarrow> store_dir \<Rightarrow> string \<Rightarrow> (string \<times> nat) list" where
  "shard_entries s dir sh =
     sort_key snd (List.map_filter (\<lambda>(p, i). case p of
         InDir dir' sh' name \<Rightarrow> if dir' = dir \<and> sh' = sh \<and> \<not> prefix ''.'' name then Some (name, i) else None
       | _ \<Rightarrow> None) (dk_names s))"

definition hex_digit :: "nat \<Rightarrow> char" where
  "hex_digit n = char_of (if n < 10 then 48 + n else 87 + n)"

definition all_shards :: "string list" where
  "all_shards = map (\<lambda>i. [hex_digit (i div 16), hex_digit (i mod 16)]) [0..<256]"

definition shard_digests :: "disk \<Rightarrow> store_dir \<Rightarrow> string \<Rightarrow> digest list" where
  "shard_digests s dir sh =
     List.map_filter (\<lambda>(name, _). case digest_parse name of Inr d \<Rightarrow> Some d | Inl _ \<Rightarrow> None) (shard_entries s dir sh)"

definition list_digests :: "disk \<Rightarrow> store_dir \<Rightarrow> digest list" where
  "list_digests s dir = concat (map (shard_digests s dir) all_shards)"

text \<open>Largest first, then by digest.\<close>

definition list_blobs :: "disk \<Rightarrow> blob_info list" where
  "list_blobs s = sort_key (\<lambda>b. (- int (bi_size b), bi_digest b)) (List.map_filter (blob_stat s) (list_digests s Blobs))"

text \<open>A label that does not parse counts as none; one that cannot be read is an error.\<close>

definition get_label :: "(string \<Rightarrow> label option) \<Rightarrow> (path \<Rightarrow> bool) \<Rightarrow> disk \<Rightarrow> digest \<Rightarrow> store_error + label option" where
  "get_label parse rd s d =
     (case read_file rd s (digest_path Labels d) (NotFound d) of
        Inl (NotFound _) \<Rightarrow> Inr None
      | Inl e \<Rightarrow> Inl e
      | Inr bytes \<Rightarrow> Inr (parse bytes))"

fun collect_labels :: "(digest \<Rightarrow> store_error + label option) \<Rightarrow> digest list \<Rightarrow> store_error + (digest \<times> label) list" where
  "collect_labels get [] = Inr []"
| "collect_labels get (d # ds) =
     and_then (get d) (\<lambda>l. and_then (collect_labels get ds) (\<lambda>rest. Inr (case l of None \<Rightarrow> rest | Some l' \<Rightarrow> (d, l') # rest)))"

definition list_labels :: "(string \<Rightarrow> label option) \<Rightarrow> (path \<Rightarrow> bool) \<Rightarrow> disk \<Rightarrow> store_error + (digest \<times> label) list" where
  "list_labels parse rd s = collect_labels (get_label parse rd s) (list_digests s Labels)"

definition label_map :: "(string \<Rightarrow> label option) \<Rightarrow> (path \<Rightarrow> bool) \<Rightarrow> disk \<Rightarrow> store_error + (digest \<rightharpoonup> label)" where
  "label_map parse rd s = and_then (list_labels parse rd s) (\<lambda>ls. Inr (map_of (rev ls)))"

definition tags_by_digest :: "(path \<Rightarrow> bool) \<Rightarrow> disk \<Rightarrow> digest \<Rightarrow> string list" where
  "tags_by_digest rd s d = map fst (filter (\<lambda>(_, d'). d' = d) (list_tags rd s))"

record usage =
  us_blobs :: nat
  us_logical :: nat
  us_allocated :: nat
  us_manifests :: nat
  us_tags :: nat
  us_fs_available :: nat
  us_fs_total :: nat

definition store_usage :: "(path \<Rightarrow> bool) \<Rightarrow> nat \<Rightarrow> nat \<Rightarrow> disk \<Rightarrow> usage" where
  "store_usage rd available all s =
     (let blobs = list_blobs s in
      \<lparr>us_blobs = length blobs, us_logical = sum_list (map bi_size blobs), us_allocated = sum_list (map bi_allocated blobs),
       us_manifests = length (list_digests s Manifests), us_tags = length (list_tags rd s), us_fs_available = available, us_fs_total = all\<rparr>)"

end
