(* ===== verification/Artifact_Gc.thy ===== *)
theory Artifact_Gc
  imports Artifact_Store
begin

text \<open>
  Garbage collection of the artifact store (\<open>artifacts/src/gc.rs\<close>): mark from the tags, then sweep
  blobs, manifests, labels and public markers. Listings and unlinks take answers from the script;
  which files can be read while marking is an argument.
\<close>

record gc_policy =
  gp_min_age :: nat
  gp_dry_run :: bool

record pin =
  pn_digest :: digest
  pn_size :: nat
  pn_allocated :: nat
  pn_links :: nat

record gc_report =
  gr_scanned :: nat
  gr_removed :: "digest list"
  gr_bytes_freed :: nat
  gr_kept_reachable :: nat
  gr_kept_young :: nat
  gr_pinned :: "pin list"
  gr_manifests_scanned :: nat
  gr_manifests_removed :: "digest list"
  gr_labels_removed :: nat
  gr_publics_removed :: nat

definition empty_report :: gc_report where
  "empty_report = \<lparr>gr_scanned = 0, gr_removed = [], gr_bytes_freed = 0, gr_kept_reachable = 0, gr_kept_young = 0, gr_pinned = [],
     gr_manifests_scanned = 0, gr_manifests_removed = [], gr_labels_removed = 0, gr_publics_removed = 0\<rparr>"

text \<open>A file created after \<open>now\<close> is young: the clock was stepped.\<close>

definition is_young :: "nat \<Rightarrow> nat \<Rightarrow> nat \<Rightarrow> bool" where
  "is_young now created min_age = (if created \<le> now then now - created < min_age else True)"

text \<open>What one tag keeps: its digest as a blob, and the manifest with its entries if there is one.\<close>

definition mark_tag :: "(string \<Rightarrow> manifest option) \<Rightarrow> (path \<Rightarrow> bool) \<Rightarrow> disk \<Rightarrow> string \<times> digest \<Rightarrow> digest list \<times> digest list \<Rightarrow>
    digest list \<times> digest list" where
  "mark_tag parse rd s td marked =
     (case (td, marked) of ((_, d), (blobs, manifests)) \<Rightarrow>
        case read_file rd s (digest_path Manifests d) (NotFound d) of
          Inl _ \<Rightarrow> (d # blobs, manifests)
        | Inr bytes \<Rightarrow>
            (case manifest_from_json parse bytes of
               Inr m \<Rightarrow> (map me_digest (mf_entries m) @ d # blobs, d # manifests)
             | Inl _ \<Rightarrow> (d # blobs, d # manifests)))"

definition mark :: "(string \<Rightarrow> manifest option) \<Rightarrow> (path \<Rightarrow> bool) \<Rightarrow> disk \<Rightarrow> digest list \<times> digest list" where
  "mark parse rd s = fold (mark_tag parse rd s) (list_tags rd s) ([], [])"

text \<open>Unlink unless the run only reports.\<close>

definition sweep_name :: "gc_policy \<Rightarrow> path \<Rightarrow> answer list \<times> disk \<Rightarrow> unit disk_result" where
  "sweep_name policy p x =
     (if gp_dry_run policy then Some (Inr (), x) else io_then (unlink_if_present p x) (\<lambda>_ x1. Some (Inr (), x1)))"

definition sweep_blob :: "digest list \<Rightarrow> nat \<Rightarrow> gc_policy \<Rightarrow> digest \<Rightarrow> gc_report \<Rightarrow> answer list \<times> disk \<Rightarrow> gc_report disk_result" where
  "sweep_blob live now policy d rep x =
     (let rep = rep\<lparr>gr_scanned := gr_scanned rep + 1\<rparr> in
      case blob_stat (snd x) d of
        None \<Rightarrow> Some (Inr rep, x)
      | Some st \<Rightarrow>
          if d \<in> set live then Some (Inr (rep\<lparr>gr_kept_reachable := gr_kept_reachable rep + 1\<rparr>), x)
          else if bi_nlink st > 1
          then Some (Inr (rep\<lparr>gr_pinned := gr_pinned rep @
                 [\<lparr>pn_digest = d, pn_size = bi_size st, pn_allocated = bi_allocated st, pn_links = bi_nlink st - 1\<rparr>]\<rparr>), x)
          else if is_young now (bi_created st) (gp_min_age policy)
          then Some (Inr (rep\<lparr>gr_kept_young := gr_kept_young rep + 1\<rparr>), x)
          else io_then (sweep_name policy (digest_path Blobs d) x) (\<lambda>_ x1.
                 Some (Inr (rep\<lparr>gr_bytes_freed := gr_bytes_freed rep + bi_allocated st, gr_removed := gr_removed rep @ [d]\<rparr>), x1)))"

fun sweep_each :: "(digest \<Rightarrow> gc_report \<Rightarrow> answer list \<times> disk \<Rightarrow> gc_report disk_result) \<Rightarrow> digest list \<Rightarrow> gc_report \<Rightarrow> answer list \<times> disk \<Rightarrow>
    gc_report disk_result" where
  "sweep_each f [] rep x = Some (Inr rep, x)"
| "sweep_each f (d # ds) rep x = io_then (f d rep x) (\<lambda>rep' x'. sweep_each f ds rep' x')"

text \<open>A shard is listed when the sweep gets to it.\<close>

fun sweep_blob_shards :: "digest list \<Rightarrow> nat \<Rightarrow> gc_policy \<Rightarrow> string list \<Rightarrow> gc_report \<Rightarrow> answer list \<times> disk \<Rightarrow> gc_report disk_result" where
  "sweep_blob_shards live now policy [] rep x = Some (Inr rep, x)"
| "sweep_blob_shards live now policy (sh # shs) rep x =
     io_then (sys_call id x) (\<lambda>_ x1.
     io_then (sweep_each (sweep_blob live now policy) (shard_digests (snd x1) Blobs sh) rep x1) (\<lambda>rep' x2.
     sweep_blob_shards live now policy shs rep' x2))"

definition sweep_manifest :: "digest list \<Rightarrow> nat \<Rightarrow> gc_policy \<Rightarrow> digest \<Rightarrow> gc_report \<Rightarrow> answer list \<times> disk \<Rightarrow> gc_report disk_result" where
  "sweep_manifest live now policy d rep x =
     (let rep = rep\<lparr>gr_manifests_scanned := gr_manifests_scanned rep + 1\<rparr>; p = digest_path Manifests d in
      if d \<in> set live then Some (Inr rep, x)
      else if (case ino_of (snd x) p of
                 Some i \<Rightarrow> is_young now (in_created (dk_inode (snd x) i)) (gp_min_age policy)
               | None \<Rightarrow> False)
      then Some (Inr rep, x)
      else io_then (sweep_name policy p x) (\<lambda>_ x1. Some (Inr (rep\<lparr>gr_manifests_removed := gr_manifests_removed rep @ [d]\<rparr>), x1)))"

definition sweep_label :: "digest list \<Rightarrow> gc_policy \<Rightarrow> digest \<Rightarrow> gc_report \<Rightarrow> answer list \<times> disk \<Rightarrow> gc_report disk_result" where
  "sweep_label swept policy d rep x =
     (if d \<in> set swept \<or> \<not> (blob_exists (snd x) d \<or> manifest_exists (snd x) d)
      then io_then (sweep_name policy (digest_path Labels d) x) (\<lambda>_ x1. Some (Inr (rep\<lparr>gr_labels_removed := gr_labels_removed rep + 1\<rparr>), x1))
      else Some (Inr rep, x))"

definition sweep_public :: "digest list \<Rightarrow> gc_policy \<Rightarrow> digest \<Rightarrow> gc_report \<Rightarrow> answer list \<times> disk \<Rightarrow> gc_report disk_result" where
  "sweep_public swept policy d rep x =
     (if d \<in> set swept \<or> \<not> blob_exists (snd x) d
      then io_then (sweep_name policy (digest_path Public d) x) (\<lambda>_ x1. Some (Inr (rep\<lparr>gr_publics_removed := gr_publics_removed rep + 1\<rparr>), x1))
      else Some (Inr rep, x))"

text \<open>Take the lock, read the tags, mark, and sweep; each listing is a call that may fail.\<close>

definition collect_garbage :: "(string \<Rightarrow> manifest option) \<Rightarrow> (path \<Rightarrow> bool) \<Rightarrow> nat \<Rightarrow> gc_policy \<Rightarrow> answer list \<times> disk \<Rightarrow> gc_report disk_result" where
  "collect_garbage parse rd now policy x =
     io_then (sys_call id x) (\<lambda>_ x1.
     io_then (sys_call id x1) (\<lambda>_ x2.
     case mark parse rd (snd x2) of (live_blobs, live_manifests) \<Rightarrow>
     io_then (sweep_blob_shards live_blobs now policy all_shards empty_report x2) (\<lambda>rep1 x3.
     io_then (sys_call id x3) (\<lambda>_ x4.
     io_then (sweep_each (sweep_manifest live_manifests now policy) (list_digests (snd x4) Manifests) rep1 x4) (\<lambda>rep2 x5.
     io_then (sys_call id x5) (\<lambda>_ x6.
     io_then (sweep_each (sweep_label (gr_removed rep2 @ gr_manifests_removed rep2) policy) (list_digests (snd x6) Labels) rep2 x6) (\<lambda>rep3 x7.
     io_then (sys_call id x7) (\<lambda>_ x8.
     sweep_each (sweep_public (gr_removed rep2 @ gr_manifests_removed rep2) policy) (list_digests (snd x8) Public) rep3 x8))))))))"

end
