(* ===== verification/Stream_Write.thy ===== *)
theory Stream_Write
  imports Artifact_Store
begin

text \<open>
  What \<open>insert_stream\<close> writes (\<open>artifacts/src/store.rs\<close>). Its file grows as it is written and gets its
  length at the end, so the writes are first related to the same writes on a file of full length.
\<close>

section \<open>Writes beyond the end\<close>

definition map_file :: "(file_bytes \<Rightarrow> file_bytes) \<Rightarrow> 'a io_result \<Rightarrow> 'a io_result" where
  "map_file h r = map_option (\<lambda>(v, ks, f). (v, ks, h f)) r"

lemma resize_long: "length f \<le> n \<Longrightarrow> resize n f = f @ replicate (n - length f) None"
  by (simp add: resize_def)

lemma length_put_bytes: "length (put_bytes off bs f) = max (length f) (off + length bs)"
  by (simp add: put_bytes_def)

lemma nth_put_bytes:
  assumes "i < max (length f) (off + length bs)"
  shows "put_bytes off bs f ! i =
    (if i < off then if i < length f then f ! i else None else if i < off + length bs then Some (bs ! (i - off)) else f ! i)"
proof -
  have "length (take off (f @ replicate (off - length f) None)) = off" by simp
  moreover have "take off (f @ replicate (off - length f) None) ! i = (if i < length f then f ! i else None)" if "i < off"
    using that by (simp add: nth_append)
  ultimately show ?thesis using assms unfolding put_bytes_def by (auto simp: nth_append simp del: take_append length_take)
qed

lemma put_bytes_resize:
  assumes "off + length bs \<le> n" "length f \<le> n"
  shows "put_bytes off bs (resize n f) = resize n (put_bytes off bs f)"
proof (rule nth_equalityI)
  show "length (put_bytes off bs (resize n f)) = length (resize n (put_bytes off bs f))"
    using assms by (simp add: length_put_bytes resize_long)
  fix i
  assume "i < length (put_bytes off bs (resize n f))"
  then have i: "i < n" using assms by (simp add: length_put_bytes resize_long)
  have l: "length (put_bytes off bs f) \<le> n" using assms by (simp add: length_put_bytes)
  show "put_bytes off bs (resize n f) ! i = resize n (put_bytes off bs f) ! i"
    using i assms unfolding resize_long[OF l] resize_long[OF assms(2)]
    by (auto simp: nth_append nth_put_bytes length_put_bytes)
qed

lemma pwrite_all_resize:
  assumes "off + length bs \<le> n" "length f \<le> n"
  shows "pwrite_all bs off ks (resize n f) = map_file (resize n) (pwrite_all bs off ks f) \<and>
    (\<forall>v ks' f'. pwrite_all bs off ks f = Some (v, ks', f') \<longrightarrow> length f' \<le> n)"
  using assms
proof (induction ks arbitrary: bs off f)
  case Nil
  then show ?case by (simp add: map_file_def)
next
  case (Cons k ks)
  show ?case
  proof (cases "bs = [] \<or> (\<exists>e. k = Errno e)")
    case True
    with Cons show ?thesis by (auto simp: map_file_def split: if_splits)
  next
    case False
    then obtain m where k: "k = Moved m" and ne: "bs \<noteq> []" by (cases k) auto
    let ?m = "moved m (length bs)" and ?f = "put_bytes off (take (moved m (length bs)) bs) f"
    have m: "?m \<le> length bs" by (simp add: moved_def)
    have l: "length ?f \<le> n" using Cons.prems m by (simp add: length_put_bytes)
    have "put_bytes off (take ?m bs) (resize n f) = resize n ?f" using Cons.prems m by (intro put_bytes_resize) auto
    moreover have "off + ?m + length (drop ?m bs) \<le> n" using Cons.prems m by simp
    ultimately show ?thesis using Cons.IH[of "off + ?m" "drop ?m bs" ?f] l ne k by (simp add: Let_def)
  qed
qed

lemma map_file_then:
  assumes "r' = map_file h r" "\<And>a ks f. r = Some (Inr a, ks, f) \<Longrightarrow> k a (ks, h f) = map_file h (k a (ks, f))"
  shows "io_then r' k = map_file h (io_then r k)"
  using assms by (cases r) (auto simp: map_file_def io_then_def split: sum.splits)

lemma write_nonzero_grains_resize:
  assumes "base + length chunk \<le> n" "length f \<le> n" "i \<le> length chunk"
  shows "write_nonzero_grains chunk base grain i written (ks, resize n f) =
      map_file (resize n) (write_nonzero_grains chunk base grain i written (ks, f)) \<and>
    (\<forall>v ks' f'. write_nonzero_grains chunk base grain i written (ks, f) = Some (v, ks', f') \<longrightarrow> length f' \<le> n)"
  using assms
proof (induction chunk base grain i written "(ks, f)" arbitrary: ks f rule: write_nonzero_grains.induct)
  case (1 chunk base grain i written ks f)
  show ?case
  proof (cases "i < length chunk \<and> grain \<noteq> 0")
    case False
    with 1 show ?thesis by (auto simp: write_nonzero_grains.simps map_file_def)
  next
    case True
    define e where "e = min (i + grain) (length chunk)"
    note unroll = write_nonzero_grains.simps[of chunk base grain i written, folded e_def, unfolded Let_def]
    show ?thesis
    proof (cases "is_zero (byte_range chunk i e)")
      case z: True
      with 1(1)[of e] 1(3-5) True show ?thesis by (simp add: unroll e_def)
    next
      case nz: False
      define j where "j = run_end chunk grain e"
      have j: "j \<le> length chunk" using run_end_bounds[of e chunk grain] by (simp add: j_def e_def)
      have fits: "base + i + length (byte_range chunk i j) \<le> n" using 1(3) True j by (simp add: length_byte_range le_diff_conv2) arith
      note p = pwrite_all_resize[OF fits 1(4), of ks]
      have rec: "write_nonzero_grains chunk base grain j w (ks', resize n f') = map_file (resize n) (write_nonzero_grains chunk base grain j w (ks', f')) \<and>
          (\<forall>v ks'' f''. write_nonzero_grains chunk base grain j w (ks', f') = Some (v, ks'', f'') \<longrightarrow> length f'' \<le> n)"
        if "pwrite_all (byte_range chunk i j) (base + i) ks f = Some (Inr (), ks', f')" "w = written + (j - i)" for ks' f' w
        unfolding that(2) using p that(1) 1(3) j
        by (intro 1(2)[OF conjunct1[OF True] _ e_def nz j_def that(1)]) (use True in auto)
      have "io_then (pwrite_all (byte_range chunk i j) (base + i) ks (resize n f)) (\<lambda>_. write_nonzero_grains chunk base grain j (written + (j - i))) =
          map_file (resize n) (io_then (pwrite_all (byte_range chunk i j) (base + i) ks f) (\<lambda>_. write_nonzero_grains chunk base grain j (written + (j - i))))"
        by (rule map_file_then) (use p rec in auto)
      moreover have "length f'' \<le> n" if "io_then (pwrite_all (byte_range chunk i j) (base + i) ks f) (\<lambda>_. write_nonzero_grains chunk base grain j (written + (j - i))) = Some (v, ks'', f'')" for v ks'' f''
        using that p rec by (auto simp: io_then_def split: option.splits sum.splits)
      ultimately show ?thesis using True nz by (simp add: unroll j_def[symmetric])
    qed
  qed
qed

section \<open>The stream\<close>

lemma io_spec_map_file: "io_spec ks m E Q (map_file h r) \<longleftrightarrow> io_spec ks m E (\<lambda>a f. Q a (h f)) r"
  by (auto simp: io_spec_def map_file_def split: option.splits sum.splits)

lemma io_spec_conj:
  assumes "io_spec ks m E Q r" "\<And>a ks' f. r = Some (Inr a, ks', f) \<Longrightarrow> R a f"
  shows "io_spec ks m E (\<lambda>a f. Q a f \<and> R a f) r"
  using assms by (auto simp: io_spec_def split: option.splits sum.splits)

text \<open>The file reads as what was seen once it gets that length.\<close>

definition growing :: "string \<Rightarrow> file_bytes \<Rightarrow> bool" where
  "growing seen f \<longleftrightarrow> length f \<le> length seen \<and> content (resize (length seen) f) = seen"

lemma growing_zeros:
  assumes "growing seen f"
  shows "content (resize (length seen + n) f) = seen @ replicate n (CHR 0x00)"
proof -
  have l: "length f \<le> length seen" and c: "content (resize (length seen) f) = seen" using assms by (auto simp: growing_def)
  have "resize (length seen + n) f = resize (length seen) f @ replicate n None"
    using l by (simp add: resize_long flip: replicate_add)
  with c show ?thesis by simp
qed

lemma write_growing_spec:
  assumes "growing seen f" "grain \<noteq> Some 0"
  shows "io_spec ks (length chunk) E (\<lambda>n f'. growing (seen @ chunk) f' \<and> n \<le> length chunk)
    (case grain of Some gr \<Rightarrow> write_nonzero_grains chunk (length seen) gr 0 0 (ks, f)
     | None \<Rightarrow> io_then (pwrite_all chunk (length seen) ks f) (\<lambda>_ s'. Some (Inr (length chunk), s')))"
proof -
  let ?n = "length seen + length chunk"
  have l: "length f \<le> ?n" using assms(1) by (simp add: growing_def)
  have z: "content (resize ?n f) = seen @ replicate (length chunk) (CHR 0x00) @ []" using growing_zeros[OF assms(1)] by simp
  show ?thesis
  proof (cases grain)
    case None
    have p: "pwrite_all chunk (length seen) ks (resize ?n f) = map_file (resize ?n) (pwrite_all chunk (length seen) ks f)"
        "\<And>v ks' f'. pwrite_all chunk (length seen) ks f = Some (v, ks', f') \<Longrightarrow> length f' \<le> ?n"
      using pwrite_all_resize[of "length seen" chunk ?n f ks] l by auto
    have "io_spec ks (length chunk) E (\<lambda>_ f'. content (resize ?n f') = seen @ chunk) (pwrite_all chunk (length seen) ks f)"
      using pwrite_all_at[OF z refl, of chunk ks E] unfolding p(1) io_spec_map_file by simp
    from io_spec_conj[OF this, of "\<lambda>_ f'. length f' \<le> ?n"] p(2)
    have "io_spec ks (length chunk) E (\<lambda>_ f'. growing (seen @ chunk) f') (pwrite_all chunk (length seen) ks f)"
      by (simp add: growing_def conj_commute)
    from io_spec_then[OF this, of 0 "\<lambda>n f'. growing (seen @ chunk) f' \<and> n \<le> length chunk" "\<lambda>_ s'. Some (Inr (length chunk), s')"]
    show ?thesis using None by (simp add: io_spec_def)
  next
    case (Some gr)
    let ?r = "write_nonzero_grains chunk (length seen) gr 0 0 (ks, f)"
    have p: "write_nonzero_grains chunk (length seen) gr 0 0 (ks, resize ?n f) = map_file (resize ?n) ?r"
        "\<And>v ks' f'. ?r = Some (v, ks', f') \<Longrightarrow> length f' \<le> ?n"
      using write_nonzero_grains_resize[of "length seen" chunk ?n f 0 gr 0 ks] l by auto
    have "io_spec ks (length chunk) E (\<lambda>n f'. content (resize ?n f') = seen @ chunk \<and> n \<le> length chunk) ?r"
      using write_nonzero_grains_spec[of gr "resize ?n f" seen chunk 0 "[]" "length seen" ks E 0] z assms(2) Some
      unfolding p(1) io_spec_map_file by simp
    from io_spec_conj[OF this, of "\<lambda>_ f'. length f' \<le> ?n"] p(2) show ?thesis
      using Some by (auto simp: growing_def elim!: io_spec_weaken)
  qed
qed

lemma read_full_ends: "read_full rs want got = (Inr chunk, rs') \<Longrightarrow> length chunk < want \<Longrightarrow> rs' = []"
  by (induction rs want got rule: read_full.induct) (auto split: if_splits read_event.splits list.splits)

lemma read_full_events:
  "read_full rs want got = (v, rs') \<Longrightarrow> {e. ReadFailed e \<in> set rs'} \<subseteq> {e. ReadFailed e \<in> set rs} \<and>
     (case v of Inl e \<Rightarrow> \<exists>x. e = Os x \<and> ReadFailed x \<in> set rs | Inr _ \<Rightarrow> True)"
proof (induction rs want got rule: read_full.induct)
  case (2 ev rs want got)
  then show ?case by (cases ev) (fastforce split: if_splits list.splits sum.splits)+
qed auto

lemma stream_chunks_spec:
  assumes "growing seen f" "grain \<noteq> Some 0" "offset = length seen"
    and "\<And>x. ReadFailed x \<in> set rs \<Longrightarrow> E (Os x)" "\<And>w e. space_guard 0 reserve (free w) = Inl e \<Longrightarrow> E e"
  shows "io_spec ks (length (pending_bytes rs)) E
    (\<lambda>(offset', _, seen') f'. growing seen' f' \<and> seen' = seen @ pending_bytes rs \<and> offset' = length seen')
    (stream_chunks grain free reserve rs offset written next_check seen (ks, f))"
  using assms
proof (induction grain free reserve rs offset written next_check seen "(ks, f)" arbitrary: ks f rule: stream_chunks.induct)
  case (1 grain free reserve rs offset written next_check seen ks f)
  let ?Q = "\<lambda>(offset', _, seen') f'. growing seen' f' \<and> seen' = seen @ pending_bytes rs \<and> offset' = length seen'"
  obtain v rs' where r: "read_full rs BUF_LEN [] = (v, rs')" by force
  note ev = read_full_events[OF r]
  show ?case
  proof (cases v)
    case (Inl e)
    with r ev 1(6) show ?thesis by (auto simp: stream_chunks.simps[of grain free reserve rs] io_spec_def)
  next
    case (Inr chunk)
    note r = r[unfolded Inr] and bytes = read_full_bytes[OF r[unfolded Inr]]
    show ?thesis
    proof (cases "chunk = []")
      case True
      with read_full_ends[OF r] bytes have "pending_bytes rs = []" by (simp add: BUF_LEN_def)
      with True r 1(3,5) show ?thesis by (simp add: stream_chunks.simps[of grain free reserve rs] io_spec_def)
    next
      case False
      let ?W = "case grain of Some gr \<Rightarrow> write_nonzero_grains chunk offset gr 0 0 (ks, f)
         | None \<Rightarrow> io_then (pwrite_all chunk offset (fst (ks, f)) (snd (ks, f))) (\<lambda>_ s'. Some (Inr (length chunk), s'))"
      have w: "io_spec ks (length chunk) E (\<lambda>n f'. growing (seen @ chunk) f' \<and> n \<le> length chunk) ?W"
        unfolding fst_conv snd_conv 1(5) by (rule write_growing_spec[OF 1(3,4)])
      have more: "?Q = (\<lambda>(offset', _, seen') f'. growing seen' f' \<and> seen' = (seen @ chunk) @ pending_bytes rs' \<and> offset' = length seen')"
        using bytes by (auto simp: fun_eq_iff)
      have read': "\<And>x. ReadFailed x \<in> set rs' \<Longrightarrow> E (Os x)" using ev 1(6) by blast
      have "io_spec ks (length chunk + length (pending_bytes rs')) E ?Q (stream_chunks grain free reserve rs offset written next_check seen (ks, f))"
        unfolding stream_chunks.simps[of grain free reserve rs] r prod.case sum.case if_not_P[OF False]
      proof (rule io_spec_then[OF w])
        fix n ks' f'
        assume W: "?W = Some (Inr n, ks', f')" and q: "growing (seen @ chunk) f' \<and> n \<le> length chunk"
        have len: "offset + length chunk = length (seen @ chunk)" using 1(5) by simp
        show "io_spec ks' (length (pending_bytes rs')) E ?Q
            (if next_check \<le> written + n
             then case space_guard 0 reserve (free (written + n)) of
                 Inl e \<Rightarrow> Some (Inl e, ks', f')
               | Inr _ \<Rightarrow> stream_chunks grain free reserve rs' (offset + length chunk) (written + n) (written + n + GUARD_INTERVAL) (seen @ chunk) (ks', f')
             else stream_chunks grain free reserve rs' (offset + length chunk) (written + n) next_check (seen @ chunk) (ks', f'))"
        proof (cases "next_check \<le> written + n")
          case due: True
          show ?thesis
          proof (cases "space_guard 0 reserve (free (written + n))")
            case (Inl e)
            with due 1(7) show ?thesis by (auto simp: io_spec_def)
          next
            case ok: (Inr u)
            show ?thesis
              using 1(1)[OF r[symmetric] refl False W due ok _ 1(4) len read' 1(7)] q due ok unfolding more by simp
          qed
        next
          case due: False
          show ?thesis
            using 1(2)[OF r[symmetric] refl False W due _ 1(4) len read' 1(7)] q due unfolding more by simp
        qed
      qed
      then show ?thesis using arg_cong[OF bytes, of length] by simp
    qed
  qed
qed

end
