(* ===== verification/Artifact_Laws.thy ===== *)
theory Artifact_Laws
  imports Artifact_Gc Stream_Write
begin

text \<open>
  What every history of the artifact store keeps: names are unique and in their shards, blobs and
  manifests are sealed and read as their digests say, and no name but a materialization shares an
  inode with another.
\<close>

section \<open>Outcomes\<close>

text \<open>\<open>J\<close> holds of the disk after a failure and \<open>I\<close> of the value and the disk after a success.\<close>

definition outcome :: "(disk \<Rightarrow> bool) \<Rightarrow> ('a \<Rightarrow> disk \<Rightarrow> bool) \<Rightarrow> 'a disk_result \<Rightarrow> bool" where
  "outcome J I r \<longleftrightarrow> (case r of None \<Rightarrow> True | Some (Inl _, _, s) \<Rightarrow> J s | Some (Inr a, _, s) \<Rightarrow> I a s)"

lemma outcome_return: "I a (snd x) \<Longrightarrow> outcome J I (Some (Inr a, x))"
  by (cases x) (simp add: outcome_def)

lemma outcome_fail: "J (snd x) \<Longrightarrow> outcome J I (Some (Inl e, x))"
  by (cases x) (simp add: outcome_def)

lemma outcome_then:
  assumes "outcome J I r" "\<And>a x. I a (snd x) \<Longrightarrow> outcome J K (k a x)"
  shows "outcome J K (io_then r k)"
proof (cases r)
  case (Some y)
  obtain v ks s where y: "y = (v, ks, s)" by (cases y) auto
  show ?thesis
  proof (cases v)
    case (Inr a)
    with assms(1) Some y assms(2)[of a "(ks, s)"] show ?thesis by (simp add: outcome_def io_then_def)
  qed (use assms(1) Some y in \<open>simp add: outcome_def io_then_def\<close>)
qed (simp add: outcome_def io_then_def)

lemma outcome_weaken:
  assumes "outcome J I r" "\<And>s. J s \<Longrightarrow> J' s" "\<And>a s. I a s \<Longrightarrow> I' a s"
  shows "outcome J' I' r"
  using assms by (auto simp: outcome_def split: option.splits sum.splits)

lemma outcome_call: "J (snd x) \<Longrightarrow> I () (f (snd x)) \<Longrightarrow> outcome J I (sys_call f x)"
  by (cases "(f, x)" rule: sys_call.cases) (auto simp: outcome_def)

lemma outcome_lift: "J (snd x) \<Longrightarrow> (\<And>a. r = Inr a \<Longrightarrow> I a (snd x)) \<Longrightarrow> outcome J I (lift_result r x)"
  by (cases r; cases x) (auto simp: outcome_def lift_result_def)

lemma outcome_on_file:
  assumes "J (snd x)" "\<And>a ks f. r = Some (Inr a, ks, f) \<Longrightarrow> outcome J K (k a f (ks, snd x))"
  shows "outcome J K (on_file x r k)"
  using assms by (auto simp: outcome_def on_file_def split: option.splits sum.splits)

lemma outcome_unlink:
  assumes "J (snd x)" "I False (snd x)" "ino_of (snd x) p \<noteq> None \<Longrightarrow> I True (drop_name p (snd x))"
  shows "outcome J I (unlink_if_present p x)"
  using assms by (cases "(p, x)" rule: unlink_if_present.cases) (auto simp: outcome_def split: answer.splits)

section \<open>Well-formed disks\<close>

definition store_digest :: "digest \<Rightarrow> bool" where
  "store_digest d \<longleftrightarrow> digest_parse d = Inr d"

fun is_outside :: "path \<Rightarrow> bool" where
  "is_outside (Outside _) = True"
| "is_outside (InDir _ _ _) = False"
| "is_outside (TagFile _) = False"

fun name_ok :: "(string \<Rightarrow> digest) \<Rightarrow> path \<Rightarrow> inode \<Rightarrow> bool" where
  "name_ok sha (InDir dir sh d) x \<longleftrightarrow> store_digest d \<and> sh = shard d \<and>
     (dir = Blobs \<or> dir = Manifests \<longrightarrow> sha (content (in_bytes x)) = d \<and> \<not> owner_may_write (in_mode x))"
| "name_ok sha (TagFile t) x \<longleftrightarrow> tag_parse t = Inr t"
| "name_ok sha (Outside _) x \<longleftrightarrow> True"

definition disk_ok :: "(string \<Rightarrow> digest) \<Rightarrow> disk \<Rightarrow> bool" where
  "disk_ok sha s \<longleftrightarrow> distinct (map fst (dk_names s)) \<and>
     (\<forall>p i. ino_of s p = Some i \<longrightarrow> i < dk_next s \<and> name_ok sha p (dk_inode s i)) \<and>
     (\<forall>p q i. ino_of s p = Some i \<and> ino_of s q = Some i \<and> p \<noteq> q \<longrightarrow> is_outside p \<or> is_outside q) \<and>
     (\<forall>p q i. ino_of s p = Some i \<and> ino_of s q = Some i \<and> \<not> is_outside p \<and> is_outside q \<longrightarrow> \<not> owner_may_write (in_mode (dk_inode s i)))"

lemma ino_simps [simp]:
  "ino_of (place p x s) q = (if q = p then Some (dk_next s) else ino_of s q)"
  "ino_of (add_name p i s) q = (if q = p then Some i else ino_of s q)"
  "ino_of (drop_name p s) q = (if q = p then None else ino_of s q)"
  by (simp_all add: ino_of_def place_def add_name_def drop_name_def)

lemma disk_simps [simp]:
  "dk_next (place p x s) = Suc (dk_next s)" "dk_inode (place p x s) = (dk_inode s)(dk_next s := x)"
  "dk_next (add_name p i s) = dk_next s" "dk_inode (add_name p i s) = dk_inode s"
  "dk_next (drop_name p s) = dk_next s" "dk_inode (drop_name p s) = dk_inode s"
  by (simp_all add: place_def add_name_def drop_name_def)

lemma disk_distinct [simp]:
  assumes "distinct (map fst (dk_names s))"
  shows "distinct (map fst (dk_names (place p x s)))" "distinct (map fst (dk_names (add_name p i s)))" "distinct (map fst (dk_names (drop_name p s)))"
  using assms by (simp_all add: place_def add_name_def drop_name_def)

text \<open>
  One change to the disk. \<open>T\<close> are the names that may go or be replaced: everything else is a new
  sealed file under its digest, a new name outside for a file that its owner may not write, or a write to a file that has names
  outside only.
\<close>

inductive disk_change :: "(string \<Rightarrow> digest) \<Rightarrow> (path \<Rightarrow> bool) \<Rightarrow> disk \<Rightarrow> disk \<Rightarrow> bool" for sha T where
  change_seal: "dir = Blobs \<or> dir = Manifests \<Longrightarrow> ino_of s (digest_path dir d) = None \<Longrightarrow> store_digest d \<Longrightarrow> d = sha (content f) \<Longrightarrow>
    disk_change sha T s (place (digest_path dir d) \<lparr>in_bytes = f, in_mode = BLOB_MODE, in_created = now\<rparr> s)"
| change_replace: "T p \<Longrightarrow> name_ok sha p x \<Longrightarrow> disk_change sha T s (place p x s)"
| change_drop: "T p \<Longrightarrow> disk_change sha T s (drop_name p s)"
| change_link: "ino_of s q = Some i \<Longrightarrow> is_outside q \<or> \<not> owner_may_write (in_mode (dk_inode s i)) \<Longrightarrow> ino_of s (Outside p) = None \<Longrightarrow> disk_change sha T s (add_name (Outside p) i s)"
| change_write: "(\<And>p. ino_of s p = Some i \<Longrightarrow> is_outside p) \<Longrightarrow>
    disk_change sha T s (s\<lparr>dk_inode := (dk_inode s)(i := (dk_inode s i)\<lparr>in_bytes := f\<rparr>)\<rparr>)"

lemma ino_write [simp]: "ino_of (s\<lparr>dk_inode := t\<rparr>) p = ino_of s p"
  by (simp add: ino_of_def)

lemma sealed_mode: "\<not> owner_may_write BLOB_MODE"
  by (simp add: owner_may_write_def BLOB_MODE_def)

lemma name_ok_outside: "is_outside p \<Longrightarrow> name_ok sha p x"
  by (cases p) auto

lemma disk_change_ok: "disk_change sha T s s' \<Longrightarrow> disk_ok sha s \<Longrightarrow> disk_ok sha s'"
proof (induction rule: disk_change.induct)
  case (change_seal dir s d f now)
  then show ?case
    by (auto simp: disk_ok_def digest_path_def sealed_mode less_Suc_eq split: if_splits)
next
  case (change_replace p x s)
  then show ?case by (auto simp: disk_ok_def less_Suc_eq split: if_splits)
next
  case (change_drop p s)
  then show ?case by (auto simp: disk_ok_def split: if_splits)
next
  case (change_link s q i p)
  then show ?case by (auto simp: disk_ok_def split: if_splits)
next
  case (change_write s i f)
  then show ?case by (auto simp: disk_ok_def intro: name_ok_outside)
qed

lemma disk_changes_ok: "(disk_change sha T)\<^sup>*\<^sup>* s s' \<Longrightarrow> disk_ok sha s \<Longrightarrow> disk_ok sha s'"
  by (induction rule: rtranclp_induct) (auto intro: disk_change_ok)

text \<open>A name of the store that is not in \<open>T\<close> keeps its file as it is.\<close>

lemma disk_change_keeps:
  assumes "disk_change sha T s s'" "disk_ok sha s" "ino_of s p = Some i" "\<not> T p" "\<not> is_outside p"
  shows "ino_of s' p = Some i \<and> dk_inode s' i = dk_inode s i"
  using assms(1)
proof cases
  case (change_seal dir d f now)
  then show ?thesis using assms(2,3) by (auto simp: disk_ok_def)
next
  case (change_replace q x)
  then show ?thesis using assms(2-4) by (auto simp: disk_ok_def)
next
  case (change_write j f)
  then show ?thesis using assms(3,5) by auto
qed (use assms in auto)

lemma disk_changes_keep:
  assumes "(disk_change sha T)\<^sup>*\<^sup>* s s'" "disk_ok sha s" "ino_of s p = Some i" "\<not> T p" "\<not> is_outside p"
  shows "ino_of s' p = Some i \<and> dk_inode s' i = dk_inode s i"
  using assms(1)
proof (induction rule: rtranclp_induct)
  case (step y z)
  with disk_change_keeps[OF step(2) disk_changes_ok[OF step(1) assms(2)] _ assms(4,5), of i] show ?case by simp
qed (simp add: assms(3))

section \<open>The operations\<close>

abbreviation leads :: "(string \<Rightarrow> digest) \<Rightarrow> (path \<Rightarrow> bool) \<Rightarrow> disk \<Rightarrow> 'a disk_result \<Rightarrow> bool" where
  "leads sha T s r \<equiv> outcome ((disk_change sha T)\<^sup>*\<^sup>* s) (\<lambda>_. (disk_change sha T)\<^sup>*\<^sup>* s) r"

lemma change_step: "(disk_change sha T)\<^sup>*\<^sup>* s s' \<Longrightarrow> disk_change sha T s' s'' \<Longrightarrow> (disk_change sha T)\<^sup>*\<^sup>* s s''"
  by (rule rtranclp.rtrancl_into_rtrancl)

lemma changes_id_call: "(disk_change sha T)\<^sup>*\<^sup>* s (snd x) \<Longrightarrow> leads sha T s (sys_call id x)"
  by (rule outcome_call) simp_all

text \<open>Linking a sealed file: what it leaves, and which name it was.\<close>

definition linked :: "disk \<Rightarrow> path \<Rightarrow> nat \<Rightarrow> file_bytes \<Rightarrow> link_outcome \<Rightarrow> disk \<Rightarrow> bool" where
  "linked s p now f r s' \<longleftrightarrow>
     (if ino_of s p = None then r = Created \<and> s' = place p \<lparr>in_bytes = f, in_mode = BLOB_MODE, in_created = now\<rparr> s
      else r = AlreadyExists \<and> s' = s)"

lemma seal_and_link_outcome:
  "outcome (\<lambda>s'. s' = snd x \<or> (\<exists>r. linked (snd x) p now f r s')) (linked (snd x) p now f) (seal_and_link now f p x)"
proof -
  let ?J = "\<lambda>s'. s' = snd x \<or> (\<exists>r. linked (snd x) p now f r s')" and ?x = "\<lparr>in_bytes = f, in_mode = BLOB_MODE, in_created = now\<rparr>"
  have link: "outcome ?J (linked (snd x) p now f) (link_into ?x p y)" if "snd y = snd x" for y
    using that by (cases "(?x, p, y)" rule: link_into.cases) (auto simp: outcome_def linked_def split: answer.splits)
  have last: "outcome ?J (linked (snd x) p now f)
      (if r = Created then io_then (sys_call id y) (\<lambda>_ z. Some (Inr r, z)) else Some (Inr r, y))" if "linked (snd x) p now f r (snd y)" for r y
    using that by (auto intro!: outcome_then[OF outcome_call[where I = "\<lambda>_ s'. s' = snd y"]] outcome_return)
  show ?thesis
    unfolding seal_and_link_def
    by (rule outcome_then[OF outcome_call[where I = "\<lambda>_ s'. s' = snd x"]];
      (rule outcome_then[OF outcome_call[where I = "\<lambda>_ s'. s' = snd x"]])?;
      (rule outcome_then[OF outcome_call[where I = "\<lambda>_ s'. s' = snd x"]])?;
      (rule outcome_then[OF link last])?) auto
qed

lemma linked_changes:
  assumes "linked s (digest_path dir d) now f r s'" "dir = Blobs \<or> dir = Manifests" "store_digest d" "d = sha (content f)"
  shows "(disk_change sha T)\<^sup>*\<^sup>* s s'"
proof (cases "ino_of s (digest_path dir d) = None")
  case True
  with assms(1) have "s' = place (digest_path dir d) \<lparr>in_bytes = f, in_mode = BLOB_MODE, in_created = now\<rparr> s" by (simp add: linked_def)
  moreover have "disk_change sha T s (place (digest_path dir d) \<lparr>in_bytes = f, in_mode = BLOB_MODE, in_created = now\<rparr> s)"
    by (rule change_seal) (use assms True in auto)
  ultimately show ?thesis by simp
next
  case False
  with assms(1) show ?thesis by (simp add: linked_def)
qed

text \<open>What an insertion of \<open>data\<close> comes to.\<close>

definition inserted :: "(string \<Rightarrow> digest) \<Rightarrow> disk \<Rightarrow> nat \<Rightarrow> string \<Rightarrow> disk \<Rightarrow> bool" where
  "inserted sha s now data s' \<longleftrightarrow> (\<exists>f r. content f = data \<and> linked s (digest_path Blobs (sha data)) now f r s')"

definition insert_report :: "(string \<Rightarrow> digest) \<Rightarrow> disk \<Rightarrow> string \<Rightarrow> blob_info \<Rightarrow> disk \<Rightarrow> bool" where
  "insert_report sha s data info s' \<longleftrightarrow>
     blob_stat s' (sha data) = Some (info\<lparr>bi_deduped := False\<rparr>) \<and> bi_deduped info = blob_exists s (sha data)"

lemma blob_stat_fresh: "blob_stat s d = Some st \<Longrightarrow> st\<lparr>bi_deduped := False\<rparr> = st"
  by (auto simp: blob_stat_def)

lemma commit_blob_outcome:
  assumes "d = sha data" "content f = data"
  shows "outcome (\<lambda>s'. s' = snd x \<or> inserted sha (snd x) now data s')
    (\<lambda>info s'. inserted sha (snd x) now data s' \<and> insert_report sha (snd x) data info s') (commit_blob now f d x)"
proof -
  have stat: "blob_stat s' d \<noteq> None" if "linked (snd x) (digest_path Blobs d) now f r s'" for r s'
    using that by (auto simp: linked_def blob_stat_def split: if_splits)
  have flag: "(r = AlreadyExists) = blob_exists (snd x) d" if "linked (snd x) (digest_path Blobs d) now f r s'" for r s'
    using that by (auto simp: linked_def blob_exists_def split: if_splits)
  have seal: "outcome (\<lambda>s'. s' = snd x \<or> inserted sha (snd x) now data s') (linked (snd x) (digest_path Blobs d) now f)
      (seal_and_link now f (digest_path Blobs d) x)"
    by (rule outcome_weaken[OF seal_and_link_outcome]) (use assms in \<open>auto simp: inserted_def\<close>)
  show ?thesis
    unfolding commit_blob_def
    by (rule outcome_then[OF seal], rule outcome_lift)
      (use assms stat flag in \<open>auto simp: inserted_def insert_report_def blob_stat_fresh split: option.splits\<close>)
qed

lemma io_then_Some: "io_then r k = Some (Inr b, s) \<Longrightarrow> \<exists>a s1. r = Some (Inr a, s1) \<and> k a s1 = Some (Inr b, s)"
  by (auto simp: io_then_def split: option.splits sum.splits)

lemma io_spec_result: "io_spec ks m E Q (Some (Inr a, ks', f)) \<Longrightarrow> Q a f"
  by (simp add: io_spec_def)

lemma streamed_content:
  assumes "io_then (stream_chunks (shape_grain sh) free reserve rs 0 0 GUARD_INTERVAL [] (ks, [])) (\<lambda>(offset, _, seen) s.
        io_then (ftruncate offset s) (\<lambda>_ s'. Some (Inr seen, s'))) = Some (Inr data, ks', f)" "shape_grain sh \<noteq> Some 0"
  shows "data = pending_bytes rs \<and> content f = data"
proof -
  obtain offset w seen ks1 f1 where st: "stream_chunks (shape_grain sh) free reserve rs 0 0 GUARD_INTERVAL [] (ks, []) = Some (Inr (offset, w, seen), ks1, f1)"
    and tr: "io_then (ftruncate offset (ks1, f1)) (\<lambda>_ s'. Some (Inr seen, s')) = Some (Inr data, ks', f)"
    using io_then_Some[OF assms(1)] by fastforce
  have "io_spec ks (length (pending_bytes rs)) (\<lambda>_. True)
      (\<lambda>(offset', _, seen') f'. growing seen' f' \<and> seen' = [] @ pending_bytes rs \<and> offset' = length seen')
      (stream_chunks (shape_grain sh) free reserve rs 0 0 GUARD_INTERVAL [] (ks, []))"
    by (rule stream_chunks_spec) (use assms(2) in \<open>auto simp: growing_def resize_def\<close>)
  from io_spec_result[OF this[unfolded st]] have "growing seen f1" "seen = pending_bytes rs" "offset = length seen" by auto
  moreover from tr have "f = resize offset f1" "data = seen"
    by (cases "(offset, ks1, f1)" rule: ftruncate.cases; auto simp: io_then_def)+
  ultimately show ?thesis by (simp add: growing_def)
qed

lemma insert_stream_outcome:
  assumes "shape_grain sh \<noteq> Some 0"
  shows "outcome (\<lambda>s'. s' = s \<or> inserted sha s now (pending_bytes rs) s')
    (\<lambda>info s'. inserted sha s now (pending_bytes rs) s' \<and> insert_report sha s (pending_bytes rs) info s')
    (insert_stream sha now free reserve rs sh (ks, s))"
  unfolding insert_stream_def
proof (rule outcome_then[OF outcome_call[where I = "\<lambda>_ s'. s' = s"]])
  fix a :: unit and x :: "answer list \<times> disk"
  assume x: "snd x = s"
  show "outcome (\<lambda>s'. s' = s \<or> inserted sha s now (pending_bytes rs) s')
      (\<lambda>info s'. inserted sha s now (pending_bytes rs) s' \<and> insert_report sha s (pending_bytes rs) info s')
      (on_file x (io_then (stream_chunks (shape_grain sh) free reserve rs 0 0 GUARD_INTERVAL [] (fst x, [])) (\<lambda>(offset, _, seen) s.
          io_then (ftruncate offset s) (\<lambda>_ s'. Some (Inr seen, s')))) (\<lambda>seen f x2. commit_blob now f (sha seen) x2))"
  proof (rule outcome_on_file)
    fix data ks' f
    assume "io_then (stream_chunks (shape_grain sh) free reserve rs 0 0 GUARD_INTERVAL [] (fst x, [])) (\<lambda>(offset, _, seen) s.
          io_then (ftruncate offset s) (\<lambda>_ s'. Some (Inr seen, s'))) = Some (Inr data, ks', f)"
    from streamed_content[OF this assms] show "outcome (\<lambda>s'. s' = s \<or> inserted sha s now (pending_bytes rs) s')
      (\<lambda>info s'. inserted sha s now (pending_bytes rs) s' \<and> insert_report sha s (pending_bytes rs) info s')
      (commit_blob now f (sha data) (ks', snd x))"
      using commit_blob_outcome[of "sha data" sha data f "(ks', s)" now] x by simp
  qed (use x in simp)
qed simp_all

lemma insert_path_outcome:
  assumes "shape_grain sh \<noteq> Some 0"
  shows "outcome (\<lambda>s'. s' = s \<or> inserted sha s now (content src) s')
    (\<lambda>info s'. inserted sha s now (content src) s' \<and> insert_report sha s (content src) info s')
    (insert_path sha now free reserve src sh (ks, s))"
proof -
  let ?J = "\<lambda>s'. s' = s \<or> inserted sha s now (content src) s'"
  let ?I = "\<lambda>info s'. inserted sha s now (content src) s' \<and> insert_report sha s (content src) info s'"
  note call = outcome_then[OF outcome_call[where J = ?J and I = "\<lambda>_ s'. s' = s"]]
  have copy: "outcome ?J ?I (on_file x (copy_observing_guarded src (length src) sh (guard_check free reserve) GUARD_INTERVAL (fst x, []))
       (\<lambda>(seen, _) f x5. commit_blob now f (sha seen) x5))" if x: "snd x = s" for x
  proof (rule outcome_on_file)
    fix a ks' f
    assume r: "copy_observing_guarded src (length src) sh (guard_check free reserve) GUARD_INTERVAL (fst x, []) = Some (Inr a, ks', f)"
    from io_spec_result[OF copy_observing_guarded_spec[OF assms, of "fst x" src "guard_check free reserve" GUARD_INTERVAL, unfolded r]]
    have "content f = content src" "fst a = content src" by auto
    then show "outcome ?J ?I ((case a of (seen, _) \<Rightarrow> \<lambda>f x5. commit_blob now f (sha seen) x5) f (ks', snd x))"
      using commit_blob_outcome[of "sha (content src)" sha "content src" f "(ks', s)" now] x by (cases a) simp
  qed (use x in simp)
  show ?thesis
    unfolding insert_path_def
    by (rule call, simp, simp, rule call, simp, simp, rule outcome_then[OF outcome_lift[where I = "\<lambda>_ s'. s' = s"]], simp, simp,
      rule call, simp, simp, rule copy, simp)
qed

lemma pwrite_all_length:
  "pwrite_all bs off ks f = Some (Inr u, ks', f') \<Longrightarrow> length f' = (if bs = [] then length f else max (length f) (off + length bs))"
proof (induction ks arbitrary: bs off f)
  case (Cons k ks)
  show ?case
  proof (cases "bs = []")
    case False
    show ?thesis
    proof (cases k)
      case (Moved n)
      have m: "0 < moved n (length bs)" "moved n (length bs) \<le> length bs" using False by (auto simp: moved_def)
      from Cons.IH[of "drop (moved n (length bs)) bs" "off + moved n (length bs)" "put_bytes off (take (moved n (length bs)) bs) f"]
        Cons.prems Moved False m
      show ?thesis by (auto simp: Let_def length_put_bytes split: if_splits)
    qed (use Cons False in \<open>auto split: if_splits\<close>)
  qed (use Cons in auto)
qed (auto split: if_splits)

lemma written_whole:
  assumes "pwrite_all bs 0 ks [] = Some (Inr u, ks', f)"
  shows "content f = bs"
proof -
  have l: "length f = length bs" using pwrite_all_length[OF assms] by simp
  have p: "pwrite_all bs 0 ks (resize (length bs) []) = map_file (resize (length bs)) (pwrite_all bs 0 ks [])"
    using pwrite_all_resize[of 0 bs "length bs" "[]" ks] by simp
  have "io_spec ks (length bs) (\<lambda>_. True) (\<lambda>_ f'. content f' = [] @ bs @ []) (pwrite_all bs 0 ks (resize (length bs) []))"
    by (rule pwrite_all_at[where X = "replicate (length bs) (CHR 0x00)"]) (simp_all add: resize_nil)
  from io_spec_result[OF this[unfolded p io_spec_map_file assms]] l show ?thesis by (simp add: resize_def)
qed

lemma put_manifest_outcome:
  "outcome (\<lambda>s'. s' = s \<or> (\<exists>f r. content f = bytes \<and> linked s (digest_path Manifests (sha bytes)) now f r s'))
    (\<lambda>d s'. d = sha bytes \<and> (\<exists>f r. content f = bytes \<and> linked s (digest_path Manifests d) now f r s')) (put_manifest sha now bytes (ks, s))"
proof -
  let ?L = "\<lambda>s'. \<exists>f r. content f = bytes \<and> linked s (digest_path Manifests (sha bytes)) now f r s'"
  have seal: "outcome (\<lambda>s'. s' = s \<or> ?L s') (\<lambda>_. ?L) (seal_and_link now f (digest_path Manifests (sha bytes)) (ks', snd x))" if "content f = bytes" "snd x = s" for f ks' and x :: "answer list \<times> disk"
    unfolding that(2) by (rule outcome_weaken[OF seal_and_link_outcome[of "(ks', s)"]]) (use that in auto)
  show ?thesis
    unfolding put_manifest_def
    by (rule outcome_then[OF outcome_call[where I = "\<lambda>_ s'. s' = s"]], simp, simp, rule outcome_on_file, simp,
      rule outcome_then[OF seal], simp add: written_whole, assumption, rule outcome_return, simp)
qed

lemma replace_file_changes:
  assumes "T p" "\<And>x. name_ok sha p x"
  shows "leads sha T s (replace_file now p body (ks, s))"
  unfolding replace_file_def
  by (rule outcome_then[OF outcome_call[where I = "\<lambda>_ s'. s' = s"]], simp, simp, rule outcome_on_file, simp,
    rule outcome_then[OF outcome_call[where I = "\<lambda>_ s'. s' = s"]], simp, simp,
    rule outcome_then[OF outcome_call[where I = "\<lambda>_. (disk_change sha T)\<^sup>*\<^sup>* s"]])
    (use assms in \<open>auto intro: outcome_call change_replace\<close>)

lemma unlink_changes: "T p \<Longrightarrow> leads sha T s (unlink_if_present p (ks, s))"
  by (rule outcome_unlink) (auto intro: change_drop)

lemma set_label_changes:
  assumes "T (digest_path Labels d)" "store_digest d"
  shows "leads sha T s (set_label to_json now d l (ks, s))"
  unfolding set_label_def
proof (rule outcome_then[OF outcome_lift[where I = "\<lambda>_ s'. s' = s"]])
  fix a and x :: "answer list \<times> disk"
  assume "snd x = s"
  moreover have "name_ok sha (digest_path Labels d) y" for y using assms(2) by (simp add: digest_path_def)
  ultimately show "leads sha T s (if \<not> (blob_exists (snd x) d \<or> manifest_exists (snd x) d) then Some (Inl (NotFound d), x)
      else replace_file now (digest_path Labels d) (to_json l) x)"
    using replace_file_changes[of T "digest_path Labels d" sha s now "to_json l" "fst x"] assms(1) by (cases x) (auto intro: outcome_fail)
qed simp_all

lemma set_public_changes:
  assumes "T (digest_path Public d)" "store_digest d"
  shows "leads sha T s (set_public now d (ks, s))"
proof -
  let ?p = "digest_path Public d" and ?x = "\<lparr>in_bytes = [], in_mode = 420, in_created = now\<rparr>"
  have "name_ok sha ?p y" for y using assms(2) by (simp add: digest_path_def)
  then have one: "(disk_change sha T)\<^sup>*\<^sup>* s (place ?p ?x s)" using assms(1) by (intro change_step[OF rtranclp.rtrancl_refl] change_replace)
  have "leads sha T s (sys_call (if ino_of s ?p = None then place ?p ?x else id) (ks, s))"
    by (rule outcome_call) (use one in auto)
  then have "leads sha T s (io_then (sys_call (if ino_of s ?p = None then place ?p ?x else id) (ks, s)) (\<lambda>_ x1. sys_call id x1))"
    by (rule outcome_then) (rule changes_id_call)
  then show ?thesis by (simp add: set_public_def Let_def outcome_fail)
qed

lemma copy_out_changes:
  assumes "disk_ok sha s" "T (Outside dest)" "snd x = s"
  shows "leads sha T s (copy_out now free reserve src (Outside dest) sh mode x)"
proof -
  let ?p = "Outside dest" let ?x = "\<lparr>in_bytes = [], in_mode = mode, in_created = now\<rparr>"
  have placed: "disk_change sha T s (place ?p ?x s)" using assms(2) by (intro change_replace) auto
  have create: "outcome ((disk_change sha T)\<^sup>*\<^sup>* s) (\<lambda>_ s'. s' = place ?p ?x s) (create_dest now ?p mode y)" if "snd y = s" for y
    using that by (auto simp: create_dest_def intro: outcome_fail outcome_call)
  have fill: "leads sha T s (fill_dest ?p src sh y)" if y: "snd y = place ?p ?x s" for y
  proof -
    have "is_outside q" if "ino_of (place ?p ?x s) q = Some (dk_next s)" for q
      using that assms(1) by (auto simp: disk_ok_def split: if_splits)
    then have "disk_change sha T (place ?p ?x s)
        ((place ?p ?x s)\<lparr>dk_inode := (dk_inode (place ?p ?x s))(dk_next s := (dk_inode (place ?p ?x s) (dk_next s))\<lparr>in_bytes := f\<rparr>)\<rparr>)" for f
      by (rule change_write)
    with change_step[OF change_step[OF rtranclp.rtrancl_refl placed]] y show ?thesis
      by (auto simp: fill_dest_def outcome_def split: option.splits sum.splits)
  qed
  show ?thesis
    unfolding copy_out_def
    by (rule outcome_then[OF outcome_lift[where I = "\<lambda>_ s'. s' = s"]], use assms(3) in simp, simp add: assms(3),
      rule outcome_then[OF outcome_call[where I = "\<lambda>_ s'. s' = s"]], simp, simp,
      rule outcome_then[OF create], simp, rule outcome_then[OF fill], simp,
      rule outcome_then[OF changes_id_call], simp, rule outcome_return, simp)
qed

lemma materialize_changes:
  assumes "disk_ok sha s" "T (Outside dest)"
  shows "leads sha T s (materialize now free reserve same_device d dest how (ks, s))"
proof (cases "ino_of s (digest_path Blobs d)")
  case None
  then show ?thesis by (simp add: materialize_def outcome_def)
next
  case (Some i)
  then have sealed: "\<not> owner_may_write (in_mode (dk_inode s i))" using assms(1) by (fastforce simp: disk_ok_def digest_path_def)
  have copied: "leads sha T s (copy_out now free reserve src (Outside dest) sh mode x)" if "snd x = s" for src sh mode x
    by (rule copy_out_changes) (use assms that in auto)
  have linked: "leads sha T s
      (case ks of [] \<Rightarrow> None
       | Moved _ # ks \<Rightarrow> if ino_of s (Outside dest) \<noteq> None then Some (Inl (Io (Os EEXIST)), ks, s)
             else Some (Inr (Hardlink, 0), ks, add_name (Outside dest) i s)
       | Errno e # ks \<Rightarrow> if e = EMLINK then copy_out now free reserve src (Outside dest) HoleAware BLOB_MODE (ks, s) else Some (Inl (Io (Os e)), ks, s))"
    for ks src
    using copied[of "(_, s)"] change_link[OF Some, of dest sha T] sealed
    by (auto simp: outcome_def[of _ _ "Some _"] outcome_def[of _ _ None] split: list.split answer.split)
  show ?thesis
    unfolding materialize_def snd_conv Some option.case Let_def
    by (rule outcome_then[OF outcome_call[where I = "\<lambda>_ s'. s' = s"]], simp, simp)
      (auto split: materialize_as.split intro!: copied linked outcome_then[OF outcome_call[where I = "\<lambda>_ s'. s' = s"]])
qed

end
