(* ===== verification/Artifact_Runs.thy ===== *)
theory Artifact_Runs
  imports Artifact_Laws
begin

text \<open>
  When the operations of the artifact store return, what makes them fail, and what an insertion
  comes to (\<open>artifacts/src/store.rs\<close>).
\<close>

section \<open>Costs\<close>

text \<open>
  A run that needs at most \<open>n\<close> calls that succeed, and fails only with the error of a call or with
  one that \<open>E\<close> allows.
\<close>

definition costs :: "nat \<Rightarrow> (store_error \<Rightarrow> bool) \<Rightarrow> answer list \<times> disk \<Rightarrow> 'a disk_result \<Rightarrow> bool" where
  "costs n E x r \<longleftrightarrow>
     (case r of
        None \<Rightarrow> moves (fst x) < n
      | Some (Inl e, _) \<Rightarrow> E e \<or> (\<exists>y. e = Io (Os y) \<and> Errno y \<in> set (fst x))
      | Some (Inr _, x') \<Rightarrow> moves (fst x) \<le> moves (fst x') + n \<and> set (fst x') \<subseteq> set (fst x))"

lemma costs_return: "costs n E x (Some (Inr a, x))"
  by (simp add: costs_def)

lemma costs_then:
  assumes "costs n E x r" "\<And>a x'. r = Some (Inr a, x') \<Longrightarrow> costs m E x' (k a x')"
  shows "costs (n + m) E x (io_then r k)"
proof (cases r)
  case (Some y)
  show ?thesis
  proof (cases "fst y")
    case (Inl e)
    with Some assms(1) show ?thesis by (cases y) (simp add: costs_def io_then_def)
  next
    case (Inr a)
    then have y: "r = Some (Inr a, snd y)" using Some by (cases y) simp
    with assms(1) assms(2)[OF y] show ?thesis
      by (auto simp: costs_def io_then_def split: option.splits sum.splits) (blast+)?
  qed
qed (use assms(1) in \<open>simp add: costs_def io_then_def\<close>)

lemma costs_call: "costs 1 E x (sys_call f x)"
  by (cases "(f, x)" rule: sys_call.cases) (auto simp: costs_def)

lemma costs_lift: "(\<And>e. r = Inl e \<Longrightarrow> E e) \<Longrightarrow> costs 0 E x (lift_result r x)"
  by (cases r) (auto simp: costs_def lift_result_def)

lemma costs_on_file:
  assumes "io_spec (fst x) n F Q r" "\<And>e. F e \<Longrightarrow> E (Io e)" "\<And>a ks f. r = Some (Inr a, ks, f) \<Longrightarrow> costs m E (ks, snd x) (k a f (ks, snd x))"
  shows "costs (n + m) E x (on_file x r k)"
proof (cases r)
  case (Some y)
  obtain v ks f where y: "y = (v, ks, f)" by (cases y) auto
  show ?thesis
  proof (cases v)
    case (Inl e)
    with Some y assms(1,2) show ?thesis by (auto simp: costs_def on_file_def io_spec_def blames_def)
  next
    case (Inr a)
    with Some y have r: "r = Some (Inr a, ks, f)" by simp
    from assms(1) assms(3)[OF r] show ?thesis
      by (auto simp: r costs_def on_file_def io_spec_def split: option.splits sum.splits) (blast+)?
  qed
qed (use assms(1) in \<open>simp add: costs_def on_file_def io_spec_def\<close>)

lemma outcome_costs:
  assumes "outcome J I r" "costs n E (ks, s) r"
  shows "case r of None \<Rightarrow> moves ks < n
    | Some (Inl e, _, s') \<Rightarrow> J s' \<and> (E e \<or> (\<exists>y. e = Io (Os y) \<and> Errno y \<in> set ks))
    | Some (Inr a, _, s') \<Rightarrow> I a s'"
  using assms by (auto simp: outcome_def costs_def split: option.splits sum.splits)

lemma costs_link: "costs 1 E x (link_into n p x)"
  by (cases "(n, p, x)" rule: link_into.cases) (auto simp: costs_def split: answer.splits)

lemma costs_mono: "costs n E x r \<Longrightarrow> n \<le> n' \<Longrightarrow> costs n' E x r"
  by (auto simp: costs_def split: option.splits sum.splits)

lemma costs_answer:
  assumes "costs m E (ks, s) r" "Suc m \<le> n"
  shows "costs n E (Moved k # ks, s) r"
proof (cases r)
  case (Some y)
  with assms show ?thesis by (cases "fst y") (auto simp: costs_def case_prod_unfold)
qed (use assms in \<open>simp add: costs_def\<close>)

lemma seal_and_link_costs: "costs (1 + (1 + (1 + (1 + 1)))) E x (seal_and_link now f p x)"
  unfolding seal_and_link_def
  by (rule costs_then[OF costs_call], rule costs_then[OF costs_call], rule costs_then[OF costs_call], rule costs_then[OF costs_link])
    (auto intro: costs_mono[OF costs_then[OF costs_call costs_return[where n = 0]]] costs_return)

lemma commit_blob_costs: "costs (5 + 0) E x (commit_blob now f d x)"
  unfolding commit_blob_def
proof (rule costs_then)
  show "costs 5 E x (seal_and_link now f (digest_path Blobs d) x)" using seal_and_link_costs[of E x now f] by (simp add: numeral_eq_Suc)
next
  fix r x'
  assume "seal_and_link now f (digest_path Blobs d) x = Some (Inr r, x')"
  with seal_and_link_outcome[of x "digest_path Blobs d" now f] have "linked (snd x) (digest_path Blobs d) now f r (snd x')"
    by (cases x') (simp add: outcome_def)
  then have "blob_stat (snd x') d \<noteq> None" by (auto simp: linked_def blob_stat_def split: if_splits)
  then show "costs 0 E x' (lift_result (case blob_stat (snd x') d of None \<Rightarrow> Inl (NotFound d) | Some info \<Rightarrow> Inr (info\<lparr>bi_deduped := (r = AlreadyExists)\<rparr>)) x')"
    by (intro costs_lift) auto
qed

section \<open>Insertions\<close>

lemma streamed_costs:
  assumes "shape_grain sh \<noteq> Some 0"
  shows "io_spec ks (length (pending_bytes rs) + 1) (\<lambda>e. (\<exists>x. e = Os x \<and> ReadFailed x \<in> set rs) \<or> (\<exists>w. space_guard 0 reserve (free w) = Inl e)) (\<lambda>_ _. True)
    (io_then (stream_chunks (shape_grain sh) free reserve rs 0 0 GUARD_INTERVAL [] (ks, [])) (\<lambda>(offset, _, seen) s.
        io_then (ftruncate offset s) (\<lambda>_ s'. Some (Inr seen, s'))))"
proof -
  let ?E = "\<lambda>e. (\<exists>x. e = Os x \<and> ReadFailed x \<in> set rs) \<or> (\<exists>w. space_guard 0 reserve (free w) = Inl e)"
  let ?r = "stream_chunks (shape_grain sh) free reserve rs 0 0 GUARD_INTERVAL [] (ks, [])"
  have s: "io_spec ks (length (pending_bytes rs)) ?E
      (\<lambda>(offset', _, seen') f'. growing seen' f' \<and> seen' = [] @ pending_bytes rs \<and> offset' = length seen') ?r"
    by (rule stream_chunks_spec) (use assms in \<open>auto simp: growing_def resize_def\<close>)
  have f: "io_spec ks' (1 + 0) ?E (\<lambda>_ _. True) ((case a of (offset, _, seen) \<Rightarrow> \<lambda>s. io_then (ftruncate offset s) (\<lambda>_ s'. Some (Inr seen, s'))) (ks', g))" for ks' g and a :: "nat \<times> nat \<times> string"
    by (cases a, simp only: prod.case, rule io_spec_then[OF ftruncate_spec], rule io_spec_return, simp)
  show ?thesis using io_spec_then[OF s, where m = "1 + 0", OF f] by simp
qed

lemma insert_stream_costs:
  assumes "shape_grain sh \<noteq> Some 0"
  shows "costs (length (pending_bytes rs) + 7)
    (\<lambda>e. (\<exists>y. e = Io (Os y) \<and> ReadFailed y \<in> set rs) \<or> (\<exists>x w. e = Io x \<and> space_guard 0 reserve (free w) = Inl x))
    (ks, s) (insert_stream sha now free reserve rs sh (ks, s))"
proof -
  let ?E = "\<lambda>e. (\<exists>y. e = Io (Os y) \<and> ReadFailed y \<in> set rs) \<or> (\<exists>x w. e = Io x \<and> space_guard 0 reserve (free w) = Inl x)"
  have "costs (1 + (length (pending_bytes rs) + 1 + (5 + 0))) ?E (ks, s) (insert_stream sha now free reserve rs sh (ks, s))"
    unfolding insert_stream_def
    by (rule costs_then[OF costs_call], rule costs_on_file[OF streamed_costs[OF assms]], blast, rule commit_blob_costs)
  then show ?thesis by (rule costs_mono) simp
qed

lemma insert_path_costs:
  assumes "shape_grain sh \<noteq> Some 0"
  shows "costs (4 * length src + 9) (\<lambda>e. \<exists>x needed w. e = Io x \<and> space_guard needed reserve (free w) = Inl x)
    (ks, s) (insert_path sha now free reserve src sh (ks, s))"
proof -
  let ?E = "\<lambda>e. \<exists>x needed w. e = Io x \<and> space_guard needed reserve (free w) = Inl x"
  have check: "?E (Io e)" if "\<exists>n g. guard_check free reserve n g = Inl e" for e
    using that by (auto simp: guard_check_def and_then_def split: if_splits sum.splits)
  have first: "?E e" if "(if shape_grain sh = None then map_err Io (space_guard (allocated src) reserve (free 0)) else Inr ()) = Inl e" for e
    using that by (auto simp: map_err_def split: if_splits sum.splits)
  have "costs (1 + (1 + (0 + (1 + ((1 + 4 * length src) + (5 + 0)))))) ?E (ks, s) (insert_path sha now free reserve src sh (ks, s))"
    unfolding insert_path_def
    by (rule costs_then[OF costs_call], rule costs_then[OF costs_call], rule costs_then[OF costs_lift[OF first]], assumption,
      rule costs_then[OF costs_call], rule costs_on_file[OF copy_observing_guarded_spec[OF assms]], rule check, assumption)
      (auto split: prod.splits intro: commit_blob_costs[simplified])
  then show ?thesis by (rule costs_mono) simp
qed

text \<open>
  C12. An insertion is exact, from a stream and from a file. It returns once each byte of a stream and
  seven more calls (for a file four calls for each byte and nine more) have succeeded. When it
  succeeds the blob is there under its digest, reported as it is on the disk: a new sealed file that reads as the data if the
  name was free, and otherwise the disk as it was. When it fails, the error is that of a call, of the
  reader or of the free-space check, and the disk is as it was or has the finished blob: never a
  part of one.
\<close>

theorem insertion_exact:
  assumes "shape_grain sh \<noteq> Some 0"
  shows "(case insert_stream sha now free reserve rs sh (ks, s) of
       None \<Rightarrow> moves ks < length (pending_bytes rs) + 7
     | Some (Inl e, _, s') \<Rightarrow> (s' = s \<or> inserted sha s now (pending_bytes rs) s') \<and>
         (((\<exists>y. e = Io (Os y) \<and> ReadFailed y \<in> set rs) \<or> (\<exists>x w. e = Io x \<and> space_guard 0 reserve (free w) = Inl x)) \<or> (\<exists>y. e = Io (Os y) \<and> Errno y \<in> set ks))
     | Some (Inr info, _, s') \<Rightarrow> inserted sha s now (pending_bytes rs) s' \<and> insert_report sha s (pending_bytes rs) info s') \<and>
    (case insert_path sha now free reserve src sh (ks, s) of
       None \<Rightarrow> moves ks < 4 * length src + 9
     | Some (Inl e, _, s') \<Rightarrow> (s' = s \<or> inserted sha s now (content src) s') \<and>
         ((\<exists>x needed w. e = Io x \<and> space_guard needed reserve (free w) = Inl x) \<or> (\<exists>y. e = Io (Os y) \<and> Errno y \<in> set ks))
     | Some (Inr info, _, s') \<Rightarrow> inserted sha s now (content src) s' \<and> insert_report sha s (content src) info s')"
  using outcome_costs[OF insert_stream_outcome[OF assms] insert_stream_costs[OF assms]] outcome_costs[OF insert_path_outcome[OF assms] insert_path_costs[OF assms]]
  by (rule conjI)

theorem insertion_exact_witness:
  "let s = \<lparr>dk_names = [], dk_inode = (\<lambda>_. \<lparr>in_bytes = [], in_mode = 0, in_created = 0\<rparr>), dk_next = 0\<rparr>; sha = (\<lambda>_. replicate 64 (CHR ''0'')) in
   case insert_stream sha 5 (\<lambda>_. 100) 10 [Got CHR ''h'' ''i''] HoleAware (replicate 9 (Moved 1), s) of
     None \<Rightarrow> False
   | Some (Inl e, _, _) \<Rightarrow> False
   | Some (Inr info, _, s') \<Rightarrow> inserted sha s 5 ''hi'' s' \<and> bi_deduped info = False"
proof -
  have "moves (replicate 9 (Moved 1)) = 9" "Errno y \<notin> set (replicate 9 (Moved 1))" for y by (simp_all add: moves_def)
  moreover have "space_guard 0 10 100 = Inr ()" by (simp add: space_guard_def u64_sat_add_def)
  ultimately show ?thesis
    using insertion_exact[where sh = HoleAware and ks = "replicate 9 (Moved 1)" and rs = "[Got CHR ''h'' ''i'']" and free = "\<lambda>_. 100" and reserve = 10 and
        sha = "\<lambda>_. replicate 64 (CHR ''0'')" and now = 5 and src = "[]" and s = "\<lparr>dk_names = [], dk_inode = (\<lambda>_. \<lparr>in_bytes = [], in_mode = 0, in_created = 0\<rparr>), dk_next = 0\<rparr>"]
    by (auto simp: Let_def insert_report_def blob_exists_def ino_of_def split: option.splits sum.splits)
qed

section \<open>Verification of a blob\<close>

lemma hash_blob_run:
  assumes "seen = take off (content src)" "off \<le> length src"
  shows "outcome (\<lambda>s'. s' = s) (\<lambda>seen' s'. seen' = content src \<and> s' = s) (hash_blob src off seen ks s) \<and>
    costs (length src - off) E (ks, s) (hash_blob src off seen ks s)"
  using assms
proof (induction ks arbitrary: off seen)
  case Nil
  then show ?case by (auto simp: outcome_def costs_def)
next
  case (Cons k ks)
  show ?case
  proof (cases "off < length src")
    case True
    let ?want = "min (length src - off) BUF_LEN"
    have want: "0 < ?want" "off + ?want \<le> length src" using True by (auto simp: BUF_LEN_def)
    show ?thesis
    proof (cases k)
      case (Moved n)
      define bs where "bs = take (max 1 n) (take ?want (drop off (content src)))"
      have bs: "bs \<noteq> []" "off + length bs \<le> length src" using want True by (auto simp: bs_def)
      have seen: "seen @ bs = take (off + length bs) (content src)"
        using Cons.prems(1) by (simp add: bs_def take_add min.absorb2 min.commute min.left_commute)
      have less: "length src - off \<ge> Suc (length src - (off + length bs))" using True bs by (cases bs) auto
      have "pread src ?want off (k # ks, []) = Some (Inr bs, ks, [])" by (simp add: Moved bs_def)
      then have step: "hash_blob src off seen (k # ks) s = hash_blob src (off + length bs) (seen @ bs) ks s" using True bs(1) by (simp del: pread.simps)
      from Cons.IH[OF seen bs(2)] costs_answer[OF _ less, of E ks s _ n, folded Moved] show ?thesis unfolding step by blast
    qed (use True in \<open>simp add: outcome_def costs_def\<close>)
  qed (use Cons.prems in \<open>simp add: outcome_def costs_def\<close>)
qed

definition blob_size :: "disk \<Rightarrow> digest \<Rightarrow> nat" where
  "blob_size s d = (case bytes_at s (digest_path Blobs d) of None \<Rightarrow> 0 | Some bs \<Rightarrow> length bs)"

lemma verify_run:
  "outcome (\<lambda>s'. s' = s) (\<lambda>_ s'. s' = s \<and> (\<exists>bs. bytes_at s (digest_path Blobs d) = Some bs \<and> sha bs = d)) (verify sha d (ks, s)) \<and>
   costs (2 + blob_size s d)
     (\<lambda>e. case bytes_at s (digest_path Blobs d) of None \<Rightarrow> e = NotFound d | Some bs \<Rightarrow> sha bs \<noteq> d \<and> e = DigestMismatch d (sha bs))
     (ks, s) (verify sha d (ks, s))"
proof (cases "ino_of s (digest_path Blobs d)")
  case None
  then show ?thesis by (simp add: verify_def outcome_def costs_def bytes_at_def)
next
  case (Some i)
  let ?src = "in_bytes (dk_inode s i)"
  let ?E = "\<lambda>e. sha (content ?src) \<noteq> d \<and> e = DigestMismatch d (sha (content ?src))"
  let ?k = "\<lambda>seen x3. if sha seen \<noteq> d then Some (Inl (DigestMismatch d (sha seen)), x3) else Some (Inr (), x3)"
  have bytes: "bytes_at s (digest_path Blobs d) = Some (content ?src)" using Some by (simp add: bytes_at_def)
  note read = hash_blob_run[of "[]" 0 ?src s, simplified]
  have out: "outcome (\<lambda>s'. s' = s) (\<lambda>_ s'. s' = s \<and> sha (content ?src) = d) (io_then (hash_blob ?src 0 [] (fst x) (snd x)) ?k)" if "snd x = s" for x
    by (rule outcome_then[where I = "\<lambda>seen s'. seen = content ?src \<and> s' = s"]) (use that read in \<open>auto intro: outcome_return outcome_fail\<close>)
  have cost: "costs (length ?src + 0) ?E x (io_then (hash_blob ?src 0 [] (fst x) (snd x)) ?k)" if "snd x = s" for x
  proof (rule costs_then)
    show "costs (length ?src) ?E x (hash_blob ?src 0 [] (fst x) (snd x))" using read[of "fst x" ?E] that by (cases x) simp
  next
    fix seen x3
    assume "hash_blob ?src 0 [] (fst x) (snd x) = Some (Inr seen, x3)"
    with read[of "fst x"] that have "seen = content ?src" by (cases x3) (simp add: outcome_def)
    then show "costs 0 ?E x3 (?k seen x3)" by (simp add: costs_def)
  qed
  have call: "r = Some (Inr u, y) \<Longrightarrow> r = sys_call id x \<Longrightarrow> snd y = snd x" for r u x y by (cases "(id :: disk \<Rightarrow> disk, x)" rule: sys_call.cases) auto
  have "outcome (\<lambda>s'. s' = s) (\<lambda>_ s'. s' = s \<and> sha (content ?src) = d) (verify sha d (ks, s))"
    unfolding verify_def snd_conv Some option.case
    by (rule outcome_then[OF outcome_call[where I = "\<lambda>_ s'. s' = s"]], simp, simp,
      rule outcome_then[OF outcome_call[where I = "\<lambda>_ s'. s' = s"]], simp, simp, rule out)
  moreover have "costs (1 + (1 + (length ?src + 0))) ?E (ks, s) (verify sha d (ks, s))"
    unfolding verify_def snd_conv Some option.case
    by (rule costs_then[OF costs_call], rule costs_then[OF costs_call], rule cost) (metis call snd_conv)
  ultimately show ?thesis by (simp add: bytes blob_size_def)
qed

text \<open>
  C25. Verification of a blob decides whether the bytes on the disk have the digest they are named by.
  It returns once a call for each byte and two more have succeeded, accepts exactly a blob whose bytes
  hash to its name, reports a blob that is missing or hashes to something else as such, and never
  changes the disk; any other failure is the error of a call.
\<close>

theorem verify_exact:
  "case verify sha d (ks, s) of
     None \<Rightarrow> moves ks < 2 + blob_size s d
   | Some (Inl e, _, s') \<Rightarrow> s' = s \<and>
       ((case bytes_at s (digest_path Blobs d) of None \<Rightarrow> e = NotFound d | Some bs \<Rightarrow> sha bs \<noteq> d \<and> e = DigestMismatch d (sha bs)) \<or>
        (\<exists>y. e = Io (Os y) \<and> Errno y \<in> set ks))
   | Some (Inr _, _, s') \<Rightarrow> s' = s \<and> (\<exists>bs. bytes_at s (digest_path Blobs d) = Some bs \<and> sha bs = d)"
  by (rule outcome_costs[OF verify_run[THEN conjunct1] verify_run[THEN conjunct2]])

end
