(* ===== verification/Artifact_Sweep.thy ===== *)
theory Artifact_Sweep
  imports Artifact_Runs
begin

text \<open>
  What a garbage collection does (\<open>artifacts/src/gc.rs\<close>), as closed forms of the disk it started on:
  which names it removes and what it reports.
\<close>

section \<open>Disks without some names\<close>

definition without :: "(path \<Rightarrow> bool) \<Rightarrow> disk \<Rightarrow> disk" where
  "without P s = s\<lparr>dk_names := filter (\<lambda>(p, _). \<not> P p) (dk_names s)\<rparr>"

lemma map_of_filter_names: "map_of (filter (\<lambda>(p, _). \<not> P p) xs) q = (if P q then None else map_of xs q)"
  by (induction xs) auto

lemma without_simps [simp]:
  "ino_of (without P s) p = (if P p then None else ino_of s p)" "dk_inode (without P s) = dk_inode s" "dk_next (without P s) = dk_next s"
  "without (\<lambda>_. False) s = s"
  by (auto simp: without_def ino_of_def map_of_filter_names filter_True)

lemma without_without: "without P (without Q s) = without (\<lambda>p. P p \<or> Q p) s"
  by (simp add: without_def case_prod_unfold conj_commute)

lemma drop_name_without: "drop_name p s = without (\<lambda>q. q = p) s"
  by (simp add: drop_name_def without_def put_def AList.delete_eq case_prod_unfold eq_commute)

lemma ino_of_iff: "distinct (map fst (dk_names s)) \<Longrightarrow> ino_of s p = Some i \<longleftrightarrow> (p, i) \<in> set (dk_names s)"
  by (simp add: ino_of_def)

lemma disk_ok_names: "disk_ok sha s \<Longrightarrow> distinct (map fst (dk_names s))"
  by (simp add: disk_ok_def)

lemma disk_ok_without: "disk_ok sha s \<Longrightarrow> disk_ok sha (without P s)"
  by (auto simp: disk_ok_def split: if_splits) (auto simp: without_def distinct_map_filter)

lemma nlink_without:
  assumes "disk_ok sha s" "\<And>p. P p \<Longrightarrow> \<not> is_outside p" "ino_of s q = Some i" "\<not> is_outside q" "\<not> P q"
  shows "nlink (without P s) i = nlink s i"
proof -
  have "\<not> P p" if "(p, i) \<in> set (dk_names s)" for p
  proof
    assume p: "P p"
    then have "p \<noteq> q" "\<not> is_outside p" using assms(2,5) by auto
    moreover have "ino_of s p = Some i" using that ino_of_iff[OF disk_ok_names[OF assms(1)]] by simp
    ultimately show False using assms(1,3,4) unfolding disk_ok_def by blast
  qed
  then show ?thesis by (auto simp: nlink_def without_def intro!: arg_cong[of _ _ length] filter_cong)
qed

lemma blob_stat_without:
  assumes "disk_ok sha s" "\<And>p. P p \<Longrightarrow> \<not> is_outside p" "\<not> P (digest_path Blobs d)"
  shows "blob_stat (without P s) d = blob_stat s d"
proof (cases "ino_of s (digest_path Blobs d)")
  case (Some i)
  have "nlink (without P s) i = nlink s i"
    by (rule nlink_without[where q = "digest_path Blobs d" and sha = sha]) (use assms Some in \<open>auto simp: digest_path_def\<close>)
  with Some assms(3) show ?thesis by (simp add: blob_stat_def)
qed (simp add: blob_stat_def)

section \<open>Listings\<close>

lemma hex_digits: "hex_byte c \<longleftrightarrow> (\<exists>n < 16. c = hex_digit n)"
proof
  assume "hex_byte c"
  then consider "48 \<le> byte c" "byte c \<le> 57" | "97 \<le> byte c" "byte c \<le> 102" by (auto simp: hex_byte_def is_ascii_digit_def)
  then show "\<exists>n < 16. c = hex_digit n"
  proof cases
    case 1
    then show ?thesis by (intro exI[of _ "byte c - 48"]) (auto simp: hex_digit_def byte_def)
  next
    case 2
    then show ?thesis by (intro exI[of _ "byte c - 87"]) (auto simp: hex_digit_def byte_def)
  qed
next
  assume "\<exists>n < 16. c = hex_digit n"
  then show "hex_byte c" by (auto simp: hex_digit_def hex_byte_def is_ascii_digit_def byte_def split: if_splits)
qed

lemma hex_digit_inj:
  assumes "a < 16" "b < 16" "hex_digit a = hex_digit b"
  shows "a = b"
proof -
  have n: "of_char (hex_digit n) = (if n < 10 then 48 + n else 87 + n)" if "n < 16" for n :: nat
    using that by (simp add: hex_digit_def)
  have "(if a < 10 then 48 + a else 87 + a) = (if b < 10 then 48 + b else 87 + b)"
    using n[OF assms(1)] n[OF assms(2)] assms(3) by simp
  with assms(1,2) show ?thesis by presburger
qed

lemma shard_listed:
  assumes "store_digest d"
  shows "shard d \<in> set all_shards"
proof -
  from assms obtain a b where ab: "shard d = [a, b]" "hex_byte a" "hex_byte b"
    using hex_shard[of d] by (auto simp: store_digest_def length_Suc_conv numeral_2_eq_2)
  then obtain m n where "m < 16" "a = hex_digit m" "n < 16" "b = hex_digit n" by (auto simp: hex_digits)
  then show ?thesis unfolding ab(1) all_shards_def by (auto intro!: image_eqI[of _ _ "16 * m + n"])
qed

lemma all_shards_distinct: "distinct all_shards"
proof -
  have "x = y" if "x < 256" "y < 256" "hex_digit (x div 16) = hex_digit (y div 16)" "hex_digit (x mod 16) = hex_digit (y mod 16)" for x y :: nat
  proof -
    have "x div 16 = y div 16" "x mod 16 = y mod 16" using that hex_digit_inj[OF _ _ that(3)] hex_digit_inj[OF _ _ that(4)] by auto
    then show ?thesis by (metis div_mult_mod_eq)
  qed
  then show ?thesis by (auto simp: all_shards_def distinct_map inj_on_def)
qed

lemma map_filter_sound: "y \<in> set (List.map_filter f xs) \<longleftrightarrow> (\<exists>x \<in> set xs. f x = Some y)"
  by (induction xs) (auto simp: List.map_filter_simps split: option.splits)

lemma map_filter_distinct: "distinct (map fst xs) \<Longrightarrow> (\<And>x y. f x = Some y \<Longrightarrow> fst x = g y) \<Longrightarrow> distinct (List.map_filter f xs)"
proof (induction xs)
  case (Cons x xs)
  then have "distinct (List.map_filter f xs)" by simp
  moreover have "y \<notin> set (List.map_filter f xs)" if "f x = Some y" for y
    using that Cons.prems Cons.prems(2)[of x y] by (force simp: map_filter_sound)
  ultimately show ?case by (simp add: List.map_filter_simps split: option.splits)
qed (simp add: List.map_filter_simps)

text \<open>Names of the store: a directory lists exactly its digests, each once.\<close>

lemma shard_entries_set:
  assumes "disk_ok sha s"
  shows "set (shard_entries s dir sh) = {(d, i). ino_of s (InDir dir sh d) = Some i}"
proof -
  have "\<not> prefix ''.'' d" if "ino_of s (InDir dir sh d) = Some i" for d i
  proof -
    have "store_digest d" using assms that by (fastforce simp: disk_ok_def)
    then have "d \<noteq> []" "hex_byte (hd d)" by (cases d; auto simp: store_digest_def digest_parse_iff)+
    then show ?thesis by (cases d) (auto simp: hex_byte_def is_ascii_digit_def byte_def)
  qed
  then show ?thesis
    by (auto simp: shard_entries_def map_filter_sound ino_of_iff[OF disk_ok_names[OF assms]] split: path.splits if_splits)
      (force intro!: bexI[rotated])+
qed

lemma shard_digests_set:
  assumes "disk_ok sha s"
  shows "set (shard_digests s dir sh) = {d. sh = shard d \<and> ino_of s (digest_path dir d) \<noteq> None}"
proof -
  have ok: "store_digest d \<and> sh = shard d" if "ino_of s (InDir dir sh d) = Some i" for d i
    using assms that by (fastforce simp: disk_ok_def)
  have parse: "(case digest_parse name of Inl _ \<Rightarrow> None | Inr d' \<Rightarrow> Some d') = Some d \<longleftrightarrow> store_digest name \<and> name = d" for name d
    using digest_parse_iff[of name] by (cases "digest_parse name") (auto simp: store_digest_def)
  have "set (shard_digests s dir sh) = {d. store_digest d \<and> (\<exists>i. ino_of s (InDir dir sh d) = Some i)}"
    by (auto simp: shard_digests_def map_filter_sound shard_entries_set[OF assms] parse)
  then show ?thesis using ok by (auto simp: digest_path_def)
qed

lemma shard_entries_distinct:
  assumes "disk_ok sha s"
  shows "distinct (map fst (shard_entries s dir sh))"
proof -
  have "distinct (map fst (List.map_filter (\<lambda>(p, i). case p of
         InDir dir' sh' name \<Rightarrow> if dir' = dir \<and> sh' = sh \<and> \<not> prefix ''.'' name then Some (name, i) else None
       | _ \<Rightarrow> None) xs))" if "distinct (map fst xs)" for xs :: "(path \<times> nat) list"
    using that by (induction xs) (force simp: List.map_filter_simps map_filter_sound split: path.splits option.splits if_splits)+
  from this[OF disk_ok_names[OF assms]] show ?thesis
    unfolding shard_entries_def by (simp add: distinct_map inj_on_def)
qed

lemma shard_digests_distinct: "disk_ok sha s \<Longrightarrow> distinct (shard_digests s dir sh)"
  unfolding shard_digests_def
  by (rule map_filter_distinct[OF shard_entries_distinct, where g = id]) (auto simp: digest_parse_iff split: sum.splits)

lemma shard_digests_without: "shard_digests (without P s) dir sh = filter (\<lambda>d. \<not> P (InDir dir sh d)) (shard_digests s dir sh)"
proof -
  let ?f = "\<lambda>(p, i). case p of InDir dir' sh' name \<Rightarrow> if dir' = dir \<and> sh' = sh \<and> \<not> prefix ''.'' name then Some (name, i) else None | _ \<Rightarrow> None"
  have 1: "List.map_filter ?f (filter (\<lambda>(p, _). \<not> P p) xs) = filter (\<lambda>(d, _). \<not> P (InDir dir sh d)) (List.map_filter ?f xs)"
    for xs :: "(path \<times> nat) list"
    by (induction xs) (auto simp: List.map_filter_simps split: path.splits option.splits if_splits)
  have 2: "List.map_filter (\<lambda>(name, _). case digest_parse name of Inr d \<Rightarrow> Some d | Inl _ \<Rightarrow> None) (filter (\<lambda>(d, _). \<not> P (InDir dir sh d)) ys) =
      filter (\<lambda>d. \<not> P (InDir dir sh d)) (List.map_filter (\<lambda>(name, _). case digest_parse name of Inr d \<Rightarrow> Some d | Inl _ \<Rightarrow> None) ys)"
    for ys :: "(string \<times> nat) list"
    by (induction ys) (auto simp: List.map_filter_simps digest_parse_iff split: sum.splits)
  have "dk_names (without P s) = filter (\<lambda>(p, _). \<not> P p) (dk_names s)" by (simp add: without_def)
  then show ?thesis by (simp only: shard_digests_def shard_entries_def 1 2 filter_sort[symmetric])
qed

lemma list_digests_set:
  assumes "disk_ok sha s"
  shows "set (list_digests s dir) = {d. ino_of s (digest_path dir d) \<noteq> None}"
proof -
  have "store_digest d" if "ino_of s (digest_path dir d) = Some i" for d i
    using assms that by (fastforce simp: disk_ok_def digest_path_def)
  then show ?thesis by (auto simp: list_digests_def shard_digests_set[OF assms] intro: shard_listed)
qed

lemma list_digests_distinct:
  assumes "disk_ok sha s"
  shows "distinct (list_digests s dir)"
proof -
  have "distinct (concat (map (shard_digests s dir) shs))" if "distinct shs" for shs
    using that by (induction shs) (auto simp: shard_digests_distinct[OF assms] shard_digests_set[OF assms])
  from this[OF all_shards_distinct] show ?thesis by (simp add: list_digests_def)
qed

lemma list_digests_without:
  assumes "disk_ok sha s" "\<And>d. d \<in> set (list_digests s dir) \<Longrightarrow> \<not> P (digest_path dir d)"
  shows "list_digests (without P s) dir = list_digests s dir"
proof -
  have "shard_digests (without P s) dir sh = shard_digests s dir sh" for sh
    unfolding shard_digests_without
    by (rule filter_True) (use assms(2) in \<open>auto simp: shard_digests_set[OF assms(1)] list_digests_set[OF assms(1)] digest_path_def\<close>)
  then show ?thesis by (simp add: list_digests_def cong: map_cong)
qed

section \<open>Runs\<close>

text \<open>An outcome with its cost. Nothing but a failing call makes a sweep fail.\<close>

definition run_spec :: "nat \<Rightarrow> (disk \<Rightarrow> bool) \<Rightarrow> ('a \<Rightarrow> disk \<Rightarrow> bool) \<Rightarrow> answer list \<times> disk \<Rightarrow> 'a disk_result \<Rightarrow> bool" where
  "run_spec n J I x r \<longleftrightarrow> outcome J I r \<and> costs n (\<lambda>_. False) x r"

lemma run_return: "I a (snd x) \<Longrightarrow> run_spec n J I x (Some (Inr a, x))"
  by (simp add: run_spec_def outcome_return costs_return)

lemma run_then:
  assumes "run_spec n J I x r" "\<And>a x'. I a (snd x') \<Longrightarrow> run_spec m J K x' (k a x')"
  shows "run_spec (n + m) J K x (io_then r k)"
proof -
  have "outcome J K (io_then r k)"
    by (rule outcome_then[of J I]) (use assms in \<open>auto simp: run_spec_def\<close>)
  moreover have "I a (snd x')" if "r = Some (Inr a, x')" for a x'
    using assms(1) that by (cases x') (simp add: run_spec_def outcome_def)
  ultimately show ?thesis using assms by (simp add: run_spec_def costs_then)
qed

lemma run_call: "J (snd x) \<Longrightarrow> I () (f (snd x)) \<Longrightarrow> run_spec 1 J I x (sys_call f x)"
  unfolding run_spec_def by (intro conjI outcome_call costs_call)

lemma run_unlink:
  assumes "J (snd x)" "I () (without (\<lambda>q. q = p) (snd x))"
  shows "run_spec 1 J I x (io_then (unlink_if_present p x) (\<lambda>_ x1. Some (Inr (), x1)))"
proof -
  have "without (\<lambda>q. q = p) s = s" if "ino_of s p = None" for s
    using that map_of_eq_None_iff[of "dk_names s" p] by (force simp: without_def ino_of_def intro!: disk.equality filter_True)
  with assms show ?thesis
    by (cases "(p, x)" rule: unlink_if_present.cases)
      (auto simp: run_spec_def costs_def outcome_def io_then_def drop_name_without split: answer.splits)
qed

text \<open>
  A phase of the sweep. Each digest has a verdict and an entry in the report that depend on the disk
  the collection started on, whatever part of \<open>U\<close> is gone by then.
\<close>

definition removing :: "(path \<Rightarrow> bool) \<Rightarrow> disk \<Rightarrow> disk \<Rightarrow> bool" where
  "removing U s s' \<longleftrightarrow> (\<exists>Q. (\<forall>p. Q p \<longrightarrow> U p) \<and> s' = without Q s)"

definition swept_by :: "gc_policy \<Rightarrow> (digest \<Rightarrow> bool) \<Rightarrow> store_dir \<Rightarrow> digest list \<Rightarrow> path \<Rightarrow> bool" where
  "swept_by policy goes dir ds p \<longleftrightarrow> \<not> gp_dry_run policy \<and> (\<exists>d \<in> set ds. goes d \<and> p = digest_path dir d)"

lemma swept_by_simps [simp]:
  "swept_by policy goes dir [] p \<longleftrightarrow> False"
  "swept_by policy goes dir (d # ds) p \<longleftrightarrow> \<not> gp_dry_run policy \<and> goes d \<and> p = digest_path dir d \<or> swept_by policy goes dir ds p"
  "swept_by policy goes dir (ds @ es) p \<longleftrightarrow> swept_by policy goes dir ds p \<or> swept_by policy goes dir es p"
  by (auto simp: swept_by_def)

lemma sweep_name_run:
  assumes "removing U s (snd x)" "snd x = without Q s"
  shows "run_spec 1 (removing U s) (\<lambda>_ s'. s' = without (\<lambda>q. Q q \<or> \<not> gp_dry_run policy \<and> q = p) s) x (sweep_name policy p x)"
proof (cases "gp_dry_run policy")
  case False
  have "run_spec 1 (removing U s) (\<lambda>_ s'. s' = without (\<lambda>q. Q q \<or> q = p) s) x (io_then (unlink_if_present p x) (\<lambda>_ x1. Some (Inr (), x1)))"
    by (rule run_unlink) (use assms in \<open>simp_all add: without_without disj_commute\<close>)
  with False show ?thesis by (simp add: sweep_name_def)
qed (use assms in \<open>simp add: sweep_name_def run_return\<close>)

lemma sweep_each_run:
  assumes "\<And>d Q rep x. d \<in> set ds \<Longrightarrow> \<forall>p. Q p \<longrightarrow> U p \<Longrightarrow> \<not> Q (digest_path dir d) \<Longrightarrow> snd x = without Q s \<Longrightarrow>
      f d rep x = (if goes d then io_then (sweep_name policy (digest_path dir d) x) (\<lambda>_ x1. Some (Inr (upd d rep), x1)) else Some (Inr (upd d rep), x))"
    and "\<And>p. swept_by policy goes dir ds p \<Longrightarrow> U p" "distinct ds"
    and "\<forall>p. Q p \<longrightarrow> U p" "\<And>d. d \<in> set ds \<Longrightarrow> \<not> Q (digest_path dir d)" "snd x = without Q s"
  shows "run_spec (length ds) (removing U s) (\<lambda>rep' s'. rep' = fold upd ds rep \<and> s' = without (\<lambda>p. Q p \<or> swept_by policy goes dir ds p) s)
    x (sweep_each f ds rep x)"
  using assms
proof (induction ds arbitrary: Q rep x)
  case Nil
  then show ?case by (auto intro: run_return)
next
  case (Cons d ds)
  let ?Q = "\<lambda>p. Q p \<or> \<not> gp_dry_run policy \<and> goes d \<and> p = digest_path dir d"
  have f: "f d rep x = (if goes d then io_then (sweep_name policy (digest_path dir d) x) (\<lambda>_ x1. Some (Inr (upd d rep), x1)) else Some (Inr (upd d rep), x))"
    using Cons.prems(1)[of d Q x rep] Cons.prems(4,5,6) by simp
  have first: "run_spec (1 + 0) (removing U s) (\<lambda>rep' s'. rep' = upd d rep \<and> s' = without ?Q s) x (f d rep x)"
  proof (cases "goes d")
    case True
    have "removing U s (snd x)" using Cons.prems(4,6) by (auto simp: removing_def)
    from run_then[OF sweep_name_run[OF this Cons.prems(6)], where m = 0 and k = "\<lambda>_ x1. Some (Inr (upd d rep), x1)"]
    show ?thesis unfolding f using True by (simp add: run_return)
  next
    case False
    then show ?thesis unfolding f by (auto intro: run_return simp: Cons.prems(6))
  qed
  have rest: "run_spec (length ds) (removing U s)
      (\<lambda>rep' s'. rep' = fold upd (d # ds) rep \<and> s' = without (\<lambda>p. Q p \<or> swept_by policy goes dir (d # ds) p) s) x' (sweep_each f ds rep' x')"
    if "rep' = upd d rep \<and> snd x' = without ?Q s" for rep' x'
  proof -
    have "run_spec (length ds) (removing U s) (\<lambda>rep'' s'. rep'' = fold upd ds rep' \<and> s' = without (\<lambda>p. ?Q p \<or> swept_by policy goes dir ds p) s)
      x' (sweep_each f ds rep' x')"
      by (rule Cons.IH) (use Cons.prems that in \<open>auto simp: digest_path_def\<close>)
    with that show ?thesis by (simp add: disj_assoc conj_assoc)
  qed
  show ?case using run_then[OF first rest] by simp
qed

end
