(* ===== verification/Artifact_Collect.thy ===== *)
theory Artifact_Collect
  imports Artifact_Sweep
begin

text \<open>
  The garbage collector against a reference (\<open>artifacts/src/gc.rs\<close>): what each name of the disk
  deserves, and the report as filters and counts over one listing of the disk it started on.
\<close>

section \<open>The reference\<close>

definition blob_young :: "nat \<Rightarrow> gc_policy \<Rightarrow> disk \<Rightarrow> digest \<Rightarrow> bool" where
  "blob_young now policy s d \<longleftrightarrow>
     (case blob_stat s d of None \<Rightarrow> False | Some st \<Rightarrow> is_young now (bi_created st) (gp_min_age policy))"

definition blob_pinned :: "disk \<Rightarrow> digest \<Rightarrow> bool" where
  "blob_pinned s d \<longleftrightarrow> (case blob_stat s d of None \<Rightarrow> False | Some st \<Rightarrow> bi_nlink st > 1)"

definition manifest_young :: "nat \<Rightarrow> gc_policy \<Rightarrow> disk \<Rightarrow> digest \<Rightarrow> bool" where
  "manifest_young now policy s d \<longleftrightarrow>
     (case ino_of s (digest_path Manifests d) of
        Some i \<Rightarrow> is_young now (in_created (dk_inode s i)) (gp_min_age policy)
      | None \<Rightarrow> False)"

text \<open>The names that a collection removes: \<open>live\<close> are the digests that were marked.\<close>

definition goes :: "digest list \<times> digest list \<Rightarrow> nat \<Rightarrow> gc_policy \<Rightarrow> disk \<Rightarrow> store_dir \<Rightarrow> digest \<Rightarrow> bool" where
  "goes live now policy s dir d \<longleftrightarrow>
     (let blob = blob_exists s d \<and> d \<notin> set (fst live) \<and> \<not> blob_pinned s d \<and> \<not> blob_young now policy s d;
          manifest = manifest_exists s d \<and> d \<notin> set (snd live) \<and> \<not> manifest_young now policy s d in
      case dir of
        Blobs \<Rightarrow> blob
      | Manifests \<Rightarrow> manifest
      | Labels \<Rightarrow> blob \<or> manifest \<or> \<not> (blob_exists s d \<or> manifest_exists s d)
      | Public \<Rightarrow> blob \<or> manifest \<or> \<not> blob_exists s d)"

definition sweeps :: "digest list \<times> digest list \<Rightarrow> nat \<Rightarrow> gc_policy \<Rightarrow> disk \<Rightarrow> path \<Rightarrow> bool" where
  "sweeps live now policy s p \<longleftrightarrow>
     (case p of InDir dir sh d \<Rightarrow> \<not> gp_dry_run policy \<and> goes live now policy s dir d | TagFile _ \<Rightarrow> False | Outside _ \<Rightarrow> False)"

definition pin_of :: "disk \<Rightarrow> digest \<Rightarrow> pin" where
  "pin_of s d =
     (case blob_stat s d of
        None \<Rightarrow> \<lparr>pn_digest = d, pn_size = 0, pn_allocated = 0, pn_links = 0\<rparr>
      | Some st \<Rightarrow> \<lparr>pn_digest = d, pn_size = bi_size st, pn_allocated = bi_allocated st, pn_links = bi_nlink st - 1\<rparr>)"

definition blob_bytes :: "disk \<Rightarrow> digest \<Rightarrow> nat" where
  "blob_bytes s d = (case blob_stat s d of None \<Rightarrow> 0 | Some st \<Rightarrow> bi_allocated st)"

definition expected_report :: "digest list \<times> digest list \<Rightarrow> nat \<Rightarrow> gc_policy \<Rightarrow> disk \<Rightarrow> gc_report" where
  "expected_report live now policy s =
     (let blobs = list_digests s Blobs; manifests = list_digests s Manifests; gone = (\<lambda>dir. filter (goes live now policy s dir) (list_digests s dir)) in
      \<lparr>gr_scanned = length blobs,
       gr_removed = gone Blobs,
       gr_bytes_freed = sum_list (map (blob_bytes s) (gone Blobs)),
       gr_kept_reachable = length (filter (\<lambda>d. d \<in> set (fst live)) blobs),
       gr_kept_young = length (filter (\<lambda>d. d \<notin> set (fst live) \<and> \<not> blob_pinned s d \<and> blob_young now policy s d) blobs),
       gr_pinned = map (pin_of s) (filter (\<lambda>d. d \<notin> set (fst live) \<and> blob_pinned s d) blobs),
       gr_manifests_scanned = length manifests,
       gr_manifests_removed = gone Manifests,
       gr_labels_removed = length (gone Labels),
       gr_publics_removed = length (gone Public)\<rparr>)"

section \<open>The phases\<close>

definition blob_entry :: "digest list \<Rightarrow> nat \<Rightarrow> gc_policy \<Rightarrow> disk \<Rightarrow> digest \<Rightarrow> gc_report \<Rightarrow> gc_report" where
  "blob_entry live now policy s d rep =
     rep\<lparr>gr_scanned := gr_scanned rep + 1,
       gr_removed := gr_removed rep @ (if d \<notin> set live \<and> \<not> blob_pinned s d \<and> \<not> blob_young now policy s d then [d] else []),
       gr_bytes_freed := gr_bytes_freed rep + (if d \<notin> set live \<and> \<not> blob_pinned s d \<and> \<not> blob_young now policy s d then blob_bytes s d else 0),
       gr_kept_reachable := gr_kept_reachable rep + (if d \<in> set live then 1 else 0),
       gr_kept_young := gr_kept_young rep + (if d \<notin> set live \<and> \<not> blob_pinned s d \<and> blob_young now policy s d then 1 else 0),
       gr_pinned := gr_pinned rep @ (if d \<notin> set live \<and> blob_pinned s d then [pin_of s d] else [])\<rparr>"

lemma sweep_blob_step:
  assumes "blob_stat (snd x) d = blob_stat s d" "blob_exists s d"
  shows "sweep_blob (fst live) now policy d rep x =
    (if goes live now policy s Blobs d
     then io_then (sweep_name policy (digest_path Blobs d) x) (\<lambda>_ x1. Some (Inr (blob_entry (fst live) now policy s d rep), x1))
     else Some (Inr (blob_entry (fst live) now policy s d rep), x))"
proof -
  obtain st where "blob_stat s d = Some st" using assms(2) by (auto simp: blob_exists_def blob_stat_def)
  with assms show ?thesis
    by (auto simp: sweep_blob_def goes_def blob_entry_def blob_pinned_def blob_young_def blob_bytes_def pin_of_def Let_def intro!: arg_cong[where f = "io_then _"] ext)
qed

lemma fold_blob_entry:
  "fold (blob_entry live now policy s) ds rep =
     rep\<lparr>gr_scanned := gr_scanned rep + length ds,
       gr_removed := gr_removed rep @ filter (\<lambda>d. d \<notin> set live \<and> \<not> blob_pinned s d \<and> \<not> blob_young now policy s d) ds,
       gr_bytes_freed := gr_bytes_freed rep + sum_list (map (blob_bytes s) (filter (\<lambda>d. d \<notin> set live \<and> \<not> blob_pinned s d \<and> \<not> blob_young now policy s d) ds)),
       gr_kept_reachable := gr_kept_reachable rep + length (filter (\<lambda>d. d \<in> set live) ds),
       gr_kept_young := gr_kept_young rep + length (filter (\<lambda>d. d \<notin> set live \<and> \<not> blob_pinned s d \<and> blob_young now policy s d) ds),
       gr_pinned := gr_pinned rep @ map (pin_of s) (filter (\<lambda>d. d \<notin> set live \<and> blob_pinned s d) ds)\<rparr>"
  by (induction ds arbitrary: rep) (simp_all add: blob_entry_def)

lemma without_cong: "(\<And>p. ino_of s p \<noteq> None \<Longrightarrow> P p = Q p) \<Longrightarrow> without P s = without Q s"
  unfolding without_def ino_of_def
  by (rule arg_cong[where f = "\<lambda>n. s\<lparr>dk_names := n\<rparr>"], rule filter_cong) (auto dest: weak_map_of_SomeI)

lemma sweeps_inside: "sweeps live now policy s p \<Longrightarrow> \<not> is_outside p"
  by (auto simp: sweeps_def split: path.splits)

lemma sweeps_digest [simp]:
  "sweeps live now policy s (digest_path dir d) \<longleftrightarrow> \<not> gp_dry_run policy \<and> goes live now policy s dir d"
  by (simp add: sweeps_def digest_path_def)

lemma swept_by_sweeps: "swept_by policy (goes live now policy s dir) dir ds p \<Longrightarrow> sweeps live now policy s p"
  by (auto simp: swept_by_def)

text \<open>The part of the sweep that some directories have seen.\<close>

definition part :: "(path \<Rightarrow> bool) \<Rightarrow> store_dir list \<Rightarrow> path \<Rightarrow> bool" where
  "part U dirs p \<longleftrightarrow> (case p of InDir dir _ _ \<Rightarrow> dir \<in> set dirs \<and> U p | TagFile _ \<Rightarrow> False | Outside _ \<Rightarrow> False)"

lemma part_all: "part (sweeps live now policy s) [Public, Labels, Manifests, Blobs] = sweeps live now policy s"
proof
  fix p
  have "dir \<in> {Public, Labels, Manifests, Blobs}" for dir by (cases dir) auto
  then show "part (sweeps live now policy s) [Public, Labels, Manifests, Blobs] p = sweeps live now policy s p"
    by (cases p) (auto simp: part_def sweeps_def)
qed

lemma part_nil: "part U [] = (\<lambda>_. False)"
  by (auto simp: part_def split: path.splits)

lemma part_le: "part U dirs p \<Longrightarrow> U p"
  by (auto simp: part_def split: path.splits)

lemma removing_part: "removing U s (without (part U dirs) s)"
  unfolding removing_def using part_le by blast

lemma part_next:
  assumes "disk_ok sha s"
  shows "without (\<lambda>p. part (sweeps live now policy s) dirs p \<or> swept_by policy (goes live now policy s dir) dir (list_digests s dir) p) s =
    without (part (sweeps live now policy s) (dir # dirs)) s"
proof (rule without_cong)
  fix p
  assume p: "ino_of s p \<noteq> None"
  have "sh = shard d" if "p = InDir dir' sh d" for dir' sh d using assms p that by (fastforce simp: disk_ok_def)
  with p show "(part (sweeps live now policy s) dirs p \<or> swept_by policy (goes live now policy s dir) dir (list_digests s dir) p) =
      part (sweeps live now policy s) (dir # dirs) p"
    by (cases p) (auto simp: part_def swept_by_def list_digests_set[OF assms] digest_path_def sweeps_def)
qed

lemma phase_run:
  assumes ok: "disk_ok sha s"
    and step: "\<And>d Q rep x. d \<in> set (list_digests s dir) \<Longrightarrow> \<forall>p. Q p \<longrightarrow> sweeps live now policy s p \<Longrightarrow> \<not> Q (digest_path dir d) \<Longrightarrow> snd x = without Q s \<Longrightarrow>
      f d rep x = (if goes live now policy s dir d
        then io_then (sweep_name policy (digest_path dir d) x) (\<lambda>_ x1. Some (Inr (upd d rep), x1)) else Some (Inr (upd d rep), x))"
    and dir: "dir \<notin> set dirs" and x: "snd x = without (part (sweeps live now policy s) dirs) s"
  shows "run_spec (length (list_digests s dir)) (removing (sweeps live now policy s) s)
    (\<lambda>rep' s'. rep' = fold upd (list_digests s dir) rep \<and> s' = without (part (sweeps live now policy s) (dir # dirs)) s)
    x (sweep_each f (list_digests (snd x) dir) rep x)"
proof -
  have free: "\<not> part (sweeps live now policy s) dirs (digest_path dir d)" for d using dir by (simp add: part_def digest_path_def)
  then have l: "list_digests (snd x) dir = list_digests s dir" unfolding x by (intro list_digests_without[OF ok])
  show ?thesis
    unfolding l part_next[OF ok, symmetric]
    by (rule sweep_each_run[OF step swept_by_sweeps list_digests_distinct[OF ok] _ free x]) (auto simp: part_def split: path.splits)
qed

lemma sweep_blob_at:
  assumes "disk_ok sha s" "d \<in> set (list_digests s Blobs)" "\<forall>p. Q p \<longrightarrow> sweeps live now policy s p" "\<not> Q (digest_path Blobs d)" "snd x = without Q s"
  shows "sweep_blob (fst live) now policy d rep x =
    (if goes live now policy s Blobs d
     then io_then (sweep_name policy (digest_path Blobs d) x) (\<lambda>_ x1. Some (Inr (blob_entry (fst live) now policy s d rep), x1))
     else Some (Inr (blob_entry (fst live) now policy s d rep), x))"
proof (rule sweep_blob_step)
  show "blob_stat (snd x) d = blob_stat s d"
    unfolding assms(5) by (rule blob_stat_without[OF assms(1)]) (use assms(3,4) sweeps_inside in blast)+
qed (use assms(2) in \<open>simp add: list_digests_set[OF assms(1)] blob_exists_def\<close>)

lemma sweep_blob_shards_run:
  assumes "disk_ok sha s"
  shows "distinct shs \<Longrightarrow> set shs \<subseteq> set all_shards \<Longrightarrow> \<forall>p. Q p \<longrightarrow> sweeps live now policy s p \<Longrightarrow> (\<And>sh d. sh \<in> set shs \<Longrightarrow> \<not> Q (InDir Blobs sh d)) \<Longrightarrow> snd x = without Q s \<Longrightarrow>
    run_spec (length shs + length (concat (map (shard_digests s Blobs) shs))) (removing (sweeps live now policy s) s)
      (\<lambda>rep' s'. rep' = fold (blob_entry (fst live) now policy s) (concat (map (shard_digests s Blobs) shs)) rep \<and>
         s' = without (\<lambda>p. Q p \<or> swept_by policy (goes live now policy s Blobs) Blobs (concat (map (shard_digests s Blobs) shs)) p) s)
      x (sweep_blob_shards (fst live) now policy shs rep x)"
proof (induction shs arbitrary: Q rep x)
  case Nil
  then show ?case by (auto intro: run_return)
next
  case (Cons sh shs)
  let ?U = "sweeps live now policy s" and ?l = "shard_digests s Blobs sh" and ?e = "blob_entry (fst live) now policy s"
  let ?g = "goes live now policy s Blobs" and ?ls = "concat (map (shard_digests s Blobs) shs)"
  let ?Q = "\<lambda>p. Q p \<or> swept_by policy ?g Blobs ?l p"
  have listed: "set ?l \<subseteq> set (list_digests s Blobs)" by (auto simp: shard_digests_set[OF assms] list_digests_set[OF assms])
  have free: "\<not> Q (digest_path Blobs d)" if "d \<in> set ?l" for d
    using Cons.prems(4)[of sh d] that by (simp add: shard_digests_set[OF assms] digest_path_def)
  have rm: "removing ?U s (without Q s)" using Cons.prems(3) by (auto simp: removing_def)
  have l: "shard_digests (snd y) Blobs sh = ?l" if "snd y = without Q s" for y :: "answer list \<times> disk"
    unfolding that shard_digests_without by (rule filter_True) (use free in \<open>simp add: shard_digests_set[OF assms] digest_path_def\<close>)
  have call: "run_spec 1 (removing ?U s) (\<lambda>_ s'. s' = without Q s) x (sys_call id x)"
    by (rule run_call) (use Cons.prems(5) rm in auto)
  have one: "run_spec (length ?l) (removing ?U s) (\<lambda>rep' s'. rep' = fold ?e ?l rep \<and> s' = without ?Q s) y
      (sweep_each (sweep_blob (fst live) now policy) (shard_digests (snd y) Blobs sh) rep y)" if "snd y = without Q s" for y
    unfolding l[OF that] by (rule sweep_each_run[OF sweep_blob_at[OF assms] swept_by_sweeps shard_digests_distinct[OF assms] Cons.prems(3) free that]) (use listed in auto)
  have rest: "run_spec (length shs + length ?ls) (removing ?U s)
      (\<lambda>rep'' s'. rep'' = fold ?e (?l @ ?ls) rep \<and> s' = without (\<lambda>p. Q p \<or> swept_by policy ?g Blobs (?l @ ?ls) p) s)
      y (sweep_blob_shards (fst live) now policy shs rep' y)" if "rep' = fold ?e ?l rep \<and> snd y = without ?Q s" for rep' y
  proof -
    have "\<not> ?Q (InDir Blobs sh' d)" if "sh' \<in> set shs" for sh' d
      using that Cons.prems(1,4) by (auto simp: swept_by_def digest_path_def shard_digests_set[OF assms])
    then have "run_spec (length shs + length ?ls) (removing ?U s)
        (\<lambda>rep'' s'. rep'' = fold ?e ?ls rep' \<and> s' = without (\<lambda>p. ?Q p \<or> swept_by policy ?g Blobs ?ls p) s)
        y (sweep_blob_shards (fst live) now policy shs rep' y)"
      by (intro Cons.IH) (use Cons.prems that swept_by_sweeps in auto)
    then show ?thesis using that by (simp add: disj_assoc)
  qed
  have both: "run_spec (length ?l + (length shs + length ?ls)) (removing ?U s)
      (\<lambda>rep'' s'. rep'' = fold ?e (?l @ ?ls) rep \<and> s' = without (\<lambda>p. Q p \<or> swept_by policy ?g Blobs (?l @ ?ls) p) s)
      y (io_then (sweep_each (sweep_blob (fst live) now policy) (shard_digests (snd y) Blobs sh) rep y)
        (\<lambda>rep' x2. sweep_blob_shards (fst live) now policy shs rep' x2))" if "snd y = without Q s" for y
    by (rule run_then[OF one[OF that]], rule rest)
  show ?case using run_then[OF call both] by (simp add: ac_simps)
qed

definition manifest_line :: "(digest \<Rightarrow> bool) \<Rightarrow> digest \<Rightarrow> gc_report \<Rightarrow> gc_report" where
  "manifest_line gone d rep =
     rep\<lparr>gr_manifests_scanned := gr_manifests_scanned rep + 1, gr_manifests_removed := gr_manifests_removed rep @ (if gone d then [d] else [])\<rparr>"

definition label_entry :: "(digest \<Rightarrow> bool) \<Rightarrow> digest \<Rightarrow> gc_report \<Rightarrow> gc_report" where
  "label_entry gone d rep = rep\<lparr>gr_labels_removed := gr_labels_removed rep + (if gone d then 1 else 0)\<rparr>"

definition public_entry :: "(digest \<Rightarrow> bool) \<Rightarrow> digest \<Rightarrow> gc_report \<Rightarrow> gc_report" where
  "public_entry gone d rep = rep\<lparr>gr_publics_removed := gr_publics_removed rep + (if gone d then 1 else 0)\<rparr>"

lemma fold_entries:
  "fold (manifest_line g) ds rep = rep\<lparr>gr_manifests_scanned := gr_manifests_scanned rep + length ds, gr_manifests_removed := gr_manifests_removed rep @ filter g ds\<rparr>"
  "fold (label_entry g) ds rep = rep\<lparr>gr_labels_removed := gr_labels_removed rep + length (filter g ds)\<rparr>"
  "fold (public_entry g) ds rep = rep\<lparr>gr_publics_removed := gr_publics_removed rep + length (filter g ds)\<rparr>"
  by (induction ds arbitrary: rep) (simp_all add: manifest_line_def label_entry_def public_entry_def)

lemma sweep_manifest_at:
  assumes "disk_ok sha s" "d \<in> set (list_digests s Manifests)" "\<not> Q (digest_path Manifests d)" "snd x = without Q s"
  shows "sweep_manifest (snd live) now policy d rep x =
    (if goes live now policy s Manifests d
     then io_then (sweep_name policy (digest_path Manifests d) x) (\<lambda>_ x1. Some (Inr (manifest_line (goes live now policy s Manifests) d rep), x1))
     else Some (Inr (manifest_line (goes live now policy s Manifests) d rep), x))"
  using assms(2-4)
  by (auto simp: sweep_manifest_def manifest_line_def goes_def manifest_young_def manifest_exists_def list_digests_set[OF assms(1)] Let_def)

lemma swept_lists:
  assumes "disk_ok sha s" "set swept = set (filter (goes live now policy s Blobs) (list_digests s Blobs) @ filter (goes live now policy s Manifests) (list_digests s Manifests))"
  shows "d \<in> set swept \<longleftrightarrow> goes live now policy s Blobs d \<or> goes live now policy s Manifests d"
  using assms by (auto simp: list_digests_set[OF assms(1)] goes_def blob_exists_def manifest_exists_def Let_def)

lemma gone_at:
  assumes "\<forall>p. Q p \<longrightarrow> sweeps live now policy s p" "d \<in> set swept \<longleftrightarrow> goes live now policy s Blobs d \<or> goes live now policy s Manifests d"
  shows "d \<in> set swept \<or> \<not> (blob_exists (without Q s) d \<or> manifest_exists (without Q s) d) \<longleftrightarrow> goes live now policy s Labels d"
    and "d \<in> set swept \<or> \<not> blob_exists (without Q s) d \<longleftrightarrow> goes live now policy s Public d"
proof -
  have "goes live now policy s Blobs d" if "Q (digest_path Blobs d)" using assms(1) that by auto
  moreover have "goes live now policy s Manifests d" if "Q (digest_path Manifests d)" using assms(1) that by auto
  ultimately show "d \<in> set swept \<or> \<not> (blob_exists (without Q s) d \<or> manifest_exists (without Q s) d) \<longleftrightarrow> goes live now policy s Labels d"
    "d \<in> set swept \<or> \<not> blob_exists (without Q s) d \<longleftrightarrow> goes live now policy s Public d"
    using assms(2) by (auto simp: goes_def blob_exists_def manifest_exists_def Let_def)
qed

lemma sweep_label_at:
  assumes "\<forall>p. Q p \<longrightarrow> sweeps live now policy s p" "d \<in> set swept \<longleftrightarrow> goes live now policy s Blobs d \<or> goes live now policy s Manifests d" "snd x = without Q s"
  shows "sweep_label swept policy d rep x =
      (if goes live now policy s Labels d
       then io_then (sweep_name policy (digest_path Labels d) x) (\<lambda>_ x1. Some (Inr (label_entry (goes live now policy s Labels) d rep), x1))
       else Some (Inr (label_entry (goes live now policy s Labels) d rep), x))"
    and "sweep_public swept policy d rep x =
      (if goes live now policy s Public d
       then io_then (sweep_name policy (digest_path Public d) x) (\<lambda>_ x1. Some (Inr (public_entry (goes live now policy s Public) d rep), x1))
       else Some (Inr (public_entry (goes live now policy s Public) d rep), x))"
  using gone_at[OF assms(1,2)] by (simp_all add: sweep_label_def sweep_public_def label_entry_def public_entry_def assms(3))

section \<open>A whole collection\<close>

lemma blob_gone_filter:
  assumes "disk_ok sha s"
  shows "filter (\<lambda>d. d \<notin> set (fst live) \<and> \<not> blob_pinned s d \<and> \<not> blob_young now policy s d) (list_digests s Blobs) =
    filter (goes live now policy s Blobs) (list_digests s Blobs)"
  by (rule filter_cong) (auto simp: list_digests_set[OF assms] goes_def blob_exists_def)

definition gc_calls :: "disk \<Rightarrow> nat" where
  "gc_calls s = 261 + length (list_digests s Blobs) + length (list_digests s Manifests) + length (list_digests s Labels) + length (list_digests s Public)"

lemma blobs_phase:
  assumes "disk_ok sha s" "snd x = s"
  shows "run_spec (256 + length (list_digests s Blobs)) (removing (sweeps live now policy s) s)
    (\<lambda>rep' s'. rep' = fold (blob_entry (fst live) now policy s) (list_digests s Blobs) rep \<and> s' = without (part (sweeps live now policy s) [Blobs]) s)
    x (sweep_blob_shards (fst live) now policy all_shards rep x)"
proof -
  from sweep_blob_shards_run[OF assms(1) all_shards_distinct subset_refl, of "\<lambda>_. False" live now policy x rep] part_next[OF assms(1), of live now policy "[]" Blobs] assms(2)
  show ?thesis by (simp add: part_nil list_digests_def all_shards_def)
qed

lemma collect_garbage_run:
  assumes ok: "disk_ok sha s"
  shows "run_spec (gc_calls s) (removing (sweeps (mark parse rd s) now policy s) s)
    (\<lambda>rep s'. rep = expected_report (mark parse rd s) now policy s \<and> s' = without (sweeps (mark parse rd s) now policy s) s)
    (ks, s) (collect_garbage parse rd now policy (ks, s))"
proof -
  define live where "live = mark parse rd s"
  let ?U = "sweeps live now policy s" and ?g = "goes live now policy s"
  let ?at = "\<lambda>dirs. without (part ?U dirs) s"
  define rep1 where "rep1 = fold (blob_entry (fst live) now policy s) (list_digests s Blobs) empty_report"
  define rep2 where "rep2 = fold (manifest_line (?g Manifests)) (list_digests s Manifests) rep1"
  define rep3 where "rep3 = fold (label_entry (?g Labels)) (list_digests s Labels) rep2"
  define rep4 where "rep4 = fold (public_entry (?g Public)) (list_digests s Public) rep3"
  define swept where "swept = gr_removed rep2 @ gr_manifests_removed rep2"
  have "set swept = set (filter (?g Blobs) (list_digests s Blobs) @ filter (?g Manifests) (list_digests s Manifests))"
    by (simp add: swept_def rep2_def rep1_def fold_entries fold_blob_entry blob_gone_filter[OF ok] empty_report_def)
  note swept = swept_lists[OF ok this]
  have call: "run_spec 1 (removing ?U s) (\<lambda>_ s'. s' = ?at dirs) x (sys_call id x)" if "snd x = ?at dirs" for dirs x
    by (rule run_call) (use that removing_part in auto)
  have manifests: "run_spec (length (list_digests s Manifests)) (removing ?U s) (\<lambda>rep' s'. rep' = rep2 \<and> s' = ?at [Manifests, Blobs]) x
      (sweep_each (sweep_manifest (snd live) now policy) (list_digests (snd x) Manifests) rep1 x)" if "snd x = ?at [Blobs]" for x
    unfolding rep2_def by (rule phase_run[OF ok sweep_manifest_at[OF ok]]) (simp_all add: that)
  have labels: "run_spec (length (list_digests s Labels)) (removing ?U s) (\<lambda>rep' s'. rep' = rep3 \<and> s' = ?at [Labels, Manifests, Blobs]) x
      (sweep_each (sweep_label swept policy) (list_digests (snd x) Labels) rep2 x)" if "snd x = ?at [Manifests, Blobs]" for x
    unfolding rep3_def by (rule phase_run[OF ok sweep_label_at(1)[OF _ swept]]) (simp_all add: that)
  have publics: "run_spec (length (list_digests s Public)) (removing ?U s) (\<lambda>rep' s'. rep' = rep4 \<and> s' = ?at [Public, Labels, Manifests, Blobs]) x
      (sweep_each (sweep_public swept policy) (list_digests (snd x) Public) rep3 x)" if "snd x = ?at [Labels, Manifests, Blobs]" for x
    unfolding rep4_def by (rule phase_run[OF ok sweep_label_at(2)[OF _ swept]]) (simp_all add: that)
  have rep: "rep4 = expected_report live now policy s"
    by (simp add: rep4_def rep3_def rep2_def rep1_def fold_entries fold_blob_entry blob_gone_filter[OF ok] empty_report_def expected_report_def Let_def)
  let ?K = "\<lambda>rep' s'. rep' = rep4 \<and> s' = ?at [Public, Labels, Manifests, Blobs]"
  let ?B = "length (list_digests s Blobs)" and ?M = "length (list_digests s Manifests)" and ?L = "length (list_digests s Labels)" and ?P = "length (list_digests s Public)"
  let ?publics = "\<lambda>sw rep x. io_then (sys_call id x) (\<lambda>_ x8. sweep_each (sweep_public sw policy) (list_digests (snd x8) Public) rep x8)"
  let ?labels = "\<lambda>sw rep x. io_then (sys_call id x) (\<lambda>_ x6.
    io_then (sweep_each (sweep_label sw policy) (list_digests (snd x6) Labels) rep x6) (\<lambda>rep3 x7. ?publics sw rep3 x7))"
  let ?manifests = "\<lambda>rep x. io_then (sys_call id x) (\<lambda>_ x4.
    io_then (sweep_each (sweep_manifest (snd live) now policy) (list_digests (snd x4) Manifests) rep x4) (\<lambda>rep2 x5.
    ?labels (gr_removed rep2 @ gr_manifests_removed rep2) rep2 x5))"
  have p: "run_spec (1 + ?P) (removing ?U s) ?K x (?publics swept rep x)" if "rep = rep3 \<and> snd x = ?at [Labels, Manifests, Blobs]" for rep x
    by (rule run_then[OF call]) (use that publics in auto)
  have l: "run_spec (1 + (?L + (1 + ?P))) (removing ?U s) ?K x (?labels (gr_removed rep @ gr_manifests_removed rep) rep x)"
    if "rep = rep2 \<and> snd x = ?at [Manifests, Blobs]" for rep x
    unfolding conjunct1[OF that] swept_def[symmetric] by (rule run_then[OF call[OF conjunct2[OF that]]], rule run_then[OF labels], assumption, rule p)
  have m: "run_spec (1 + (?M + (1 + (?L + (1 + ?P))))) (removing ?U s) ?K x (?manifests rep x)" if "rep = rep1 \<and> snd x = ?at [Blobs]" for rep x
    unfolding conjunct1[OF that] by (rule run_then[OF call[OF conjunct2[OF that]]], rule run_then[OF manifests], assumption, rule l)
  have b: "run_spec (256 + ?B + (1 + (?M + (1 + (?L + (1 + ?P)))))) (removing ?U s) ?K x
      (io_then (sweep_blob_shards (fst live) now policy all_shards empty_report x) (\<lambda>rep1 x3. ?manifests rep1 x3))" if "snd x = s" for x
    by (rule run_then[OF blobs_phase[OF ok that]], rule m) (simp add: rep1_def)
  have "run_spec (1 + (1 + (256 + ?B + (1 + (?M + (1 + (?L + (1 + ?P)))))))) (removing ?U s) ?K (ks, s) (collect_garbage parse rd now policy (ks, s))"
    unfolding collect_garbage_def
    by (rule run_then[OF call[of _ "[]"]], simp add: part_nil, rule run_then[OF call[of _ "[]"]], assumption)
      (use b in \<open>simp add: part_nil live_def case_prod_unfold\<close>)
  then show ?thesis by (simp add: live_def[symmetric] rep part_all gc_calls_def add.assoc)
qed

section \<open>An example\<close>

text \<open>A tagged blob that a path outside is linked to, and an orphan.\<close>

definition zeros :: digest where "zeros = replicate 64 (CHR ''0'')"

definition ones :: digest where "ones = replicate 64 (CHR ''1'')"

definition sample_sha :: "string \<Rightarrow> digest" where
  "sample_sha b = (if b = ''a'' then zeros else ones)"

definition sample_disk :: disk where
  "sample_disk =
     \<lparr>dk_names = [(digest_path Blobs zeros, 0), (digest_path Blobs ones, 1), (TagFile ''keep'', 2), (Outside ''vm'', 0)],
      dk_inode = (\<lambda>i.
        if i = 0 then \<lparr>in_bytes = [Some CHR ''a''], in_mode = BLOB_MODE, in_created = 0\<rparr>
        else if i = 1 then \<lparr>in_bytes = [Some CHR ''b''], in_mode = BLOB_MODE, in_created = 0\<rparr>
        else \<lparr>in_bytes = map Some (zeros @ [CHR 0x0A]), in_mode = 420, in_created = 0\<rparr>),
      dk_next = 3\<rparr>"

definition sample_policy :: gc_policy where
  "sample_policy = \<lparr>gp_min_age = 5, gp_dry_run = False\<rparr>"

lemma sample_digests: "store_digest (sample_sha b)" "store_digest zeros" "store_digest ones" "zeros \<noteq> ones"
  by (simp_all add: sample_sha_def zeros_def ones_def store_digest_def digest_parse_iff list_all_iff hex_byte_def is_ascii_digit_def byte_def numeral_eq_Suc)

lemma sample_ok: "disk_ok sample_sha sample_disk"
proof -
  have names: "ino_of sample_disk p = Some i \<longleftrightarrow> (p, i) \<in> {(digest_path Blobs zeros, 0), (digest_path Blobs ones, 1), (TagFile ''keep'', 2), (Outside ''vm'', 0)}" for p i
    using sample_digests(4) by (auto simp: ino_of_def sample_disk_def digest_path_def)
  have "tag_parse ''keep'' = Inr ''keep''" by code_simp
  then show ?thesis
    unfolding disk_ok_def names using sample_digests
    by (auto simp: sample_disk_def digest_path_def sealed_mode sample_sha_def content_def)
qed

lemma sample_tag: "get_tag (\<lambda>_. True) sample_disk ''keep'' = Inr zeros"
  by code_simp

lemma sample_sweeps:
  "sweeps (mark (\<lambda>_. None) (\<lambda>_. True) sample_disk) 9 sample_policy sample_disk (digest_path Blobs ones)"
  "\<not> sweeps (mark (\<lambda>_. None) (\<lambda>_. True) sample_disk) 9 sample_policy sample_disk (digest_path Blobs zeros)"
  by code_simp+

section \<open>Exactness\<close>

text \<open>
  In the reference a label or a public marker goes with the blob of its digest, but also with a
  manifest of its digest while a blob of the same digest stays, and a label with the blob while the
  manifest stays. That is earlier than the comments on the sweeps have it, where a label whose subject
  survived is untouched. For a digest that does not name both a blob and a manifest the two agree.
\<close>

definition labels_follow :: "disk \<Rightarrow> disk \<Rightarrow> digest \<Rightarrow> bool" where
  "labels_follow s s' d \<longleftrightarrow>
     ino_of s' (digest_path Labels d) =
       (if blob_exists s' d \<or> manifest_exists s' d then ino_of s (digest_path Labels d) else None) \<and>
     ino_of s' (digest_path Public d) = (if blob_exists s' d then ino_of s (digest_path Public d) else None)"

lemma labels_follow_sweep:
  assumes "\<not> gp_dry_run policy" "\<not> (blob_exists s d \<and> manifest_exists s d)"
  shows "labels_follow s (without (sweeps live now policy s) s) d"
  using assms by (auto simp: labels_follow_def blob_exists_def manifest_exists_def goes_def Let_def)

text \<open>
  C10. On a well-formed disk a collection needs at most one call for the lock, for the tags, for each
  listing and for each name listed, and returns once that many have succeeded. When it succeeds, its
  report is the reference report and exactly the reference names are gone; and of every digest that
  did not name both a blob and a manifest, after a real run, the label is left exactly if the blob or
  the manifest is and the public marker exactly if the blob is. For a digest that names both, the
  reference has the label and the marker go as soon as one of the two is swept, although the comments
  in the source say otherwise. A collection fails only with the error of a call, and has then removed
  only names that the whole run would have removed.
\<close>

theorem collect_garbage_exact:
  assumes "disk_ok sha s"
  shows "case collect_garbage parse rd now policy (ks, s) of
      None \<Rightarrow> moves ks < gc_calls s
    | Some (Inl e, ks', s') \<Rightarrow> (\<exists>y. e = Io (Os y) \<and> Errno y \<in> set ks) \<and> removing (sweeps (mark parse rd s) now policy s) s s'
    | Some (Inr rep, ks', s') \<Rightarrow> rep = expected_report (mark parse rd s) now policy s \<and> s' = without (sweeps (mark parse rd s) now policy s) s \<and>
        (\<forall>d. gp_dry_run policy \<or> blob_exists s d \<and> manifest_exists s d \<or> labels_follow s s' d)"
proof -
  have "gp_dry_run policy \<or> blob_exists s d \<and> manifest_exists s d \<or>
      labels_follow s (without (sweeps (mark parse rd s) now policy s) s) d" for d
    using labels_follow_sweep by blast
  with collect_garbage_run[OF assms, of parse rd now policy ks] show ?thesis
    by (auto simp: run_spec_def costs_def outcome_def split: option.splits sum.splits)
qed

theorem collect_garbage_exact_witness:
  "case collect_garbage (\<lambda>_. None) (\<lambda>_. True) 9 sample_policy (replicate (gc_calls sample_disk) (Moved 0), sample_disk) of
     None \<Rightarrow> False
   | Some (Inl e, _, _) \<Rightarrow> False
   | Some (Inr rep, _, s') \<Rightarrow> ino_of s' (digest_path Blobs ones) = None \<and> ino_of s' (digest_path Blobs zeros) = Some 0"
proof -
  have "ino_of sample_disk (digest_path Blobs zeros) = Some 0" by (simp add: sample_disk_def ino_of_def)
  moreover have "moves (replicate n (Moved 0)) = n" for n by (induction n) auto
  ultimately show ?thesis
    using collect_garbage_exact[OF sample_ok, where parse = "\<lambda>_. None" and rd = "\<lambda>_. True" and now = 9 and policy = sample_policy and ks = "replicate (gc_calls sample_disk) (Moved 0)"] sample_sweeps
    by (auto split: option.splits sum.splits)
qed

lemma sweeps_dry: "gp_dry_run policy \<Longrightarrow> sweeps live now policy s = (\<lambda>_. False)"
  by (auto simp: sweeps_def split: path.splits)

lemma young_dry:
  "blob_young now (policy\<lparr>gp_dry_run := b\<rparr>) s d = blob_young now policy s d"
  "manifest_young now (policy\<lparr>gp_dry_run := b\<rparr>) s d = manifest_young now policy s d"
  by (simp_all add: blob_young_def manifest_young_def split: option.split)

lemma goes_dry: "goes live now (policy\<lparr>gp_dry_run := b\<rparr>) s = goes live now policy s"
  by (intro ext) (simp add: goes_def young_dry)

lemma expected_dry: "expected_report live now (policy\<lparr>gp_dry_run := b\<rparr>) s = expected_report live now policy s"
  by (simp add: expected_report_def goes_dry young_dry)

lemma collect_garbage_returns:
  assumes "disk_ok sha s" "gc_calls s \<le> length ns"
  shows "\<exists>ks'. collect_garbage parse rd now policy (map Moved ns, s) =
    Some (Inr (expected_report (mark parse rd s) now policy s), ks', without (sweeps (mark parse rd s) now policy s) s)"
proof -
  have "moves (map Moved ns) = length ns" by (induction ns) auto
  moreover have "Errno y \<notin> set (map Moved ns)" for y by auto
  moreover note run = collect_garbage_run[OF assms(1), of parse rd now policy "map Moved ns", unfolded run_spec_def]
  note outcome_costs[OF run[THEN conjunct1] run[THEN conjunct2]]
  ultimately show ?thesis
    using assms(2) by (cases "collect_garbage parse rd now policy (map Moved ns, s)") (auto split: sum.split_asm, (metis sum.exhaust)+)
qed

text \<open>
  C23. A dry run tells the truth: with the same clock and the same disk it reports what the real run
  reports, and it leaves the disk as it is.
\<close>

theorem dry_run_truthful:
  assumes "disk_ok sha s" "gc_calls s \<le> length ns"
  shows "\<exists>rep ks1 ks2 s'. collect_garbage parse rd now (policy\<lparr>gp_dry_run := True\<rparr>) (map Moved ns, s) = Some (Inr rep, ks1, s) \<and>
    collect_garbage parse rd now (policy\<lparr>gp_dry_run := False\<rparr>) (map Moved ns, s) = Some (Inr rep, ks2, s')"
  using collect_garbage_returns[OF assms, of parse rd now "policy\<lparr>gp_dry_run := True\<rparr>"]
    collect_garbage_returns[OF assms, of parse rd now "policy\<lparr>gp_dry_run := False\<rparr>"]
  by (auto simp: sweeps_dry expected_dry)

theorem dry_run_truthful_witness:
  "\<exists>rep ks1 ks2 s'. collect_garbage (\<lambda>_. None) (\<lambda>_. True) 9 (sample_policy\<lparr>gp_dry_run := True\<rparr>) (map Moved (replicate (gc_calls sample_disk) 0), sample_disk) =
      Some (Inr rep, ks1, sample_disk) \<and>
    collect_garbage (\<lambda>_. None) (\<lambda>_. True) 9 (sample_policy\<lparr>gp_dry_run := False\<rparr>) (map Moved (replicate (gc_calls sample_disk) 0), sample_disk) =
      Some (Inr rep, ks2, s')"
  by (rule dry_run_truthful[OF sample_ok]) simp

section \<open>What a collection keeps\<close>

lemma list_tags_set:
  assumes "disk_ok sha s" "get_tag rd s t = Inr d"
  shows "(t, d) \<in> set (list_tags rd s)"
proof -
  from assms(2) obtain i where i: "ino_of s (TagFile t) = Some i" by (auto simp: get_tag_def read_file_def bytes_at_def and_then_def split: option.splits)
  then have "tag_parse t = Inr t" using assms(1) by (fastforce simp: disk_ok_def)
  moreover from this have "\<not> prefix ''.'' t" using names_stay_inside(2)[of t t] by (cases t) (auto simp: tag_parse_def)
  moreover have "t \<in> set (tag_names s)" using i by (force simp: tag_names_def map_filter_sound ino_of_iff[OF disk_ok_names[OF assms(1)]])
  ultimately show ?thesis using assms(2) by (auto simp: list_tags_def map_filter_sound)
qed

lemma fold_marks:
  assumes "\<And>x m. set (fst m) \<subseteq> set (fst (f x m)) \<and> set (snd m) \<subseteq> set (snd (f x m))" "x \<in> set xs"
  shows "\<exists>m. set (fst (f x m)) \<subseteq> set (fst (fold f xs m0)) \<and> set (snd (f x m)) \<subseteq> set (snd (fold f xs m0))"
  using assms(2)
proof (induction xs arbitrary: m0)
  case (Cons y xs)
  have grow: "set (fst m) \<subseteq> set (fst (fold f xs m)) \<and> set (snd m) \<subseteq> set (snd (fold f xs m))" for m
  proof (induction xs arbitrary: m)
    case (Cons z zs)
    from Cons[of "f z m"] assms(1)[of m z] show ?case by auto
  qed simp
  show ?case
  proof (cases "x = y")
    case True
    with grow[of "f y m0"] show ?thesis by (intro exI[of _ m0]) simp
  next
    case False
    with Cons.prems Cons.IH[of "f y m0"] show ?thesis by simp
  qed
qed simp

lemma marked:
  assumes "disk_ok sha s" "get_tag rd s t = Inr d"
  shows "d \<in> set (fst (mark parse rd s))"
    and "bytes_at s (digest_path Manifests d) = Some bs \<Longrightarrow> rd (digest_path Manifests d) \<Longrightarrow> d \<in> set (snd (mark parse rd s))"
    and "get_manifest parse rd s d = Inr m \<Longrightarrow> e \<in> set (mf_entries m) \<Longrightarrow> me_digest e \<in> set (fst (mark parse rd s))"
proof -
  have "set (fst m) \<subseteq> set (fst (mark_tag parse rd s td m)) \<and> set (snd m) \<subseteq> set (snd (mark_tag parse rd s td m))" for td m
    by (auto simp: mark_tag_def split: prod.splits sum.splits)
  from fold_marks[of "mark_tag parse rd s", OF this list_tags_set[OF assms]] obtain m0
    where m0: "set (fst (mark_tag parse rd s (t, d) m0)) \<subseteq> set (fst (mark parse rd s))" "set (snd (mark_tag parse rd s (t, d) m0)) \<subseteq> set (snd (mark parse rd s))"
    unfolding mark_def by blast
  show "d \<in> set (fst (mark parse rd s))" using m0 by (auto simp: mark_tag_def split: prod.splits sum.splits)
  show "d \<in> set (snd (mark parse rd s))" if "bytes_at s (digest_path Manifests d) = Some bs" "rd (digest_path Manifests d)"
    using m0(2) that by (auto simp: mark_tag_def read_file_def split: prod.splits sum.splits)
  show "me_digest e \<in> set (fst (mark parse rd s))" if "get_manifest parse rd s d = Inr m" "e \<in> set (mf_entries m)"
    using m0(1) that by (auto simp: mark_tag_def get_manifest_def and_then_def map_err_def split: prod.splits sum.splits)
qed

lemma collect_removing:
  assumes "disk_ok sha s" "collect_garbage parse rd now policy (ks, s) = Some (r, ks', s')"
  shows "removing (sweeps (mark parse rd s) now policy s) s s'"
  using collect_garbage_run[OF assms(1), of parse rd now policy ks] assms(2)
  by (auto simp: run_spec_def outcome_def removing_def split: sum.splits)

lemma removing_keeps:
  assumes "removing U s s'"
  shows "\<not> U p \<Longrightarrow> ino_of s' p = ino_of s p" "dk_inode s' = dk_inode s" "\<not> U p \<Longrightarrow> bytes_at s' p = bytes_at s p" "ino_of s p = None \<Longrightarrow> ino_of s' p = None"
  using assms by (auto simp: removing_def bytes_at_def)

lemma not_sweeps:
  "\<not> sweeps live now policy s (TagFile t)" "\<not> sweeps live now policy s (Outside q)"
  "d \<in> set (fst live) \<Longrightarrow> \<not> sweeps live now policy s (digest_path Blobs d)" "d \<in> set (snd live) \<Longrightarrow> \<not> sweeps live now policy s (digest_path Manifests d)"
  "blob_pinned s d \<Longrightarrow> \<not> sweeps live now policy s (digest_path Blobs d)"
  by (simp_all add: sweeps_def digest_path_def goes_def)

lemma read_file_same: "bytes_at s' p = bytes_at s p \<Longrightarrow> read_file rd s' p e = read_file rd s p e"
  by (simp add: read_file_def)

lemma tagged_kept:
  assumes "disk_ok sha s" "collect_garbage parse rd now policy (ks, s) = Some (r, ks', s')" "get_tag rd s t = Inr d"
  shows "get_tag rd s' t = Inr d" "blob_exists s' d = blob_exists s d" "bytes_at s' (digest_path Blobs d) = bytes_at s (digest_path Blobs d)"
    and "get_manifest parse rd s d = Inr m \<Longrightarrow> get_manifest parse rd s' d = Inr m"
    and "get_manifest parse rd s d = Inr m \<Longrightarrow> e \<in> set (mf_entries m) \<Longrightarrow> bytes_at s' (digest_path Blobs (me_digest e)) = bytes_at s (digest_path Blobs (me_digest e))"
proof -
  note keep = removing_keeps[OF collect_removing[OF assms(1,2)]] and live = marked[OF assms(1,3), where parse = parse]
  show "get_tag rd s' t = Inr d" using assms(3) read_file_same[OF keep(3)[OF not_sweeps(1)]] by (simp add: get_tag_def)
  show "blob_exists s' d = blob_exists s d" using keep(1)[OF not_sweeps(3)[OF live(1)]] by (simp add: blob_exists_def)
  show "bytes_at s' (digest_path Blobs d) = bytes_at s (digest_path Blobs d)" by (rule keep(3)[OF not_sweeps(3)[OF live(1)]])
  show "get_manifest parse rd s' d = Inr m" if got: "get_manifest parse rd s d = Inr m"
  proof -
    obtain bs where "bytes_at s (digest_path Manifests d) = Some bs" "rd (digest_path Manifests d)"
      using got by (auto simp: get_manifest_def and_then_def read_file_def split: sum.splits option.splits if_splits)
    from read_file_same[OF keep(3)[OF not_sweeps(4)[OF live(2)[OF this]]]] got show ?thesis by (simp add: get_manifest_def)
  qed
  show "bytes_at s' (digest_path Blobs (me_digest e)) = bytes_at s (digest_path Blobs (me_digest e))"
    if "get_manifest parse rd s d = Inr m" "e \<in> set (mf_entries m)"
    by (rule keep(3)[OF not_sweeps(3)[OF live(3)[OF that]]])
qed

lemma two_names:
  assumes "ino_of s p = Some i" "ino_of s q = Some i" "p \<noteq> q"
  shows "1 < nlink s i"
proof -
  have "card {(p, i), (q, i)} \<le> card (set (filter (\<lambda>(_, j). j = i) (dk_names s)))"
    by (rule card_mono) (use assms in \<open>auto simp: ino_of_def dest: map_of_SomeD\<close>)
  also have "\<dots> \<le> nlink s i" unfolding nlink_def by (rule card_length)
  finally show ?thesis using assms(3) by simp
qed

text \<open>
  C24. A read-only materialization keeps its blob: while a path outside the store is a name of the
  blob's file, no collection removes either of them, whatever the tags say.
\<close>

theorem collect_garbage_keeps_linked:
  assumes "disk_ok sha s" "collect_garbage parse rd now policy (ks, s) = Some (r, ks', s')"
    and "ino_of s (Outside dest) = Some i" "ino_of s (digest_path Blobs d) = Some i"
  shows "ino_of s' (Outside dest) = Some i \<and> ino_of s' (digest_path Blobs d) = Some i \<and> dk_inode s' i = dk_inode s i"
proof -
  note keep = removing_keeps[OF collect_removing[OF assms(1,2)]]
  have "blob_pinned s d" using two_names[OF assms(3,4)] assms(4) by (simp add: blob_pinned_def blob_stat_def digest_path_def)
  with keep(1)[OF not_sweeps(2)] keep(1)[OF not_sweeps(5)] keep(2) assms(3,4) show ?thesis by simp
qed

theorem collect_garbage_keeps_linked_witness:
  "case collect_garbage (\<lambda>_. None) (\<lambda>_. False) 9 sample_policy (map Moved (replicate (gc_calls sample_disk) 0), sample_disk) of
     None \<Rightarrow> False
   | Some (_, _, s') \<Rightarrow> ino_of s' (Outside ''vm'') = Some 0 \<and> ino_of s' (digest_path Blobs zeros) = Some 0"
proof -
  have names: "ino_of sample_disk (Outside ''vm'') = Some 0" "ino_of sample_disk (digest_path Blobs zeros) = Some 0"
    by (simp_all add: sample_disk_def ino_of_def digest_path_def)
  obtain rep ks' s' where run: "collect_garbage (\<lambda>_. None) (\<lambda>_. False) 9 sample_policy (map Moved (replicate (gc_calls sample_disk) 0), sample_disk) = Some (Inr rep, ks', s')"
    using collect_garbage_returns[OF sample_ok, of "replicate (gc_calls sample_disk) 0" "\<lambda>_. None" "\<lambda>_. False" 9 sample_policy] by auto
  with collect_garbage_keeps_linked[OF sample_ok run names] show ?thesis by simp
qed

section \<open>What a collection frees\<close>

lemma list_digests_filter:
  assumes "disk_ok sha s"
  shows "list_digests (without P s) dir = filter (\<lambda>d. \<not> P (digest_path dir d)) (list_digests s dir)"
proof -
  have "shard_digests (without P s) dir sh = filter (\<lambda>d. \<not> P (digest_path dir d)) (shard_digests s dir sh)" for sh
    unfolding shard_digests_without by (rule filter_cong) (auto simp: shard_digests_set[OF assms] digest_path_def)
  then show ?thesis by (simp add: list_digests_def filter_concat comp_def cong: map_cong)
qed

lemma list_blobs_sum:
  assumes "disk_ok sha s"
  shows "length (list_blobs s) = length (list_digests s Blobs)"
    "sum_list (map bi_allocated (list_blobs s)) = sum_list (map (blob_bytes s) (list_digests s Blobs))"
    "sum_list (map bi_size (list_blobs s)) = sum_list (map (blob_size s) (list_digests s Blobs))"
proof -
  have "length (List.map_filter (blob_stat s) ds) = length ds \<and>
      sum_list (map bi_allocated (List.map_filter (blob_stat s) ds)) = sum_list (map (blob_bytes s) ds) \<and>
      sum_list (map bi_size (List.map_filter (blob_stat s) ds)) = sum_list (map (blob_size s) ds)"
    if "\<forall>d \<in> set ds. ino_of s (digest_path Blobs d) \<noteq> None" for ds
    using that by (induction ds) (auto simp: List.map_filter_simps blob_stat_def blob_bytes_def blob_size_def bytes_at_def)
  moreover have "sum_list (map f (sort_key k xs)) = sum_list (map f xs)" for f :: "blob_info \<Rightarrow> nat" and k :: "blob_info \<Rightarrow> int \<times> string" and xs
    by (metis mset_map mset_sort sum_mset_sum_list)
  ultimately show "length (list_blobs s) = length (list_digests s Blobs)"
    "sum_list (map bi_allocated (list_blobs s)) = sum_list (map (blob_bytes s) (list_digests s Blobs))"
    "sum_list (map bi_size (list_blobs s)) = sum_list (map (blob_size s) (list_digests s Blobs))"
    by (simp_all add: list_blobs_def list_digests_set[OF assms])
qed

lemma list_tags_without:
  assumes "\<And>t. \<not> P (TagFile t)"
  shows "list_tags rd (without P s) = list_tags rd s"
proof -
  have "List.map_filter (\<lambda>(p, i :: nat). case p of TagFile t \<Rightarrow> Some t | _ \<Rightarrow> None) (filter (\<lambda>(p, _). \<not> P p) xs) =
      List.map_filter (\<lambda>(p, i). case p of TagFile t \<Rightarrow> Some t | _ \<Rightarrow> None) xs" for xs
    using assms by (induction xs) (auto simp: List.map_filter_simps split: path.splits)
  then have "tag_names (without P s) = tag_names s" by (simp add: tag_names_def without_def)
  moreover have "get_tag rd (without P s) = get_tag rd s" using assms by (intro ext) (simp add: get_tag_def read_file_def bytes_at_def)
  ultimately show ?thesis by (simp only: list_tags_def)
qed

lemma sum_filter_split: "sum_list (map f xs) = sum_list (map f (filter (\<lambda>x. \<not> P x) xs)) + sum_list (map f (filter P xs))" for f :: "'a \<Rightarrow> nat"
  by (induction xs) auto

text \<open>
  The report of a collection is what the store's own accounting shows: the allocated bytes before
  are those after and the bytes reported as freed, the blobs and the manifests are fewer by those
  reported as removed, and the tags are as many.
\<close>

theorem collection_frees:
  assumes "disk_ok sha s" "\<not> gp_dry_run policy" "collect_garbage parse rd now policy (ks, s) = Some (Inr rep, ks', s')"
  shows "us_allocated (store_usage rd av all s) = us_allocated (store_usage rd av all s') + gr_bytes_freed rep \<and>
    us_blobs (store_usage rd av all s) = us_blobs (store_usage rd av all s') + length (gr_removed rep) \<and>
    us_manifests (store_usage rd av all s) = us_manifests (store_usage rd av all s') + length (gr_manifests_removed rep) \<and>
    us_tags (store_usage rd av all s) = us_tags (store_usage rd av all s')"
proof -
  let ?live = "mark parse rd s" let ?U = "sweeps ?live now policy s" and ?g = "goes ?live now policy s"
  from collect_garbage_run[OF assms(1), of parse rd now policy ks] assms(3)
  have rep: "rep = expected_report ?live now policy s" and s': "s' = without ?U s" by (auto simp: run_spec_def outcome_def)
  have ok: "disk_ok sha s'" unfolding s' by (rule disk_ok_without[OF assms(1)])
  have listed: "list_digests s' dir = filter (\<lambda>d. \<not> ?g dir d) (list_digests s dir)" for dir
    unfolding s' list_digests_filter[OF assms(1)] using assms(2) by simp
  have "blob_bytes s' d = blob_bytes s d" if "\<not> ?g Blobs d" for d
    unfolding s' blob_bytes_def by (subst blob_stat_without[OF assms(1) sweeps_inside]) (use that in auto)
  then have "sum_list (map (blob_bytes s') (list_digests s' Blobs)) = sum_list (map (blob_bytes s) (filter (\<lambda>d. \<not> ?g Blobs d) (list_digests s Blobs)))"
    unfolding listed by (intro arg_cong[where f = sum_list]) simp
  moreover have "list_tags rd s' = list_tags rd s" unfolding s' by (rule list_tags_without) (simp add: not_sweeps)
  ultimately show ?thesis
    using sum_filter_split[of "blob_bytes s" "list_digests s Blobs" "?g Blobs"]
      sum_length_filter_compl[of "?g Blobs" "list_digests s Blobs"] sum_length_filter_compl[of "?g Manifests" "list_digests s Manifests"]
    by (simp add: store_usage_def Let_def list_blobs_sum[OF assms(1)] list_blobs_sum[OF ok] rep expected_report_def listed)
qed

theorem collection_frees_witness:
  "case collect_garbage (\<lambda>_. None) (\<lambda>_. True) 9 sample_policy (map Moved (replicate (gc_calls sample_disk) 0), sample_disk) of
     None \<Rightarrow> False
   | Some (Inl e, _, _) \<Rightarrow> False
   | Some (Inr rep, _, s') \<Rightarrow> us_allocated (store_usage (\<lambda>_. True) 7 8 sample_disk) = us_allocated (store_usage (\<lambda>_. True) 7 8 s') + gr_bytes_freed rep"
proof -
  obtain rep ks' s' where run: "collect_garbage (\<lambda>_. None) (\<lambda>_. True) 9 sample_policy (map Moved (replicate (gc_calls sample_disk) 0), sample_disk) = Some (Inr rep, ks', s')"
    using collect_garbage_returns[OF sample_ok, of "replicate (gc_calls sample_disk) 0" "\<lambda>_. None" "\<lambda>_. True" 9 sample_policy] by auto
  have "\<not> gp_dry_run sample_policy" by (simp add: sample_policy_def)
  from collection_frees[OF sample_ok this run, of 7 8] run show ?thesis by simp
qed

end
