(* ===== verification/Artifact_History.thy ===== *)
theory Artifact_History
  imports Artifact_Collect
begin

text \<open>
  Histories of the artifact store: the operations of \<open>artifacts/src/store.rs\<close> and the collector, one
  after another, with what the owner of the files outside may do in between.
\<close>

section \<open>Histories of operations\<close>

text \<open>
  What a store owes its clients in a history: an invariant that every admitted operation keeps. What
  holds of each step and composes then holds of the whole history.
\<close>

locale kept_invariant =
  fixes step :: "'op \<Rightarrow> 's \<Rightarrow> 's option"
    and run :: "'op list \<Rightarrow> 's \<Rightarrow> 's option"
    and inv :: "'s \<Rightarrow> bool"
    and ok :: "'op \<Rightarrow> bool"
  assumes run_nil: "run [] s = Some s"
    and run_cons: "run (op # ops) s = (case step op s of None \<Rightarrow> None | Some s' \<Rightarrow> run ops s')"
    and step_inv: "inv s \<Longrightarrow> ok op \<Longrightarrow> step op s = Some s' \<Longrightarrow> inv s'"
begin

lemma run_inv: "inv s \<Longrightarrow> list_all ok ops \<Longrightarrow> run ops s = Some s' \<Longrightarrow> inv s'"
proof (induction ops arbitrary: s)
  case (Cons op ops)
  then show ?case using step_inv[of s op] by (auto simp: run_cons split: option.splits)
qed (simp add: run_nil)

lemma run_related:
  assumes refl: "\<And>s. P s \<Longrightarrow> R s s" and trans: "\<And>s s' s''. R s s' \<Longrightarrow> R s' s'' \<Longrightarrow> R s s''"
    and step: "\<And>op s s'. inv s \<Longrightarrow> ok op \<Longrightarrow> allowed op \<Longrightarrow> P s \<Longrightarrow> step op s = Some s' \<Longrightarrow> R s s' \<and> P s'"
  shows "inv s \<Longrightarrow> list_all ok ops \<Longrightarrow> list_all allowed ops \<Longrightarrow> P s \<Longrightarrow> run ops s = Some s' \<Longrightarrow> R s s'"
proof (induction ops arbitrary: s)
  case (Cons op ops)
  then obtain s1 where s1: "step op s = Some s1" "run ops s1 = Some s'" by (auto simp: run_cons split: option.splits)
  from step[OF _ _ _ _ s1(1)] Cons.prems have "R s s1" "P s1" by auto
  moreover from this Cons s1 have "R s1 s'" using step_inv[OF _ _ s1(1)] by auto
  ultimately show ?case using trans by blast
qed (simp add: run_nil refl)

end

section \<open>Steps\<close>

text \<open>
  The last four are not the store's: a process of the same user writes a file it may write, creates,
  links or removes files outside the store.
\<close>

datatype store_op =
    InsertStream nat "nat \<Rightarrow> nat" nat "read_event list" shape
  | InsertPath nat "nat \<Rightarrow> nat" nat file_bytes shape
  | PutManifest nat string
  | SetTag nat string digest
  | RemoveTag string
  | SetLabel nat digest label
  | RemoveLabel digest
  | SetPublic nat digest
  | RemovePublic digest
  | Materialize nat nat nat bool digest string materialize_as
  | Release string
  | Collect "path \<Rightarrow> bool" nat gc_policy
  | OwnerWrite string file_bytes
  | OwnerCreate string inode
  | OwnerLink string string
  | OwnerRemove string

definition owner_write :: "string \<Rightarrow> file_bytes \<Rightarrow> disk \<Rightarrow> disk" where
  "owner_write dest f s =
     (case ino_of s (Outside dest) of
        None \<Rightarrow> s
      | Some i \<Rightarrow>
          if owner_may_write (in_mode (dk_inode s i)) then s\<lparr>dk_inode := (dk_inode s)(i := (dk_inode s i)\<lparr>in_bytes := f\<rparr>)\<rparr> else s)"

definition owner_link :: "string \<Rightarrow> string \<Rightarrow> disk \<Rightarrow> disk" where
  "owner_link src dest s =
     (case ino_of s (Outside src) of
        None \<Rightarrow> s
      | Some i \<Rightarrow> if ino_of s (Outside dest) = None then add_name (Outside dest) i s else s)"

definition disk_after :: "'a disk_result \<Rightarrow> disk option" where
  "disk_after r = map_option (\<lambda>(_, _, s). s) r"

text \<open>The disk after an operation, whether it succeeded or failed; nothing if its script ran out.\<close>

fun store_step :: "(string \<Rightarrow> digest) \<Rightarrow> (string \<Rightarrow> manifest option) \<Rightarrow> (label \<Rightarrow> string) \<Rightarrow> store_op \<Rightarrow> answer list \<times> disk \<Rightarrow> disk option" where
  "store_step sha parse to_json (InsertStream now free reserve rs sh) x = disk_after (insert_stream sha now free reserve rs sh x)"
| "store_step sha parse to_json (InsertPath now free reserve src sh) x = disk_after (insert_path sha now free reserve src sh x)"
| "store_step sha parse to_json (PutManifest now bytes) x = disk_after (put_manifest sha now bytes x)"
| "store_step sha parse to_json (SetTag now t d) x = disk_after (set_tag now t d x)"
| "store_step sha parse to_json (RemoveTag t) x = disk_after (remove_tag t x)"
| "store_step sha parse to_json (SetLabel now d l) x = disk_after (set_label to_json now d l x)"
| "store_step sha parse to_json (RemoveLabel d) x = disk_after (remove_label d x)"
| "store_step sha parse to_json (SetPublic now d) x = disk_after (set_public now d x)"
| "store_step sha parse to_json (RemovePublic d) x = disk_after (remove_public d x)"
| "store_step sha parse to_json (Materialize now free reserve same_device d dest how) x = disk_after (materialize now free reserve same_device d dest how x)"
| "store_step sha parse to_json (Release dest) x = disk_after (release_materialized dest x)"
| "store_step sha parse to_json (Collect rd now policy) x = disk_after (collect_garbage parse rd now policy x)"
| "store_step sha parse to_json (OwnerWrite dest f) x = Some (owner_write dest f (snd x))"
| "store_step sha parse to_json (OwnerCreate dest n) x = Some (place (Outside dest) n (snd x))"
| "store_step sha parse to_json (OwnerLink src dest) x = Some (owner_link src dest (snd x))"
| "store_step sha parse to_json (OwnerRemove dest) x = Some (drop_name (Outside dest) (snd x))"

fun store_history :: "(string \<Rightarrow> digest) \<Rightarrow> (string \<Rightarrow> manifest option) \<Rightarrow> (label \<Rightarrow> string) \<Rightarrow> (store_op \<times> answer list) list \<Rightarrow> disk \<Rightarrow> disk option" where
  "store_history sha parse to_json [] s = Some s"
| "store_history sha parse to_json ((op, ks) # ops) s =
     (case store_step sha parse to_json op (ks, s) of None \<Rightarrow> None | Some s' \<Rightarrow> store_history sha parse to_json ops s')"

text \<open>What the types of the arguments say: digests and tags have been parsed. A grain of zero never ends.\<close>

fun op_ok :: "store_op \<Rightarrow> bool" where
  "op_ok (InsertStream now free reserve rs sh) \<longleftrightarrow> shape_grain sh \<noteq> Some 0"
| "op_ok (InsertPath now free reserve src sh) \<longleftrightarrow> shape_grain sh \<noteq> Some 0"
| "op_ok (SetTag now t d) \<longleftrightarrow> tag_parse t = Inr t"
| "op_ok (SetLabel now d l) \<longleftrightarrow> store_digest d"
| "op_ok (SetPublic now d) \<longleftrightarrow> store_digest d"
| "op_ok _ \<longleftrightarrow> True"

fun is_collect :: "store_op \<Rightarrow> bool" where
  "is_collect (Collect rd now policy) = True"
| "is_collect _ = False"

section \<open>What each step changes\<close>

text \<open>The names an operation may take away or give to another file; a collection is apart.\<close>

fun touches :: "store_op \<Rightarrow> path \<Rightarrow> bool" where
  "touches (SetTag now t d) p \<longleftrightarrow> p = TagFile t"
| "touches (RemoveTag t) p \<longleftrightarrow> p = TagFile t"
| "touches (SetLabel now d l) p \<longleftrightarrow> p = digest_path Labels d"
| "touches (RemoveLabel d) p \<longleftrightarrow> p = digest_path Labels d"
| "touches (SetPublic now d) p \<longleftrightarrow> p = digest_path Public d"
| "touches (RemovePublic d) p \<longleftrightarrow> p = digest_path Public d"
| "touches (Materialize now free reserve same_device d dest how) p \<longleftrightarrow> p = Outside dest"
| "touches (Release dest) p \<longleftrightarrow> p = Outside dest"
| "touches (OwnerCreate dest n) p \<longleftrightarrow> p = Outside dest"
| "touches (OwnerRemove dest) p \<longleftrightarrow> p = Outside dest"
| "touches _ p \<longleftrightarrow> False"

lemma disk_after_changes: "disk_after r = Some s' \<Longrightarrow> leads sha T s r \<Longrightarrow> (disk_change sha T)\<^sup>*\<^sup>* s s'"
  by (auto simp: outcome_def disk_after_def split: option.splits sum.splits)

lemma inserted_changes: "(\<And>b. store_digest (sha b)) \<Longrightarrow> inserted sha s now data s' \<Longrightarrow> (disk_change sha T)\<^sup>*\<^sup>* s s'"
  by (auto simp: inserted_def intro: linked_changes)

lemma insert_changes:
  assumes "\<And>b. store_digest (sha b)" "shape_grain sh \<noteq> Some 0"
  shows "leads sha T s (insert_stream sha now free reserve rs sh (ks, s))" "leads sha T s (insert_path sha now free reserve src sh (ks, s))"
  by (rule outcome_weaken[OF insert_stream_outcome[OF assms(2)]]; auto intro: inserted_changes[OF assms(1)])
    (rule outcome_weaken[OF insert_path_outcome[OF assms(2)]]; auto intro: inserted_changes[OF assms(1)])

lemma put_manifest_changes: "(\<And>b. store_digest (sha b)) \<Longrightarrow> leads sha T s (put_manifest sha now bytes (ks, s))"
  by (rule outcome_weaken[OF put_manifest_outcome]) (auto intro: linked_changes)

lemma owner_write_change:
  assumes "disk_ok sha s"
  shows "(disk_change sha T)\<^sup>*\<^sup>* s (owner_write dest f s)"
proof (cases "\<exists>i. ino_of s (Outside dest) = Some i \<and> owner_may_write (in_mode (dk_inode s i))")
  case True
  then obtain i where i: "ino_of s (Outside dest) = Some i" "owner_may_write (in_mode (dk_inode s i))" by blast
  then have "is_outside p" if "ino_of s p = Some i" for p
    using assms that unfolding disk_ok_def by (metis is_outside.simps(1))
  then have "disk_change sha T s (s\<lparr>dk_inode := (dk_inode s)(i := (dk_inode s i)\<lparr>in_bytes := f\<rparr>)\<rparr>)" by (rule change_write)
  with i show ?thesis by (simp add: owner_write_def)
qed (auto simp: owner_write_def split: option.splits)

lemma owner_link_change: "(disk_change sha T)\<^sup>*\<^sup>* s (owner_link src dest s)"
  by (auto simp: owner_link_def intro!: r_into_rtranclp change_link split: option.splits)

lemma store_step_changes:
  assumes sha: "\<And>b. store_digest (sha b)" and ok: "disk_ok sha s" and op: "op_ok op" "\<not> is_collect op"
    and step: "store_step sha parse to_json op (ks, s) = Some s'"
  shows "(disk_change sha (touches op))\<^sup>*\<^sup>* s s'"
proof -
  have one: "(disk_change sha (touches op))\<^sup>*\<^sup>* s t" if "disk_change sha (touches op) s t" for t using that by simp
  show ?thesis
  proof (cases op)
    case (InsertStream now free reserve rs sh)
    with step op show ?thesis by (auto intro: disk_after_changes insert_changes(1) sha)
  next
    case (InsertPath now free reserve src sh)
    with step op show ?thesis by (auto intro: disk_after_changes insert_changes(2) sha)
  next
    case (PutManifest now bytes)
    with step show ?thesis by (auto intro: disk_after_changes put_manifest_changes sha)
  next
    case (SetTag now t d)
    with step op show ?thesis by (auto simp: set_tag_def intro!: disk_after_changes replace_file_changes)
  next
    case (SetLabel now d l)
    with step op show ?thesis by (auto intro!: disk_after_changes set_label_changes simp: digest_path_def)
  next
    case (SetPublic now d)
    with step op show ?thesis by (auto intro!: disk_after_changes set_public_changes simp: digest_path_def)
  next
    case (Materialize now free reserve same_device d dest how)
    with step show ?thesis by (auto intro!: disk_after_changes materialize_changes[OF ok])
  next
    case (OwnerWrite dest f)
    with step show ?thesis using owner_write_change[OF ok] by auto
  next
    case (OwnerLink src dest)
    with step show ?thesis using owner_link_change by auto
  next
    case (OwnerCreate dest n)
    with step show ?thesis by (auto intro!: one change_replace)
  next
    case (OwnerRemove dest)
    with step show ?thesis by (auto intro!: one change_drop)
  qed (use step op in \<open>auto simp: remove_tag_def remove_label_def remove_public_def release_materialized_def digest_path_def intro!: disk_after_changes unlink_changes\<close>)
qed

lemma collect_step:
  assumes "disk_ok sha s" "store_step sha parse to_json (Collect rd now policy) (ks, s) = Some s'"
  shows "\<exists>Q. s' = without Q s"
  using assms collect_removing[OF assms(1)] by (fastforce simp: disk_after_def removing_def)

lemma store_step_ok:
  assumes "\<And>b. store_digest (sha b)" "disk_ok sha s" "op_ok op" "store_step sha parse to_json op (ks, s) = Some s'"
  shows "disk_ok sha s'"
proof (cases "is_collect op")
  case True
  then obtain rd now policy where "op = Collect rd now policy" by (cases op) auto
  with collect_step[OF assms(2)] assms(4) obtain Q where "s' = without Q s" by blast
  then show ?thesis by (simp add: disk_ok_without[OF assms(2)])
next
  case False
  show ?thesis by (rule disk_changes_ok[OF store_step_changes[OF assms(1,2,3) False assms(4)] assms(2)])
qed

interpretation store: kept_invariant "\<lambda>(op, ks) s. store_step sha parse to_json op (ks, s)" "store_history sha parse to_json"
  "\<lambda>s. (\<forall>b. store_digest (sha b)) \<and> disk_ok sha s" "op_ok \<circ> fst" for sha parse to_json
  by unfold_locales (auto split: option.splits intro: store_step_ok)

lemma store_history_ok:
  assumes "\<And>b. store_digest (sha b)" "disk_ok sha s" "list_all (op_ok \<circ> fst) ops" "store_history sha parse to_json ops s = Some s'"
  shows "disk_ok sha s'"
  using store.run_inv[OF _ assms(3,4)] assms(1,2) by blast

section \<open>What histories keep\<close>

lemma get_tag_rd: "rd (TagFile t) = rd' (TagFile t) \<Longrightarrow> get_tag rd s t = get_tag rd' s t"
  by (simp add: get_tag_def read_file_def split: option.split)

lemma get_manifest_rd: "rd (digest_path Manifests d) = rd' (digest_path Manifests d) \<Longrightarrow> get_manifest parse rd s d = get_manifest parse rd' s d"
  by (simp add: get_manifest_def read_file_def split: option.split)

text \<open>The operations that leave tag \<open>t\<close> alone; a collection can read it and the manifest \<open>d\<close>.\<close>

fun leaves :: "string \<Rightarrow> digest \<Rightarrow> store_op \<Rightarrow> bool" where
  "leaves t d (Collect rd now policy) \<longleftrightarrow> rd (TagFile t) \<and> rd (digest_path Manifests d)"
| "leaves t d (SetTag now t' d') \<longleftrightarrow> t' \<noteq> t"
| "leaves t d (RemoveTag t') \<longleftrightarrow> t' \<noteq> t"
| "leaves t d _ \<longleftrightarrow> True"

text \<open>The owner writes through the link, and the tagged blob is collected around.\<close>

definition sample_ops :: "(store_op \<times> answer list) list" where
  "sample_ops =
     [(OwnerWrite ''vm'' [Some CHR ''x''], []), (RemoveTag ''other'', [Moved 0]),
      (Collect (\<lambda>_. True) 9 sample_policy, map Moved (replicate (gc_calls sample_disk) 0)), (Release ''vm'', [Moved 0])]"

lemma sample_history: "\<exists>s'. store_history sample_sha (\<lambda>_. None) (\<lambda>_. []) sample_ops sample_disk = Some s'"
proof -
  have "owner_write ''vm'' [Some CHR ''x''] sample_disk = sample_disk"
    by (simp add: owner_write_def sample_disk_def ino_of_def digest_path_def sealed_mode)
  moreover have "disk_after (remove_tag ''other'' ([Moved 0], sample_disk)) = Some sample_disk"
    by (simp add: remove_tag_def disk_after_def sample_disk_def ino_of_def digest_path_def)
  moreover obtain s1 where "disk_after (collect_garbage (\<lambda>_. None) (\<lambda>_. True) 9 sample_policy (map Moved (replicate (gc_calls sample_disk) 0), sample_disk)) = Some s1"
    using collect_garbage_returns[OF sample_ok, of "replicate (gc_calls sample_disk) 0" "\<lambda>_. None" "\<lambda>_. True" 9 sample_policy] by (auto simp: disk_after_def)
  moreover have "\<exists>s2. disk_after (release_materialized ''vm'' ([Moved 0], s1)) = Some s2"
    by (simp add: release_materialized_def disk_after_def)
  ultimately show ?thesis by (auto simp: sample_ops_def)
qed

lemma sample_ops_ok: "list_all (op_ok \<circ> fst) sample_ops" "list_all (leaves ''keep'' zeros \<circ> fst) sample_ops"
  by (simp_all add: sample_ops_def)

text \<open>
  C11. Integrity of the store over every history of its operations and of the owner's: names stay
  unique and in their shards, blobs and manifests stay sealed, and the verification of a blob that
  is listed at the end never finds it missing or different from the digest it is named by.
\<close>

theorem store_history_integrity:
  assumes "\<And>b. store_digest (sha b)" "disk_ok sha s" "list_all (op_ok \<circ> fst) ops" "store_history sha parse to_json ops s = Some s'"
  shows "disk_ok sha s' \<and>
    list_all (\<lambda>d. case verify sha d (ks, s') of
        None \<Rightarrow> moves ks < 2 + blob_size s' d
      | Some (Inl e, _) \<Rightarrow> (\<exists>y. e = Io (Os y) \<and> Errno y \<in> set ks)
      | Some (Inr _, _) \<Rightarrow> True) (list_digests s' Blobs)"
proof -
  have ok: "disk_ok sha s'" by (rule store_history_ok[OF assms])
  have "case verify sha d (ks, s') of None \<Rightarrow> moves ks < 2 + blob_size s' d | Some (Inl e, _) \<Rightarrow> (\<exists>y. e = Io (Os y) \<and> Errno y \<in> set ks) | Some (Inr _, _) \<Rightarrow> True"
    if "ino_of s' (digest_path Blobs d) = Some i" for d i
  proof -
    have "name_ok sha (digest_path Blobs d) (dk_inode s' i)" using ok that unfolding disk_ok_def by blast
    then have "sha (content (in_bytes (dk_inode s' i))) = d" by (simp add: digest_path_def)
    with that verify_run[of s' d sha ks, THEN conjunct2] show ?thesis
      by (auto simp: costs_def bytes_at_def split: option.splits sum.splits)
  qed
  with ok show ?thesis by (auto simp: list_all_iff list_digests_set[OF ok])
qed

theorem store_history_integrity_witness:
  "case store_history sample_sha (\<lambda>_. None) (\<lambda>_. []) sample_ops sample_disk of
     None \<Rightarrow> False
   | Some s' \<Rightarrow> disk_ok sample_sha s' \<and>
       list_all (\<lambda>d. case verify sample_sha d ([Moved 1, Errno EINTR], s') of None \<Rightarrow> True | Some (Inl e, _) \<Rightarrow> e = Io (Os EINTR) | Some (Inr _, _) \<Rightarrow> True) (list_digests s' Blobs)"
proof -
  obtain s' where run: "store_history sample_sha (\<lambda>_. None) (\<lambda>_. []) sample_ops sample_disk = Some s'" using sample_history by blast
  with store_history_integrity[OF sample_digests(1) sample_ok sample_ops_ok(1) run, of "[Moved 1, Errno EINTR]"] show ?thesis
    by (auto simp: list_all_iff split: option.splits sum.splits)
qed

definition kept :: "disk \<Rightarrow> disk \<Rightarrow> path \<Rightarrow> bool" where
  "kept s s' p \<longleftrightarrow> (case bytes_at s p of None \<Rightarrow> True | Some bs \<Rightarrow> bytes_at s' p = Some bs)"

lemma kept_chain: "kept s s' p \<Longrightarrow> kept s' s'' p \<Longrightarrow> kept s s'' p"
  by (auto simp: kept_def split: option.splits)

lemma kept_same: "bytes_at s' p = bytes_at s p \<Longrightarrow> kept s s' p"
  by (simp add: kept_def split: option.split)

lemma disk_changes_kept:
  assumes "(disk_change sha T)\<^sup>*\<^sup>* s s'" "disk_ok sha s" "\<not> T p" "\<not> is_outside p"
  shows "kept s s' p"
  using disk_changes_keep[OF assms(1,2) _ assms(3,4)] by (auto simp: kept_def bytes_at_def split: option.splits)

lemma leaves_touches: "leaves t d op \<Longrightarrow> \<not> touches op (TagFile t)"
  "\<not> touches op (digest_path Blobs d)" "\<not> touches op (digest_path Manifests d)"
  by (cases op; simp add: digest_path_def)+

lemma kept_tag: "kept s s' (TagFile t) \<Longrightarrow> get_tag rd s t = Inr d \<Longrightarrow> get_tag rd s' t = Inr d"
  by (auto simp: kept_def get_tag_def read_file_def and_then_def split: option.splits sum.splits)

lemma kept_manifest: "kept s s' (digest_path Manifests d) \<Longrightarrow> get_manifest parse rd s d = Inr m \<Longrightarrow> get_manifest parse rd s' d = Inr m"
  by (auto simp: kept_def get_manifest_def read_file_def and_then_def split: option.splits sum.splits)

text \<open>What tag \<open>t\<close> leads to in \<open>s\<close> is there in \<open>s'\<close>.\<close>

definition intact :: "(string \<Rightarrow> manifest option) \<Rightarrow> string \<Rightarrow> digest \<Rightarrow> disk \<Rightarrow> disk \<Rightarrow> bool" where
  "intact parse t d s s' \<longleftrightarrow> get_tag (\<lambda>_. True) s' t = Inr d \<and> kept s s' (digest_path Blobs d) \<and>
     (case get_manifest parse (\<lambda>_. True) s d of
        Inl _ \<Rightarrow> True
      | Inr m \<Rightarrow> get_manifest parse (\<lambda>_. True) s' d = Inr m \<and> list_all (\<lambda>e. kept s s' (digest_path Blobs (me_digest e))) (mf_entries m))"

lemma intact_refl: "get_tag (\<lambda>_. True) s t = Inr d \<Longrightarrow> intact parse t d s s"
  by (auto simp: intact_def list_all_iff intro: kept_same split: sum.splits)

lemma intact_trans: "intact parse t d s s' \<Longrightarrow> intact parse t d s' s'' \<Longrightarrow> intact parse t d s s''"
  by (auto simp: intact_def list_all_iff intro: kept_chain split: sum.splits)

lemma store_step_intact:
  assumes "\<And>b. store_digest (sha b)" "disk_ok sha s" "op_ok op" "leaves t d op" "get_tag (\<lambda>_. True) s t = Inr d"
    and "store_step sha parse to_json op (ks, s) = Some s'"
  shows "intact parse t d s s'"
proof (cases "is_collect op")
  case True
  then obtain rd now policy where op: "op = Collect rd now policy" by (cases op) auto
  with assms(4) have rd: "rd (TagFile t)" "rd (digest_path Manifests d)" by auto
  from assms(6) op obtain r ks' where run: "collect_garbage parse rd now policy (ks, s) = Some (r, ks', s')" by (auto simp: disk_after_def)
  note same = get_tag_rd[of rd t "\<lambda>_. True"] get_manifest_rd[of rd d "\<lambda>_. True" parse]
  from tagged_kept[OF assms(2) run, of t d] assms(5) rd show ?thesis
    by (auto simp: intact_def same list_all_iff intro: kept_same split: sum.splits)
next
  case False
  note kept = disk_changes_kept[OF store_step_changes[OF assms(1-3) False assms(6)] assms(2)]
  have "kept s s' (TagFile t)" "kept s s' (digest_path Blobs d')" "kept s s' (digest_path Manifests d')" for d'
    by (rule kept; use leaves_touches assms(4) in \<open>auto simp: digest_path_def\<close>)+
  with assms(5) show ?thesis by (auto simp: intact_def list_all_iff intro: kept_tag kept_manifest split: sum.splits)
qed

text \<open>
  C9. What a tag leads to is safe in every history that does not set or remove that tag and in which
  every collection can read the tag and the manifest of the digest it names: after any mixture of
  insertions, other tags, labels, materializations, collections and owners' writes, each of which may
  have failed, the tag still names its digest, the manifest reads the same and every blob that was
  there has the bytes it had. The condition on collections is needed: one that cannot read the tag or
  the manifest takes them for absent and deletes what they lead to.
\<close>

theorem tagged_history_intact:
  assumes "\<And>b. store_digest (sha b)" "disk_ok sha s" "list_all (op_ok \<circ> fst) ops" "list_all (leaves t d \<circ> fst) ops"
    and "get_tag (\<lambda>_. True) s t = Inr d" "store_history sha parse to_json ops s = Some s'"
  shows "intact parse t d s s'"
proof (rule store.run_related[where P = "\<lambda>s. get_tag (\<lambda>_. True) s t = Inr d" and allowed = "leaves t d \<circ> fst"])
  show "(\<forall>b. store_digest (sha b)) \<and> disk_ok sha s" using assms(1,2) by blast
next
  fix op :: "store_op \<times> answer list" and u u'
  assume "(\<forall>b. store_digest (sha b)) \<and> disk_ok sha u" "(op_ok \<circ> fst) op" "(leaves t d \<circ> fst) op" "get_tag (\<lambda>_. True) u t = Inr d"
    "(case op of (op, ks) \<Rightarrow> \<lambda>s. store_step sha parse to_json op (ks, s)) u = Some u'"
  then have "intact parse t d u u'" using store_step_intact[of sha u "fst op" t d parse to_json "snd op" u'] by (cases op) auto
  then show "intact parse t d u u' \<and> get_tag (\<lambda>_. True) u' t = Inr d" by (simp add: intact_def)
qed (erule intact_refl, erule (1) intact_trans, rule assms(3), rule assms(4), rule assms(5), rule assms(6))

theorem tagged_history_intact_witness:
  "case store_history sample_sha (\<lambda>_. None) (\<lambda>_. []) sample_ops sample_disk of
     None \<Rightarrow> False
   | Some s' \<Rightarrow> get_tag (\<lambda>_. True) s' ''keep'' = Inr zeros \<and> bytes_at s' (digest_path Blobs zeros) = Some ''a''"
proof -
  obtain s' where run: "store_history sample_sha (\<lambda>_. None) (\<lambda>_. []) sample_ops sample_disk = Some s'" using sample_history by blast
  moreover have "bytes_at sample_disk (digest_path Blobs zeros) = Some ''a''" by (simp add: sample_disk_def bytes_at_def ino_of_def content_def)
  ultimately show ?thesis
    using tagged_history_intact[OF sample_digests(1) sample_ok sample_ops_ok sample_tag run] by (simp add: intact_def kept_def)
qed

end
