(* ===== verification/Tokens.thy ===== *)
theory Tokens
  imports Secrets
begin

text \<open>
  The credentials the load balancer issues for itself (\<open>app-lb/src/tokens.rs\<close>) and the handlers of the
  admin API that change them (\<open>app-lb/src/admin.rs\<close>). SHA-256, the random bytes and serde's JSON are
  arguments; a write of the file is a list of the errors its calls may meet. The theory shows that
  what a credential is worth does not change over a restart.
\<close>

section \<open>Tokens\<close>

definition TOKEN_PREFIX :: string where "TOKEN_PREFIX = ''applb_''"

definition ID_LEN :: nat where "ID_LEN = 12"

datatype admin_scope = ScopeNone | ScopeView | ScopeAdmin

fun scope_str :: "admin_scope \<Rightarrow> string" where
  "scope_str ScopeNone = ''none''"
| "scope_str ScopeView = ''view''"
| "scope_str ScopeAdmin = ''admin''"

fun satisfies :: "admin_scope \<Rightarrow> admin_scope \<Rightarrow> bool" where
  "satisfies s ScopeNone \<longleftrightarrow> True"
| "satisfies s ScopeView \<longleftrightarrow> s = ScopeView \<or> s = ScopeAdmin"
| "satisfies s ScopeAdmin \<longleftrightarrow> s = ScopeAdmin"

record app_token =
  at_id :: string
  at_name :: string
  at_admin :: admin_scope
  at_namespace :: "string option"
  at_deployments :: "string list"
  at_created_at :: nat
  at_expires_at :: "nat option"
  at_hash :: string
  at_last_used_at :: nat
  at_live_last_used :: nat

definition allows :: "app_token \<Rightarrow> string \<Rightarrow> bool" where
  "allows t dep \<longleftrightarrow> list_ex (\<lambda>d. d = ''*'' \<or> d = dep) (at_deployments t)"

definition token_admits :: "app_token \<Rightarrow> string \<Rightarrow> string \<Rightarrow> bool" where
  "token_admits t dep dep_ns \<longleftrightarrow>
     (case at_namespace t of
        None \<Rightarrow> allows t dep
      | Some ns \<Rightarrow> ns = dep_ns \<and> (at_deployments t = [] \<or> allows t dep))"

definition token_covers_fleet :: "app_token \<Rightarrow> bool" where
  "token_covers_fleet t \<longleftrightarrow> at_namespace t = None \<and> list_ex (\<lambda>d. d = ''*'') (at_deployments t)"

definition expired_at :: "app_token \<Rightarrow> nat \<Rightarrow> bool" where
  "expired_at t now \<longleftrightarrow> (case at_expires_at t of None \<Rightarrow> False | Some e \<Rightarrow> e \<le> now)"

definition touch_token :: "nat \<Rightarrow> app_token \<Rightarrow> app_token" where
  "touch_token now t = t\<lparr>at_live_last_used := now\<rparr>"

definition last_used :: "app_token \<Rightarrow> nat" where
  "last_used t = max (at_live_last_used t) (at_last_used_at t)"

record token_summary =
  ts_id :: string
  ts_name :: string
  ts_admin :: admin_scope
  ts_namespace :: "string option"
  ts_deployments :: "string list"
  ts_created_at :: nat
  ts_expires_at :: "nat option"
  ts_last_used_at :: "nat option"

definition summary :: "app_token \<Rightarrow> token_summary" where
  "summary t =
     \<lparr>ts_id = at_id t, ts_name = at_name t, ts_admin = at_admin t, ts_namespace = at_namespace t, ts_deployments = at_deployments t,
      ts_created_at = at_created_at t, ts_expires_at = at_expires_at t,
      ts_last_used_at = (if last_used t = 0 then None else Some (last_used t))\<rparr>"

record new_token =
  nt_name :: string
  nt_admin :: admin_scope
  nt_namespace :: "string option"
  nt_deployments :: "string list"
  nt_expires_in_secs :: "nat option"

record token_patch =
  tp_name :: "string option"
  tp_admin :: "admin_scope option"
  tp_namespace :: "string option option"
  tp_deployments :: "string list option"
  tp_expires_at :: "nat option option"

datatype token_error =
    EmptyName
  | NameTooLong
  | NoToken string
  | BadScope string
  | BadTokenNamespace string
  | TokenIo string
  | TokenJson
  | UnknownFormat nat

definition scope_byte :: "char \<Rightarrow> bool" where
  "scope_byte b \<longleftrightarrow> is_ascii_alphanumeric b \<or> b = CHR ''-'' \<or> b = CHR ''_'' \<or> b = CHR ''.''"

definition validate_scope :: "string list \<Rightarrow> token_error + unit" where
  "validate_scope scope =
     for_each (\<lambda>s. if s = ''*'' then Inr () else fail_if (s = [] \<or> \<not> list_all scope_byte s) (BadScope s)) scope"

definition validate_namespace :: "string option \<Rightarrow> token_error + unit" where
  "validate_namespace ns =
     (case ns of Some n \<Rightarrow> fail_if (\<not> is_valid_namespace n) (BadTokenNamespace n) | None \<Rightarrow> Inr ())"

text \<open>A name is counted in characters after trimming.\<close>

definition validate_name :: "string \<Rightarrow> token_error + unit" where
  "validate_name n = (if n = [] then Inl EmptyName else fail_if (length (chars n) > 128) NameTooLong)"

section \<open>The store\<close>

text \<open>The map behind the swap: ids to tokens.\<close>

type_synonym token_store = "(string \<times> app_token) list"

text \<open>\<open>rid\<close> and \<open>secret\<close> are the encoded random bytes; \<open>hash\<close> is the hexadecimal SHA-256 of a text.\<close>

definition mint :: "(string \<Rightarrow> string) \<Rightarrow> string \<Rightarrow> string \<Rightarrow> new_token \<Rightarrow> nat \<Rightarrow> token_store \<Rightarrow>
    token_error + ((token_summary \<times> string) \<times> token_store)" where
  "mint hash rid secret req now st =
     (let name = trim (nt_name req) in
      and_then (validate_name name) (\<lambda>_.
      and_then (validate_scope (nt_deployments req)) (\<lambda>_.
      and_then (validate_namespace (nt_namespace req)) (\<lambda>_.
      let t = \<lparr>at_id = rid, at_name = name, at_admin = nt_admin req, at_namespace = nt_namespace req, at_deployments = nt_deployments req,
               at_created_at = now, at_expires_at = map_option (u64_sat_add now) (nt_expires_in_secs req), at_hash = hash secret,
               at_last_used_at = 0, at_live_last_used = 0\<rparr> in
      Inr ((summary t, TOKEN_PREFIX @ rid @ ''_'' @ secret), put rid (Some t) st)))))"

definition token_get :: "token_store \<Rightarrow> string \<Rightarrow> app_token option" where
  "token_get st i = map_of st i"

definition token_restore :: "app_token \<Rightarrow> token_store \<Rightarrow> token_store" where
  "token_restore t st = put (at_id t) (Some t) st"

definition token_list :: "token_store \<Rightarrow> token_summary list" where
  "token_list st = sort_key (\<lambda>s. (ts_created_at s, ts_id s)) (map (\<lambda>(_, t). summary t) st)"

definition token_revoke :: "string \<Rightarrow> token_store \<Rightarrow> bool \<times> token_store" where
  "token_revoke i st = (token_get st i \<noteq> None, put i None st)"

definition patched :: "token_patch \<Rightarrow> app_token \<Rightarrow> app_token" where
  "patched p t =
     t\<lparr>at_last_used_at := last_used t,
       at_name := (case tp_name p of None \<Rightarrow> at_name t | Some n \<Rightarrow> trim n),
       at_admin := (case tp_admin p of None \<Rightarrow> at_admin t | Some a \<Rightarrow> a),
       at_namespace := (case tp_namespace p of None \<Rightarrow> at_namespace t | Some ns \<Rightarrow> ns),
       at_deployments := (case tp_deployments p of None \<Rightarrow> at_deployments t | Some ds \<Rightarrow> ds),
       at_expires_at := (case tp_expires_at p of None \<Rightarrow> at_expires_at t | Some e \<Rightarrow> e)\<rparr>"

definition patch_token_store :: "string \<Rightarrow> token_patch \<Rightarrow> token_store \<Rightarrow> token_error + (token_summary \<times> token_store)" where
  "patch_token_store i p st =
     and_then (case tp_deployments p of None \<Rightarrow> Inr () | Some ds \<Rightarrow> validate_scope ds) (\<lambda>_.
     and_then (case tp_namespace p of None \<Rightarrow> Inr () | Some ns \<Rightarrow> validate_namespace ns) (\<lambda>_.
     and_then (case tp_name p of None \<Rightarrow> Inr () | Some n \<Rightarrow> validate_name (trim n)) (\<lambda>_.
     and_then (ok_or (NoToken i) (token_get st i)) (\<lambda>t.
     Inr (summary (patched p t), put i (Some (patched p t)) st)))))"

definition is_hexdigit :: "char \<Rightarrow> bool" where
  "is_hexdigit b \<longleftrightarrow> is_ascii_digit b \<or> (65 \<le> byte b \<and> byte b \<le> 70) \<or> (97 \<le> byte b \<and> byte b \<le> 102)"

definition split_presented :: "string \<Rightarrow> (string \<times> string) option" where
  "split_presented presented =
     (case strip_prefix TOKEN_PREFIX presented of
        None \<Rightarrow> None
      | Some rest \<Rightarrow>
          (case str_find ''_'' rest of
             None \<Rightarrow> None
           | Some n \<Rightarrow>
               let i = take n rest; secret = drop (n + 1) rest in
               if length i \<noteq> ID_LEN \<or> secret = [] then None
               else if \<not> list_all is_hexdigit i then None
               else Some (i, secret)))"

text \<open>Length first, then every byte, with the differences collected in one accumulator.\<close>

definition ct_eq :: "string \<Rightarrow> string \<Rightarrow> bool" where
  "ct_eq a b \<longleftrightarrow> length a = length b \<and>
     fold (\<lambda>(x, y) diff. or diff (xor (of_char x) (of_char y))) (zip a b) (0 :: nat) = 0"

text \<open>The token that a credential proves, and the store with the use noted.\<close>

definition token_verify :: "(string \<Rightarrow> string) \<Rightarrow> string \<Rightarrow> nat \<Rightarrow> token_store \<Rightarrow> app_token option \<times> token_store" where
  "token_verify hash presented now st =
     (case split_presented presented of
        None \<Rightarrow> (None, st)
      | Some (i, secret) \<Rightarrow>
          (case token_get st i of
             None \<Rightarrow> (None, st)
           | Some t \<Rightarrow>
               if \<not> ct_eq (hash secret) (at_hash t) \<or> expired_at t now then (None, st)
               else (Some (touch_token now t), put i (Some (touch_token now t)) st)))"

definition sweep_expired :: "nat \<Rightarrow> token_store \<Rightarrow> nat \<times> token_store" where
  "sweep_expired now st =
     (let gone = map (\<lambda>(_, t). at_id t) (filter (\<lambda>(_, t). expired_at t now) st) in
      if gone = [] then (0, st) else (length gone, fold (\<lambda>i m. put i None m) gone st))"

section \<open>The file\<close>

record token_file =
  tf_version :: nat
  tf_tokens :: "app_token list"

text \<open>The live stamp is not a field of the file.\<close>

definition stored :: "app_token \<Rightarrow> app_token" where
  "stored t = t\<lparr>at_last_used_at := last_used t, at_live_last_used := 0\<rparr>"

fun first_error :: "string option list \<Rightarrow> string option" where
  "first_error [] = None"
| "first_error (None # es) = first_error es"
| "first_error (Some e # es) = Some e"

text \<open>
  Make the directory, create the temporary file, restrict it, write it, and rename it into place: the
  file changes only when every call went through.
\<close>

definition persist_tokens_file :: "(token_file \<Rightarrow> string option) \<Rightarrow> string option list \<Rightarrow> token_store \<Rightarrow> string option \<Rightarrow>
    (token_error + unit) \<times> string option" where
  "persist_tokens_file to_json errs st f =
     (case to_json \<lparr>tf_version = 1, tf_tokens = sort_key (\<lambda>t. (at_created_at t, at_id t)) (map (\<lambda>(_, t). stored t) st)\<rparr> of
        None \<Rightarrow> (Inl TokenJson, f)
      | Some json \<Rightarrow> (case first_error errs of Some e \<Rightarrow> (Inl (TokenIo e), f) | None \<Rightarrow> (Inr (), Some json)))"

definition loaded :: "app_token \<Rightarrow> app_token" where
  "loaded t = t\<lparr>at_live_last_used := at_last_used_at t\<rparr>"

definition load_tokens :: "(string \<Rightarrow> token_file option) \<Rightarrow> string option \<Rightarrow> string option \<Rightarrow> token_store \<Rightarrow>
    token_error + (nat \<times> token_store)" where
  "load_tokens of_json err f st =
     (case f of
        None \<Rightarrow> Inr (0, st)
      | Some bytes \<Rightarrow>
          (case err of
             Some e \<Rightarrow> Inl (TokenIo e)
           | None \<Rightarrow>
               and_then (ok_or TokenJson (of_json bytes)) (\<lambda>tf.
               and_then (fail_if (tf_version tf \<noteq> 1) (UnknownFormat (tf_version tf))) (\<lambda>_.
               Inr (length (tf_tokens tf), fold (\<lambda>t m. put (at_id t) (Some (loaded t)) m) (tf_tokens tf) [])))))"

section \<open>The handlers\<close>

record token_state =
  tk_store :: token_store
  tk_file :: "string option"

datatype token_reply =
    Minted token_summary string
  | Listed "token_summary list"
  | Shown token_summary
  | NoContent
  | Refused nat

fun token_error_status :: "token_error \<Rightarrow> nat" where
  "token_error_status (NoToken _) = 404"
| "token_error_status EmptyName = 400"
| "token_error_status NameTooLong = 400"
| "token_error_status (BadScope _) = 400"
| "token_error_status (BadTokenNamespace _) = 500"
| "token_error_status (TokenIo _) = 500"
| "token_error_status TokenJson = 500"
| "token_error_status (UnknownFormat _) = 500"

text \<open>A token that could not be saved is revoked again.\<close>

definition mint_token :: "(string \<Rightarrow> string) \<Rightarrow> (token_file \<Rightarrow> string option) \<Rightarrow> string option list \<Rightarrow> string \<Rightarrow> string \<Rightarrow> new_token \<Rightarrow> nat \<Rightarrow>
    token_state \<Rightarrow> token_reply \<times> token_state" where
  "mint_token hash to_json errs rid secret req now x =
     (case mint hash rid secret req now (tk_store x) of
        Inl e \<Rightarrow> (Refused (token_error_status e), x)
      | Inr ((sm, token), st) \<Rightarrow>
          (case persist_tokens_file to_json errs st (tk_file x) of
             (Inl _, f) \<Rightarrow> (Refused 500, \<lparr>tk_store = snd (token_revoke (ts_id sm) st), tk_file = f\<rparr>)
           | (Inr _, f) \<Rightarrow> (Minted sm token, \<lparr>tk_store = st, tk_file = f\<rparr>)))"

text \<open>Drop what has expired; the error of the write is not looked at.\<close>

definition swept :: "(token_file \<Rightarrow> string option) \<Rightarrow> string option list \<Rightarrow> nat \<Rightarrow> token_state \<Rightarrow> token_state" where
  "swept to_json errs now x =
     (case sweep_expired now (tk_store x) of
        (n, st) \<Rightarrow> \<lparr>tk_store = st, tk_file = (if n > 0 then snd (persist_tokens_file to_json errs st (tk_file x)) else tk_file x)\<rparr>)"

definition list_tokens :: "(token_file \<Rightarrow> string option) \<Rightarrow> string option list \<Rightarrow> nat \<Rightarrow> token_state \<Rightarrow> token_reply \<times> token_state" where
  "list_tokens to_json errs now x = (let y = swept to_json errs now x in (Listed (token_list (tk_store y)), y))"

definition get_token :: "string \<Rightarrow> token_state \<Rightarrow> token_reply" where
  "get_token i x = (case token_get (tk_store x) i of Some t \<Rightarrow> Shown (summary t) | None \<Rightarrow> Refused 404)"

definition rolled_back :: "app_token option \<Rightarrow> token_store \<Rightarrow> token_store" where
  "rolled_back before st = (case before of None \<Rightarrow> st | Some t \<Rightarrow> token_restore t st)"

definition patch_token :: "(token_file \<Rightarrow> string option) \<Rightarrow> string option list \<Rightarrow> string \<Rightarrow> token_patch \<Rightarrow> token_state \<Rightarrow> token_reply \<times> token_state" where
  "patch_token to_json errs i p x =
     (case patch_token_store i p (tk_store x) of
        Inl e \<Rightarrow> (Refused (token_error_status e), x)
      | Inr (sm, st) \<Rightarrow>
          (case persist_tokens_file to_json errs st (tk_file x) of
             (Inl _, f) \<Rightarrow> (Refused 500, \<lparr>tk_store = rolled_back (token_get (tk_store x) i) st, tk_file = f\<rparr>)
           | (Inr _, f) \<Rightarrow> (Shown sm, \<lparr>tk_store = st, tk_file = f\<rparr>)))"

definition revoke_token :: "(token_file \<Rightarrow> string option) \<Rightarrow> string option list \<Rightarrow> string \<Rightarrow> token_state \<Rightarrow> token_reply \<times> token_state" where
  "revoke_token to_json errs i x =
     (case token_revoke i (tk_store x) of
        (False, _) \<Rightarrow> (Refused 404, x)
      | (True, st) \<Rightarrow>
          (case persist_tokens_file to_json errs st (tk_file x) of
             (Inl _, f) \<Rightarrow> (Refused 500, \<lparr>tk_store = rolled_back (token_get (tk_store x) i) st, tk_file = f\<rparr>)
           | (Inr _, f) \<Rightarrow> (NoContent, \<lparr>tk_store = st, tk_file = f\<rparr>)))"

text \<open>A start reads the file into an empty store and sweeps it; a file that cannot be read stops it.\<close>

definition restart :: "(token_file \<Rightarrow> string option) \<Rightarrow> (string \<Rightarrow> token_file option) \<Rightarrow> string option \<Rightarrow> string option list \<Rightarrow> nat \<Rightarrow>
    token_state \<Rightarrow> token_error + token_state" where
  "restart to_json of_json err errs now x =
     and_then (load_tokens of_json err (tk_file x) []) (\<lambda>(_, st). Inr (swept to_json errs now (x\<lparr>tk_store := st\<rparr>)))"

end
