(* ===== verification/Federated.thy ===== *)
theory Federated
  imports Tokens
begin

text \<open>
  Bearers that the account service vouches for (\<open>app-lb/src/federated.rs\<close>) and the cookie a browser
  sends instead (\<open>app-lb/src/admin_login.rs\<close>). The answers of the service, SHA-256 and the URL parser
  are arguments; instants and durations are counted in nanoseconds. The theory shows how old an answer
  from the cache can be.
\<close>

section \<open>Grants\<close>

definition LOCAL_TOKEN_PREFIX :: string where "LOCAL_TOKEN_PREFIX = ''applb_''"

definition from_secs :: "nat \<Rightarrow> nat" where "from_secs s = s * 1000000000"

definition MISS_TTL :: nat where "MISS_TTL = from_secs 5"

definition MAX_ENTRIES :: nat where "MAX_ENTRIES = 4096"

record subject =
  sub_user_id :: string
  sub_email :: "string option"
  sub_account_id :: "string option"
  sub_platform_role :: "string option"

record grant =
  gr_subject :: subject
  gr_namespaces :: "(string \<times> admin_scope) list"
  gr_accounts :: "(string \<times> string) list"
  gr_fleet :: bool

definition account_for :: "grant \<Rightarrow> string \<Rightarrow> string option" where
  "account_for g ns = (case map_of (gr_accounts g) ns of Some owner \<Rightarrow> Some owner | None \<Rightarrow> sub_account_id (gr_subject g))"

text \<open>One scope: \<open>fleet:admin\<close>, or a namespace and a tier; the stronger tier of a namespace is kept.\<close>

definition granted_tier :: "string \<Rightarrow> admin_scope option" where
  "granted_tier tier = (if tier = ''admin'' then Some ScopeAdmin else if tier = ''view'' then Some ScopeView else None)"

definition parse_scope :: "string \<Rightarrow> (string \<times> admin_scope) list \<times> bool \<Rightarrow> (string \<times> admin_scope) list \<times> bool" where
  "parse_scope scope acc =
     (case acc of (m, fleet) \<Rightarrow>
        (case split_on (CHR '':'') scope of
           [a, b] \<Rightarrow> if a = ''fleet'' \<and> b = ''admin'' then (m, True) else (m, fleet)
         | [a, ns, tier] \<Rightarrow>
             if a = ''namespace'' \<and> is_valid_namespace ns then
               (case granted_tier tier of
                  None \<Rightarrow> (m, fleet)
                | Some granted \<Rightarrow>
                    let slot = (case map_of m ns of Some s \<Rightarrow> s | None \<Rightarrow> ScopeNone) in
                    (btree_insert ns (if satisfies granted slot then granted else slot) m, fleet))
             else (m, fleet)
         | _ \<Rightarrow> (m, fleet)))"

definition parse_scopes :: "string list \<Rightarrow> (string \<times> admin_scope) list \<times> bool" where
  "parse_scopes scopes = fold parse_scope scopes ([], False)"

section \<open>The resolver\<close>

datatype cache_entry = CacheHit grant nat | CacheMiss nat

fun entry_expires_at :: "cache_entry \<Rightarrow> nat" where
  "entry_expires_at (CacheHit _ t) = t"
| "entry_expires_at (CacheMiss t) = t"

fun entry_answer :: "cache_entry \<Rightarrow> grant option" where
  "entry_answer (CacheHit g _) = Some g"
| "entry_answer (CacheMiss _) = None"

record federated_auth =
  fed_ttl :: nat
  fed_cache :: "(string \<times> cache_entry) list"

definition federated_new :: "nat \<Rightarrow> federated_auth" where
  "federated_new ttl_secs = \<lparr>fed_ttl = from_secs (max ttl_secs 1), fed_cache = []\<rparr>"

text \<open>What the service sends.\<close>

record scopes_data =
  sd_subject :: subject
  sd_scopes :: "string list"
  sd_namespaces :: "(string \<times> string option) list"
  sd_expires_in :: "nat option"

record envelope =
  env_success :: bool
  env_data :: "scopes_data option"

definition owners :: "(string \<times> string option) list \<Rightarrow> (string \<times> string) list" where
  "owners ws = btree_extend [] (List.map_filter (\<lambda>(n, a). map_option (Pair n) a) ws)"

definition fetch_grant :: "(string \<Rightarrow> envelope option) \<Rightarrow> nat \<Rightarrow> string \<Rightarrow> (grant \<times> nat) option" where
  "fetch_grant service ttl bearer =
     (case service bearer of
        None \<Rightarrow> None
      | Some env \<Rightarrow>
          (case (env_data env, env_success env) of
             (Some d, True) \<Rightarrow>
               (case parse_scopes (sd_scopes d) of (m, fleet) \<Rightarrow>
                  Some (\<lparr>gr_subject = sd_subject d, gr_namespaces = m, gr_accounts = owners (sd_namespaces d), gr_fleet = fleet\<rparr>,
                        case sd_expires_in d of None \<Rightarrow> ttl | Some e \<Rightarrow> min (from_secs e) ttl))
           | _ \<Rightarrow> None))"

definition cached :: "string \<Rightarrow> nat \<Rightarrow> federated_auth \<Rightarrow> grant option option" where
  "cached key now fa =
     (case map_of (fed_cache fa) key of
        Some e \<Rightarrow> if entry_expires_at e > now then Some (entry_answer e) else None
      | None \<Rightarrow> None)"

definition store_entry :: "string \<Rightarrow> cache_entry \<Rightarrow> nat \<Rightarrow> federated_auth \<Rightarrow> federated_auth" where
  "store_entry key e now fa =
     (let c = (if length (fed_cache fa) \<ge> MAX_ENTRIES then filter (\<lambda>(_, e). entry_expires_at e > now) (fed_cache fa) else fed_cache fa)
      in fa\<lparr>fed_cache := put key (Some e) c\<rparr>)"

definition resolve_bearer :: "(string \<Rightarrow> string) \<Rightarrow> (string \<Rightarrow> envelope option) \<Rightarrow> nat \<Rightarrow> string \<Rightarrow> federated_auth \<Rightarrow> grant option \<times> federated_auth" where
  "resolve_bearer sha256 service now bearer fa =
     (if bearer = [] \<or> prefix LOCAL_TOKEN_PREFIX bearer then (None, fa)
      else (case cached (sha256 bearer) now fa of
              Some answer \<Rightarrow> (answer, fa)
            | None \<Rightarrow>
                (let fetched = fetch_grant service (fed_ttl fa) bearer;
                     e = (case fetched of Some (g, ttl) \<Rightarrow> CacheHit g (now + ttl) | None \<Rightarrow> CacheMiss (now + min MISS_TTL (fed_ttl fa)))
                 in (map_option fst fetched, store_entry (sha256 bearer) e now fa))))"

section \<open>The cookie of a browser\<close>

definition COOKIE :: string where "COOKIE = ''__Host-heyo-admin''"

definition split_once :: "string \<Rightarrow> string \<Rightarrow> (string \<times> string) option" where
  "split_once d s = (case str_find d s of None \<Rightarrow> None | Some n \<Rightarrow> Some (take n s, drop (n + length d) s))"

definition cookie_safe :: "string \<Rightarrow> bool" where
  "cookie_safe token \<longleftrightarrow> token \<noteq> [] \<and> length token \<le> 3800 \<and> list_all (\<lambda>b. is_ascii_alphanumeric b \<or> b \<in> set ''._-'') token"

definition cookie_values :: "string list \<Rightarrow> string list" where
  "cookie_values cookies =
     map snd (filter (\<lambda>(name, _). name = COOKIE)
       (List.map_filter (\<lambda>part. split_once ''='' (trim part)) (concat (map (split_on (CHR '';'')) cookies))))"

text \<open>\<open>same_origin\<close> is the comparison of the parsed origins; \<open>Inl\<close> is a refused session.\<close>

definition session :: "bool \<Rightarrow> string list \<Rightarrow> string \<Rightarrow> bool \<Rightarrow> bool \<Rightarrow> unit + string option" where
  "session has_authorization cookies method has_upgrade same_origin =
     (if has_authorization then Inr None
      else (case cookie_values cookies of
              [] \<Rightarrow> Inr None
            | token # others \<Rightarrow>
                if others \<noteq> [] \<or> \<not> cookie_safe token then Inl ()
                else if (method \<notin> {''GET'', ''HEAD''} \<or> has_upgrade) \<and> \<not> same_origin then Inl ()
                else Inr (Some (''Bearer '' @ token))))"

section \<open>How old an answer can be\<close>

text \<open>The service may change its answers over time.\<close>

definition run_resolve :: "(string \<Rightarrow> string) \<Rightarrow> (nat \<Rightarrow> string \<Rightarrow> envelope option) \<Rightarrow> (nat \<times> string) list \<Rightarrow> federated_auth \<Rightarrow> federated_auth" where
  "run_resolve sha256 service rs = fold (\<lambda>(t, b) fa. snd (resolve_bearer sha256 (service t) t b fa)) rs"

definition fetched_entry :: "(nat \<Rightarrow> string \<Rightarrow> envelope option) \<Rightarrow> nat \<Rightarrow> nat \<Rightarrow> string \<Rightarrow> cache_entry" where
  "fetched_entry service ttl t b =
     (case fetch_grant (service t) ttl b of Some (g, d) \<Rightarrow> CacheHit g (t + d) | None \<Rightarrow> CacheMiss (t + min MISS_TTL ttl))"

definition entries_fetched :: "(string \<Rightarrow> string) \<Rightarrow> (nat \<Rightarrow> string \<Rightarrow> envelope option) \<Rightarrow> (nat \<times> string) list \<Rightarrow> federated_auth \<Rightarrow> bool" where
  "entries_fetched sha256 service rs fa \<longleftrightarrow>
     list_all (\<lambda>(k, e). list_ex (\<lambda>(t, b). sha256 b = k \<and> e = fetched_entry service (fed_ttl fa) t b) rs) (fed_cache fa)"

lemma resolve_ttl [simp]: "fed_ttl (snd (resolve_bearer sha256 service now bearer fa)) = fed_ttl fa"
  by (simp add: resolve_bearer_def store_entry_def Let_def split: option.splits)

lemma set_put_sub: "set (put k (Some v) m) \<subseteq> insert (k, v) (set m)"
  by (induction m) (auto simp: put_def)

lemma entries_fetched_step:
  assumes "entries_fetched sha256 service rs fa"
  shows "entries_fetched sha256 service (rs @ [(t, b)]) (snd (resolve_bearer sha256 (service t) t b fa))"
proof -
  let ?e = "fetched_entry service (fed_ttl fa) t b"
  have "fed_cache (snd (resolve_bearer sha256 (service t) t b fa)) = fed_cache fa \<or>
    snd (resolve_bearer sha256 (service t) t b fa) = store_entry (sha256 b) ?e t fa"
    by (auto simp: resolve_bearer_def Let_def fetched_entry_def split: option.splits)
  then have "set (fed_cache (snd (resolve_bearer sha256 (service t) t b fa))) \<subseteq> insert (sha256 b, ?e) (set (fed_cache fa))"
    using set_put_sub by (fastforce simp: store_entry_def Let_def split: if_splits)
  with assms show ?thesis unfolding entries_fetched_def list_all_iff list_ex_iff resolve_ttl by fastforce
qed

lemma run_resolve_fetched:
  "entries_fetched sha256 service rs (run_resolve sha256 service rs (federated_new secs)) \<and>
   fed_ttl (run_resolve sha256 service rs (federated_new secs)) = from_secs (max secs 1)"
proof (induction rs rule: rev_induct)
  case (snoc r rs)
  then show ?case using entries_fetched_step[of sha256 service rs _ "fst r" "snd r"] by (auto simp: run_resolve_def case_prod_beta)
qed (simp add: run_resolve_def entries_fetched_def federated_new_def)

lemma fetched_entry_answer:
  "entry_answer (fetched_entry service ttl t b) = map_option fst (fetch_grant (service t) ttl b)"
  "entry_expires_at (fetched_entry service ttl t b) =
     t + (case fetch_grant (service t) ttl b of Some (_, d) \<Rightarrow> d | None \<Rightarrow> min MISS_TTL ttl)"
  by (simp_all add: fetched_entry_def split: option.splits)

text \<open>
  C28. The answer about a bearer is what the account service says of it now, or what it said at an earlier
  request for a bearer of the same digest less than the time to live ago, which is at most the
  configured one, the lifetime the service gave for a grant, and five seconds for a refusal.
\<close>

theorem federated_freshness:
  assumes "ttl = from_secs (max secs 1)" "bearer \<noteq> []" "\<not> prefix LOCAL_TOKEN_PREFIX bearer"
  shows "\<exists>(t, b) \<in> set (rs @ [(now, bearer)]).
    sha256 b = sha256 bearer \<and>
    fst (resolve_bearer sha256 (service now) now bearer (run_resolve sha256 service rs (federated_new secs))) =
      map_option fst (fetch_grant (service t) (ttl) b) \<and>
    ((t, b) = (now, bearer) \<or>
     now < t + (case fetch_grant (service t) (ttl) b of Some (_, d) \<Rightarrow> d | None \<Rightarrow> min MISS_TTL (ttl)))"
proof -
  let ?fa = "run_resolve sha256 service rs (federated_new secs)"
  have inv: "entries_fetched sha256 service rs ?fa" "fed_ttl ?fa = ttl" unfolding assms(1) using run_resolve_fetched by blast+
  show ?thesis
  proof (cases "cached (sha256 bearer) now ?fa")
    case None
    then show ?thesis using assms(2,3) inv(2) by (intro bexI[of _ "(now, bearer)"]) (auto simp: resolve_bearer_def Let_def)
  next
    case (Some answer)
    then obtain e where e: "map_of (fed_cache ?fa) (sha256 bearer) = Some e" "entry_expires_at e > now" "answer = entry_answer e"
      by (auto simp: cached_def split: option.splits if_splits)
    with inv obtain t b where tb: "(t, b) \<in> set rs" "sha256 b = sha256 bearer" "e = fetched_entry service ttl t b"
      by (fastforce simp: entries_fetched_def list_all_iff list_ex_iff dest: map_of_SomeD)
    have "fst (resolve_bearer sha256 (service now) now bearer ?fa) = answer" using assms(2,3) Some by (simp add: resolve_bearer_def)
    with tb e show ?thesis by (intro bexI[of _ "(t, b)"]) (auto simp: fetched_entry_answer)
  qed
qed

definition sample_service :: "nat \<Rightarrow> string \<Rightarrow> envelope option" where
  "sample_service t b = (if t = 0 then Some \<lparr>env_success = True, env_data = Some
     \<lparr>sd_subject = \<lparr>sub_user_id = ''u'', sub_email = None, sub_account_id = None, sub_platform_role = None\<rparr>,
      sd_scopes = [''namespace:sam:admin''], sd_namespaces = [], sd_expires_in = Some 9\<rparr>\<rparr> else None)"

theorem federated_freshness_witness:
  "\<exists>(t, b) \<in> set ([(0, ''x'')] @ [(20, ''x'')]). id b = id ''x'' \<and>
    fst (resolve_bearer id (sample_service 20) 20 ''x'' (run_resolve id sample_service [(0, ''x'')] (federated_new 60))) =
      map_option fst (fetch_grant (sample_service t) (from_secs (max 60 1)) b) \<and>
    ((t, b) = (20, ''x'') \<or>
     20 < t + (case fetch_grant (sample_service t) (from_secs (max 60 1)) b of Some (_, d) \<Rightarrow> d | None \<Rightarrow> min MISS_TTL (from_secs (max 60 1))))"
  by (rule federated_freshness[OF refl]) (simp_all add: LOCAL_TOKEN_PREFIX_def)

text \<open>A full cache of live entries still takes one more.\<close>

lemma cache_unbounded:
  assumes "list_all (\<lambda>(_, e). entry_expires_at e > now) (fed_cache fa)" "key \<notin> fst ` set (fed_cache fa)"
  shows "length (fed_cache (store_entry key e now fa)) = length (fed_cache fa) + 1"
proof -
  have "filter (\<lambda>(_, e). entry_expires_at e > now) (fed_cache fa) = fed_cache fa"
    using assms(1) by (simp add: filter_id_conv list_all_iff)
  then show ?thesis using put_fresh[OF assms(2)] by (simp add: store_entry_def Let_def)
qed

end
