(* ===== verification/Admin_Gate.thy ===== *)
theory Admin_Gate
  imports Federated Secret_File
begin

text \<open>
  The gate of the admin API and the handlers of the secret store behind it (\<open>app-lb/src/admin.rs\<close>):
  who is asking, what that permits on which route, and which namespaces a request about secrets may
  touch. The form decoder, the sealing of the secret file and the account service are arguments.
\<close>

section \<open>Callers\<close>

datatype caller = Ungated | Operator | TokenCaller app_token | FederatedCaller grant

fun caller_satisfies :: "caller \<Rightarrow> admin_scope \<Rightarrow> bool" where
  "caller_satisfies (TokenCaller t) want \<longleftrightarrow> satisfies (at_admin t) want"
| "caller_satisfies (FederatedCaller g) want \<longleftrightarrow> gr_fleet g \<or> list_ex (\<lambda>(_, s). satisfies s want) (gr_namespaces g)"
| "caller_satisfies _ want \<longleftrightarrow> True"

definition satisfies_in :: "caller \<Rightarrow> admin_scope \<Rightarrow> string option \<Rightarrow> bool" where
  "satisfies_in c want ns =
     (case (c, ns) of
        (FederatedCaller g, Some n) \<Rightarrow>
          if \<not> gr_fleet g then (case map_of (gr_namespaces g) n of None \<Rightarrow> False | Some s \<Rightarrow> satisfies s want)
          else caller_satisfies c want
      | _ \<Rightarrow> caller_satisfies c want)"

fun may_touch :: "caller \<Rightarrow> string \<Rightarrow> string option \<Rightarrow> bool" where
  "may_touch (TokenCaller t) dep ns =
     (case (at_namespace t, ns) of
        (None, _) \<Rightarrow> allows t dep
      | (Some _, Some n) \<Rightarrow> token_admits t dep n
      | (Some _, None) \<Rightarrow> False)"
| "may_touch (FederatedCaller g) dep ns \<longleftrightarrow> gr_fleet g \<or> (case ns of None \<Rightarrow> False | Some n \<Rightarrow> map_of (gr_namespaces g) n \<noteq> None)"
| "may_touch _ dep ns \<longleftrightarrow> True"

fun confined :: "caller \<Rightarrow> bool" where
  "confined (TokenCaller t) \<longleftrightarrow> at_namespace t \<noteq> None"
| "confined (FederatedCaller g) \<longleftrightarrow> \<not> gr_fleet g"
| "confined _ \<longleftrightarrow> False"

fun reaches_namespace :: "caller \<Rightarrow> string \<Rightarrow> bool" where
  "reaches_namespace (TokenCaller t) ns \<longleftrightarrow> (case at_namespace t of Some own \<Rightarrow> own = ns | None \<Rightarrow> token_covers_fleet t)"
| "reaches_namespace (FederatedCaller g) ns \<longleftrightarrow> gr_fleet g \<or> map_of (gr_namespaces g) ns \<noteq> None"
| "reaches_namespace _ ns \<longleftrightarrow> True"

fun may_view :: "caller \<Rightarrow> string \<Rightarrow> string \<Rightarrow> bool" where
  "may_view (TokenCaller t) dep ns \<longleftrightarrow> token_admits t dep ns"
| "may_view (FederatedCaller g) dep ns \<longleftrightarrow> reaches_namespace (FederatedCaller g) ns"
| "may_view _ dep ns \<longleftrightarrow> True"

fun caller_covers_fleet :: "caller \<Rightarrow> bool" where
  "caller_covers_fleet (TokenCaller t) \<longleftrightarrow> token_covers_fleet t"
| "caller_covers_fleet (FederatedCaller g) \<longleftrightarrow> gr_fleet g"
| "caller_covers_fleet _ \<longleftrightarrow> True"

fun caller_visible :: "caller \<Rightarrow> string list option" where
  "caller_visible (TokenCaller t) = (if token_covers_fleet t then None else Some (at_deployments t))"
| "caller_visible _ = None"

fun sole_namespace :: "caller \<Rightarrow> string option" where
  "sole_namespace (TokenCaller t) = at_namespace t"
| "sole_namespace (FederatedCaller g) =
     (if \<not> gr_fleet g \<and> length (gr_namespaces g) = 1 then Some (fst (hd (gr_namespaces g))) else None)"
| "sole_namespace _ = None"

text \<open>A registry here is the ids of the deployments with the namespaces of their specs.\<close>

definition visible_ids :: "(string \<times> string) list \<Rightarrow> caller option \<Rightarrow> string list option" where
  "visible_ids deps who =
     (case who of
        None \<Rightarrow> None
      | Some c \<Rightarrow> if confined c then Some (map fst (filter (\<lambda>(i, ns). may_view c i ns) deps)) else caller_visible c)"

section \<open>Routes\<close>

definition narrows_itself :: "string \<Rightarrow> bool" where
  "narrows_itself matched \<longleftrightarrow> matched \<in> set [''/'', ''/metrics'', ''/dashboard'', ''/security'', ''/siem'', ''/ingress'', ''/network'',
     ''/namespaces'', ''/auth-providers'', ''/whoami'']"

definition is_secret_route :: "string \<Rightarrow> bool" where
  "is_secret_route matched \<longleftrightarrow> matched \<in> set [''/secrets'', ''/secrets/:id'']"

definition is_auth_provider_route :: "string \<Rightarrow> bool" where
  "is_auth_provider_route matched \<longleftrightarrow> matched \<in> set [''/auth-providers'', ''/auth-providers/:namespace/:name'']"

definition is_fleet_namespace_route :: "string \<Rightarrow> bool" where
  "is_fleet_namespace_route matched \<longleftrightarrow> matched \<in> set [''/fleet/deployments'', ''/fleet/gateways/:id/metrics'']"

text \<open>The third part of a path cut at its slashes.\<close>

definition path_part :: "string \<Rightarrow> string option" where
  "path_part path = (let parts = split_on (CHR ''/'') path in if 2 < length parts then Some (parts ! 2) else None)"

definition deployment_of :: "string \<Rightarrow> string \<Rightarrow> string option" where
  "deployment_of matched path =
     (if matched \<noteq> ''/deployments/:id'' \<and> \<not> prefix ''/deployments/:id/'' matched then None
      else (case path_part path of Some s \<Rightarrow> if s \<noteq> [] then Some s else None | None \<Rightarrow> None))"

definition bearer :: "string option \<Rightarrow> string option" where
  "bearer header =
     (case header of
        None \<Rightarrow> None
      | Some h \<Rightarrow> (case strip_prefix ''Bearer '' h of None \<Rightarrow> None | Some r \<Rightarrow> if trim r \<noteq> [] then Some (trim r) else None))"

definition ws_query_token :: "(string \<Rightarrow> (string \<times> string) list) \<Rightarrow> string \<Rightarrow> string option \<Rightarrow> string option" where
  "ws_query_token parse_form matched query =
     (if matched \<noteq> ''/deployments/:id/shell'' then None
      else (case query of
              None \<Rightarrow> None
            | Some q \<Rightarrow> (case find (\<lambda>(k, _). k = ''app_token'') (parse_form q) of
                           Some (_, v) \<Rightarrow> if v \<noteq> [] then Some v else None
                         | None \<Rightarrow> None)))"

section \<open>The gate\<close>

text \<open>The header the configured username and password must produce.\<close>

definition dashboard_accepts :: "string \<Rightarrow> string option \<Rightarrow> bool" where
  "dashboard_accepts expected_header header = (case header of None \<Rightarrow> False | Some got \<Rightarrow> ct_eq got expected_header)"

datatype denial =
    NotAdmin
  | NoAdminScope
  | OutOfScope string
  | NoFeed string
  | FleetWide
  | BadSession

datatype verdict = Allow caller | Unauthorized | Forbidden denial

record presented =
  pr_header :: "string option"
  pr_matched :: "string option"
  pr_path :: string
  pr_query :: "string option"
  pr_target_namespace :: "string option"
  pr_federated :: "grant option"

text \<open>The credential that was presented, and the token store with its use noted.\<close>

definition identify :: "(string \<Rightarrow> string) \<Rightarrow> (string \<Rightarrow> (string \<times> string) list) \<Rightarrow> string \<Rightarrow> presented \<Rightarrow> nat \<Rightarrow> token_store \<Rightarrow>
    caller option \<times> token_store" where
  "identify hash parse_form expected_header req now st =
     (if dashboard_accepts expected_header (pr_header req) then (Some Operator, st)
      else
        let raw = (case bearer (pr_header req) of
                     Some r \<Rightarrow> Some r
                   | None \<Rightarrow> ws_query_token parse_form (case pr_matched req of None \<Rightarrow> [] | Some m \<Rightarrow> m) (pr_query req))
        in (case (case raw of None \<Rightarrow> (None, st) | Some r \<Rightarrow> token_verify hash r now st) of
              (Some t, st') \<Rightarrow> (Some (TokenCaller t), st')
            | (None, st') \<Rightarrow> (map_option FederatedCaller (pr_federated req), st')))"

definition route_denial :: "caller \<Rightarrow> presented \<Rightarrow> string \<Rightarrow> denial option" where
  "route_denial c req matched =
     (case deployment_of matched (pr_path req) of
        Some i \<Rightarrow> if \<not> may_touch c i (pr_target_namespace req) then Some (OutOfScope i) else None
      | None \<Rightarrow>
          if matched = ''/feeds/:namespace'' then
            let ns = (case path_part (pr_path req) of Some s \<Rightarrow> s | None \<Rightarrow> []);
                ns' = (case strip_suffix ''.xml'' ns of Some s \<Rightarrow> s | None \<Rightarrow> ns)
            in if \<not> reaches_namespace c ns' then Some (NoFeed ns') else None
          else if matched = ''/deployments'' \<and> confined c then None
          else if is_secret_route matched \<and> confined c then None
          else if is_auth_provider_route matched \<and> confined c then None
          else if is_fleet_namespace_route matched \<and> confined c then None
          else if \<not> narrows_itself matched \<and> \<not> caller_covers_fleet c then Some FleetWide
          else None)"

definition decide_access :: "(string \<Rightarrow> string) \<Rightarrow> (string \<Rightarrow> (string \<times> string) list) \<Rightarrow> string option \<Rightarrow> presented \<Rightarrow> admin_scope \<Rightarrow> nat \<Rightarrow>
    token_store \<Rightarrow> verdict \<times> token_store" where
  "decide_access hash parse_form auth req want now st =
     (case auth of
        None \<Rightarrow> (Allow Ungated, st)
      | Some expected_header \<Rightarrow>
          (case identify hash parse_form expected_header req now st of
             (None, st') \<Rightarrow> (Unauthorized, st')
           | (Some c, st') \<Rightarrow>
               if \<not> satisfies_in c want (pr_target_namespace req)
               then (Forbidden (if want = ScopeAdmin then NotAdmin else NoAdminScope), st')
               else (case pr_matched req of
                       None \<Rightarrow> (Allow c, st')
                     | Some matched \<Rightarrow> (case route_denial c req matched of Some d \<Rightarrow> (Forbidden d, st') | None \<Rightarrow> (Allow c, st')))))"

section \<open>Authorizing a request\<close>

record admin_state =
  ad_auth :: "string option"
  ad_gate_view :: bool
  ad_gate_admin :: bool
  ad_federated :: "federated_auth option"
  ad_tokens :: token_store
  ad_deployments :: "(string \<times> string) list"
  ad_secrets :: secret_store
  ad_secret_file :: "string option"

record admin_request =
  rq_has_authorization :: bool
  rq_authorization :: "string option"
  rq_cookies :: "string list"
  rq_method :: string
  rq_upgrade :: bool
  rq_same_origin :: bool
  rq_accepts_html :: bool
  rq_fetch_dest_empty :: bool
  rq_matched :: "string option"
  rq_path :: string
  rq_query :: "string option"

text \<open>The world outside: digests, the form decoder, and what the account service answers now.\<close>

record admin_env =
  ae_hash :: "string \<Rightarrow> string"
  ae_sha256 :: "string \<Rightarrow> string"
  ae_parse_form :: "string \<Rightarrow> (string \<times> string) list"
  ae_service :: "string \<Rightarrow> envelope option"
  ae_instant :: nat
  ae_now :: nat

datatype gate_reply = Pass caller | RedirectLogin | BearerChallenge | Challenge | Deny denial

definition browser_auth :: "admin_state \<Rightarrow> admin_request \<Rightarrow> unit + string option" where
  "browser_auth st rq =
     (if ad_gate_admin st \<and> ad_federated st \<noteq> None \<and> ad_auth st \<noteq> None
      then session (rq_has_authorization rq) (rq_cookies rq) (rq_method rq) (rq_upgrade rq) (rq_same_origin rq) else Inr None)"

definition target_namespace :: "admin_state \<Rightarrow> admin_request \<Rightarrow> string option" where
  "target_namespace st rq =
     (case rq_matched rq of
        None \<Rightarrow> None
      | Some m \<Rightarrow> (case deployment_of m (rq_path rq) of None \<Rightarrow> None | Some i \<Rightarrow> map_of (ad_deployments st) i))"

text \<open>A foreign bearer is looked up when federation and the gate are on and the local store does not know it.\<close>

definition federated_grant :: "admin_env \<Rightarrow> string option \<Rightarrow> admin_state \<Rightarrow> grant option \<times> admin_state" where
  "federated_grant env header st =
     (case (ad_federated st, ad_auth st, bearer header) of
        (Some fa, Some _, Some raw) \<Rightarrow>
          if prefix LOCAL_TOKEN_PREFIX raw then (None, st)
          else (case token_verify (ae_hash env) raw (ae_now env) (ad_tokens st) of
                  (Some _, tokens) \<Rightarrow> (None, st\<lparr>ad_tokens := tokens\<rparr>)
                | (None, tokens) \<Rightarrow>
                    (case resolve_bearer (ae_sha256 env) (ae_service env) (ae_instant env) raw fa of
                       (g, fa') \<Rightarrow> (g, st\<lparr>ad_tokens := tokens, ad_federated := Some fa'\<rparr>)))
      | _ \<Rightarrow> (None, st))"

definition authorize :: "admin_env \<Rightarrow> admin_request \<Rightarrow> admin_scope \<Rightarrow> admin_state \<Rightarrow> gate_reply \<times> admin_state" where
  "authorize env rq want st =
     (case browser_auth st rq of
        Inl _ \<Rightarrow> (Deny BadSession, st)
      | Inr cookie \<Rightarrow>
          let header = (case rq_authorization rq of Some h \<Rightarrow> Some h | None \<Rightarrow> cookie) in
          (case federated_grant env header st of
             (g, st1) \<Rightarrow>
               (case decide_access (ae_hash env) (ae_parse_form env) (ad_auth st)
                       \<lparr>pr_header = header, pr_matched = rq_matched rq, pr_path = rq_path rq, pr_query = rq_query rq,
                        pr_target_namespace = target_namespace st rq, pr_federated = g\<rparr> want (ae_now env) (ad_tokens st1) of
                  (v, tokens) \<Rightarrow>
                    ((case v of
                        Allow c \<Rightarrow> Pass c
                      | Unauthorized \<Rightarrow>
                          if rq_method rq = ''GET'' \<and> \<not> rq_has_authorization rq \<and> rq_accepts_html rq \<and> ad_gate_admin st \<and> ad_federated st \<noteq> None
                          then RedirectLogin
                          else if rq_fetch_dest_empty rq \<and> ad_gate_admin st \<and> ad_federated st \<noteq> None then BearerChallenge
                          else Challenge
                      | Forbidden d \<Rightarrow> Deny d),
                     st1\<lparr>ad_tokens := tokens\<rparr>))))"

definition require_view_auth :: "admin_env \<Rightarrow> admin_request \<Rightarrow> admin_state \<Rightarrow> gate_reply \<times> admin_state" where
  "require_view_auth env rq st =
     (case authorize env rq ScopeView (if ad_gate_view st then st else st\<lparr>ad_auth := None\<rparr>) of
        (r, st') \<Rightarrow> (r, st'\<lparr>ad_auth := ad_auth st\<rparr>))"

definition require_crud_auth :: "admin_env \<Rightarrow> admin_request \<Rightarrow> admin_state \<Rightarrow> gate_reply \<times> admin_state" where
  "require_crud_auth env rq st = authorize env rq ScopeAdmin st"

definition require_any_credential :: "admin_env \<Rightarrow> admin_request \<Rightarrow> admin_state \<Rightarrow> gate_reply \<times> admin_state" where
  "require_any_credential env rq st = authorize env rq ScopeNone st"

section \<open>The handlers of the secret store\<close>

record secret_query =
  sq_namespace :: "string option"
  sq_force :: bool

definition named_namespace :: "secret_query \<Rightarrow> string option" where
  "named_namespace q = (case sq_namespace q of None \<Rightarrow> None | Some ns \<Rightarrow> if trim ns \<noteq> [] then Some (trim ns) else None)"

definition query_namespace :: "secret_query \<Rightarrow> string" where
  "query_namespace q = (case named_namespace q of Some ns \<Rightarrow> ns | None \<Rightarrow> DEFAULT_NAMESPACE)"

definition may_use_secrets :: "caller option \<Rightarrow> string \<Rightarrow> bool \<Rightarrow> bool" where
  "may_use_secrets who ns admin \<longleftrightarrow>
     (case who of
        None \<Rightarrow> True
      | Some c \<Rightarrow> reaches_namespace c ns \<and> (admin \<longrightarrow> satisfies_in c ScopeAdmin (Some ns)))"

text \<open>\<open>uses\<close> lists the deployments: id, namespace, and the secrets its spec refers to.\<close>

definition secret_users :: "(string \<times> string \<times> string list) list \<Rightarrow> string \<Rightarrow> string \<Rightarrow> string list" where
  "secret_users uses ns i = sort (map fst (filter (\<lambda>(_, n, ids). n = ns \<and> i \<in> set ids) uses))"

datatype secret_reply =
    SummaryReply nat secret_summary
  | SummaryList "secret_summary list"
  | StatusReply nat
  | Panicked

record seal_call =
  sc_lib :: seal_lib
  sc_nonce :: "string option"
  sc_io_ok :: bool

definition secret_summary_in :: "secret_store \<Rightarrow> string \<Rightarrow> string \<Rightarrow> secret_summary option" where
  "secret_summary_in st ns i = map_option (\<lambda>s. secret_summary_of s (st_key st \<noteq> None)) (secret_get st ns i)"

text \<open>Write the file; a failure is a 500 and the store stays as it is.\<close>

definition persist_secrets :: "seal_call \<Rightarrow> secret_reply \<Rightarrow> admin_state \<Rightarrow> secret_reply \<times> admin_state" where
  "persist_secrets call reply st =
     (case secret_persist (sc_lib call) (sc_nonce call) (sc_io_ok call) (ad_secrets st) (ad_secret_file st) of
        (Inl _, f) \<Rightarrow> (StatusReply 500, st\<lparr>ad_secret_file := f\<rparr>)
      | (Inr _, f) \<Rightarrow> (reply, st\<lparr>ad_secret_file := f\<rparr>))"

definition just_stored :: "nat \<Rightarrow> secret_store \<Rightarrow> string \<Rightarrow> string \<Rightarrow> secret_reply" where
  "just_stored code st ns i = (case secret_summary_in st ns i of Some m \<Rightarrow> SummaryReply code m | None \<Rightarrow> Panicked)"

definition store_secret :: "seal_call \<Rightarrow> nat \<Rightarrow> caller option \<Rightarrow> secret_spec \<Rightarrow> admin_state \<Rightarrow> secret_reply \<times> admin_state" where
  "store_secret call now who spec st =
     (case secret_validate spec of
        Inl _ \<Rightarrow> (StatusReply 400, st)
      | Inr _ \<Rightarrow>
          if \<not> may_use_secrets who (ss_namespace spec) True then (StatusReply 403, st)
          else
            let existed = secret_get (ad_secrets st) (ss_namespace spec) (ss_id spec) \<noteq> None;
                secrets = snd (secret_put spec now (ad_secrets st))
            in persist_secrets call (just_stored (if existed then 200 else 201) secrets (ss_namespace spec) (ss_id spec))
                 (st\<lparr>ad_secrets := secrets\<rparr>))"

definition replace_secret :: "seal_call \<Rightarrow> nat \<Rightarrow> caller option \<Rightarrow> string \<Rightarrow> secret_query \<Rightarrow> secret_spec \<Rightarrow> admin_state \<Rightarrow> secret_reply \<times> admin_state" where
  "replace_secret call now who i q spec st =
     store_secret call now who
       (spec\<lparr>ss_id := i, ss_namespace := (if sq_namespace q \<noteq> None then query_namespace q else ss_namespace spec)\<rparr>) st"

definition patch_secret :: "seal_call \<Rightarrow> nat \<Rightarrow> caller option \<Rightarrow> string \<Rightarrow> secret_query \<Rightarrow> (string \<times> string option) list \<Rightarrow> string option \<Rightarrow>
    admin_state \<Rightarrow> secret_reply \<times> admin_state" where
  "patch_secret call now who i q changes description st =
     (let ns = query_namespace q in
      if \<not> may_use_secrets who ns True then (StatusReply 403, st)
      else if secret_get (ad_secrets st) ns i = None then (StatusReply 404, st)
      else (case secret_patch ns i changes now (ad_secrets st) of
              Inl _ \<Rightarrow> (StatusReply 400, st)
            | Inr (updated, secrets) \<Rightarrow>
                let secrets' = (case description of
                                  None \<Rightarrow> secrets
                                | Some d \<Rightarrow> snd (secret_put (updated\<lparr>ss_description := Some d\<rparr>) now secrets))
                in persist_secrets call (just_stored 200 secrets' ns i) (st\<lparr>ad_secrets := secrets'\<rparr>)))"

definition list_secrets :: "caller option \<Rightarrow> secret_query \<Rightarrow> admin_state \<Rightarrow> secret_reply" where
  "list_secrets who q st =
     (case named_namespace q of
        Some ns \<Rightarrow> if \<not> may_use_secrets who ns False then StatusReply 403 else SummaryList (secret_list (ad_secrets st) (Some ns))
      | None \<Rightarrow>
          SummaryList (filter (\<lambda>m. case who of None \<Rightarrow> True | Some c \<Rightarrow> reaches_namespace c (sm_namespace m)) (secret_list (ad_secrets st) None)))"

definition get_secret :: "caller option \<Rightarrow> string \<Rightarrow> secret_query \<Rightarrow> admin_state \<Rightarrow> secret_reply" where
  "get_secret who i q st =
     (let ns = query_namespace q in
      if \<not> may_use_secrets who ns False then StatusReply 403
      else (case secret_summary_in (ad_secrets st) ns i of Some m \<Rightarrow> SummaryReply 200 m | None \<Rightarrow> StatusReply 404))"

definition delete_secret :: "seal_call \<Rightarrow> (string \<times> string \<times> string list) list \<Rightarrow> caller option \<Rightarrow> string \<Rightarrow> secret_query \<Rightarrow> admin_state \<Rightarrow>
    secret_reply \<times> admin_state" where
  "delete_secret call uses who i q st =
     (let ns = query_namespace q in
      if \<not> may_use_secrets who ns True then (StatusReply 403, st)
      else if secret_get (ad_secrets st) ns i = None then (StatusReply 404, st)
      else if secret_users uses ns i \<noteq> [] \<and> \<not> sq_force q then (StatusReply 409, st)
      else persist_secrets call (StatusReply 204) (st\<lparr>ad_secrets := snd (secret_remove ns i (ad_secrets st))\<rparr>))"

section \<open>The secret routes behind the gate\<close>

datatype secret_request =
    PostSecret secret_spec
  | PutSecretAt string secret_query secret_spec
  | PatchSecretAt string secret_query "(string \<times> string option) list" "string option"
  | ListSecrets secret_query
  | GetSecret string secret_query
  | DeleteSecret string secret_query

fun handle_secret :: "seal_call \<Rightarrow> nat \<Rightarrow> (string \<times> string \<times> string list) list \<Rightarrow> caller option \<Rightarrow> secret_request \<Rightarrow> admin_state \<Rightarrow> secret_reply \<times> admin_state" where
  "handle_secret call now uses who (PostSecret spec) st = store_secret call now who spec st"
| "handle_secret call now uses who (PutSecretAt i q spec) st = replace_secret call now who i q spec st"
| "handle_secret call now uses who (PatchSecretAt i q changes d) st = patch_secret call now who i q changes d st"
| "handle_secret call now uses who (ListSecrets q) st = (list_secrets who q st, st)"
| "handle_secret call now uses who (GetSecret i q) st = (get_secret who i q st, st)"
| "handle_secret call now uses who (DeleteSecret i q) st = delete_secret call uses who i q st"

text \<open>With the admin gate off the routes carry no layer, and the handlers see no caller.\<close>

definition serve_secret :: "admin_env \<Rightarrow> seal_call \<Rightarrow> (string \<times> string \<times> string list) list \<Rightarrow> admin_request \<Rightarrow> secret_request \<Rightarrow> admin_state \<Rightarrow>
    (gate_reply + secret_reply) \<times> admin_state" where
  "serve_secret env call uses rq req st =
     (if ad_gate_admin st
      then (case require_crud_auth env rq st of
              (Pass c, st1) \<Rightarrow> (case handle_secret call (ae_now env) uses (Some c) req st1 of (r, st2) \<Rightarrow> (Inr r, st2))
            | (reply, st1) \<Rightarrow> (Inl reply, st1))
      else (case handle_secret call (ae_now env) uses None req st of (r, st2) \<Rightarrow> (Inr r, st2)))"

end
