(* ===== verification/Token_Laws.thy ===== *)
theory Token_Laws
  imports Tokens
begin

text \<open>
  What the handlers of the token store keep (\<open>app-lb/src/tokens.rs\<close>, \<open>app-lb/src/admin.rs\<close>): the
  file and the map agree on what every credential is worth, so a restart changes nothing, and a
  revoked token stays revoked.
\<close>

section \<open>Presenting a credential\<close>

lemma fold_diff:
  "fold (\<lambda>(x, y) diff. or diff (xor (of_char x) (of_char y))) ps (n :: nat) = 0 \<longleftrightarrow> n = 0 \<and> (\<forall>(x, y) \<in> set ps. x = y)"
proof (induction ps arbitrary: n)
  case (Cons p ps)
  have "xor (of_char x) (of_char y) = (0 :: nat) \<longleftrightarrow> x = y" for x y :: char
    by (metis of_char_eq_iff xor_self_eq bit.xor_cancel_left xor.right_neutral xor.left_commute)
  then show ?case by (auto simp: Cons.IH or_eq_0_iff split: prod.splits)
qed simp

lemma ct_eq_iff: "ct_eq a b \<longleftrightarrow> a = b"
proof -
  have "(\<forall>(x, y) \<in> set (zip a b). x = y) \<longleftrightarrow> a = b" if "length a = length b"
    using that by (induction a b rule: list_induct2) auto
  then show ?thesis unfolding ct_eq_def fold_diff by auto
qed

lemma str_find_char: "c \<notin> set a \<Longrightarrow> str_find [c] (a @ c # b) = Some (length a)"
  by (induction a) auto

lemma underscore_not_hex: "\<not> is_hexdigit (CHR ''_'')"
  by (simp add: is_hexdigit_def is_ascii_digit_def byte_def)

lemma split_minted:
  assumes "length rid = ID_LEN" "list_all is_hexdigit rid" "secret \<noteq> []"
  shows "split_presented (TOKEN_PREFIX @ rid @ ''_'' @ secret) = Some (rid, secret)"
proof -
  have "CHR ''_'' \<notin> set rid" using assms(2) underscore_not_hex by (auto simp: list_all_iff)
  then have "str_find ''_'' (rid @ CHR ''_'' # secret) = Some (length rid)" by (rule str_find_char)
  with assms show ?thesis by (simp add: split_presented_def strip_prefix_def Let_def)
qed

section \<open>What a store is worth\<close>

text \<open>A token without the stamps of its use.\<close>

definition worth :: "app_token \<Rightarrow> app_token" where
  "worth t = t\<lparr>at_last_used_at := 0, at_live_last_used := 0\<rparr>"

definition view :: "token_store \<Rightarrow> string \<Rightarrow> app_token option" where
  "view st i = map_option worth (map_of st i)"

definition tokens_ok :: "token_store \<Rightarrow> bool" where
  "tokens_ok st \<longleftrightarrow> distinct (map fst st) \<and> list_all (\<lambda>(i, t). at_id t = i) st"

lemma worth_simps [simp]:
  "worth (touch_token now t) = worth t" "worth (stored t) = worth t" "worth (loaded t) = worth t" "worth (worth t) = worth t"
  "at_id (worth t) = at_id t" "at_hash (worth t) = at_hash t" "expired_at (worth t) now = expired_at t now"
  "at_id (touch_token now t) = at_id t" "at_id (stored t) = at_id t" "at_id (loaded t) = at_id t" "at_id (patched p t) = at_id t"
  by (simp_all add: worth_def touch_token_def stored_def loaded_def expired_at_def patched_def)

lemma worth_hash: "worth t = worth u \<Longrightarrow> at_hash t = at_hash u \<and> expired_at t now = expired_at u now \<and> at_id t = at_id u"
  by (metis worth_simps(5-7))

lemma tokens_ok_put: "tokens_ok st \<Longrightarrow> (\<And>t. v = Some t \<Longrightarrow> at_id t = i) \<Longrightarrow> tokens_ok (put i v st)"
  by (auto simp: tokens_ok_def set_put list_all_iff split: option.splits)

lemma view_put [simp]: "view (put i v st) = (view st)(i := map_option worth v)"
  by (auto simp: view_def)

lemma tokens_ok_get: "tokens_ok st \<Longrightarrow> map_of st i = Some t \<Longrightarrow> at_id t = i"
  by (auto simp: tokens_ok_def list_all_iff dest!: map_of_SomeD)

lemma view_verify:
  "map_option worth (fst (token_verify hash cred now st)) =
     (case split_presented cred of
        None \<Rightarrow> None
      | Some (i, secret) \<Rightarrow> (case view st i of None \<Rightarrow> None | Some t \<Rightarrow> if hash secret \<noteq> at_hash t \<or> expired_at t now then None else Some t))"
  by (auto simp: token_verify_def view_def token_get_def ct_eq_iff split: option.splits)

lemma verify_keeps: "view (snd (token_verify hash cred now st)) = view st"
  by (auto simp: token_verify_def view_def token_get_def split: option.splits)

lemma verify_ok: "tokens_ok st \<Longrightarrow> tokens_ok (snd (token_verify hash cred now st))"
  by (auto simp: token_verify_def token_get_def intro!: tokens_ok_put dest: tokens_ok_get split: option.splits)

section \<open>Sweeping, writing and reading\<close>

lemma map_of_drop_all: "map_of (fold (\<lambda>i m. put i None m) is m) j = (if j \<in> set is then None else map_of m j)"
  by (induction "is" arbitrary: m) auto

lemma tokens_ok_drop_all: "tokens_ok m \<Longrightarrow> tokens_ok (fold (\<lambda>i m. put i None m) is m)"
  by (induction "is" arbitrary: m) (auto intro: tokens_ok_put)

lemma sweep_view:
  assumes "tokens_ok st"
  shows "view (snd (sweep_expired now st)) i = (case view st i of None \<Rightarrow> None | Some t \<Rightarrow> if expired_at t now then None else Some t)"
proof -
  let ?gone = "map (\<lambda>(_, t). at_id t) (filter (\<lambda>(_, t). expired_at t now) st)"
  have "i \<in> set ?gone \<longleftrightarrow> (\<exists>t. map_of st i = Some t \<and> expired_at t now)"
    using assms by (force simp: tokens_ok_def list_all_iff)
  moreover have "map_of (snd (sweep_expired now st)) i = (if i \<in> set ?gone then None else map_of st i)"
    by (cases ?gone) (simp_all add: sweep_expired_def Let_def map_of_drop_all)
  ultimately show ?thesis by (auto simp: view_def split: option.splits)
qed

lemma sweep_ok: "tokens_ok st \<Longrightarrow> tokens_ok (snd (sweep_expired now st))"
  by (simp add: sweep_expired_def Let_def tokens_ok_drop_all)

lemma map_of_load: "map_of (fold (\<lambda>t m. put (at_id t) (Some (loaded t)) m) ts m) i =
  (case map_of (rev (map (\<lambda>t. (at_id t, loaded t)) ts)) i of None \<Rightarrow> map_of m i | Some t \<Rightarrow> Some t)"
  by (induction ts arbitrary: m) (auto simp: map_of_append split: option.splits)

lemma tokens_ok_load: "tokens_ok m \<Longrightarrow> tokens_ok (fold (\<lambda>t m. put (at_id t) (Some (loaded t)) m) ts m)"
proof (induction ts arbitrary: m)
  case (Cons t ts)
  then have "tokens_ok (put (at_id t) (Some (loaded t)) m)" by (intro tokens_ok_put) auto
  from Cons.IH[OF this] show ?case by simp
qed simp

lemma map_of_same:
  assumes "mset xs = mset ys" "distinct (map fst ys)"
  shows "map_of xs = map_of ys"
proof
  fix k
  have "mset (map fst xs) = mset (map fst ys)" using assms(1) by simp
  then have "distinct (map fst xs)" using assms(2) by (metis mset_eq_imp_distinct_iff)
  moreover have "set xs = set ys" using assms(1) by (metis set_mset_mset)
  ultimately have "map_of xs k = Some v \<longleftrightarrow> map_of ys k = Some v" for v using assms(2) by (simp add: map_of_eq_Some_iff)
  then show "map_of xs k = map_of ys k" by (metis option.exhaust)
qed

text \<open>Serde gives back a file without live stamps as it was written.\<close>

definition codec_ok :: "(token_file \<Rightarrow> string option) \<Rightarrow> (string \<Rightarrow> token_file option) \<Rightarrow> bool" where
  "codec_ok to_json of_json \<longleftrightarrow>
     (\<forall>tf js. list_all (\<lambda>t. at_live_last_used t = 0) (tf_tokens tf) \<longrightarrow> to_json tf = Some js \<longrightarrow> of_json js = Some tf)"

definition file_view :: "(string \<Rightarrow> token_file option) \<Rightarrow> string option \<Rightarrow> token_store \<Rightarrow> bool" where
  "file_view of_json f st \<longleftrightarrow> (\<exists>n. load_tokens of_json None f [] = Inr (n, st))"

lemma persisted_view:
  assumes "codec_ok to_json of_json" "tokens_ok st" "persist_tokens_file to_json errs st f = (Inr u, f')"
  shows "\<exists>st'. file_view of_json f' st' \<and> view st' = view st \<and> tokens_ok st'"
proof -
  let ?ts = "sort_key (\<lambda>t. (at_created_at t, at_id t)) (map (\<lambda>(_, t). stored t) st)"
  let ?st = "fold (\<lambda>t m. put (at_id t) (Some (loaded t)) m) ?ts []"
  from assms(3) obtain js where js: "to_json \<lparr>tf_version = 1, tf_tokens = ?ts\<rparr> = Some js" "f' = Some js"
    by (auto simp: persist_tokens_file_def split: option.splits)
  have "list_all (\<lambda>t. at_live_last_used t = 0) ?ts" by (auto simp: list_all_iff stored_def)
  with js(1) assms(1) have "of_json js = Some \<lparr>tf_version = 1, tf_tokens = ?ts\<rparr>" unfolding codec_ok_def by fastforce
  then have load: "file_view of_json f' ?st" by (simp add: file_view_def load_tokens_def js(2) fail_if_def ok_or_def)
  have ids: "map (\<lambda>t. (at_id t, loaded t)) (map (\<lambda>(_, t). stored t) st) = map (\<lambda>(i, t). (i, loaded (stored t))) st"
    using assms(2) by (auto simp: tokens_ok_def list_all_iff)
  have "mset (map (\<lambda>t. (at_id t, loaded t)) ?ts) = mset (map (\<lambda>(i, t). (i, loaded (stored t))) st)"
    unfolding ids[symmetric] by (simp only: mset_map mset_sort)
  moreover have "distinct (map fst (map (\<lambda>(i, t). (i, loaded (stored t))) st))"
    using assms(2) by (simp add: tokens_ok_def comp_def case_prod_unfold)
  ultimately have "map_of (rev (map (\<lambda>t. (at_id t, loaded t)) ?ts)) = map_of (map (\<lambda>(i, t). (i, loaded (stored t))) st)"
    by (intro map_of_same) simp_all
  then have "view ?st = view st"
    by (intro ext) (simp add: view_def map_of_load map_of_map option.map_comp comp_def split: option.splits)
  moreover have "tokens_ok ?st" by (rule tokens_ok_load) (simp add: tokens_ok_def)
  ultimately show ?thesis using load by blast
qed

section \<open>Histories\<close>

datatype token_op =
    MintOp string string new_token "string option list"
  | PatchOp string token_patch "string option list"
  | RevokeOp string "string option list"
  | ListOp "string option list"
  | VerifyOp string
  | RestartOp "string option" "string option list"

fun run_token_op :: "(string \<Rightarrow> string) \<Rightarrow> (token_file \<Rightarrow> string option) \<Rightarrow> (string \<Rightarrow> token_file option) \<Rightarrow> nat \<Rightarrow> token_op \<Rightarrow> token_state \<Rightarrow> token_state" where
  "run_token_op hash to_json of_json now (MintOp rid secret req errs) x = snd (mint_token hash to_json errs rid secret req now x)"
| "run_token_op hash to_json of_json now (PatchOp i p errs) x = snd (patch_token to_json errs i p x)"
| "run_token_op hash to_json of_json now (RevokeOp i errs) x = snd (revoke_token to_json errs i x)"
| "run_token_op hash to_json of_json now (ListOp errs) x = snd (list_tokens to_json errs now x)"
| "run_token_op hash to_json of_json now (VerifyOp cred) x = x\<lparr>tk_store := snd (token_verify hash cred now (tk_store x))\<rparr>"
| "run_token_op hash to_json of_json now (RestartOp err errs) x = (case restart to_json of_json err errs now x of Inl _ \<Rightarrow> x | Inr x' \<Rightarrow> x')"

text \<open>The random id of a new token is not in use.\<close>

fun op_fresh :: "token_op \<Rightarrow> token_state \<Rightarrow> bool" where
  "op_fresh (MintOp rid secret req errs) x \<longleftrightarrow> token_get (tk_store x) rid = None"
| "op_fresh _ x \<longleftrightarrow> True"

inductive token_reach :: "(string \<Rightarrow> string) \<Rightarrow> (token_file \<Rightarrow> string option) \<Rightarrow> (string \<Rightarrow> token_file option) \<Rightarrow> nat \<Rightarrow> token_state \<Rightarrow> bool"
  for hash to_json of_json where
  reach_start: "token_reach hash to_json of_json now \<lparr>tk_store = [], tk_file = None\<rparr>"
| reach_step: "token_reach hash to_json of_json past x \<Longrightarrow> past \<le> now \<Longrightarrow> op_fresh op x \<Longrightarrow>
    token_reach hash to_json of_json now (run_token_op hash to_json of_json now op x)"

section \<open>The map and the file\<close>

definition live :: "nat \<Rightarrow> (string \<Rightarrow> app_token option) \<Rightarrow> string \<Rightarrow> app_token option" where
  "live now m i = (case m i of None \<Rightarrow> None | Some t \<Rightarrow> if expired_at t now then None else Some t)"

lemma expired_later: "expired_at t now \<Longrightarrow> now \<le> later \<Longrightarrow> expired_at t later"
  by (auto simp: expired_at_def split: option.splits)

lemma live_later:
  assumes "live now m = live now n" "now \<le> later"
  shows "live later m = live later n"
proof
  fix i
  have "live later k i = (case live now k i of None \<Rightarrow> None | Some t \<Rightarrow> if expired_at t later then None else Some t)" for k
    using assms(2) by (auto simp: live_def dest: expired_later split: option.splits)
  with assms(1) show "live later m i = live later n i" by simp
qed

lemma verify_live:
  "map_option worth (fst (token_verify hash cred now st)) =
     (case split_presented cred of
        None \<Rightarrow> None
      | Some (i, secret) \<Rightarrow> (case live now (view st) i of None \<Rightarrow> None | Some t \<Rightarrow> if hash secret \<noteq> at_hash t then None else Some t))"
  unfolding view_verify live_def by (auto split: option.splits)

definition agree :: "(string \<Rightarrow> token_file option) \<Rightarrow> nat \<Rightarrow> token_state \<Rightarrow> bool" where
  "agree of_json now x \<longleftrightarrow> tokens_ok (tk_store x) \<and>
     (\<exists>st. file_view of_json (tk_file x) st \<and> tokens_ok st \<and> live now (view (tk_store x)) = live now (view st))"

lemma agree_later: "agree of_json now x \<Longrightarrow> now \<le> later \<Longrightarrow> agree of_json later x"
  unfolding agree_def using live_later by blast

text \<open>A handler that writes the file after its change, and undoes the change if that fails.\<close>

lemma agree_write:
  assumes "codec_ok to_json of_json" "agree of_json now x" "tokens_ok st"
    and "persist_tokens_file to_json errs st (tk_file x) = (r, f)"
    and "r \<noteq> Inr () \<Longrightarrow> tokens_ok st' \<and> live now (view st') = live now (view (tk_store x))"
  shows "agree of_json now \<lparr>tk_store = (case r of Inl _ \<Rightarrow> st' | Inr _ \<Rightarrow> st), tk_file = f\<rparr>"
proof (cases r)
  case (Inl e)
  then have "f = tk_file x" using assms(4) by (auto simp: persist_tokens_file_def split: option.splits)
  with Inl assms(2,5) show ?thesis by (auto simp: agree_def)
next
  case (Inr u)
  with persisted_view[OF assms(1,3)] assms(4) obtain st1 where "file_view of_json f st1" "view st1 = view st" "tokens_ok st1" by blast
  with Inr assms(3) show ?thesis by (auto simp: agree_def)
qed

lemma mint_agree:
  assumes "codec_ok to_json of_json" "agree of_json now x" "token_get (tk_store x) rid = None"
  shows "agree of_json now (snd (mint_token hash to_json errs rid secret req now x))"
proof (cases "mint hash rid secret req now (tk_store x)")
  case (Inl e)
  with assms show ?thesis by (simp add: mint_token_def)
next
  case (Inr y)
  then obtain t sm cred where y: "y = ((sm, cred), put rid (Some t) (tk_store x))" "ts_id sm = rid" "at_id t = rid"
    by (auto simp: mint_def Let_def and_then_Inr_iff summary_def)
  obtain r f where p: "persist_tokens_file to_json errs (put rid (Some t) (tk_store x)) (tk_file x) = (r, f)" by force
  have ok: "tokens_ok (tk_store x)" using assms(2) by (simp add: agree_def)
  have "view (tk_store x) rid = None" using assms(3) by (simp add: view_def token_get_def)
  then have undone: "view (put rid None (put rid (Some t) (tk_store x))) = view (tk_store x)" by (auto simp: fun_upd_def)
  have "tokens_ok (put rid (Some t) (tk_store x))" by (rule tokens_ok_put[OF ok]) (use y in auto)
  from agree_write[OF assms(1,2) this p, of "put rid None (put rid (Some t) (tk_store x))"] tokens_ok_put[OF this, of None] undone
  show ?thesis using Inr y p by (cases r) (auto simp: mint_token_def token_revoke_def)
qed

lemma patch_agree:
  assumes "codec_ok to_json of_json" "agree of_json now x"
  shows "agree of_json now (snd (patch_token to_json errs i p x))"
proof (cases "patch_token_store i p (tk_store x)")
  case (Inl e)
  with assms show ?thesis by (simp add: patch_token_def)
next
  case (Inr y)
  then obtain t sm where y: "y = (sm, put i (Some (patched p t)) (tk_store x))" "map_of (tk_store x) i = Some t"
    by (auto simp: patch_token_store_def and_then_Inr_iff ok_or_Inr_iff token_get_def)
  have ok: "tokens_ok (tk_store x)" using assms(2) by (simp add: agree_def)
  have id: "at_id t = i" by (rule tokens_ok_get[OF ok y(2)])
  obtain r f where q: "persist_tokens_file to_json errs (put i (Some (patched p t)) (tk_store x)) (tk_file x) = (r, f)" by force
  let ?undone = "put i (Some t) (put i (Some (patched p t)) (tk_store x))"
  have "tokens_ok (put i (Some (patched p t)) (tk_store x))" by (rule tokens_ok_put[OF ok]) (use id in auto)
  moreover from this have "tokens_ok ?undone" by (rule tokens_ok_put) (use id in auto)
  moreover have "view ?undone = view (tk_store x)" using y(2) by (auto simp: view_def)
  ultimately show ?thesis
    using agree_write[OF assms _ q, of ?undone] Inr y q id
    by (cases r) (auto simp: patch_token_def rolled_back_def token_restore_def token_get_def)
qed

lemma revoke_agree:
  assumes "codec_ok to_json of_json" "agree of_json now x"
  shows "agree of_json now (snd (revoke_token to_json errs i x))"
proof (cases "map_of (tk_store x) i")
  case None
  with assms show ?thesis by (simp add: revoke_token_def token_revoke_def token_get_def)
next
  case (Some t)
  have ok: "tokens_ok (tk_store x)" using assms(2) by (simp add: agree_def)
  have id: "at_id t = i" by (rule tokens_ok_get[OF ok Some])
  obtain r f where q: "persist_tokens_file to_json errs (put i None (tk_store x)) (tk_file x) = (r, f)" by force
  let ?undone = "put i (Some t) (put i None (tk_store x))"
  have "tokens_ok (put i None (tk_store x))" by (rule tokens_ok_put[OF ok]) auto
  moreover from this have "tokens_ok ?undone" by (rule tokens_ok_put) (use id in auto)
  moreover have "view ?undone = view (tk_store x)" using Some by (auto simp: view_def)
  ultimately show ?thesis
    using agree_write[OF assms _ q, of ?undone] Some q id
    by (cases r) (auto simp: revoke_token_def token_revoke_def rolled_back_def token_restore_def token_get_def)
qed

lemma swept_agree:
  assumes "codec_ok to_json of_json" "agree of_json now x"
  shows "agree of_json now (swept to_json errs now x)"
proof -
  obtain n st where sw: "sweep_expired now (tk_store x) = (n, st)" by force
  have ok: "tokens_ok (tk_store x)" using assms(2) by (simp add: agree_def)
  have st: "tokens_ok st" "live now (view st) = live now (view (tk_store x))"
    using sweep_ok[OF ok, of now] sweep_view[OF ok, of now] sw by (auto simp: live_def fun_eq_iff split: option.splits)
  obtain r f where q: "persist_tokens_file to_json errs st (tk_file x) = (r, f)" by force
  show ?thesis
  proof (cases "n > 0")
    case True
    with agree_write[OF assms st(1) q, of st] st sw q show ?thesis by (cases r) (auto simp: swept_def)
  next
    case False
    with assms(2) st sw show ?thesis by (auto simp: swept_def agree_def)
  qed
qed

lemma restart_swept:
  assumes "agree of_json now x" "restart to_json of_json err errs now x = Inr x'"
  shows "\<exists>y. agree of_json now y \<and> x' = swept to_json errs now y \<and> live now (view (tk_store y)) = live now (view (tk_store x)) \<and>
    tk_file y = tk_file x \<and> file_view of_json (tk_file x) (tk_store y)"
proof -
  from assms(2) obtain n st where st: "load_tokens of_json err (tk_file x) [] = Inr (n, st)" "x' = swept to_json errs now (x\<lparr>tk_store := st\<rparr>)"
    by (auto simp: restart_def and_then_Inr_iff)
  then have f: "file_view of_json (tk_file x) st"
    unfolding file_view_def by (cases "tk_file x"; cases err) (auto simp: load_tokens_def)
  moreover have "tokens_ok st" using st(1)
    by (auto simp: load_tokens_def and_then_Inr_iff tokens_ok_def[of "[]"] intro: tokens_ok_load split: option.splits)
  moreover have "live now (view (tk_store x)) = live now (view st)" using assms(1) f by (auto simp: agree_def file_view_def)
  ultimately show ?thesis using st(2) by (intro exI[of _ "x\<lparr>tk_store := st\<rparr>"]) (auto simp: agree_def)
qed

lemma restart_agree:
  assumes "codec_ok to_json of_json" "agree of_json now x"
  shows "agree of_json now (case restart to_json of_json err errs now x of Inl _ \<Rightarrow> x | Inr x' \<Rightarrow> x')"
proof (cases "restart to_json of_json err errs now x")
  case (Inr x')
  with restart_swept[OF assms(2) Inr] swept_agree[OF assms(1)] show ?thesis by auto
qed (use assms in simp)

lemma op_agree:
  assumes "codec_ok to_json of_json" "agree of_json now x" "op_fresh op x"
  shows "agree of_json now (run_token_op hash to_json of_json now op x)"
proof (cases op)
  case (VerifyOp cred)
  with assms(2) show ?thesis by (auto simp: agree_def verify_keeps verify_ok)
qed (use assms mint_agree patch_agree revoke_agree swept_agree restart_agree in \<open>auto simp: list_tokens_def Let_def\<close>)

lemma token_reach_agree:
  assumes "codec_ok to_json of_json" "token_reach hash to_json of_json now x"
  shows "agree of_json now x"
  using assms(2)
proof (induction rule: token_reach.induct)
  case (reach_start now)
  then show ?case by (auto simp: agree_def tokens_ok_def file_view_def load_tokens_def)
next
  case (reach_step past x now op)
  from agree_later[OF reach_step.IH reach_step.hyps(2)] assms(1) reach_step.hyps(3) show ?case by (intro op_agree)
qed

section \<open>A revoked token\<close>

text \<open>No token of this id in the map or in the file.\<close>

definition gone :: "(string \<Rightarrow> token_file option) \<Rightarrow> string \<Rightarrow> token_state \<Rightarrow> bool" where
  "gone of_json i x \<longleftrightarrow> view (tk_store x) i = None \<and> (\<exists>st. file_view of_json (tk_file x) st \<and> view st i = None)"

fun mints :: "string \<Rightarrow> token_op \<Rightarrow> bool" where
  "mints i (MintOp rid secret req errs) \<longleftrightarrow> rid = i"
| "mints i _ \<longleftrightarrow> False"

lemma gone_write:
  assumes "codec_ok to_json of_json" "gone of_json i x" "tokens_ok st" "view st i = None"
    and "persist_tokens_file to_json errs st (tk_file x) = (r, f)" "view st' i = None"
  shows "gone of_json i \<lparr>tk_store = (case r of Inl _ \<Rightarrow> st' | Inr _ \<Rightarrow> st), tk_file = f\<rparr>"
proof (cases r)
  case (Inl e)
  then have "f = tk_file x" using assms(5) by (auto simp: persist_tokens_file_def split: option.splits)
  with Inl assms(2,6) show ?thesis by (auto simp: gone_def)
next
  case (Inr u)
  with persisted_view[OF assms(1,3)] assms(5) obtain st1 where "file_view of_json f st1" "view st1 = view st" by blast
  with Inr assms(4) show ?thesis by (auto simp: gone_def)
qed

lemma gone_swept:
  assumes "codec_ok to_json of_json" "tokens_ok (tk_store x)" "gone of_json i x"
  shows "gone of_json i (swept to_json errs now x)"
proof -
  obtain n st where sw: "sweep_expired now (tk_store x) = (n, st)" by force
  have st: "tokens_ok st" "view st i = None"
    using sweep_ok[OF assms(2), of now] sweep_view[OF assms(2), of now i] sw assms(3) by (auto simp: gone_def)
  obtain r f where q: "persist_tokens_file to_json errs st (tk_file x) = (r, f)" by force
  from gone_write[OF assms(1,3) st q st(2)] assms(3) st sw q show ?thesis by (cases r) (auto simp: swept_def gone_def)
qed

lemma gone_mint:
  assumes "codec_ok to_json of_json" "tokens_ok (tk_store x)" "gone of_json i x" "rid \<noteq> i"
  shows "gone of_json i (snd (mint_token hash to_json errs rid secret req now x))"
proof (cases "mint hash rid secret req now (tk_store x)")
  case (Inl e)
  with assms show ?thesis by (simp add: mint_token_def)
next
  case (Inr y)
  then obtain t sm cred where y: "y = ((sm, cred), put rid (Some t) (tk_store x))" "ts_id sm = rid" "at_id t = rid"
    by (auto simp: mint_def Let_def and_then_Inr_iff summary_def)
  obtain r f where p: "persist_tokens_file to_json errs (put rid (Some t) (tk_store x)) (tk_file x) = (r, f)" by force
  have "tokens_ok (put rid (Some t) (tk_store x))" by (rule tokens_ok_put[OF assms(2)]) (use y in auto)
  from gone_write[OF assms(1,3) this _ p, of "put rid None (put rid (Some t) (tk_store x))"] assms(3,4)
  show ?thesis using Inr y p by (cases r) (auto simp: mint_token_def token_revoke_def gone_def)
qed

lemma gone_patch:
  assumes "codec_ok to_json of_json" "tokens_ok (tk_store x)" "gone of_json i x"
  shows "gone of_json i (snd (patch_token to_json errs j p x))"
proof (cases "patch_token_store j p (tk_store x)")
  case (Inl e)
  with assms show ?thesis by (simp add: patch_token_def)
next
  case (Inr y)
  then obtain t sm where y: "y = (sm, put j (Some (patched p t)) (tk_store x))" "map_of (tk_store x) j = Some t"
    by (auto simp: patch_token_store_def and_then_Inr_iff ok_or_Inr_iff token_get_def)
  have j: "at_id t = j" by (rule tokens_ok_get[OF assms(2) y(2)])
  have ne: "j \<noteq> i" using y(2) assms(3) by (auto simp: gone_def view_def)
  obtain r f where q: "persist_tokens_file to_json errs (put j (Some (patched p t)) (tk_store x)) (tk_file x) = (r, f)" by force
  have "tokens_ok (put j (Some (patched p t)) (tk_store x))" by (rule tokens_ok_put[OF assms(2)]) (use j in auto)
  from gone_write[OF assms(1,3) this _ q, of "put j (Some t) (put j (Some (patched p t)) (tk_store x))"] assms(3) ne
  show ?thesis using Inr y q j by (cases r) (auto simp: patch_token_def rolled_back_def token_restore_def token_get_def gone_def)
qed

lemma gone_revoke:
  assumes "codec_ok to_json of_json" "tokens_ok (tk_store x)" "gone of_json i x"
  shows "gone of_json i (snd (revoke_token to_json errs j x))"
proof (cases "map_of (tk_store x) j")
  case None
  with assms show ?thesis by (simp add: revoke_token_def token_revoke_def token_get_def)
next
  case (Some t)
  have j: "at_id t = j" by (rule tokens_ok_get[OF assms(2) Some])
  have ne: "j \<noteq> i" using Some assms(3) by (auto simp: gone_def view_def)
  obtain r f where q: "persist_tokens_file to_json errs (put j None (tk_store x)) (tk_file x) = (r, f)" by force
  have "tokens_ok (put j None (tk_store x))" by (rule tokens_ok_put[OF assms(2)]) auto
  from gone_write[OF assms(1,3) this _ q, of "put j (Some t) (put j None (tk_store x))"] assms(3) ne
  show ?thesis using Some q j
    by (cases r) (auto simp: revoke_token_def token_revoke_def rolled_back_def token_restore_def token_get_def gone_def)
qed

lemma gone_restart:
  assumes "codec_ok to_json of_json" "agree of_json now x" "gone of_json i x"
  shows "gone of_json i (case restart to_json of_json err errs now x of Inl _ \<Rightarrow> x | Inr x' \<Rightarrow> x')"
proof (cases "restart to_json of_json err errs now x")
  case (Inr x')
  from restart_swept[OF assms(2) Inr] obtain y where y: "agree of_json now y" "x' = swept to_json errs now y"
    "tk_file y = tk_file x" "file_view of_json (tk_file x) (tk_store y)" by auto
  have "gone of_json i y" using assms(3) y(3,4) by (auto simp: gone_def file_view_def)
  then show ?thesis using Inr y(1,2) assms(1) gone_swept[of to_json of_json y i] by (auto simp: agree_def)
qed (use assms in simp)

lemma op_gone:
  assumes "codec_ok to_json of_json" "agree of_json now x" "gone of_json i x" "\<not> mints i op"
  shows "gone of_json i (run_token_op hash to_json of_json now op x)"
proof -
  have ok: "tokens_ok (tk_store x)" using assms(2) by (simp add: agree_def)
  show ?thesis
  proof (cases op)
    case (VerifyOp cred)
    with assms(3) show ?thesis by (simp add: gone_def verify_keeps)
  qed (use assms ok gone_mint gone_patch gone_revoke gone_swept gone_restart in \<open>auto simp: list_tokens_def Let_def\<close>)
qed

text \<open>What may follow a state while no token of this id is minted.\<close>

inductive token_after :: "(string \<Rightarrow> string) \<Rightarrow> (token_file \<Rightarrow> string option) \<Rightarrow> (string \<Rightarrow> token_file option) \<Rightarrow> string \<Rightarrow> nat \<Rightarrow> token_state \<Rightarrow> nat \<Rightarrow> token_state \<Rightarrow> bool"
  for hash to_json of_json i start x where
  after_now: "token_after hash to_json of_json i start x start x"
| after_step: "token_after hash to_json of_json i start x past y \<Longrightarrow> past \<le> now \<Longrightarrow> op_fresh op y \<Longrightarrow> \<not> mints i op \<Longrightarrow>
    token_after hash to_json of_json i start x now (run_token_op hash to_json of_json now op y)"

lemma token_after_gone:
  assumes "token_after hash to_json of_json i start x now y" "codec_ok to_json of_json" "agree of_json start x" "gone of_json i x"
  shows "agree of_json now y \<and> gone of_json i y"
  using assms(1)
proof (induction rule: token_after.induct)
  case (after_step past y now op)
  then have "agree of_json now y" by (auto intro: agree_later)
  with after_step assms(2) show ?case by (auto intro: op_agree op_gone)
qed (use assms(3,4) in simp)

section \<open>The properties of the token store\<close>

lemma swept_live:
  assumes "tokens_ok (tk_store x)" "now \<le> later"
  shows "live later (view (tk_store (swept to_json errs now x))) = live later (view (tk_store x))"
proof (rule live_later[OF _ assms(2)], rule ext)
  fix i
  show "live now (view (tk_store (swept to_json errs now x))) i = live now (view (tk_store x)) i"
    using sweep_view[OF assms(1), of now i] by (auto simp: swept_def live_def split: prod.splits option.splits)
qed

lemma restart_reads:
  assumes "agree of_json now x"
  shows "\<exists>x'. restart to_json of_json None errs now x = Inr x'"
proof -
  from assms obtain n st where "load_tokens of_json None (tk_file x) [] = Inr (n, st)" by (auto simp: agree_def file_view_def)
  then show ?thesis by (simp add: restart_def)
qed

lemma verify_same:
  assumes "live now (view st) = live now (view st')"
  shows "map_option worth (fst (token_verify hash cred now st)) = map_option worth (fst (token_verify hash cred now st'))"
  unfolding verify_live assms by (rule refl)

text \<open>
  C5. After any history of minting, patching, revoking, listing, using and restarting, with writes of the
  file that fail at any point, a restart reads the file and every credential is worth exactly what it was
  worth before: it proves a token with the same name, scope, namespace, deployments and expiry, or
  nothing, as before.
\<close>

theorem restart_transparent:
  assumes "codec_ok to_json of_json" "token_reach hash to_json of_json past x" "past \<le> now" "now \<le> later"
  shows "\<exists>x'. restart to_json of_json None errs now x = Inr x' \<and>
    (\<forall>cred. map_option worth (fst (token_verify hash cred later (tk_store x'))) =
            map_option worth (fst (token_verify hash cred later (tk_store x))))"
proof -
  from token_reach_agree[OF assms(1,2)] assms(3) have x: "agree of_json now x" by (rule agree_later)
  from restart_reads[OF x] obtain x' where x': "restart to_json of_json None errs now x = Inr x'" by blast
  from restart_swept[OF x x'] obtain y where y: "tokens_ok (tk_store y)" "x' = swept to_json errs now y"
    "live now (view (tk_store y)) = live now (view (tk_store x))" by (auto simp: agree_def)
  have "live later (view (tk_store x')) = live later (view (tk_store x))"
    using swept_live[OF y(1) assms(4)] live_later[OF y(3) assms(4)] y(2) by simp
  with x' verify_same show ?thesis by blast
qed

text \<open>A codec for two files, one with the token of a deployer and one that is empty.\<close>

definition sample_req :: new_token where
  "sample_req = \<lparr>nt_name = '' ci '', nt_admin = ScopeAdmin, nt_namespace = Some ''prod'', nt_deployments = [], nt_expires_in_secs = Some 60\<rparr>"

definition sample_token :: app_token where
  "sample_token = \<lparr>at_id = ''0123456789ab'', at_name = ''ci'', at_admin = ScopeAdmin, at_namespace = Some ''prod'', at_deployments = [],
     at_created_at = 7, at_expires_at = Some 67, at_hash = ''k3y'', at_last_used_at = 0, at_live_last_used = 0\<rparr>"

definition sample_files :: "(token_file \<times> string) list" where
  "sample_files = [(\<lparr>tf_version = 1, tf_tokens = []\<rparr>, ''empty''), (\<lparr>tf_version = 1, tf_tokens = [sample_token]\<rparr>, ''one'')]"

definition sample_parse :: "string \<Rightarrow> token_file option" where
  "sample_parse = map_of (map (\<lambda>(tf, js). (js, tf)) sample_files)"

definition sample_state :: token_state where
  "sample_state = \<lparr>tk_store = [(''0123456789ab'', sample_token)], tk_file = Some ''one''\<rparr>"

lemma sample_minted:
  "mint_token id (map_of sample_files) [None] ''0123456789ab'' ''k3y'' sample_req 7 \<lparr>tk_store = [], tk_file = None\<rparr> =
     (Minted (summary sample_token) ''applb_0123456789ab_k3y'', sample_state)"
proof -
  have "trim '' ci '' = ''ci''" "validate_name ''ci'' = Inr ()" "validate_namespace (Some ''prod'') = Inr ()" "validate_scope [] = Inr ()" by code_simp+
  moreover have "u64_sat_add 7 60 = 67" by (simp add: u64_sat_add_def u64_max_def)
  ultimately have "mint id ''0123456789ab'' ''k3y'' sample_req 7 [] =
      Inr ((summary sample_token, ''applb_0123456789ab_k3y''), [(''0123456789ab'', sample_token)])"
    by (simp add: mint_def sample_req_def sample_token_def TOKEN_PREFIX_def put_def Let_def)
  moreover have "persist_tokens_file (map_of sample_files) [None] [(''0123456789ab'', sample_token)] None = (Inr (), Some ''one'')" by code_simp
  ultimately show ?thesis by (simp add: mint_token_def sample_state_def)
qed

lemma sample_codec: "codec_ok (map_of sample_files) sample_parse"
  by (auto simp: codec_ok_def sample_files_def sample_parse_def sample_token_def split: if_splits)

lemma sample_reach: "token_reach id (map_of sample_files) sample_parse 7 sample_state"
proof -
  have "op_fresh (MintOp ''0123456789ab'' ''k3y'' sample_req [None]) \<lparr>tk_store = [], tk_file = None\<rparr>" by (simp add: token_get_def)
  from reach_step[OF reach_start[of _ _ _ 0] _ this, of 7 id "map_of sample_files" sample_parse] show ?thesis by (simp add: sample_minted)
qed

theorem restart_transparent_witness:
  "tk_file sample_state = Some ''one'' \<and>
   (\<exists>x'. restart (map_of sample_files) sample_parse None [] 9 sample_state = Inr x' \<and>
     (\<forall>cred. map_option worth (fst (token_verify id cred 20 (tk_store x'))) =
             map_option worth (fst (token_verify id cred 20 (tk_store sample_state)))))"
proof
  show "tk_file sample_state = Some ''one''" by code_simp
qed (rule restart_transparent[OF sample_codec sample_reach], simp_all)

text \<open>
  C6. Once revoking a token has been answered with success, no credential of its id is accepted again,
  whatever is minted under other ids, patched, revoked, listed, used or restarted afterwards and
  whichever writes of the file fail.
\<close>

theorem revoked_stays_revoked:
  assumes "codec_ok to_json of_json" "token_reach hash to_json of_json now x" "revoke_token to_json errs i x = (NoContent, x')"
    and "token_after hash to_json of_json i now x' later y" "split_presented cred = Some (i, secret)"
  shows "fst (token_verify hash cred later (tk_store y)) = None"
proof -
  have x: "agree of_json now x" by (rule token_reach_agree[OF assms(1,2)])
  then have ok: "tokens_ok (put i None (tk_store x))" by (auto simp: agree_def intro: tokens_ok_put)
  from assms(3) obtain f u where f: "persist_tokens_file to_json errs (put i None (tk_store x)) (tk_file x) = (Inr u, f)"
    "x' = \<lparr>tk_store = put i None (tk_store x), tk_file = f\<rparr>"
    by (auto simp: revoke_token_def token_revoke_def split: sum.splits prod.splits bool.splits)
  from persisted_view[OF assms(1) ok f(1)] have "gone of_json i x'" by (auto simp: gone_def f(2))
  moreover have "agree of_json now x'" using revoke_agree[OF assms(1) x, of errs i] assms(3) by simp
  ultimately have "gone of_json i y" using token_after_gone[OF assms(4,1)] by blast
  then have "map_option worth (fst (token_verify hash cred later (tk_store y))) = None"
    unfolding view_verify assms(5) by (simp add: gone_def)
  then show ?thesis by simp
qed

theorem revoked_stays_revoked_witness:
  "fst (token_verify id ''applb_0123456789ab_k3y'' 8 (tk_store sample_state)) \<noteq> None \<and>
   (let x = snd (revoke_token (map_of sample_files) [] ''0123456789ab'' sample_state);
        y = snd (list_tokens (map_of sample_files) [] 9 x)
    in fst (token_verify id ''applb_0123456789ab_k3y'' 9 (tk_store y)) = None)"
proof
  show "fst (token_verify id ''applb_0123456789ab_k3y'' 8 (tk_store sample_state)) \<noteq> None" by code_simp
  let ?x = "snd (revoke_token (map_of sample_files) [] ''0123456789ab'' sample_state)"
  have "fst (revoke_token (map_of sample_files) [] ''0123456789ab'' sample_state) = NoContent" by code_simp
  then have r: "revoke_token (map_of sample_files) [] ''0123456789ab'' sample_state = (NoContent, ?x)" by (metis prod.collapse)
  have s: "split_presented ''applb_0123456789ab_k3y'' = Some (''0123456789ab'', ''k3y'')" by code_simp
  have l: "op_fresh (ListOp []) ?x" "\<not> mints ''0123456789ab'' (ListOp [])" by simp_all
  show "let x = ?x; y = snd (list_tokens (map_of sample_files) [] 9 x)
    in fst (token_verify id ''applb_0123456789ab_k3y'' 9 (tk_store y)) = None"
    using revoked_stays_revoked[OF sample_codec sample_reach r after_step[OF after_now _ l] s, of 9] by (simp add: Let_def)
qed

text \<open>
  C27. A mint answered with a credential leaves a store in which that credential proves, until the expiry
  asked for, a token with the trimmed name and the scope, namespace and deployments of the request;
  from the expiry on it proves nothing, and what every credential of another id proves is unchanged.
\<close>

theorem minted_credential_works:
  assumes "length rid = ID_LEN" "list_all is_hexdigit rid" "secret \<noteq> []"
    and "mint_token hash to_json errs rid secret req now x = (Minted sm cred, x')"
  shows "map_option summary (fst (token_verify hash cred later (tk_store x'))) =
      (if (case nt_expires_in_secs req of None \<Rightarrow> False | Some s \<Rightarrow> u64_sat_add now s \<le> later) then None
       else Some (sm\<lparr>ts_last_used_at := (if later = 0 then None else Some later)\<rparr>)) \<and>
    ts_name sm = trim (nt_name req) \<and> ts_admin sm = nt_admin req \<and> ts_namespace sm = nt_namespace req \<and> ts_deployments sm = nt_deployments req \<and>
    (\<forall>other. map_option fst (split_presented other) \<noteq> Some rid \<longrightarrow>
       fst (token_verify hash other later (tk_store x')) = fst (token_verify hash other later (tk_store x)))"
proof -
  define t where "t = \<lparr>at_id = rid, at_name = trim (nt_name req), at_admin = nt_admin req, at_namespace = nt_namespace req,
    at_deployments = nt_deployments req, at_created_at = now, at_expires_at = map_option (u64_sat_add now) (nt_expires_in_secs req),
    at_hash = hash secret, at_last_used_at = 0, at_live_last_used = 0\<rparr>"
  from assms(4) have x': "tk_store x' = put rid (Some t) (tk_store x)" and sm: "sm = summary t" and cred: "cred = TOKEN_PREFIX @ rid @ ''_'' @ secret"
    by (auto simp: mint_token_def mint_def Let_def and_then_Inr_iff t_def split: sum.splits prod.splits)
  have "fst (token_verify hash cred later (tk_store x')) = (if expired_at t later then None else Some (touch_token later t))"
    unfolding token_verify_def cred split_minted[OF assms(1-3)] x' by (simp add: token_get_def ct_eq_iff t_def)
  moreover have "summary (touch_token later t) = sm\<lparr>ts_last_used_at := (if later = 0 then None else Some later)\<rparr>"
    by (simp add: sm summary_def touch_token_def last_used_def t_def)
  moreover have "expired_at t later \<longleftrightarrow> (case nt_expires_in_secs req of None \<Rightarrow> False | Some s \<Rightarrow> u64_sat_add now s \<le> later)"
    by (simp add: expired_at_def t_def split: option.splits)
  moreover have "fst (token_verify hash other later (tk_store x')) = fst (token_verify hash other later (tk_store x))"
    if "map_option fst (split_presented other) \<noteq> Some rid" for other
    using that by (auto simp: token_verify_def x' token_get_def split: option.splits)
  moreover have "ts_name sm = trim (nt_name req) \<and> ts_admin sm = nt_admin req \<and> ts_namespace sm = nt_namespace req \<and> ts_deployments sm = nt_deployments req"
    by (simp add: sm summary_def t_def)
  ultimately show ?thesis by auto
qed

theorem minted_credential_works_witness:
  "map_option summary (fst (token_verify id ''applb_0123456789ab_k3y'' 66 (tk_store sample_state))) =
     Some ((summary sample_token)\<lparr>ts_last_used_at := Some 66\<rparr>) \<and>
   map_option summary (fst (token_verify id ''applb_0123456789ab_k3y'' 67 (tk_store sample_state))) = None"
proof -
  have h: "length ''0123456789ab'' = ID_LEN" "list_all is_hexdigit ''0123456789ab''" "''k3y'' \<noteq> []" by code_simp+
  have "u64_sat_add 7 60 = 67" "nt_expires_in_secs sample_req = Some 60" by (simp_all add: u64_sat_add_def u64_max_def sample_req_def)
  then show ?thesis
    using minted_credential_works[OF h sample_minted, of 66, THEN conjunct1] minted_credential_works[OF h sample_minted, of 67, THEN conjunct1]
    by (simp del: option.map_disc_iff)
qed

end
