(* ===== verification/Admin_Laws.thy ===== *)
theory Admin_Laws
  imports Admin_Gate Token_Laws
begin

text \<open>
  What the admin gate and the secret handlers guarantee (\<open>app-lb/src/admin.rs\<close>): a caller behind a
  namespace wall stays behind it, on the routes of a deployment and on those of the secret store.
\<close>

section \<open>Secrets\<close>

text \<open>The data of a spec in a body is a \<open>BTreeMap\<close>.\<close>

fun request_ok :: "secret_request \<Rightarrow> bool" where
  "request_ok (PostSecret spec) \<longleftrightarrow> btree_ok (ss_data spec)"
| "request_ok (PutSecretAt i q spec) \<longleftrightarrow> btree_ok (ss_data spec)"
| "request_ok _ \<longleftrightarrow> True"

fun reply_namespaces :: "secret_reply \<Rightarrow> string list" where
  "reply_namespaces (SummaryReply _ m) = [sm_namespace m]"
| "reply_namespaces (SummaryList ms) = map sm_namespace ms"
| "reply_namespaces _ = []"

text \<open>A handler leaves a good store, changes secrets only where it may, and shows only what it may.\<close>

definition handled_well :: "caller option \<Rightarrow> admin_state \<Rightarrow> secret_reply \<times> admin_state \<Rightarrow> bool" where
  "handled_well who st out \<longleftrightarrow>
     store_ok (ad_secrets (snd out)) \<and> fst out \<noteq> Panicked \<and>
     (\<forall>ns i. secret_get (ad_secrets (snd out)) ns i \<noteq> secret_get (ad_secrets st) ns i \<longrightarrow> may_use_secrets who ns True) \<and>
     (\<forall>ns \<in> set (reply_namespaces (fst out)). may_use_secrets who ns False)"

lemma may_use_weaker: "may_use_secrets who ns True \<Longrightarrow> may_use_secrets who ns False"
  by (auto simp: may_use_secrets_def split: option.splits)

lemma handled_refused: "store_ok (ad_secrets st) \<Longrightarrow> handled_well who st (StatusReply code, st)"
  by (simp add: handled_well_def)

lemma handled_persist:
  assumes "store_ok secrets" "may_use_secrets who ns True" "\<And>ns' i. ns' \<noteq> ns \<Longrightarrow> secret_get secrets ns' i = secret_get (ad_secrets st) ns' i"
    and "reply \<noteq> Panicked" "set (reply_namespaces reply) \<subseteq> {ns}"
  shows "handled_well who st (persist_secrets call reply (st\<lparr>ad_secrets := secrets\<rparr>))"
proof -
  have "may_use_secrets who ns' True" if "secret_get secrets ns' i \<noteq> secret_get (ad_secrets st) ns' i" for ns' i
    using assms(2) assms(3)[of ns' i] that by (cases "ns' = ns") auto
  then show ?thesis using assms(1,4,5) may_use_weaker[OF assms(2)]
    by (auto simp: persist_secrets_def handled_well_def split: sum.splits prod.splits)
qed

lemma just_stored_reply:
  assumes "store_ok st" "secret_get st ns i = Some s"
  shows "just_stored code st ns i \<noteq> Panicked \<and> set (reply_namespaces (just_stored code st ns i)) \<subseteq> {ns}"
  using secret_get_own[OF assms] assms(2) by (simp add: just_stored_def secret_summary_in_def secret_summary_of_def)

lemma store_secret_handled:
  assumes "store_ok (ad_secrets st)" "btree_ok (ss_data spec)"
  shows "handled_well who st (store_secret call now who spec st)"
proof (cases "secret_validate spec")
  case (Inr u)
  then have ok: "secret_ok spec" using assms(2) by (simp add: secret_ok_def)
  let ?s = "snd (secret_put spec now (ad_secrets st))"
  have s: "store_ok ?s" by (rule secret_put_ok[OF assms(1) ok])
  have "secret_get ?s (ss_namespace spec) (ss_id spec) = Some (spec\<lparr>ss_updated_at := now\<rparr>)" by (simp add: secret_put_get[OF ok])
  note r = just_stored_reply[OF s this]
  show ?thesis
  proof (cases "may_use_secrets who (ss_namespace spec) True")
    case True
    have "secret_get ?s ns' i = secret_get (ad_secrets st) ns' i" if "ns' \<noteq> ss_namespace spec" for ns' i
      using that by (simp add: secret_put_get[OF ok])
    from handled_persist[OF s True this] r True Inr show ?thesis by (simp add: store_secret_def Let_def)
  qed (use Inr assms handled_refused in \<open>simp add: store_secret_def\<close>)
qed (use assms handled_refused in \<open>simp add: store_secret_def\<close>)

lemma patch_secret_handled:
  assumes "store_ok (ad_secrets st)"
  shows "handled_well who st (patch_secret call now who i q changes d st)"
proof -
  let ?ns = "query_namespace q"
  show ?thesis
  proof (cases "may_use_secrets who ?ns True \<and> secret_get (ad_secrets st) ?ns i \<noteq> None \<and> \<not> isl (secret_patch ?ns i changes now (ad_secrets st))")
    case False
    then have "\<exists>code. patch_secret call now who i q changes d st = (StatusReply code, st)"
      by (cases "secret_patch ?ns i changes now (ad_secrets st)") (simp_all add: patch_secret_def Let_def)
    then show ?thesis using assms handled_refused by auto
  next
    case True
    then obtain s' secrets where patched: "may_use_secrets who ?ns True" "secret_patch ?ns i changes now (ad_secrets st) = Inr (s', secrets)"
      "secret_get (ad_secrets st) ?ns i \<noteq> None" by (cases "secret_patch ?ns i changes now (ad_secrets st)") auto
    from secret_patch_cases[OF assms patched(2)] obtain s where s: "secret_ok s" "ss_namespace s = ?ns" "ss_id s = i"
      "(s', secrets) = secret_put s now (ad_secrets st)" by blast
    then have s': "s' = s\<lparr>ss_updated_at := now\<rparr>" "secrets = snd (secret_put s now (ad_secrets st))" by (simp_all add: secret_put_def Let_def)
    have ok: "store_ok secrets" unfolding s'(2) by (rule secret_put_ok[OF assms s(1)])
    let ?t = "\<lambda>d. s'\<lparr>ss_description := Some d\<rparr>"
    have t: "secret_ok (?t d)" for d using s(1) s' by (simp add: secret_ok_def secret_validate_iff)
    let ?final = "case d of None \<Rightarrow> secrets | Some d \<Rightarrow> snd (secret_put (?t d) now secrets)"
    have fin: "store_ok ?final" using ok secret_put_ok[OF ok t] by (simp split: option.splits)
    have one: "secret_get secrets ns' j = (if ns' = ?ns \<and> j = i then Some s' else secret_get (ad_secrets st) ns' j)" for ns' j
      using secret_put_get[OF s(1), of now "ad_secrets st" ns' j] s(2,3) unfolding s'(2) s'(1) by simp
    have two: "secret_get (snd (secret_put (?t e) now secrets)) ns' j = (if ns' = ?ns \<and> j = i then Some (?t e\<lparr>ss_updated_at := now\<rparr>) else secret_get secrets ns' j)"
      for e ns' j using secret_put_get[OF t[of e], of now secrets ns' j] s(2,3) s'(1) by simp
    have "secret_get ?final ?ns i \<noteq> None" "\<And>ns' j. ns' \<noteq> ?ns \<Longrightarrow> secret_get ?final ns' j = secret_get (ad_secrets st) ns' j"
      by (auto simp: one two split: option.splits)
    with handled_persist[OF fin patched(1)] just_stored_reply[OF fin, of ?ns i] patched show ?thesis
      by (auto simp: patch_secret_def Let_def)
  qed
qed

lemma list_secrets_handled:
  assumes "store_ok (ad_secrets st)"
  shows "handled_well who st (list_secrets who q st, st)"
proof -
  have "sm_namespace ` set (secret_list (ad_secrets st) (Some ns)) \<subseteq> {ns}" for ns
    by (auto simp: secret_list_def secret_summary_of_def)
  then show ?thesis using assms
    by (fastforce simp: handled_well_def list_secrets_def may_use_secrets_def split: option.splits)
qed

lemma get_secret_handled:
  assumes "store_ok (ad_secrets st)"
  shows "handled_well who st (get_secret who i q st, st)"
  using assms secret_get_own[OF assms]
  by (auto simp: handled_well_def get_secret_def Let_def secret_summary_in_def secret_summary_of_def split: option.splits)

lemma delete_secret_handled:
  assumes "store_ok (ad_secrets st)"
  shows "handled_well who st (delete_secret call uses who i q st)"
proof -
  let ?ns = "query_namespace q"
  have "store_ok (snd (secret_remove ?ns i (ad_secrets st)))" using secrets.keeps[OF assms, of "RemoveSecret ?ns i"] by simp
  with handled_persist[of "snd (secret_remove ?ns i (ad_secrets st))" who ?ns st "StatusReply 204" call] secret_remove_get[OF assms]
  show ?thesis using assms handled_refused by (auto simp: delete_secret_def Let_def)
qed

lemma handle_secret_handled:
  assumes "store_ok (ad_secrets st)" "request_ok req"
  shows "handled_well who st (handle_secret call now uses who req st)"
  using assms
  by (cases req) (simp_all add: store_secret_handled patch_secret_handled list_secrets_handled get_secret_handled delete_secret_handled replace_secret_def)

section \<open>Who passes the gate\<close>

definition gate_header :: "admin_request \<Rightarrow> admin_state \<Rightarrow> string option" where
  "gate_header rq st =
     (case rq_authorization rq of Some h \<Rightarrow> Some h | None \<Rightarrow> (case browser_auth st rq of Inl _ \<Rightarrow> None | Inr cookie \<Rightarrow> cookie))"

definition gate_credential :: "admin_env \<Rightarrow> admin_request \<Rightarrow> admin_state \<Rightarrow> string option" where
  "gate_credential env rq st =
     (case bearer (gate_header rq st) of
        Some r \<Rightarrow> Some r
      | None \<Rightarrow> ws_query_token (ae_parse_form env) (case rq_matched rq of None \<Rightarrow> [] | Some m \<Rightarrow> m) (rq_query rq))"

definition gate_presented :: "admin_request \<Rightarrow> admin_state \<Rightarrow> grant option \<Rightarrow> presented" where
  "gate_presented rq st g =
     \<lparr>pr_header = gate_header rq st, pr_matched = rq_matched rq, pr_path = rq_path rq, pr_query = rq_query rq,
      pr_target_namespace = target_namespace st rq, pr_federated = g\<rparr>"

lemma federated_grant_keeps:
  "view (ad_tokens (snd (federated_grant env header st))) = view (ad_tokens st)"
  "ad_secrets (snd (federated_grant env header st)) = ad_secrets st"
  using verify_keeps[of "ae_hash env" _ "ae_now env" "ad_tokens st"]
  by (auto simp: federated_grant_def split: option.splits prod.splits) (metis snd_conv)+

lemma authorize_secrets: "ad_secrets (snd (authorize env rq want st)) = ad_secrets st"
proof (cases "browser_auth st rq")
  case (Inr cookie)
  let ?h = "case rq_authorization rq of Some h \<Rightarrow> Some h | None \<Rightarrow> cookie"
  have "ad_secrets (snd (federated_grant env ?h st)) = ad_secrets st" by (rule federated_grant_keeps(2))
  then show ?thesis using Inr by (simp add: authorize_def Let_def case_prod_beta)
qed (simp add: authorize_def)

lemma identify_token:
  assumes "fst (identify hash parse_form expected req now tokens) = Some (TokenCaller t)"
  shows "\<exists>cred. (case bearer (pr_header req) of Some r \<Rightarrow> Some r
      | None \<Rightarrow> ws_query_token parse_form (case pr_matched req of None \<Rightarrow> [] | Some m \<Rightarrow> m) (pr_query req)) = Some cred \<and>
    fst (token_verify hash cred now tokens) = Some t"
  using assms by (auto simp: identify_def Let_def split: if_splits prod.splits option.splits)

lemma pass_decided:
  assumes "fst (authorize env rq want st) = Pass c" "ad_auth st = Some expected"
  obtains g tokens where "view tokens = view (ad_tokens st)" "g = fst (federated_grant env (gate_header rq st) st)"
    "fst (identify (ae_hash env) (ae_parse_form env) expected (gate_presented rq st g) (ae_now env) tokens) = Some c"
    "satisfies_in c want (target_namespace st rq)"
    "\<And>m. rq_matched rq = Some m \<Longrightarrow> route_denial c (gate_presented rq st g) m = None"
proof -
  from assms(1) obtain cookie where cookie: "browser_auth st rq = Inr cookie" by (cases "browser_auth st rq") (auto simp: authorize_def)
  then have h: "gate_header rq st = (case rq_authorization rq of Some h \<Rightarrow> Some h | None \<Rightarrow> cookie)" by (simp add: gate_header_def split: option.splits)
  obtain g st1 where g: "federated_grant env (gate_header rq st) st = (g, st1)" by force
  have "fst (decide_access (ae_hash env) (ae_parse_form env) (Some expected) (gate_presented rq st g) want (ae_now env) (ad_tokens st1)) = Allow c"
    using assms cookie g[unfolded h]
    by (auto simp: authorize_def Let_def gate_presented_def h split: prod.splits verdict.splits if_splits)
  then have "fst (identify (ae_hash env) (ae_parse_form env) expected (gate_presented rq st g) (ae_now env) (ad_tokens st1)) = Some c"
    "satisfies_in c want (target_namespace st rq)" "\<And>m. rq_matched rq = Some m \<Longrightarrow> route_denial c (gate_presented rq st g) m = None"
    by (auto simp: decide_access_def gate_presented_def split: prod.splits option.splits if_splits)
  moreover have "view (ad_tokens st1) = view (ad_tokens st)" using federated_grant_keeps(1)[of env "gate_header rq st" st] g by simp
  ultimately show ?thesis using g by (intro that) simp_all
qed

section \<open>A small installation\<close>

text \<open>One token, of an admin of \<open>prod\<close>, and a request that carries it.\<close>

definition demo_env :: admin_env where
  "demo_env = \<lparr>ae_hash = id, ae_sha256 = id, ae_parse_form = (\<lambda>_. []), ae_service = (\<lambda>_. None), ae_instant = 0, ae_now = 9\<rparr>"

definition demo_admin :: "(string \<times> string) list \<Rightarrow> admin_state" where
  "demo_admin deps = \<lparr>ad_auth = Some ''Basic x'', ad_gate_view = True, ad_gate_admin = True, ad_federated = None,
     ad_tokens = [(''0123456789ab'', sample_token)], ad_deployments = deps, ad_secrets = secret_store_new None, ad_secret_file = None\<rparr>"

definition demo_request :: "string \<Rightarrow> string \<Rightarrow> admin_request" where
  "demo_request matched path = \<lparr>rq_has_authorization = True, rq_authorization = Some ''Bearer applb_0123456789ab_k3y'', rq_cookies = [],
     rq_method = ''POST'', rq_upgrade = False, rq_same_origin = False, rq_accepts_html = False, rq_fetch_dest_empty = False,
     rq_matched = Some matched, rq_path = path, rq_query = None\<rparr>"

definition demo_call :: seal_call where
  "demo_call = \<lparr>sc_lib = numbered_lib, sc_nonce = None, sc_io_ok = True\<rparr>"

definition demo_spec :: secret_spec where
  "demo_spec = \<lparr>ss_id = ''git'', ss_namespace = ''prod'', ss_description = None, ss_data = [(''k'', ''v'')], ss_updated_at = 0\<rparr>"

text \<open>
  C7. Behind the admin gate a request about secrets changes only secrets of namespaces in which the
  authorized caller is an admin, replies only with summaries from namespaces it reaches, keeps the
  store well-formed, and never panics, whether or not the file could be written.
\<close>

theorem secrets_walled:
  assumes "ad_gate_admin st" "store_ok (ad_secrets st)" "request_ok req"
    and "serve_secret env call uses rq req st = (out, st')"
  shows "store_ok (ad_secrets st') \<and> out \<noteq> Inr Panicked \<and>
    (\<forall>ns i. secret_get (ad_secrets st') ns i \<noteq> secret_get (ad_secrets st) ns i \<longrightarrow>
       (\<exists>c. fst (authorize env rq ScopeAdmin st) = Pass c \<and> reaches_namespace c ns \<and> satisfies_in c ScopeAdmin (Some ns))) \<and>
    (case out of
       Inl _ \<Rightarrow> True
     | Inr r \<Rightarrow> \<exists>c. fst (authorize env rq ScopeAdmin st) = Pass c \<and> list_all (reaches_namespace c) (reply_namespaces r))"
proof -
  obtain a st1 where a: "authorize env rq ScopeAdmin st = (a, st1)" by force
  have s1: "ad_secrets st1 = ad_secrets st" using authorize_secrets[of env rq ScopeAdmin st] a by simp
  show ?thesis
  proof (cases "\<exists>c. a = Pass c")
    case True
    then obtain c where c: "a = Pass c" by blast
    obtain r st2 where r: "handle_secret call (ae_now env) uses (Some c) req st1 = (r, st2)" by force
    have out: "out = Inr r" "st' = st2" using assms(1,4) a c r by (auto simp: serve_secret_def require_crud_auth_def)
    have "handled_well (Some c) st1 (r, st2)"
      using handle_secret_handled[of st1 req "Some c" call "ae_now env" uses] assms(2,3) s1 r by simp
    then show ?thesis using a c out s1 by (auto simp: handled_well_def may_use_secrets_def list_all_iff)
  next
    case False
    then have "out = Inl a" "st' = st1" using assms(1,4) a by (cases a; auto simp: serve_secret_def require_crud_auth_def)+
    then show ?thesis using s1 assms(2) by simp
  qed
qed

theorem secrets_walled_witness:
  "case serve_secret demo_env demo_call [] (demo_request ''/secrets'' ''/secrets'') (PostSecret demo_spec) (demo_admin []) of
     (out, st') \<Rightarrow> (case out of Inl _ \<Rightarrow> False | Inr r \<Rightarrow> reply_namespaces r = [''prod'']) \<and>
       store_ok (ad_secrets st') \<and> out \<noteq> Inr Panicked \<and>
       (\<exists>c. fst (authorize demo_env (demo_request ''/secrets'' ''/secrets'') ScopeAdmin (demo_admin [])) = Pass c \<and> reaches_namespace c ''prod'')"
proof -
  let ?o = "serve_secret demo_env demo_call [] (demo_request ''/secrets'' ''/secrets'') (PostSecret demo_spec) (demo_admin [])"
  have h: "ad_gate_admin (demo_admin [])" "store_ok (ad_secrets (demo_admin []))" "request_ok (PostSecret demo_spec)"
    by (simp_all add: demo_admin_def secret_store_new_ok demo_spec_def btree_ok_def)
  obtain out st' where o: "?o = (out, st')" by force
  have "case fst ?o of Inl _ \<Rightarrow> False | Inr r \<Rightarrow> reply_namespaces r = [''prod'']" by code_simp
  with secrets_walled[OF h o] o show ?thesis by (auto split: sum.splits)
qed

section \<open>The wall on deployment routes\<close>

definition unescaped :: "string \<Rightarrow> bool" where
  "unescaped s \<longleftrightarrow> CHR ''%'' \<notin> set s"

text \<open>Scopes as minting and patching leave them.\<close>

definition tokens_scoped :: "token_store \<Rightarrow> bool" where
  "tokens_scoped st \<longleftrightarrow> list_all (\<lambda>(_, t). validate_scope (at_deployments t) = Inr ()) st"

lemma scope_unescaped:
  assumes "validate_scope ds = Inr ()" "d \<in> set ds"
  shows "unescaped d"
proof -
  have "\<not> scope_byte (CHR ''%'')" by (simp add: scope_byte_def ascii_defs)
  moreover have "d = ''*'' \<or> list_all scope_byte d" using assms by (auto simp: validate_scope_def split: if_splits)
  ultimately show ?thesis by (auto simp: unescaped_def list_all_iff)
qed

lemma worth_fields [simp]:
  "at_admin (worth t) = at_admin t" "at_namespace (worth t) = at_namespace t" "at_deployments (worth t) = at_deployments t"
  by (simp_all add: worth_def)

lemma verified_stored:
  assumes "view tokens = view st" "fst (token_verify hash cred now tokens) = Some t"
  shows "\<exists>i secret u. split_presented cred = Some (i, secret) \<and> map_of st i = Some u \<and> worth u = worth t \<and>
    hash secret = at_hash u \<and> \<not> expired_at u now"
proof -
  have "map_option worth (fst (token_verify hash cred now tokens)) = Some (worth t)" using assms(2) by simp
  then obtain i secret v where v: "split_presented cred = Some (i, secret)" "view st i = Some v" "hash secret = at_hash v"
    "\<not> expired_at v now" "v = worth t"
    unfolding view_verify assms(1) by (auto split: option.splits if_splits)
  then obtain u where "map_of st i = Some u" "worth u = worth t" by (auto simp: view_def)
  with v worth_hash[of u t now] show ?thesis by auto
qed

lemma route_may_touch:
  "route_denial c (gate_presented rq st g) m = None \<Longrightarrow> deployment_of m (rq_path rq) = Some raw \<Longrightarrow>
     may_touch c raw (target_namespace st rq)"
  by (auto simp: route_denial_def gate_presented_def split: if_splits)

lemma target_of:
  "rq_matched rq = Some m \<Longrightarrow> deployment_of m (rq_path rq) = Some raw \<Longrightarrow> target_namespace st rq = map_of (ad_deployments st) raw"
  by (simp add: target_namespace_def)

lemma touch_unescaped:
  assumes "may_touch c raw (map_of deps raw)" "\<not> caller_covers_fleet c" "list_all (\<lambda>(i, _). unescaped i) deps"
    and "\<And>t. c = TokenCaller t \<Longrightarrow> validate_scope (at_deployments t) = Inr ()"
  shows "unescaped raw"
proof (cases "map_of deps raw")
  case (Some ns)
  with assms(3) show ?thesis by (auto simp: list_all_iff dest!: map_of_SomeD)
next
  case None
  with assms(1,2) obtain t where "c = TokenCaller t" "raw \<in> set (at_deployments t)"
    by (cases c) (auto simp: allows_def list_ex_iff token_covers_fleet_def split: option.splits)
  with assms(4) scope_unescaped show ?thesis by blast
qed

text \<open>
  C4. On a route about a deployment, a caller that does not cover the fleet passes the gate only as the
  holder of an unexpired token of the store or of a grant, with the tier the route asks for; and
  provided no deployment id contains a percent sign, the id the handler decodes from the path is the
  id the gate looked up, so a confined caller acts only on a deployment of a namespace of its own.
\<close>

theorem gate_wall:
  assumes "fst (authorize env rq want st) = Pass c" "\<not> caller_covers_fleet c"
    and "rq_matched rq = Some m" "deployment_of m (rq_path rq) = Some raw"
    and "list_all (\<lambda>(i, _). unescaped i) (ad_deployments st)" "tokens_scoped (ad_tokens st)"
    and "\<And>s. unescaped s \<Longrightarrow> decode s = s"
  shows "case c of
      TokenCaller t \<Rightarrow>
        (\<exists>cred i secret u. gate_credential env rq st = Some cred \<and> split_presented cred = Some (i, secret) \<and>
           map_of (ad_tokens st) i = Some u \<and> worth u = worth t \<and> ae_hash env secret = at_hash u \<and> \<not> expired_at u (ae_now env)) \<and>
        satisfies (at_admin t) want \<and>
        (case at_namespace t of
           None \<Rightarrow> decode raw \<in> set (at_deployments t)
         | Some ns \<Rightarrow> map_of (ad_deployments st) (decode raw) = Some ns \<and> (at_deployments t = [] \<or> allows t (decode raw)))
    | FederatedCaller g \<Rightarrow>
        fst (federated_grant env (gate_header rq st) st) = Some g \<and>
        (\<exists>ns s. map_of (ad_deployments st) (decode raw) = Some ns \<and> map_of (gr_namespaces g) ns = Some s \<and> satisfies s want)
    | _ \<Rightarrow> False"
proof -
  obtain expected where auth: "ad_auth st = Some expected"
    using assms(1,2) by (cases "ad_auth st") (auto simp: authorize_def Let_def decide_access_def split: sum.splits prod.splits)
  from pass_decided[OF assms(1) auth] obtain g tokens where v: "view tokens = view (ad_tokens st)" and g: "g = fst (federated_grant env (gate_header rq st) st)"
    and who: "fst (identify (ae_hash env) (ae_parse_form env) expected (gate_presented rq st g) (ae_now env) tokens) = Some c"
    and tier: "satisfies_in c want (target_namespace st rq)"
    and route: "route_denial c (gate_presented rq st g) m = None" using assms(3) by metis
  note target = target_of[OF assms(3,4), of st]
  have touch: "may_touch c raw (map_of (ad_deployments st) raw)" using route_may_touch[OF route assms(4)] target by simp
  have held: "\<exists>cred i secret u. gate_credential env rq st = Some cred \<and> split_presented cred = Some (i, secret) \<and>
      map_of (ad_tokens st) i = Some u \<and> worth u = worth t \<and> ae_hash env secret = at_hash u \<and> \<not> expired_at u (ae_now env)" if "c = TokenCaller t" for t
  proof -
    from identify_token[OF who[unfolded that]] obtain cred where "gate_credential env rq st = Some cred"
      "fst (token_verify (ae_hash env) cred (ae_now env) tokens) = Some t" by (auto simp: gate_credential_def gate_presented_def cong: option.case_cong)
    with verified_stored[OF v] show ?thesis by blast
  qed
  have "validate_scope (at_deployments t) = Inr ()" if "c = TokenCaller t" for t
  proof -
    from held[OF that] obtain i u where u: "map_of (ad_tokens st) i = Some u" "worth u = worth t" by blast
    have "validate_scope (at_deployments u) = Inr ()" using map_of_SomeD[OF u(1)] assms(6) by (auto simp: tokens_scoped_def list_all_iff)
    then show ?thesis using u(2) worth_fields(3) by metis
  qed
  then have "unescaped raw" by (rule touch_unescaped[OF touch assms(2,5)])
  then have d: "decode raw = raw" by (rule assms(7))
  show ?thesis
  proof (cases c)
    case (TokenCaller t)
    then show ?thesis using held[OF TokenCaller] touch tier assms(2)
      by (auto simp: d satisfies_in_def token_admits_def allows_def list_ex_iff token_covers_fleet_def split: option.splits)
  next
    case (FederatedCaller h)
    then have "fst (federated_grant env (gate_header rq st) st) = Some h"
      using who g by (auto simp: identify_def Let_def gate_presented_def split: if_splits prod.splits option.splits)
    with FederatedCaller show ?thesis using touch tier assms(2) target by (auto simp: d satisfies_in_def split: option.splits)
  qed (use assms(2) in auto)
qed

theorem gate_wall_witness:
  "fst (authorize demo_env (demo_request ''/deployments/:id/exec'' ''/deployments/web/exec'') ScopeAdmin (demo_admin [(''web'', ''prod'')])) =
     Pass (TokenCaller (touch_token 9 sample_token)) \<and>
   satisfies (at_admin (touch_token 9 sample_token)) ScopeAdmin \<and> map_of [(''web'', ''prod'')] (id ''web'') = Some ''prod''"
proof -
  let ?rq = "demo_request ''/deployments/:id/exec'' ''/deployments/web/exec''" and ?st = "demo_admin [(''web'', ''prod'')]"
    and ?c = "TokenCaller (touch_token 9 sample_token)"
  have a: "fst (authorize demo_env ?rq ScopeAdmin ?st) = Pass ?c" "\<not> caller_covers_fleet ?c" "rq_matched ?rq = Some ''/deployments/:id/exec''"
    "deployment_of ''/deployments/:id/exec'' (rq_path ?rq) = Some ''web''" "list_all (\<lambda>(i, _). unescaped i) (ad_deployments ?st)"
    "tokens_scoped (ad_tokens ?st)" by code_simp+
  have "id s = s" for s :: string by simp
  from gate_wall[OF a this] a(1) show ?thesis by (simp add: sample_token_def touch_token_def demo_admin_def)
qed

text \<open>
  The hypothesis on the ids is needed, and registering a deployment checks only that its id is not blank: with a
  deployment of its own whose id is the escaped spelling of another's, a confined token passes the
  gate for a path that decodes to the other's id.
\<close>

lemma encoded_id_passes:
  "fst (authorize demo_env (demo_request ''/deployments/:id'' ''/deployments/%76ictim'') ScopeAdmin
      (demo_admin [(''%76ictim'', ''prod''), (''victim'', ''other'')])) = Pass (TokenCaller (touch_token 9 sample_token)) \<and>
   \<not> may_touch (TokenCaller (touch_token 9 sample_token)) ''victim'' (map_of [(''%76ictim'', ''prod''), (''victim'', ''other'')] ''victim'')"
  by code_simp

end
