(* ===== verification/Spec2Isabelle.thy ===== *)
theory Spec2Isabelle
  imports Plan Guard Secret_File Request_Laws Forwarding Artifact_History Admin_Laws
begin

text \<open>
  \<^bold>\<open>A verification development for heyo-public.\<close>

  The repository is a platform for running workloads in micro VMs. Three of its programs carry
  most of the decision logic and are modelled here: \<open>ci\<close>, the CI orchestrator, which turns a workflow
  file into an ordered plan of jobs; \<open>app-lb\<close>, the load balancer and autoscaler, which routes requests
  to deployments and keeps their pools; and \<open>artifacts\<close>, the content-addressed store of disk images.

  \<^bold>\<open>The CI orchestrator.\<close> A submit is filtered by branch and changed paths, the workflow file is
  parsed and validated, each job's matrix is expanded into cells, and the cells are ordered. Text in
  a workflow may hold expressions that are substituted.
    \<^item> \<open>Paths\<close> (\<open>ci/src/paths.rs\<close>): the changed paths of a submit and the pattern matcher. The
      matcher's loop is a function with a measure on the star it may resume at and the input left; it
      decides an inductive relation on patterns.
    \<^item> \<open>Json_Value\<close>: the values of \<open>serde_json\<close> and \<open>serde_yaml\<close> and the binary64 operations of the
      standard library the evaluator uses. Printing and parsing by the serde crates is the argument
      \<open>json_ops\<close> of the definitions that call it.
    \<^item> \<open>Cycle_Search\<close> and \<open>Workflow\<close> (\<open>ci/src/workflow.rs\<close>, \<open>VmSpec\<close> of \<open>ci/src/vm.rs\<close>): targets,
      jobs, the submit filter, parsing from YAML, validation with the depth-first search for a cycle.
      The search's fuel is one more than the number of jobs: each nested call marks a job.
    \<^item> \<open>Expr\<close> (\<open>ci/src/expr.rs\<close>): tokenizer, recursive-descent evaluator and substitution. The fuel
      is one more than the number of tokens: every nested call consumes one.
    \<^item> \<open>Plan\<close> (\<open>ci/src/plan.rs\<close> and the two plan validators it calls): matrix expansion, keys, checks
      on cells, ordering.

  \<^bold>\<open>The load balancer.\<close> A request passes the guard, is routed to a deployment by the index kept in
  the registry, and takes a slot on a backend of its pool. Operators, the discovery client and the
  autoscaler change deployments through the registry.
    \<^item> \<open>Ip_Addr\<close>, \<open>Hit_Series\<close>, \<open>Guard\<close> (\<open>app-lb/src/guard.rs\<close>): client prefixes, the ring of
      per-minute counters, the rules and the verdict on a request. The SHA-256 digest is an argument.
    \<^item> \<open>Route_Index\<close>, \<open>Route\<close> (\<open>app-lb/src/registry.rs\<close>, \<open>RouteRule\<close> of \<open>app-lb/src/config.rs\<close>): the
      contract of a route index as a locale, and the two-part index with its incremental update,
      which interprets it.
    \<^item> \<open>Secrets\<close>, \<open>Secret_File\<close> (\<open>app-lb/src/secrets.rs\<close>): the secret store as a locale of histories,
      references across the wall between namespaces, and the sealed file. Ciphers, digests and serde
      are fields of an argument, with what the code relies on as the hypothesis \<open>lib_faithful\<close>.
    \<^item> \<open>Backend\<close>, \<open>Deployment\<close> (\<open>app-lb/src/deployment.rs\<close>, the spec of \<open>app-lb/src/config.rs\<close>): backends in
      an arena, so that sharing between pools, requests and withdrawn generations is explicit;
      admission, drains, selection, replica counts, boot backoff. The \<open>url\<close> crate's parser is an argument.
    \<^item> \<open>Gateway\<close> (\<open>app-lb/src/gateway.rs\<close>): the authenticated hop between gateways. The \<open>http\<close> crate's
      header map is an argument, with the laws \<open>header_laws\<close>.
    \<^item> \<open>Regional\<close>, \<open>Regional_Laws\<close> (\<open>app-lb/src/regional.rs\<close>): the regional router: snapshots,
      generations, weighted admission, assignments and their counters, probes. The counters are a
      locale \<open>ledger\<close>, interpreted on the router; histories are runs of operations. The operations
      themselves are those under a sound lock, and their histories end at a panic; the \<open>locked_\<close>
      variants add the lock that a panic poisons, and their histories go on.
    \<^item> \<open>Registry\<close> (\<open>app-lb/src/registry.rs\<close>): the deployments with their index; replacement, update,
      removal, withdrawal of discovered backends, the retirement freeze; a step relation over them. It
      leaves out the autoscaler's changes to managed pools, the publication of a staged deployment, the
      commit of a handoff and the discovery client's replacement of a regional router's local pool.
    \<^item> \<open>Request\<close>, \<open>Request_Laws\<close>, \<open>Forwarding\<close> (\<open>app-lb/src/request_control.rs\<close>): a request's state from
      admission to completion. Selection awaits several times, so it is a machine whose steps are the
      code between two awaits; a system interleaves many requests with the registry and the routers.
      The fuel of a selection is three rounds per backend of the pool and three more, which is shown
      to be enough. Forwarding is what the next gateway gets to see.
    \<^item> \<open>Tokens\<close>, \<open>Token_Laws\<close> (\<open>app-lb/src/tokens.rs\<close>, the token handlers of \<open>app-lb/src/admin.rs\<close>): the
      load balancer's own credentials, their file and the start-up that reads it. Digests, random
      bytes and serde are arguments, with \<open>codec_ok\<close> for what the code relies on; a write of the file
      takes its errors from a list. In a history the random id of a new token is not in use, and
      operations follow one another, although the code takes no lock here.
    \<^item> \<open>Federated\<close> (\<open>app-lb/src/federated.rs\<close>, the session of \<open>app-lb/src/admin_login.rs\<close>): grants of the
      account service, which is an argument that may change over time, and the cache of its answers.
      Instants do not overflow, although a huge configured time to live could make them.
    \<^item> \<open>Admin_Gate\<close>, \<open>Admin_Laws\<close> (\<open>app-lb/src/admin.rs\<close>): callers, routes, the gate and the handlers of
      the secret store behind it. The decoding of path segments by the router is the argument \<open>decode\<close>
      of the theorem that needs it.

  \<^bold>\<open>The artifact store.\<close> Blobs are files named by the digest of what they read as, sealed read-only and
  handed out as hard links; manifests group them, tags name them, and a collector removes what no tag
  reaches, no link outside holds and is not young.
    \<^item> \<open>Sparse_File\<close> (\<open>artifacts/src/sys/sparse.rs\<close>): files with holes and the copies that keep or make
      them. A system call takes its answer, an error or how much it moves, from a script, so every
      theorem is about every behaviour of the kernel; a run that has used up its script is \<open>None\<close>, and
      each theorem says how many successes are enough. Allocation is per byte, and a grain of zero,
      with which the scan for zeros never ends, is excluded by a hypothesis.
    \<^item> \<open>Artifact_Names\<close> (\<open>digest.rs\<close>, \<open>tags.rs\<close>, \<open>manifest.rs\<close>, \<open>labels.rs\<close>): names and their checks.
      SHA-256 and serde's JSON are arguments.
    \<^item> \<open>Artifact_Store\<close> (\<open>store.rs\<close>, \<open>sys/tmpfile.rs\<close>, \<open>sys/space.rs\<close>): a disk of names and inodes and every
      operation of the store on it, with its failures. A call on a name that is taken answers that it
      is; \<open>stat\<close> of a file that is there and \<open>statfs\<close> do not fail; temporary files are anonymous, so the
      fallback to named ones, whose blobs have a second link for a moment, is not there, and those of an
      unfinished write are not names of the disk; the umask is ignored; a reader that has ended stays
      ended.
    \<^item> \<open>Artifact_Gc\<close> (\<open>gc.rs\<close>): mark and sweep. Which files can be read while marking is an argument.
    \<^item> \<open>Stream_Write\<close>, \<open>Artifact_Laws\<close>, \<open>Artifact_Runs\<close>, \<open>Artifact_Sweep\<close>, \<open>Artifact_Collect\<close>,
      \<open>Artifact_History\<close>: a logic of outcomes and costs, the invariant of the disk as a relation of
      elementary changes, the collector against a reference, and histories, in which processes of the
      same user also write, create, link and remove files outside; the histories are a locale
      interpreted on the store.

  \<^bold>\<open>What is shown.\<close> For every component the behaviour on all branches against a reference: the
  validator accepts exactly the well-formed workflows, the evaluator computes the reference semantics
  of the expression grammar and terminates, the plan respects every need, the index after any change
  is the one a rebuild gives and routing picks a most specific rule, the guard's verdict is independent
  of rule order, the ids of rules are digests of unambiguous bytes, the ring counts what the log counts. State invariants hold in every reachable guard
  and registry; a withdrawn backend never serves again; drains and load survive a replacement. However
  requests interleave, slots and assignments are accounted exactly; a selection ends; a request one
  region's router hands to another is judged there by the same generation; regions are chosen by weight,
  up to the bias of a remainder; a router panics only on an address in its snapshot. Secrets stay within their
  namespace and are read back as they were written. A credential works from its minting to its expiry
  or revocation and never after, and a restart changes nothing about it, whichever writes fail; an
  answer of the account service is used no longer than it lives; a caller confined to namespaces
  passes the gate only for deployments there, provided no deployment id contains a percent sign, and
  changes secrets only where it is an admin. A blob is inserted whole or not at all and always
  reads as its digest says, whatever the owner of a materialization writes; a collection removes and
  reports exactly what a reference says, a dry run reports the same, and what a tag leads to survives
  every history that leaves the tag alone, as long as collections can read the tag and its manifest.

  \<^bold>\<open>How time, concurrency and errors appear.\<close> Clocks and random revisions are arguments. Each
  operation runs under the lock the code takes, so histories are sequences of operations. Errors are
  values of a sum, with the data that decides the message; a panic is \<open>None\<close>.

  \<^bold>\<open>Not modelled.\<close> Network and file I/O, the HTTP proxy itself, VM drivers, persistence beyond file
  names, the guard's rules, the secrets and the tokens, the sign-in gate
  of deployments, the admin handlers of deployments, jobs, disks and plugins, dispatch and storage of runs, and the other programs of the repository
  (Postgres service, orchestrator, queue, secret service, user interfaces). Of the artifact store its
  HTTP service, command line and image import, in-place hole punching, the lock file and a crash in the
  middle of an operation. Of a deployment's
  spec only the fields the modelled code reads are present.
\<close>

section \<open>Properties that span components\<close>

text \<open>
  From file to plan: a workflow that parses never fails to be ordered, and its plan has distinct
  keys and runs no job before a job it needs.
\<close>

theorem parsed_workflow_plans:
  "case workflow_parse S path y of
     Inl _ \<Rightarrow> True
   | Inr w \<Rightarrow> (case plan_build J w of
        Inl e \<Rightarrow> (\<forall>ns. e \<noteq> Unsatisfiable ns)
      | Inr p \<Rightarrow> distinct (map jp_key (plan_jobs p)) \<and> in_order {} (plan_jobs p))"
proof -
  have "case plan_build J w of
        Inl e \<Rightarrow> (\<forall>ns. e \<noteq> Unsatisfiable ns)
      | Inr p \<Rightarrow> distinct (map jp_key (plan_jobs p)) \<and> in_order {} (plan_jobs p)"
    if "workflow_parse S path y = Inr w" for w
  proof -
    have ok: "workflow_ok w" using workflow_parse_ok[OF that] by simp
    show ?thesis
      using plan_build_satisfiable[OF ok, of J] plan_build_keys[OF ok, of J] topological_order_sound
      by (auto split: sum.splits elim: plan_build_cases)
  qed
  then show ?thesis by (auto split: sum.splits)
qed

end
